(* ===== verification/Prelude.thy ===== *)
theory Prelude
  imports Main "HOL-Library.Word"
begin

text \<open>
  Shared vocabulary of the development.

  \<^item> Machine types of \<^verbatim>\<open>types.h\<close>: \<open>uint\<close>, \<open>ushort\<close>, \<open>uchar\<close> are words of their width, so
    that \<open>+\<close>, \<open>-\<close> and \<open>*\<close> wrap around; a C \<open>int\<close> is an \<open>int\<close> whose arithmetic is wrapped by
    \<open>i32\<close> (two's complement, 32 bits) wherever an overflow is possible.
  \<^item> Outcomes: a kernel routine either returns (\<open>Ok\<close>), stops the machine (\<open>Panic\<close>), cannot go on
    because another CPU holds a spin lock (\<open>Spin\<close>), puts its process to sleep before it is done
    (\<open>Asleep\<close>), or does something the hardware refuses or C leaves undefined (\<open>Fault\<close>: a division
    by zero, an access outside an array, a page fault in the kernel).
  \<^item> Loops that scan a table for the first entry with a property (\<open>first_idx\<close>), sums over the
    table, single-entry table updates (\<open>upd\<close>).
\<close>

unbundle bit_operations_syntax

named_theorems outcome_simps
named_theorems frame_simps

section \<open>Machine types\<close>

type_synonym uint = "32 word"
type_synonym ushort = "16 word"
type_synonym uchar = "8 word"

definition i32 :: "int \<Rightarrow> int" where
  "i32 x = signed_take_bit 31 x"

lemma i32_id [simp]: "- (2 ^ 31) \<le> x \<Longrightarrow> x < 2 ^ 31 \<Longrightarrow> i32 x = x"
  by (simp add: i32_def signed_take_bit_int_eq_self)

lemma i32_range: "- (2 ^ 31) \<le> i32 x \<and> i32 x < 2 ^ 31"
  unfolding i32_def
  using signed_take_bit_int_greater_eq_minus_exp [of 31 x] signed_take_bit_int_less_exp [of 31 x]
  by simp

lemma unat32_less: "unat (x :: uint) < 2 ^ 32"
  using unsigned_less [of x, where 'a = nat] by simp

section \<open>Outcomes of kernel routines\<close>

datatype 'a res = Ok 'a | Panic string | Spin | Asleep | Fault

primrec bindr :: "'a res \<Rightarrow> ('a \<Rightarrow> 'b res) \<Rightarrow> 'b res" where
  "bindr (Ok x) f = f x"
| "bindr (Panic m) f = Panic m"
| "bindr Spin f = Spin"
| "bindr Asleep f = Asleep"
| "bindr Fault f = Fault"

lemma bindr_eq_Ok [outcome_simps]: "bindr m f = Ok y \<longleftrightarrow> (\<exists>x. m = Ok x \<and> f x = Ok y)"
  by (cases m) auto

lemma bindr_eq_Fault [outcome_simps]:
  "bindr m f = Fault \<longleftrightarrow> m = Fault \<or> (\<exists>x. m = Ok x \<and> f x = Fault)"
  by (cases m) auto

lemma bindr_assoc: "bindr (bindr m f) g = bindr m (\<lambda>x. bindr (f x) g)"
  by (cases m) auto

lemma bindr_cong [fundef_cong]:
  "m = m' \<Longrightarrow> (\<And>x. m' = Ok x \<Longrightarrow> f x = g x) \<Longrightarrow> bindr m f = bindr m' g"
  by (cases m') auto

text \<open>\<open>returns r P\<close>: the routine comes back, and its result satisfies \<open>P\<close>.\<close>

definition returns :: "'a res \<Rightarrow> ('a \<Rightarrow> bool) \<Rightarrow> bool" where
  "returns r P \<longleftrightarrow> (\<exists>x. r = Ok x \<and> P x)"

lemma returns_Ok [simp]: "returns (Ok x) P \<longleftrightarrow> P x"
  by (simp add: returns_def)

lemma returns_bindr: "returns m (\<lambda>x. returns (f x) P) \<Longrightarrow> returns (bindr m f) P"
  by (auto simp: returns_def)

lemma returns_mono: "returns m P \<Longrightarrow> (\<And>x. P x \<Longrightarrow> Q x) \<Longrightarrow> returns m Q"
  by (auto simp: returns_def)

section \<open>Scans over tables\<close>

fun first_idx :: "('a \<Rightarrow> bool) \<Rightarrow> 'a list \<Rightarrow> nat option" where
  "first_idx P [] = None"
| "first_idx P (x # xs) = (if P x then Some 0 else map_option Suc (first_idx P xs))"

lemma first_idx_None: "first_idx P xs = None \<longleftrightarrow> (\<forall>x \<in> set xs. \<not> P x)"
  by (induction xs) auto

lemma first_idx_Some:
  "first_idx P xs = Some i \<longleftrightarrow> i < length xs \<and> P (xs ! i) \<and> (\<forall>j < i. \<not> P (xs ! j))"
proof (induction xs arbitrary: i)
  case Nil
  then show ?case by simp
next
  case (Cons x xs)
  show ?case
    by (cases i) (auto simp: Cons.IH less_Suc_eq_0_disj)
qed

lemma first_idx_SomeD:
  "first_idx P xs = Some i \<Longrightarrow> i < length xs \<and> P (xs ! i)"
  by (simp add: first_idx_Some)

lemma first_idx_exists: "(\<exists>i. first_idx P xs = Some i) \<longleftrightarrow> (\<exists>x \<in> set xs. P x)"
  using first_idx_None [of P xs] by (cases "first_idx P xs") auto

text \<open>Writing one entry of a table through a pointer.\<close>

definition upd :: "nat \<Rightarrow> ('a \<Rightarrow> 'a) \<Rightarrow> 'a list \<Rightarrow> 'a list" where
  "upd i f xs = xs[i := f (xs ! i)]"

lemma length_upd [simp]: "length (upd i f xs) = length xs"
  by (simp add: upd_def)

lemma nth_upd: "j < length xs \<Longrightarrow> upd i f xs ! j = (if i = j then f (xs ! j) else xs ! j)"
  by (auto simp: upd_def nth_list_update)

lemma nth_upd_same [simp]: "i < length xs \<Longrightarrow> upd i f xs ! i = f (xs ! i)"
  by (simp add: upd_def)

lemma nth_upd_other [simp]: "i \<noteq> j \<Longrightarrow> upd i f xs ! j = xs ! j"
  by (simp add: upd_def)

lemma upd_upd [simp]: "upd i f (upd i g xs) = upd i (\<lambda>x. f (g x)) xs"
  by (cases "i < length xs") (auto simp: upd_def list_update_beyond)

lemma map_upd_fld: "(\<And>x. g (f x) = g x) \<Longrightarrow> map g (upd i f xs) = map g xs"
  by (cases "i < length xs") (auto simp: upd_def map_update list_update_beyond list_update_same_conv)

end
