(* ===== verification/Rand.thy ===== *)
theory Rand
  imports Prelude
begin

text \<open>
  \<^verbatim>\<open>rand.c\<close>: the pseudo-random numbers of the lottery. A 16-bit linear feedback shift register is
  loaded from a static seed, shifted \<open>limit\<close> times (at least once), and reduced modulo \<open>limit\<close>.
  The seed is incremented at every call. The final reduction is a machine division: for a
  \<open>limit\<close> of zero it traps.
\<close>

section \<open>The generator\<close>

definition START_STATE :: ushort where
  "START_STATE = 0xACE1"

text \<open>One round of the loop body: the tap bits, then the shift. \<open>bit\<close> is a \<open>ushort\<close>, so its upper
  bits are kept until \<open>bit << 15\<close> is cut back to 16 bits.\<close>

definition lfsr_step :: "ushort \<Rightarrow> ushort" where
  "lfsr_step lfsr =
     (let bit = lfsr XOR drop_bit 2 lfsr XOR drop_bit 3 lfsr XOR drop_bit 5 lfsr
      in drop_bit 1 lfsr OR push_bit 15 bit)"

text \<open>The do-while loop: the body runs before the test, \<open>i\<close> is a \<open>ushort\<close>.\<close>

function lfsr_loop :: "ushort \<Rightarrow> ushort \<Rightarrow> ushort \<Rightarrow> ushort" where
  "lfsr_loop limit i lfsr =
     (let lfsr = lfsr_step lfsr; i = i + 1
      in if i < limit then lfsr_loop limit i lfsr else lfsr)"
  by pat_completeness auto
termination
proof (relation "measure (\<lambda>(limit, i, lfsr). unat (limit - 1 - i))")
  fix limit i lfsr :: ushort and x xa
  assume xa: "xa = i + 1" "xa < limit"
  have "1 + (limit - 1 - xa) = limit - xa"
    by simp
  also have "limit - xa \<noteq> 0"
    using xa(2) by (simp only: right_minus_eq)
  finally have "unat (1 + (limit - 1 - xa)) = Suc (unat (limit - 1 - xa))"
    by (rule unatSuc)
  moreover have "1 + (limit - 1 - xa) = limit - 1 - i"
    by (simp add: xa)
  ultimately show "((limit, xa, x), limit, i, lfsr)
      \<in> measure (\<lambda>(limit, i, lfsr). unat (limit - 1 - i))"
    by simp
qed simp_all

declare lfsr_loop.simps [simp del]

definition generate_random_number :: "ushort \<Rightarrow> ushort \<Rightarrow> (ushort \<times> ushort) res" where
  "generate_random_number start_state limit =
     (let start_state = (if start_state = 0 then start_state + 1 else start_state);
          lfsr = lfsr_loop limit 0 start_state;
          start_state = start_state + 1
      in if limit = 0 then Fault else Ok (lfsr mod limit, start_state))"

section \<open>The register\<close>

lemma ushort_no_bit: "\<not> bit (x :: ushort) (1 + 15)"
  using bit_imp_le_length [of x 16] by force

lemma bit_shift_in_top: "bit (drop_bit 1 (x :: ushort) OR push_bit 15 b) 15 = bit b 0"
  by (simp only: bit_or_iff bit_drop_bit_eq bit_push_bit_iff o_def ushort_no_bit) simp

lemma bit_shift_in_low: "n < 15 \<Longrightarrow> bit (drop_bit 1 (x :: ushort) OR push_bit 15 b) n = bit x (Suc n)"
  by (simp only: bit_or_iff bit_drop_bit_eq bit_push_bit_iff o_def) simp

lemma bit_taps:
  "bit (x XOR drop_bit 2 x XOR drop_bit 3 x XOR drop_bit 5 x) 0 =
     ((((bit x 0 \<noteq> bit x 2) \<noteq> bit x 3) \<noteq> bit x 5))" for x :: ushort
  by (simp only: bit_xor_iff bit_drop_bit_eq) (simp, argo)

lemma bit_lfsr_step:
  "n < 15 \<Longrightarrow> bit (lfsr_step x) n = bit x (Suc n)"
  "bit (lfsr_step x) 15 = ((((bit x 0 \<noteq> bit x 2) \<noteq> bit x 3) \<noteq> bit x 5))"
  unfolding lfsr_step_def Let_def
  by (rule bit_shift_in_low) (simp_all only: bit_shift_in_top bit_taps)

text \<open>The upper fifteen bits of the old state are the lower fifteen of the new one, and bit 0 can be
  recovered from the new top bit: the step loses nothing.\<close>

lemma lfsr_step_inj: "lfsr_step x = lfsr_step y \<Longrightarrow> x = y"
proof (rule bit_word_eqI)
  fix n assume eq: "lfsr_step x = lfsr_step y" and n: "n < LENGTH(16)"
  have up: "bit x m = bit y m" if m: "0 < m" "m < 16" for m
  proof -
    from m obtain k where k: "m = Suc k" "k < 15"
      by (cases m) auto
    from k(2) have "bit (lfsr_step x) k = bit x (Suc k)" "bit (lfsr_step y) k = bit y (Suc k)"
      by (rule bit_lfsr_step(1))+
    with eq k show ?thesis by simp
  qed
  have "bit (lfsr_step x) 15 = bit (lfsr_step y) 15"
    by (simp only: eq)
  then have "((((bit x 0 \<noteq> bit y 2) \<noteq> bit y 3) \<noteq> bit y 5)) =
      ((((bit y 0 \<noteq> bit y 2) \<noteq> bit y 3) \<noteq> bit y 5))"
    using up [of 2] up [of 3] up [of 5] by (simp only: bit_lfsr_step(2))
  then have "bit x 0 = bit y 0"
    by argo
  with up n show "bit x n = bit y n"
    by (cases "n = 0") simp_all
qed

lemma lfsr_step_0 [simp]: "lfsr_step 0 = 0"
  by (simp add: lfsr_step_def)

lemma lfsr_step_eq_0 [simp]: "lfsr_step x = 0 \<longleftrightarrow> x = 0"
  using lfsr_step_inj [of x 0] by auto

lemma lfsr_steps_eq_0: "(lfsr_step ^^ n) x = 0 \<longleftrightarrow> x = 0"
  by (induction n) auto

section \<open>The loop\<close>

lemma lfsr_loop_funpow:
  "i < limit \<Longrightarrow> lfsr_loop limit i x = (lfsr_step ^^ (unat limit - unat i)) x"
proof (induction limit i x rule: lfsr_loop.induct)
  case (1 limit i x)
  show ?case
  proof (cases "i + 1 < limit")
    case True
    with 1 have "lfsr_loop limit i x = (lfsr_step ^^ (unat limit - unat (i + 1))) (lfsr_step x)"
      by (subst lfsr_loop.simps) (simp add: Let_def)
    moreover have "unat limit - unat i = Suc (unat limit - unat (i + 1))"
      using True "1.prems" by unat_arith
    ultimately show ?thesis
      by (simp add: funpow_swap1)
  next
    case False
    moreover have "unat limit - unat i = 1"
      using False "1.prems" by unat_arith
    ultimately show ?thesis
      by (subst lfsr_loop.simps) (simp add: Let_def)
  qed
qed

text \<open>The seed a call really loads, and the value it leaves in the register.\<close>

definition seed_of :: "ushort \<Rightarrow> ushort" where
  "seed_of start_state = (if start_state = 0 then 1 else start_state)"

lemma generate_random_number_eq:
  assumes "limit \<noteq> 0"
  shows "generate_random_number s limit =
    Ok ((lfsr_step ^^ unat limit) (seed_of s) mod limit, seed_of s + 1)"
proof -
  have "0 < limit"
    using assms by (simp add: word_neq_0_conv)
  then show ?thesis
    using assms
    by (simp add: generate_random_number_def Let_def seed_of_def lfsr_loop_funpow)
qed

lemma generate_random_number_zero: "generate_random_number s 0 = Fault"
  by (simp add: generate_random_number_def Let_def)

lemma generate_random_number_less:
  "limit \<noteq> 0 \<Longrightarrow> generate_random_number s limit = Ok (r, s') \<Longrightarrow> r < limit"
  by (auto simp: generate_random_number_eq word_mod_less_divisor word_neq_0_conv)

section \<open>Properties\<close>

text \<open>C29: A call of \<^verbatim>\<open>generate_random_number\<close> with a limit other than 0 comes back with a number below the
  limit, which is the register after exactly \<open>limit\<close> shifts of the seed reduced by the limit, and it
  advances the seed by one; with the limit 0 it divides by zero.\<close>

theorem random_number_range:
  "(limit = 0 \<and> generate_random_number st limit = Fault) \<or>
   (\<exists>r. generate_random_number st limit = Ok (r, seed_of st + 1) \<and> r < limit
      \<and> r = (lfsr_step ^^ unat limit) (seed_of st) mod limit)"
proof (cases "limit = 0")
  case False
  then show ?thesis
    using generate_random_number_less [OF False] by (simp add: generate_random_number_eq)
qed (simp add: generate_random_number_zero)

text \<open>A shift of the register permutes the 65536 states and keeps 0 apart from the others, so a
  seed that is not 0 never runs into the state from which only 0 follows.\<close>

theorem lfsr_step_permutes: "bij lfsr_step \<and> (\<forall>n x. (lfsr_step ^^ n) x = 0 \<longleftrightarrow> x = 0)"
proof
  have "inj lfsr_step"
    by (rule injI) (rule lfsr_step_inj)
  then show "bij lfsr_step"
    by (simp add: bij_def finite_UNIV_inj_surj)
qed (simp add: lfsr_steps_eq_0)

end
