(* ===== verification/Spinlock.thy ===== *)
theory Spinlock
  imports Prelude
begin

text \<open>
  \<^verbatim>\<open>spinlock.c\<close> and the per-CPU state of \<^verbatim>\<open>proc.h\<close> it works on. A routine runs on a CPU, given by
  its index \<open>c\<close> in \<open>cpus\<close>; \<open>mycpu\<close> is the search for that index by APIC id. The interrupt flag of
  the EFLAGS register is a field of the CPU, changed by \<open>cli\<close> and \<open>sti\<close>. Locks are named by a
  \<open>lockid\<close>, the address of the C structure. The spinning loop of \<open>acquire\<close> is the outcome \<open>Spin\<close>:
  the step is not possible until another CPU releases the lock. The debugging field \<open>pcs\<close> of a lock
  is left out.
\<close>

section \<open>CPUs and locks\<close>

record cpu =
  apicid :: uchar
  started :: bool
  ncli :: int
  intena :: bool
  cpu_proc :: "nat option"
  eflags_IF :: bool
  cr3 :: uint
  ts_esp0 :: uint
  total_tickets :: int
  tickets_passed :: int

datatype lockid =
    L_ptable | L_proc_sched | L_tickslock | L_kmem | L_bcache | L_log | L_icache | L_ftable
  | L_cons | L_ide | L_pipe uint | L_sleep_buf nat | L_sleep_inode nat

record spinlock =
  locked :: bool
  lk_name :: string
  lk_cpu :: "nat option"

record mach =
  cpus :: "cpu list"
  locks :: "lockid \<Rightarrow> spinlock"

definition upd_cpu :: "nat \<Rightarrow> (cpu \<Rightarrow> cpu) \<Rightarrow> 'a mach_scheme \<Rightarrow> 'a mach_scheme" where
  "upd_cpu c f s = s\<lparr>cpus := upd c f (cpus s)\<rparr>"

definition set_lock :: "lockid \<Rightarrow> spinlock \<Rightarrow> 'a mach_scheme \<Rightarrow> 'a mach_scheme" where
  "set_lock l lk s = s\<lparr>locks := (locks s)(l := lk)\<rparr>"

abbreviation the_cpu :: "nat \<Rightarrow> 'a mach_scheme \<Rightarrow> cpu" where
  "the_cpu c s \<equiv> cpus s ! c"

section \<open>Interrupts and the current CPU\<close>

definition cli :: "nat \<Rightarrow> 'a mach_scheme \<Rightarrow> 'a mach_scheme" where
  "cli c s = upd_cpu c (\<lambda>k. k\<lparr>eflags_IF := False\<rparr>) s"

definition sti :: "nat \<Rightarrow> 'a mach_scheme \<Rightarrow> 'a mach_scheme" where
  "sti c s = upd_cpu c (\<lambda>k. k\<lparr>eflags_IF := True\<rparr>) s"

definition mycpu :: "bool \<Rightarrow> uchar \<Rightarrow> 'a mach_scheme \<Rightarrow> nat res" where
  "mycpu IF lapicid s =
     (if IF then Panic (''mycpu called with interrupts enabled'' @ [CHR 0x0A])
      else case first_idx (\<lambda>k. apicid k = lapicid) (cpus s) of
             Some i \<Rightarrow> Ok i
           | None \<Rightarrow> Panic (''unknown apicid'' @ [CHR 0x0A]))"

definition pushcli :: "nat \<Rightarrow> 'a mach_scheme \<Rightarrow> 'a mach_scheme" where
  "pushcli c s =
     (let eflags = eflags_IF (the_cpu c s);
          s = cli c s;
          s = (if ncli (the_cpu c s) = 0 then upd_cpu c (\<lambda>k. k\<lparr>intena := eflags\<rparr>) s else s)
      in upd_cpu c (\<lambda>k. k\<lparr>ncli := ncli k + 1\<rparr>) s)"

definition popcli :: "nat \<Rightarrow> 'a mach_scheme \<Rightarrow> 'a mach_scheme res" where
  "popcli c s =
     (if eflags_IF (the_cpu c s) then Panic ''popcli - interruptible''
      else let s = upd_cpu c (\<lambda>k. k\<lparr>ncli := ncli k - 1\<rparr>) s
           in if ncli (the_cpu c s) < 0 then Panic ''popcli''
              else Ok (if ncli (the_cpu c s) = 0 \<and> intena (the_cpu c s) then sti c s else s))"

section \<open>Locks\<close>

definition initlock :: "lockid \<Rightarrow> string \<Rightarrow> 'a mach_scheme \<Rightarrow> 'a mach_scheme" where
  "initlock l name s = set_lock l \<lparr>locked = False, lk_name = name, lk_cpu = None\<rparr> s"

definition holding :: "nat \<Rightarrow> lockid \<Rightarrow> 'a mach_scheme \<Rightarrow> (bool \<times> 'a mach_scheme) res" where
  "holding c l s =
     (let s = pushcli c s;
          r = (locked (locks s l) \<and> lk_cpu (locks s l) = Some c)
      in bindr (popcli c s) (\<lambda>s. Ok (r, s)))"

definition acquire :: "nat \<Rightarrow> lockid \<Rightarrow> 'a mach_scheme \<Rightarrow> 'a mach_scheme res" where
  "acquire c l s =
     (let s = pushcli c s
      in bindr (holding c l s) (\<lambda>(h, s).
           if h then Panic ''acquire''
           else if locked (locks s l) then Spin
           else Ok (set_lock l ((locks s l)\<lparr>locked := True, lk_cpu := Some c\<rparr>) s)))"

definition release :: "nat \<Rightarrow> lockid \<Rightarrow> 'a mach_scheme \<Rightarrow> 'a mach_scheme res" where
  "release c l s =
     bindr (holding c l s) (\<lambda>(h, s).
       if \<not> h then Panic ''release''
       else popcli c (set_lock l ((locks s l)\<lparr>lk_cpu := None, locked := False\<rparr>) s))"

section \<open>Frame facts\<close>

lemma cpus_upd_cpu [simp]: "cpus (upd_cpu c f s) = upd c f (cpus s)"
  and locks_upd_cpu [simp]: "locks (upd_cpu c f s) = locks s"
  and more_upd_cpu [simp]: "mach.more (upd_cpu c f s) = mach.more s"
  by (simp_all add: upd_cpu_def)

lemma cpus_set_lock [simp]: "cpus (set_lock l k s) = cpus s"
  and locks_set_lock [simp]: "locks (set_lock l k s) = (locks s)(l := k)"
  and more_set_lock [simp]: "mach.more (set_lock l k s) = mach.more s"
  by (simp_all add: set_lock_def)

lemma upd_cpu_upd_cpu [simp]: "upd_cpu c f (upd_cpu c g s) = upd_cpu c (\<lambda>k. f (g k)) s"
  by (simp add: upd_cpu_def)

lemma upd_cpu_set_lock: "upd_cpu c f (set_lock l k s) = set_lock l k (upd_cpu c f s)"
  by (simp add: upd_cpu_def set_lock_def)

lemma set_lock_set_lock [simp]: "set_lock l k (set_lock l k' s) = set_lock l k s"
  by (simp add: set_lock_def)

lemma set_lock_id [simp]: "set_lock l (locks s l) s = s"
  by (simp add: set_lock_def)

lemma upd_cpu_id: "(c < length (cpus s) \<Longrightarrow> f (the_cpu c s) = the_cpu c s) \<Longrightarrow> upd_cpu c f s = s"
  by (cases "c < length (cpus s)") (simp_all add: upd_cpu_def upd_def list_update_beyond)

section \<open>What the routines do on a well-formed CPU\<close>

text \<open>The nesting depth is never negative, and a positive depth means that interrupts are off.\<close>

definition cpu_ok :: "cpu \<Rightarrow> bool" where
  "cpu_ok k \<longleftrightarrow> 0 \<le> ncli k \<and> (0 < ncli k \<longrightarrow> \<not> eflags_IF k)"

definition cpus_ok :: "'a mach_scheme \<Rightarrow> bool" where
  "cpus_ok s \<longleftrightarrow> (\<forall>k \<in> set (cpus s). cpu_ok k)"

lemma cpus_okD: "cpus_ok s \<Longrightarrow> c < length (cpus s) \<Longrightarrow> cpu_ok (the_cpu c s)"
  by (simp add: cpus_ok_def)

definition holds :: "nat \<Rightarrow> lockid \<Rightarrow> 'a mach_scheme \<Rightarrow> bool" where
  "holds c l s \<longleftrightarrow> locked (locks s l) \<and> lk_cpu (locks s l) = Some c"

definition pushed :: "cpu \<Rightarrow> cpu" where
  "pushed k = k\<lparr>eflags_IF := False, intena := (if ncli k = 0 then eflags_IF k else intena k),
                ncli := ncli k + 1\<rparr>"

definition popped :: "cpu \<Rightarrow> cpu" where
  "popped k = (if ncli k = 1 \<and> intena k then k\<lparr>ncli := ncli k - 1, eflags_IF := True\<rparr>
               else k\<lparr>ncli := ncli k - 1\<rparr>)"

text \<open>A balanced pair of \<open>pushcli\<close> and \<open>popcli\<close> leaves only this trace: at depth 0 the saved flag is
  the current one.\<close>

definition settled :: "cpu \<Rightarrow> cpu" where
  "settled k = (if ncli k = 0 then k\<lparr>intena := eflags_IF k\<rparr> else k)"

lemma pushcli_eq: "c < length (cpus s) \<Longrightarrow> pushcli c s = upd_cpu c pushed s"
  by (auto simp: pushcli_def cli_def pushed_def Let_def upd_cpu_def upd_def)

lemma popcli_eq:
  assumes "c < length (cpus s)" "cpu_ok (the_cpu c s)" "0 < ncli (the_cpu c s)"
  shows "popcli c s = Ok (upd_cpu c popped s)"
  using assms
  by (auto simp: popcli_def sti_def popped_def cpu_ok_def Let_def upd_cpu_def upd_def)

lemma popped_pushed [simp]: "cpu_ok k \<Longrightarrow> popped (pushed k) = settled k"
  by (auto simp: popped_def pushed_def settled_def cpu_ok_def)

lemma ncli_pushed [simp]: "ncli (pushed k) = ncli k + 1"
  and ncli_popped [simp]: "ncli (popped k) = ncli k - 1"
  and ncli_settled [simp]: "ncli (settled k) = ncli k"
  by (simp_all add: pushed_def popped_def settled_def)

lemma IF_pushed [simp]: "\<not> eflags_IF (pushed k)"
  by (simp add: pushed_def)

lemma cpu_ok_pushed [simp]: "cpu_ok k \<Longrightarrow> cpu_ok (pushed k)"
  and cpu_ok_popped [simp]: "cpu_ok k \<Longrightarrow> 0 < ncli k \<Longrightarrow> cpu_ok (popped k)"
  and cpu_ok_settled [simp]: "cpu_ok k \<Longrightarrow> cpu_ok (settled k)"
  by (auto simp: cpu_ok_def pushed_def popped_def settled_def)

lemma settled_nested [simp]: "ncli k \<noteq> 0 \<Longrightarrow> settled k = k"
  by (simp add: settled_def)

lemma settled_idem [simp]: "settled (settled k) = settled k"
  by (simp add: settled_def)

lemma settled_pushed [simp]: "cpu_ok k \<Longrightarrow> settled (pushed k) = pushed k"
  by (simp add: settled_def cpu_ok_def)

text \<open>The fields the locking code does not touch.\<close>

lemma cpu_frame [simp]:
  "cpu_proc (pushed k) = cpu_proc k" "cpu_proc (popped k) = cpu_proc k"
  "cpu_proc (settled k) = cpu_proc k"
  "total_tickets (pushed k) = total_tickets k" "total_tickets (popped k) = total_tickets k"
  "tickets_passed (pushed k) = tickets_passed k" "tickets_passed (popped k) = tickets_passed k"
  by (simp_all add: pushed_def popped_def settled_def)

lemma holding_eq:
  assumes "c < length (cpus s)" "cpu_ok (the_cpu c s)"
  shows "holding c l s = Ok (holds c l s, upd_cpu c settled s)"
proof -
  have "popcli c (upd_cpu c pushed s) = Ok (upd_cpu c popped (upd_cpu c pushed s))"
    using assms by (intro popcli_eq) (simp_all add: cpu_ok_def pushed_def)
  also have "upd_cpu c popped (upd_cpu c pushed s) = upd_cpu c settled s"
    using assms by (simp add: upd_cpu_def upd_def)
  finally show ?thesis
    using assms by (simp add: holding_def pushcli_eq Let_def holds_def)
qed

lemma acquire_eq:
  assumes c: "c < length (cpus s)" "cpu_ok (the_cpu c s)"
  shows "acquire c l s =
    (if holds c l s then Panic ''acquire''
     else if locked (locks s l) then Spin
     else Ok (set_lock l ((locks s l)\<lparr>locked := True, lk_cpu := Some c\<rparr>) (upd_cpu c pushed s)))"
proof -
  have "holding c l (upd_cpu c pushed s) =
      Ok (holds c l (upd_cpu c pushed s), upd_cpu c settled (upd_cpu c pushed s))"
    using c by (intro holding_eq) simp_all
  also have "upd_cpu c settled (upd_cpu c pushed s) = upd_cpu c pushed s"
    using c by (simp add: upd_cpu_def upd_def)
  finally show ?thesis
    using c by (simp add: acquire_def pushcli_eq Let_def holds_def)
qed

lemma release_eq:
  assumes c: "c < length (cpus s)" "cpu_ok (the_cpu c s)" "0 < ncli (the_cpu c s)"
  shows "release c l s =
    (if holds c l s
     then Ok (set_lock l ((locks s l)\<lparr>lk_cpu := None, locked := False\<rparr>) (upd_cpu c popped s))
     else Panic ''release'')"
proof -
  have h: "holding c l s = Ok (holds c l s, s)"
    using c by (simp add: holding_eq upd_cpu_id)
  have "popcli c (set_lock l k s) = Ok (upd_cpu c popped (set_lock l k s))" for k
    using c by (intro popcli_eq) simp_all
  then show ?thesis
    by (simp add: release_def h upd_cpu_set_lock)
qed

text \<open>A critical section whose body leaves CPUs and locks alone: the release undoes the acquire, up
  to the saved interrupt flag.\<close>

definition lock_idle :: "lockid \<Rightarrow> 'a mach_scheme \<Rightarrow> bool" where
  "lock_idle l s \<longleftrightarrow> \<not> locked (locks s l) \<and> lk_cpu (locks s l) = None"

definition grabbed :: "nat \<Rightarrow> lockid \<Rightarrow> 'a mach_scheme \<Rightarrow> 'a mach_scheme" where
  "grabbed c l s =
     set_lock l ((locks s l)\<lparr>locked := True, lk_cpu := Some c\<rparr>) (upd_cpu c pushed s)"

definition settle :: "nat \<Rightarrow> 'a mach_scheme \<Rightarrow> 'a mach_scheme" where
  "settle c s = upd_cpu c settled s"

lemma acquire_grabbed:
  "c < length (cpus s) \<Longrightarrow> cpu_ok (the_cpu c s) \<Longrightarrow> lock_idle l s \<Longrightarrow>
   acquire c l s = Ok (grabbed c l s)"
  by (simp add: acquire_eq holds_def lock_idle_def grabbed_def)

lemma release_grabbed:
  assumes "c < length (cpus s)" "cpu_ok (the_cpu c s)" "lock_idle l s"
    and t: "cpus t = cpus (grabbed c l s)" "locks t = locks (grabbed c l s)"
  shows "release c l t = Ok (t\<lparr>cpus := upd c settled (cpus s), locks := locks s\<rparr>)"
proof -
  have "release c l t =
      Ok (set_lock l ((locks t l)\<lparr>lk_cpu := None, locked := False\<rparr>) (upd_cpu c popped t))"
    using assms by (simp add: release_eq grabbed_def holds_def cpu_ok_def)
  moreover have "(locks t)(l := (locks t l)\<lparr>lk_cpu := None, locked := False\<rparr>) = locks s"
    using assms by (cases "locks s l") (auto simp: t grabbed_def lock_idle_def set_lock_def)
  moreover have "upd c popped (cpus t) = upd c settled (cpus s)"
    using assms by (simp add: t grabbed_def upd_def)
  ultimately show ?thesis
    by (simp add: set_lock_def upd_cpu_def)
qed

text \<open>Inside another critical section nothing of the CPU is left changed.\<close>

lemma upd_settled_nested: "ncli (the_cpu c s) \<noteq> 0 \<Longrightarrow> upd c settled (cpus s) = cpus s"
  by (simp add: upd_def)

lemma release_nested:
  assumes "c < length (cpus s)" "cpu_ok (the_cpu c s)" "lock_idle l s" "ncli (the_cpu c s) \<noteq> 0"
    and "cpus t = cpus (grabbed c l s)" "locks t = locks (grabbed c l s)"
  shows "release c l t = Ok (t\<lparr>cpus := cpus s, locks := locks s\<rparr>)"
  using release_grabbed [OF assms(1-3,5,6)] assms(4) by (simp add: upd_settled_nested)

lemma settle_frame [simp]:
  "locks (settle c s) = locks s" "mach.more (settle c s) = mach.more s"
  "length (cpus (settle c s)) = length (cpus s)"
  "lock_idle l (settle c s) = lock_idle l s"
  by (simp_all add: settle_def lock_idle_def)

lemma acquire_OkD:
  assumes "acquire c l s = Ok t" "c < length (cpus s)" "cpu_ok (the_cpu c s)"
  shows "t = grabbed c l s" "\<not> locked (locks s l)"
  using assms by (auto simp: acquire_eq grabbed_def split: if_splits)

lemma section_Ok:
  assumes "c < length (cpus s)" "cpu_ok (the_cpu c s)" "acquire c l s = Ok u"
    and v: "cpus v = cpus u" "locks v = locks u" and "release c l v = Ok t"
  shows "t = v\<lparr>cpus := upd c settled (cpus s),
    locks := (locks s)(l := (locks s l)\<lparr>lk_cpu := None, locked := False\<rparr>)\<rparr>"
proof -
  have u: "u = grabbed c l s"
    using assms by (simp add: acquire_OkD)
  have "release c l v = Ok (set_lock l ((locks v l)\<lparr>lk_cpu := None, locked := False\<rparr>) (upd_cpu c popped v))"
    using assms(1,2) by (simp add: release_eq v u grabbed_def holds_def cpu_ok_def)
  moreover have "upd c popped (cpus v) = upd c settled (cpus s)"
    using assms(1,2) by (simp add: v u grabbed_def upd_def)
  ultimately show ?thesis
    using assms(6) by (simp add: set_lock_def upd_cpu_def v u grabbed_def)
qed

section \<open>The lock interface\<close>

text \<open>What a client relies on, for spin locks here and for sleep locks later: a free lock can be
  taken, a taken one cannot be taken again, and its holder can give it back.\<close>

locale mutex =
  fixes acq :: "'s \<Rightarrow> 's res"
    and rel :: "'s \<Rightarrow> 's res"
    and held :: "'s \<Rightarrow> bool"
    and free :: "'s \<Rightarrow> bool"
    and ok :: "'s \<Rightarrow> bool"
  assumes acq_free: "ok s \<Longrightarrow> free s \<Longrightarrow> \<exists>t. acq s = Ok t \<and> held t \<and> ok t"
    and acq_busy: "ok s \<Longrightarrow> \<not> free s \<Longrightarrow> acq s \<noteq> Ok t"
    and rel_held: "ok s \<Longrightarrow> held s \<Longrightarrow> \<exists>t. rel s = Ok t \<and> free t \<and> ok t"
    and held_not_free: "held s \<Longrightarrow> \<not> free s"
begin

text \<open>A critical section comes back, with the lock free again.\<close>

lemma section_returns:
  assumes "ok s" "free s" and "\<And>t. ok t \<Longrightarrow> held t \<Longrightarrow> \<exists>u. body t = Ok u \<and> ok u \<and> held u"
  shows "\<exists>t. bindr (acq s) (\<lambda>s. bindr (body s) rel) = Ok t \<and> ok t \<and> free t"
proof -
  from acq_free [OF assms(1,2)] obtain t where t: "acq s = Ok t" "held t" "ok t"
    by blast
  from assms(3) [OF t(3,2)] obtain u where u: "body t = Ok u" "ok u" "held u"
    by blast
  from rel_held [OF u(2,3)] obtain v where "rel u = Ok v" "free v" "ok v"
    by blast
  with t u show ?thesis by simp
qed

lemma not_reentrant: "ok s \<Longrightarrow> acq s = Ok t \<Longrightarrow> ok t \<Longrightarrow> held t \<Longrightarrow> acq t \<noteq> Ok u"
  by (intro acq_busy) (auto dest: held_not_free)

end

definition lock_free :: "lockid \<Rightarrow> 'a mach_scheme \<Rightarrow> bool" where
  "lock_free l s \<longleftrightarrow> \<not> locked (locks s l)"

definition spin_ok :: "nat \<Rightarrow> lockid \<Rightarrow> 'a mach_scheme \<Rightarrow> bool" where
  "spin_ok c l s \<longleftrightarrow> c < length (cpus s) \<and> cpu_ok (the_cpu c s) \<and>
     (holds c l s \<longrightarrow> 0 < ncli (the_cpu c s))"

interpretation spin: mutex "acquire c l" "release c l" "holds c l" "lock_free l" "spin_ok c l"
  for c l
proof (unfold_locales, goal_cases)
  case (1 s)
  then have "acquire c l s =
      Ok (set_lock l ((locks s l)\<lparr>locked := True, lk_cpu := Some c\<rparr>) (upd_cpu c pushed s))"
    by (simp add: spin_ok_def lock_free_def acquire_eq holds_def)
  with 1 show ?case
    by (auto simp: spin_ok_def holds_def cpu_ok_def)
next
  case (2 s t)
  then show ?case
    by (simp add: spin_ok_def lock_free_def acquire_eq)
next
  case (3 s)
  then have "release c l s =
      Ok (set_lock l ((locks s l)\<lparr>lk_cpu := None, locked := False\<rparr>) (upd_cpu c popped s))"
    by (simp add: spin_ok_def release_eq)
  with 3 show ?case
    by (auto simp: spin_ok_def holds_def lock_free_def)
next
  case (4 s)
  then show ?case
    by (simp add: holds_def lock_free_def)
qed

section \<open>Several CPUs\<close>

text \<open>Runs of lock operations by all the CPUs. \<open>inside\<close> is the history's own account of who is
  between an \<open>acquire\<close> that returned and the matching \<open>release\<close>; it does not look at the locks.\<close>

datatype lock_event = Acq nat lockid | Rel nat lockid

fun lock_step :: "lock_event \<Rightarrow> 'a mach_scheme \<Rightarrow> 'a mach_scheme res" where
  "lock_step (Acq c l) s = acquire c l s"
| "lock_step (Rel c l) s = release c l s"

fun lock_run :: "lock_event list \<Rightarrow> 'a mach_scheme \<Rightarrow> 'a mach_scheme res" where
  "lock_run [] s = Ok s"
| "lock_run (e # es) s = bindr (lock_step e s) (lock_run es)"

fun event_cpu :: "lock_event \<Rightarrow> nat" where
  "event_cpu (Acq c l) = c"
| "event_cpu (Rel c l) = c"

fun inside :: "lock_event list \<Rightarrow> (nat \<times> lockid) set \<Rightarrow> (nat \<times> lockid) set" where
  "inside [] I = I"
| "inside (Acq c l # es) I = inside es (insert (c, l) I)"
| "inside (Rel c l # es) I = inside es (I - {(c, l)})"

text \<open>The invariant: the history and the locks agree, and the nesting depth of a CPU is the number of
  locks it is inside of.\<close>

definition lock_inv :: "(nat \<times> lockid) set \<Rightarrow> 'a mach_scheme \<Rightarrow> bool" where
  "lock_inv I s \<longleftrightarrow> finite I \<and> (\<forall>c l. (c, l) \<in> I \<longleftrightarrow> holds c l s) \<and>
     (\<forall>l. locked (locks s l) \<longrightarrow> lk_cpu (locks s l) \<noteq> None) \<and>
     (\<forall>c < length (cpus s). cpu_ok (the_cpu c s) \<and> ncli (the_cpu c s) = int (card {l. (c, l) \<in> I})) \<and>
     (\<forall>(c, l) \<in> I. c < length (cpus s))"

lemma finite_held: "finite I \<Longrightarrow> finite {l. (c, l) \<in> I}"
  by (rule finite_subset [of _ "snd ` I"]) force+

lemma card_held_insert:
  assumes "finite I" "(c, l) \<notin> I"
  shows "card {m. (d, m) \<in> insert (c, l) I} =
    (if d = c then Suc (card {m. (d, m) \<in> I}) else card {m. (d, m) \<in> I})"
proof (cases "d = c")
  case True
  then have "{m. (d, m) \<in> insert (c, l) I} = insert l {m. (c, m) \<in> I}"
    by auto
  then show ?thesis
    using True assms finite_held [of I c] by simp
qed simp

lemma card_held_remove:
  assumes "finite I" "(c, l) \<in> I"
  shows "card {m. (d, m) \<in> I - {(c, l)}} =
    (if d = c then card {m. (d, m) \<in> I} - 1 else card {m. (d, m) \<in> I})"
proof (cases "d = c")
  case True
  then have "{m. (d, m) \<in> I - {(c, l)}} = {m. (c, m) \<in> I} - {l}"
    by auto
  then show ?thesis
    using True assms finite_held [of I c] by simp
qed simp

lemma lock_invI:
  assumes "finite I" "\<And>c l. (c, l) \<in> I \<longleftrightarrow> holds c l s"
    and "\<And>l. locked (locks s l) \<Longrightarrow> lk_cpu (locks s l) \<noteq> None"
    and "\<And>c. c < length (cpus s) \<Longrightarrow>
      cpu_ok (the_cpu c s) \<and> ncli (the_cpu c s) = int (card {l. (c, l) \<in> I})"
    and "\<And>c l. (c, l) \<in> I \<Longrightarrow> c < length (cpus s)"
  shows "lock_inv I s"
  unfolding lock_inv_def using assms by blast

lemma lock_invD:
  assumes "lock_inv I s"
  shows "finite I" "(c, l) \<in> I \<longleftrightarrow> holds c l s"
    and "locked (locks s l) \<Longrightarrow> lk_cpu (locks s l) \<noteq> None"
    and "c < length (cpus s) \<Longrightarrow> cpu_ok (the_cpu c s)"
    and "c < length (cpus s) \<Longrightarrow> ncli (the_cpu c s) = int (card {l. (c, l) \<in> I})"
    and "(c, l) \<in> I \<Longrightarrow> c < length (cpus s)"
  using assms unfolding lock_inv_def by blast+

lemma lock_inv_acquire:
  assumes inv: "lock_inv I s" and c: "c < length (cpus s)" and acq: "acquire c l s = Ok t"
  shows "lock_inv (insert (c, l) I) t"
proof -
  note D = lock_invD [OF inv]
  from acq c D(4) [OF c] have free: "\<not> locked (locks s l)"
    and t: "t = set_lock l ((locks s l)\<lparr>locked := True, lk_cpu := Some c\<rparr>) (upd_cpu c pushed s)"
    by (auto simp: acquire_eq split: if_splits)
  have fresh: "(d, l) \<notin> I" for d
    using free by (simp only: D(2)) (simp add: holds_def)
  show ?thesis
  proof (rule lock_invI)
    show "finite (insert (c, l) I)"
      using D(1) by simp
    show "(d, m) \<in> insert (c, l) I \<longleftrightarrow> holds d m t" for d m
      using D(2) [of d m] fresh [of d] by (auto simp: t holds_def)
    show "locked (locks t m) \<Longrightarrow> lk_cpu (locks t m) \<noteq> None" for m
      using D(3) [of m] by (auto simp: t)
    show "(d, m) \<in> insert (c, l) I \<Longrightarrow> d < length (cpus t)" for d m
      using c D(6) [of d m] by (auto simp: t)
    show "cpu_ok (the_cpu d t) \<and> ncli (the_cpu d t) = int (card {m. (d, m) \<in> insert (c, l) I})"
      if "d < length (cpus t)" for d
      using that c D(4) [of d] D(5) [of d]
      by (subst card_held_insert [OF D(1) fresh]) (simp add: t nth_upd)
  qed
qed

lemma lock_inv_release:
  assumes inv: "lock_inv I s" and c: "c < length (cpus s)" and rel: "release c l s = Ok t"
  shows "lock_inv (I - {(c, l)}) t"
proof -
  note D = lock_invD [OF inv]
  have held: "holds c l s"
    using rel c D(4) [OF c] by (auto simp: release_def holding_eq split: if_splits)
  then have cl: "(c, l) \<in> I"
    by (simp only: D(2))
  then have card: "0 < card {m. (c, m) \<in> I}"
    using finite_held [OF D(1), of c] by (auto simp: card_gt_0_iff)
  with D(5) [OF c] have depth: "0 < ncli (the_cpu c s)"
    by simp
  with rel c D(4) [OF c] held
  have t: "t = set_lock l ((locks s l)\<lparr>lk_cpu := None, locked := False\<rparr>) (upd_cpu c popped s)"
    by (simp add: release_eq)
  show ?thesis
  proof (rule lock_invI)
    show "finite (I - {(c, l)})"
      using D(1) by simp
    show "(d, m) \<in> I - {(c, l)} \<longleftrightarrow> holds d m t" for d m
      using D(2) [of d m] held by (auto simp: t holds_def)
    show "locked (locks t m) \<Longrightarrow> lk_cpu (locks t m) \<noteq> None" for m
      using D(3) [of m] by (auto simp: t split: if_splits)
    show "(d, m) \<in> I - {(c, l)} \<Longrightarrow> d < length (cpus t)" for d m
      using D(6) [of d m] by (simp add: t)
    show "cpu_ok (the_cpu d t) \<and> ncli (the_cpu d t) = int (card {m. (d, m) \<in> I - {(c, l)}})"
      if "d < length (cpus t)" for d
      using that c D(4) [of d] D(5) [of d] depth card
      by (subst card_held_remove [OF D(1) cl]) (auto simp: t nth_upd)
  qed
qed

lemma acquire_length: "acquire c l s = Ok t \<Longrightarrow> length (cpus t) = length (cpus s)"
  by (auto simp: acquire_def holding_def popcli_def pushcli_def cli_def sti_def Let_def
      outcome_simps split: if_splits)

lemma release_length: "release c l s = Ok t \<Longrightarrow> length (cpus t) = length (cpus s)"
  by (auto simp: release_def holding_def popcli_def pushcli_def cli_def sti_def Let_def
      outcome_simps split: if_splits)

lemma lock_inv_run:
  assumes "lock_inv I s" "\<forall>e \<in> set es. event_cpu e < length (cpus s)" "lock_run es s = Ok t"
  shows "lock_inv (inside es I) t"
  using assms
proof (induction es arbitrary: s I)
  case Nil
  then show ?case by simp
next
  case (Cons e es)
  then obtain u where u: "lock_step e s = Ok u" "lock_run es u = Ok t"
    by (auto simp: outcome_simps)
  show ?case
  proof (cases e)
    case (Acq c l)
    with Cons u lock_inv_acquire [of I s c l u] acquire_length [of c l s u] show ?thesis
      by auto
  next
    case (Rel c l)
    with Cons u lock_inv_release [of I s c l u] release_length [of c l s u] show ?thesis
      by auto
  qed
qed

section \<open>Properties\<close>

text \<open>C6: Mutual exclusion. However the CPUs interleave their calls of \<open>acquire\<close> and \<open>release\<close> (calls
  that would spin are not made), starting with all locks free: after every sequence of calls that
  came back, no two CPUs are between an \<open>acquire\<close> and the \<open>release\<close> of the same lock, and a CPU that is
  inside of a lock has interrupts disabled.\<close>

theorem spinlock_mutual_exclusion:
  assumes "lock_inv {} s" "\<forall>e \<in> set es. event_cpu e < length (cpus s)" "lock_run es s = Ok t"
  shows "((c, l) \<in> inside es {} \<and> (d, l) \<in> inside es {} \<longrightarrow> c = d)
    \<and> ((c, l) \<in> inside es {} \<longrightarrow> \<not> eflags_IF (the_cpu c t) \<and> 0 < ncli (the_cpu c t))"
proof -
  note inv = lock_inv_run [OF assms]
  have "c = d" if "(c, l) \<in> inside es {}" "(d, l) \<in> inside es {}"
    using that by (simp add: lock_invD(2) [OF inv] holds_def)
  moreover have "\<not> eflags_IF (the_cpu c t) \<and> 0 < ncli (the_cpu c t)" if i: "(c, l) \<in> inside es {}"
  proof -
    have "0 < card {m. (c, m) \<in> inside es {}}"
      using i finite_held [OF lock_invD(1) [OF inv], of c] by (auto simp: card_gt_0_iff)
    then show ?thesis
      using lock_invD(4,5) [OF inv lock_invD(6) [OF inv i]] by (simp add: cpu_ok_def)
  qed
  ultimately show ?thesis
    by blast
qed

definition two_cpus :: mach where
  "two_cpus =
     (let k = \<lparr>apicid = 0, started = True, ncli = 0, intena = True, cpu_proc = None, eflags_IF = True,
        cr3 = 0, ts_esp0 = 0, total_tickets = 0, tickets_passed = 0\<rparr>
      in \<lparr>cpus = [k, k\<lparr>apicid := 1\<rparr>], locks = \<lambda>_. \<lparr>locked = False, lk_name = [], lk_cpu = None\<rparr>\<rparr>)"

lemma two_cpus_inv: "lock_inv {} two_cpus"
  by (rule lock_invI) (auto simp: two_cpus_def holds_def cpu_ok_def Let_def nth_Cons')

theorem spinlock_mutual_exclusion_witness:
  "\<exists>t. lock_run [Acq 0 L_ptable, Acq 1 L_kmem, Rel 0 L_ptable, Acq 1 L_ptable] two_cpus = Ok t
     \<and> \<not> eflags_IF (the_cpu 1 t)"
proof -
  let ?es = "[Acq 0 L_ptable, Acq 1 L_kmem, Rel 0 L_ptable, Acq 1 L_ptable]"
  obtain t where t: "lock_run ?es two_cpus = Ok t"
    by (simp add: two_cpus_def Let_def acquire_def release_def holding_def pushcli_def popcli_def cli_def
        sti_def upd_cpu_def upd_def set_lock_def)
  then show ?thesis
    using spinlock_mutual_exclusion [OF two_cpus_inv _ t, of 1 L_ptable 1]
    by (simp add: two_cpus_def Let_def)
qed

end
