(* ===== verification/Cprintf.thy ===== *)
theory Cprintf
  imports Spinlock
begin

text \<open>
  The output half of \<^verbatim>\<open>console.c\<close>: \<^verbatim>\<open>printint\<close> and \<^verbatim>\<open>cprintf\<close>. What the kernel prints is appended to the
  field \<open>kout\<close> (the characters that \<^verbatim>\<open>consputc\<close> sends to the serial port; the screen is not
  modelled). The 16 characters of \<^verbatim>\<open>printint\<close>'s buffer are counted: a number that would not fit is a
  \<open>Fault\<close>. An argument list that does not match the format is a \<open>Fault\<close> too.
\<close>

record con_state = mach +
  kout :: string
  cons_locking :: bool

section \<open>printint\<close>

text \<open>The conversion loop; \<open>room\<close> is what is left of the buffer. It is shared with the user-level
  \<^verbatim>\<open>printf.c\<close>, which has the same loop over its own digits.\<close>

primrec digit_loop :: "string \<Rightarrow> nat \<Rightarrow> uint \<Rightarrow> uint \<Rightarrow> string \<Rightarrow> string res" where
  "digit_loop digits 0 x base buf = Fault"
| "digit_loop digits (Suc room) x base buf =
     (if base = 0 \<or> length digits \<le> unat (x mod base) then Fault
      else let buf = buf @ [digits ! unat (x mod base)]; x = x div base
           in if x \<noteq> 0 then digit_loop digits room x base buf else Ok buf)"

definition kdigits :: string where
  "kdigits = ''0123456789abcdef''"

definition int_chars :: "string \<Rightarrow> int \<Rightarrow> uint \<Rightarrow> bool \<Rightarrow> string res" where
  "int_chars digits xx base sign =
     (let sign = (sign \<and> xx < 0);
          x = (if sign then of_int (- xx) else of_int xx)
      in bindr (digit_loop digits 16 x base []) (\<lambda>buf.
         if sign then if length buf < 16 then Ok (rev (buf @ ''-'')) else Fault
         else Ok (rev buf)))"

definition printint :: "int \<Rightarrow> uint \<Rightarrow> bool \<Rightarrow> string res" where
  "printint xx base sign = int_chars kdigits xx base sign"

section \<open>cprintf\<close>

datatype karg = A_int int | A_str "string option"

fun cprintf_chars :: "string \<Rightarrow> karg list \<Rightarrow> string res" where
  "cprintf_chars [] args = Ok []"
| "cprintf_chars [c] args = (if c \<noteq> CHR ''%'' then Ok [c] else Ok [])"
| "cprintf_chars (c # d # fmt) args =
     (if c \<noteq> CHR ''%'' then bindr (cprintf_chars (d # fmt) args) (\<lambda>out. Ok (c # out))
      else if d = CHR ''d'' then
        (case args of A_int n # rest \<Rightarrow>
            bindr (printint n 10 True) (\<lambda>out. bindr (cprintf_chars fmt rest) (\<lambda>out'. Ok (out @ out')))
          | _ \<Rightarrow> Fault)
      else if d = CHR ''x'' \<or> d = CHR ''p'' then
        (case args of A_int n # rest \<Rightarrow>
            bindr (printint n 16 False) (\<lambda>out. bindr (cprintf_chars fmt rest) (\<lambda>out'. Ok (out @ out')))
          | _ \<Rightarrow> Fault)
      else if d = CHR ''s'' then
        (case args of A_str str # rest \<Rightarrow>
            bindr (cprintf_chars fmt rest) (\<lambda>out'.
              Ok ((case str of None \<Rightarrow> ''(null)'' | Some t \<Rightarrow> t) @ out'))
          | _ \<Rightarrow> Fault)
      else if d = CHR ''%'' then bindr (cprintf_chars fmt args) (\<lambda>out. Ok (CHR ''%'' # out))
      else bindr (cprintf_chars fmt args) (\<lambda>out. Ok (CHR ''%'' # d # out)))"

definition cprintf :: "nat \<Rightarrow> string \<Rightarrow> karg list \<Rightarrow> 'a con_state_scheme \<Rightarrow> 'a con_state_scheme res"
  where
  "cprintf c fmt args s =
     (let locking = cons_locking s
      in bindr (if locking then acquire c L_cons s else Ok s) (\<lambda>s.
         bindr (cprintf_chars fmt args) (\<lambda>out.
         let s = s\<lparr>kout := kout s @ out\<rparr>
         in if locking then release c L_cons s else Ok s)))"

section \<open>What the numbers printed mean\<close>

text \<open>The loop writes the digits of the number, least significant first, without a superfluous
  zero; the buffer is long enough for every base from 4 on.\<close>

fun place_value :: "nat \<Rightarrow> nat list \<Rightarrow> nat" where
  "place_value b [] = 0"
| "place_value b (d # ds) = d + b * place_value b ds"

definition numeral_of :: "nat \<Rightarrow> nat \<Rightarrow> nat list \<Rightarrow> bool" where
  "numeral_of b n ds \<longleftrightarrow> place_value b ds = n \<and> ds \<noteq> [] \<and> (\<forall>d \<in> set ds. d < b)
     \<and> (last ds = 0 \<longrightarrow> ds = [0])"

lemma digit_loop_digits:
  assumes "2 \<le> unat base" "unat base \<le> length digits" "unat x < unat base ^ room" "room \<noteq> 0"
  shows "\<exists>ds. digit_loop digits room x base buf = Ok (buf @ map ((!) digits) ds)
    \<and> numeral_of (unat base) (unat x) ds \<and> length ds \<le> room"
  using assms(3,4)
proof (induction room arbitrary: x buf)
  case (Suc room)
  let ?d = "unat x mod unat base" and ?q = "unat x div unat base"
  have b: "base \<noteq> 0" "?d < unat base" "unat (x mod base) = ?d" "unat (x div base) = ?q"
    using assms(1) by (auto simp: unat_mod unat_div)
  have x: "?d + unat base * ?q = unat x"
    by simp
  show ?case
  proof (cases "x div base = 0")
    case True
    then have "?q = 0"
      using b(4) by simp
    then have "numeral_of (unat base) (unat x) [?d]"
      using x b(2) by (simp add: numeral_of_def)
    then show ?thesis
      using b True assms(2) by (auto simp: Let_def intro!: exI [of _ "[?d]"])
  next
    case False
    then have q: "0 < ?q"
      using b(4) by (simp add: word_unat_eq_iff)
    have lt: "?q < unat base ^ room"
      using Suc.prems(1) by (simp add: less_mult_imp_div_less mult.commute)
    then have "room \<noteq> 0"
      using q by (cases room) auto
    then obtain ds where ds: "digit_loop digits room (x div base) base (buf @ [digits ! ?d])
        = Ok ((buf @ [digits ! ?d]) @ map ((!) digits) ds)"
      "numeral_of (unat base) ?q ds" "length ds \<le> room"
      using Suc.IH [of "x div base" "buf @ [digits ! ?d]"] lt b(4) by auto
    then have "numeral_of (unat base) (unat x) (?d # ds)"
      using x b(2) q by (auto simp: numeral_of_def split: if_splits)
    then show ?thesis
      using b False assms(2) ds(1,3) by (auto simp: Let_def intro!: exI [of _ "?d # ds"])
  qed
qed simp

lemma unat_of_int_uint: "0 \<le> n \<Longrightarrow> n < 2 ^ 32 \<Longrightarrow> unat (of_int n :: uint) = nat n"
  by (simp add: unsigned_of_int take_bit_int_eq_self)

lemma place_value_lower:
  "ds \<noteq> [] \<Longrightarrow> last ds \<noteq> 0 \<Longrightarrow> b ^ (length ds - 1) \<le> place_value b ds"
proof (induction ds)
  case (Cons d ds)
  show ?case
  proof (cases ds)
    case (Cons e es)
    then have "b ^ (length ds - 1) \<le> place_value b ds"
      using Cons.IH Cons.prems by simp
    then have "b * b ^ (length ds - 1) \<le> b * place_value b ds"
      by (rule mult_le_mono2)
    then have "b * b ^ (length ds - 1) \<le> d + b * place_value b ds"
      by (rule trans_le_add2)
    moreover have "b ^ (length (d # ds) - 1) = b * b ^ (length ds - 1)"
      using Cons by simp
    ultimately show ?thesis
      by (simp only: place_value.simps)
  qed (use Cons.prems in simp)
qed simp

lemma numeral_of_length:
  assumes "numeral_of b n ds" "n < b ^ k" "0 < k" "1 < b"
  shows "length ds \<le> k"
proof (cases "ds = [0]")
  case False
  then have "b ^ (length ds - 1) \<le> n"
    using assms(1) place_value_lower [of ds b] by (auto simp: numeral_of_def)
  then have "b ^ (length ds - 1) < b ^ k"
    using assms(2) by simp
  then show ?thesis
    using assms(4) by (simp add: power_strict_increasing_iff)
qed (use assms in simp)

lemma int_chars_digits:
  assumes "10 \<le> unat base" "unat base \<le> length digits" "- (2 ^ 31) \<le> xx" "xx < 2 ^ 31"
  shows "\<exists>ds. int_chars digits xx base True =
      Ok ((if xx < 0 then ''-'' else []) @ rev (map ((!) digits) ds))
    \<and> numeral_of (unat base) (nat \<bar>xx\<bar>) ds"
proof -
  let ?x = "if xx < 0 then of_int (- xx) else of_int xx :: uint"
  have x: "unat ?x = nat \<bar>xx\<bar>"
    using assms(3,4) unat_of_int_uint [of "- xx"] unat_of_int_uint [of xx] by auto
  have "(10 :: nat) ^ 10 \<le> unat base ^ 10"
    using assms(1) by (rule power_mono) simp
  then have lt: "nat \<bar>xx\<bar> < unat base ^ 10"
    using assms(3,4) by simp
  moreover have "unat base ^ 10 \<le> unat base ^ 16"
    using assms(1) by (intro power_increasing) auto
  ultimately have "unat ?x < unat base ^ 16"
    by (simp only: x)
  then obtain ds where ds: "digit_loop digits 16 ?x base [] = Ok (map ((!) digits) ds)"
    "numeral_of (unat base) (nat \<bar>xx\<bar>) ds" "length ds \<le> 16"
    using digit_loop_digits [of base digits ?x 16 "[]"] assms(1,2) by (auto simp: x)
  then have "length ds < 16"
    using numeral_of_length [OF ds(2) lt] assms(1) by simp
  then show ?thesis
    using ds by (auto simp: int_chars_def Let_def)
qed

text \<open>Printing inside a critical section adds to the output and changes nothing else.\<close>

lemma cprintf_nested:
  assumes "c < length (cpus s)" "cpu_ok (the_cpu c s)" "ncli (the_cpu c s) \<noteq> 0"
    "cons_locking s \<Longrightarrow> lock_idle L_cons s" "cprintf_chars fmt args = Ok out"
  shows "cprintf c fmt args s = Ok (s\<lparr>kout := kout s @ out\<rparr>)"
proof (cases "cons_locking s")
  case True
  let ?t = "(grabbed c L_cons s)\<lparr>kout := kout (grabbed c L_cons s) @ out\<rparr>"
  have "release c L_cons ?t = Ok (?t\<lparr>cpus := cpus s, locks := locks s\<rparr>)"
    using assms True by (intro release_nested) simp_all
  then show ?thesis
    using True assms by (simp add: cprintf_def Let_def acquire_grabbed)
      (simp add: grabbed_def set_lock_def upd_cpu_def)
next
  case False
  then show ?thesis
    using assms(5) by (simp add: cprintf_def Let_def)
qed

section \<open>Properties\<close>

text \<open>C31: For every C \<open>int\<close>, also the most negative one, \<open>printint\<close> in base 10 stays within its buffer
  and prints an optional minus sign and then the decimal numeral of the absolute value, most
  significant digit first and without leading zeros.\<close>

theorem printint_decimal:
  assumes "- (2 ^ 31) \<le> xx" "xx < 2 ^ 31"
  shows "\<exists>ds. printint xx 10 True
      = Ok ((if xx < 0 then ''-'' else []) @ rev (map ((!) kdigits) ds))
    \<and> numeral_of 10 (nat \<bar>xx\<bar>) ds"
  using int_chars_digits [of 10 kdigits xx] assms by (simp add: printint_def kdigits_def)

theorem printint_decimal_witness:
  "printint (- 2147483648) 10 True = Ok ''-2147483648''
    \<and> (\<exists>ds. printint (- 2147483648) 10 True = Ok (''-'' @ rev (map ((!) kdigits) ds))
         \<and> numeral_of 10 2147483648 ds)"
proof
  show "printint (- 2147483648) 10 True = Ok ''-2147483648''"
    by code_simp
  show "\<exists>ds. printint (- 2147483648) 10 True = Ok (''-'' @ rev (map ((!) kdigits) ds))
      \<and> numeral_of 10 2147483648 ds"
    using printint_decimal [of "- 2147483648"] by simp
qed

end
