(* ===== verification/CString.thy ===== *)
theory CString
  imports Prelude
begin

text \<open>
  \<^verbatim>\<open>string.c\<close>, the kernel's memory and string routines, over a byte-addressed memory
  \<open>uint \<Rightarrow> uchar\<close> whose addresses wrap around like pointers of a 32-bit machine, and the string
  routines of \<^verbatim>\<open>ulib.c\<close>. The string instructions \<open>stosb\<close> and \<open>stosl\<close> of \<^verbatim>\<open>x86.h\<close> are modelled by their
  effect on the memory. Loops over a terminated string are bounded by \<open>n\<close> bytes where the code has a
  count, and are defined over the list of the bytes before the terminator where it has not.
\<close>

type_synonym mem = "uint \<Rightarrow> uchar"

section \<open>Words in memory\<close>

definition load32 :: "mem \<Rightarrow> uint \<Rightarrow> uint" where
  "load32 m a = (ucast (m a) :: uint) OR push_bit 8 (ucast (m (a + 1)))
     OR push_bit 16 (ucast (m (a + 2))) OR push_bit 24 (ucast (m (a + 3)))"

definition store32 :: "mem \<Rightarrow> uint \<Rightarrow> uint \<Rightarrow> mem" where
  "store32 m a v = m(a := ucast v, a + 1 := ucast (drop_bit 8 v),
     a + 2 := ucast (drop_bit 16 v), a + 3 := ucast (drop_bit 24 v))"

section \<open>memset\<close>

definition stosb :: "mem \<Rightarrow> uint \<Rightarrow> uchar \<Rightarrow> uint \<Rightarrow> mem" where
  "stosb m dst v n = (\<lambda>a. if a - dst < n then v else m a)"

primrec stosl :: "mem \<Rightarrow> uint \<Rightarrow> uint \<Rightarrow> nat \<Rightarrow> mem" where
  "stosl m dst v 0 = m"
| "stosl m dst v (Suc k) = stosl (store32 m dst v) (dst + 4) v k"

definition memset :: "mem \<Rightarrow> uint \<Rightarrow> uint \<Rightarrow> uint \<Rightarrow> mem" where
  "memset m dst c n =
     (if dst mod 4 = 0 \<and> n mod 4 = 0
      then let c = c AND 0xFF
           in stosl m dst (push_bit 24 c OR push_bit 16 c OR push_bit 8 c OR c) (unat (n div 4))
      else stosb m dst (ucast c) n)"

section \<open>memcmp, memmove\<close>

primrec memcmp_loop :: "mem \<Rightarrow> uint \<Rightarrow> uint \<Rightarrow> nat \<Rightarrow> int" where
  "memcmp_loop m s1 s2 0 = 0"
| "memcmp_loop m s1 s2 (Suc k) =
     (if m s1 \<noteq> m s2 then uint (m s1) - uint (m s2) else memcmp_loop m (s1 + 1) (s2 + 1) k)"

definition memcmp :: "mem \<Rightarrow> uint \<Rightarrow> uint \<Rightarrow> uint \<Rightarrow> int" where
  "memcmp m v1 v2 n = memcmp_loop m v1 v2 (unat n)"

primrec copy_up :: "mem \<Rightarrow> uint \<Rightarrow> uint \<Rightarrow> nat \<Rightarrow> mem" where
  "copy_up m d s 0 = m"
| "copy_up m d s (Suc k) = copy_up (m(d := m s)) (d + 1) (s + 1) k"

primrec copy_down :: "mem \<Rightarrow> uint \<Rightarrow> uint \<Rightarrow> nat \<Rightarrow> mem" where
  "copy_down m d s 0 = m"
| "copy_down m d s (Suc k) = (let d = d - 1; s = s - 1 in copy_down (m(d := m s)) d s k)"

definition memmove :: "mem \<Rightarrow> uint \<Rightarrow> uint \<Rightarrow> uint \<Rightarrow> mem" where
  "memmove m dst src n =
     (if src < dst \<and> src + n > dst then copy_down m (dst + n) (src + n) (unat n)
      else copy_up m dst src (unat n))"

definition memcpy :: "mem \<Rightarrow> uint \<Rightarrow> uint \<Rightarrow> uint \<Rightarrow> mem" where
  "memcpy m dst src n = memmove m dst src n"

section \<open>Strings with a count\<close>

primrec strncmp_loop :: "mem \<Rightarrow> uint \<Rightarrow> uint \<Rightarrow> nat \<Rightarrow> int" where
  "strncmp_loop m p q 0 = 0"
| "strncmp_loop m p q (Suc k) =
     (if m p \<noteq> 0 \<and> m p = m q then strncmp_loop m (p + 1) (q + 1) k
      else uint (m p) - uint (m q))"

definition strncmp :: "mem \<Rightarrow> uint \<Rightarrow> uint \<Rightarrow> uint \<Rightarrow> int" where
  "strncmp m p q n = strncmp_loop m p q (unat n)"

text \<open>\<open>strncpy\<close>: copy up to and including the terminator, then pad with zeros.\<close>

primrec strncpy_loop :: "mem \<Rightarrow> uint \<Rightarrow> uint \<Rightarrow> nat \<Rightarrow> mem" where
  "strncpy_loop m s t 0 = m"
| "strncpy_loop m s t (Suc k) =
     (let v = m t; m = m(s := v)
      in if v \<noteq> 0 then strncpy_loop m (s + 1) (t + 1) k else stosb m (s + 1) 0 (of_nat k))"

definition strncpy :: "mem \<Rightarrow> uint \<Rightarrow> uint \<Rightarrow> int \<Rightarrow> mem" where
  "strncpy m s t n = strncpy_loop m s t (nat n)"

text \<open>\<open>safestrcpy\<close>: at most \<open>n - 1\<close> bytes, then always a terminator at the place the pointer has
  reached, which is one past the copied terminator when there was one.\<close>

primrec safestrcpy_loop :: "mem \<Rightarrow> uint \<Rightarrow> uint \<Rightarrow> nat \<Rightarrow> mem \<times> uint" where
  "safestrcpy_loop m s t 0 = (m, s)"
| "safestrcpy_loop m s t (Suc k) =
     (let v = m t; m = m(s := v)
      in if v \<noteq> 0 then safestrcpy_loop m (s + 1) (t + 1) k else (m, s + 1))"

definition safestrcpy :: "mem \<Rightarrow> uint \<Rightarrow> uint \<Rightarrow> int \<Rightarrow> mem" where
  "safestrcpy m s t n =
     (if n \<le> 0 then m
      else let (m, s) = safestrcpy_loop m s t (nat (n - 1)) in m(s := 0))"

section \<open>Loads, stores and alignment\<close>

lemma load_store_same: "load32 (store32 m a v) a = v"
proof (rule bit_word_eqI)
  fix n assume n: "n < LENGTH(32)"
  consider "n < 8" | "8 \<le> n" "n < 16" | "16 \<le> n" "n < 24" | "24 \<le> n"
    by linarith
  then show "bit (load32 (store32 m a v) a) n = bit v n"
    unfolding load32_def store32_def
    by cases (use n in \<open>auto simp: bit_simps\<close>)
qed

lemma aligned_unat_add:
  fixes a i d :: uint
  assumes "unat d dvd 2 ^ 32" "a mod d = 0" "i < d"
  shows "unat (a + i) = unat a + unat i"
proof -
  obtain k where k: "2 ^ 32 = unat d * k"
    using assms(1) by (rule dvdE)
  have "unat a mod unat d = 0"
    using assms(2) by (metis unat_0 unat_mod)
  then obtain j where j: "unat a = unat d * j"
    by (auto simp: mod_eq_0_iff_dvd)
  have i: "unat i < unat d"
    using assms(3) by (simp add: word_less_nat_alt)
  have "unat d * j < unat d * k"
    using unat32_less [of a] j k by simp
  then have "Suc j \<le> k"
    by simp
  then have "unat d * Suc j \<le> unat d * k"
    by (rule mult_le_mono2)
  with i j k have "unat a + unat i < 2 ^ 32"
    by simp
  then show ?thesis
    by (simp add: unat_add_lem [symmetric])
qed

lemma aligned_split:
  fixes a b i j d :: uint
  assumes "unat d dvd 2 ^ 32" "a mod d = 0" "b mod d = 0" "i < d" "j < d" "a + i = b + j"
  shows "a = b \<and> i = j"
proof -
  have eq: "unat a + unat i = unat b + unat j"
    using aligned_unat_add [OF assms(1,2,4)] aligned_unat_add [OF assms(1,3,5)] assms(6) by simp
  have mods: "unat a mod unat d = 0" "unat b mod unat d = 0"
    using assms(2,3) by (metis unat_0 unat_mod)+
  have less: "unat i < unat d" "unat j < unat d"
    using assms(4,5) by (simp_all add: word_less_nat_alt)
  have "unat i = (unat a + unat i) mod unat d"
    using mods(1) less(1) by (simp add: mod_add_eq [symmetric, of "unat a"])
  moreover have "unat j = (unat b + unat j) mod unat d"
    using mods(2) less(2) by (simp add: mod_add_eq [symmetric, of "unat b"])
  ultimately have "unat i = unat j"
    using eq by simp
  with eq show ?thesis
    by (simp add: word_unat_eq_iff)
qed

lemma load32_cong:
  assumes "m a = m' a" "m (a + 1) = m' (a + 1)" "m (a + 2) = m' (a + 2)" "m (a + 3) = m' (a + 3)"
  shows "load32 m a = load32 m' a"
  using assms by (simp add: load32_def)

lemma store32_other: "a \<noteq> b \<Longrightarrow> a \<noteq> b + 1 \<Longrightarrow> a \<noteq> b + 2 \<Longrightarrow> a \<noteq> b + 3 \<Longrightarrow> store32 m b v a = m a"
  by (simp add: store32_def)

lemma store32_byte_other:
  assumes "a mod 4 = 0" "b mod 4 = 0" "a \<noteq> b" "i < 4"
  shows "store32 m b v (a + i) = m (a + i)"
proof (rule store32_other)
  have d: "unat (4 :: uint) dvd 2 ^ 32"
    by simp
  show "a + i \<noteq> b"
    using aligned_split [OF d assms(1,2,4), of 0] assms(3) by auto
  show "a + i \<noteq> b + 1"  "a + i \<noteq> b + 2" "a + i \<noteq> b + 3"
    using aligned_split [OF d assms(1,2,4), of 1] aligned_split [OF d assms(1,2,4), of 2]
      aligned_split [OF d assms(1,2,4), of 3] assms(3)
    by auto
qed

lemma load_store_other:
  assumes "a mod 4 = 0" "b mod 4 = 0" "a \<noteq> b"
  shows "load32 (store32 m b v) a = load32 m a"
  using store32_byte_other [OF assms, of 0 m v] store32_byte_other [OF assms, of 1 m v]
    store32_byte_other [OF assms, of 2 m v] store32_byte_other [OF assms, of 3 m v]
  by (intro load32_cong) simp_all

section \<open>What the memory routines do\<close>

lemma store32_uniform:
  assumes "ucast w = v" "ucast (drop_bit 8 w) = v" "ucast (drop_bit 16 w) = v" "ucast (drop_bit 24 w) = v"
  shows "store32 m dst w a = (if unat (a - dst) < 4 then v else m a)"
proof -
  have "unat (a - dst) < 4 \<longleftrightarrow> a - dst = 0 \<or> a - dst = 1 \<or> a - dst = 2 \<or> a - dst = 3"
    by (simp add: word_unat_eq_iff) presburger
  also have "\<dots> \<longleftrightarrow> a = dst \<or> a = dst + 1 \<or> a = dst + 2 \<or> a = dst + 3"
    by (simp add: diff_eq_eq add.commute)
  finally show ?thesis
    using assms by (auto simp: store32_def)
qed

lemma unat_minus_4: "4 \<le> unat (x :: uint) \<Longrightarrow> unat (x - 4) = unat x - 4"
  by (simp add: unat_sub word_le_nat_alt)

lemma unat_minus_4_wrap: "unat (x :: uint) < 4 \<Longrightarrow> unat (x - 4) = 2 ^ 32 + unat x - 4"
  by (simp add: unat_sub_if')

lemma stosl_uniform:
  assumes "ucast w = v" "ucast (drop_bit 8 w) = v" "ucast (drop_bit 16 w) = v" "ucast (drop_bit 24 w) = v"
    and "4 * k \<le> 2 ^ 32"
  shows "stosl m dst w k a = (if unat (a - dst) < 4 * k then v else m a)"
  using assms(5)
proof (induction k arbitrary: m dst)
  case 0
  then show ?case by simp
next
  case (Suc k)
  have step: "stosl m dst w (Suc k) a =
      (if unat (a - dst - 4) < 4 * k then v else if unat (a - dst) < 4 then v else m a)"
    using Suc by (simp add: store32_uniform [OF assms(1-4)] algebra_simps)
  show ?case
  proof (cases "unat (a - dst) < 4")
    case True
    with Suc.prems show ?thesis
      unfolding step by (simp add: unat_minus_4_wrap)
  next
    case False
    with unat_minus_4 [of "a - dst"] show ?thesis
      unfolding step by (simp add: not_less) linarith
  qed
qed

lemma and_0xFF: "(c :: uint) AND 0xFF = take_bit 8 c"
  by (simp add: take_bit_eq_mask mask_eq_exp_minus_1)

lemma spread_bytes:
  fixes c :: uint
  defines "w \<equiv> push_bit 24 (c AND 0xFF) OR push_bit 16 (c AND 0xFF) OR push_bit 8 (c AND 0xFF) OR (c AND 0xFF)"
  shows "(ucast w :: uchar) = ucast c" "(ucast (drop_bit 8 w) :: uchar) = ucast c"
    "(ucast (drop_bit 16 w) :: uchar) = ucast c" "(ucast (drop_bit 24 w) :: uchar) = ucast c"
  unfolding w_def and_0xFF
  by (rule bit_word_eqI; auto simp: bit_simps; fail)+

lemma memset_stosb: "memset m dst c n = stosb m dst (ucast c) n"
proof (cases "dst mod 4 = 0 \<and> n mod 4 = 0")
  case True
  then have "unat n mod 4 = 0"
    using unat_mod [of n 4] by simp
  then have k: "4 * unat (n div 4) = unat n"
    by (simp add: unat_div) presburger
  then have bound: "4 * unat (n div 4) \<le> 2 ^ 32"
    using unat32_less [of n] by simp
  show ?thesis
    unfolding memset_def stosb_def Let_def if_P [OF True]
    by (rule ext) (simp only: stosl_uniform [OF spread_bytes bound] k word_less_nat_alt)
next
  case False
  then show ?thesis
    by (auto simp: memset_def)
qed

lemma unat_minus_1_pos: "0 < unat (x :: uint) \<Longrightarrow> unat (x - 1) = unat x - 1"
  by (rule unat_minus_one) auto

lemma copy_up_eq:
  assumes "unat s + k \<le> 2 ^ 32" "unat d + k \<le> 2 ^ 32" "unat d \<le> unat s \<or> unat s + k \<le> unat d"
  shows "copy_up m d s k a = (if unat (a - d) < k then m (s + (a - d)) else m a)"
  using assms
proof (induction k arbitrary: m d s)
  case 0
  then show ?case by simp
next
  case (Suc k)
  show ?case
  proof (cases "k = 0")
    case True
    then show ?thesis
      by (auto simp: unat_eq_0)
  next
    case False
    with Suc.prems have d1: "unat (d + 1) = unat d + 1" and s1: "unat (s + 1) = unat s + 1"
      by (simp_all add: unat_plus_if' )
    have step: "copy_up m d s (Suc k) a =
        (if unat (a - (d + 1)) < k then (m(d := m s)) (s + (a - d)) else (m(d := m s)) a)"
    proof -
      have "s + 1 + (a - (d + 1)) = s + (a - d)"
        by simp
      moreover have "copy_up (m(d := m s)) (d + 1) (s + 1) k a =
          (if unat (a - (d + 1)) < k then (m(d := m s)) (s + 1 + (a - (d + 1))) else (m(d := m s)) a)"
        using Suc.prems d1 s1 by (intro Suc.IH) auto
      ultimately show ?thesis
        by (simp only: copy_up.simps)
    qed
    show ?thesis
    proof (cases "a = d")
      case True
      have "unat (- 1 :: uint) = 2 ^ 32 - 1"
        by (simp add: unsigned_minus_1_eq_mask mask_eq_exp_minus_1)
      with True Suc.prems show ?thesis
        unfolding step by auto
    next
      case False
      then have "0 < unat (a - d)"
        by (simp add: unat_gt_0)
      then have less: "unat (a - (d + 1)) < k \<longleftrightarrow> unat (a - d) < Suc k"
        using unat_minus_1_pos [of "a - d"] by (simp add: algebra_simps) linarith
      have "s + (a - d) \<noteq> d" if lt: "unat (a - d) < Suc k"
      proof
        assume eq: "s + (a - d) = d"
        have "unat s + unat (a - d) < 2 ^ 32"
          using lt Suc.prems(1) by simp
        then have "unat (s + (a - d)) = unat s + unat (a - d)"
          by (simp add: unat_add_lem [symmetric])
        then have "unat d = unat s + unat (a - d)"
          by (simp only: eq)
        with lt Suc.prems(3) \<open>0 < unat (a - d)\<close> show False
          by simp
      qed
      with False less show ?thesis
        unfolding step by auto
    qed
  qed
qed

lemma copy_down_eq:
  assumes "unat s + k \<le> 2 ^ 32" "unat d + k \<le> 2 ^ 32" "unat s \<le> unat d"
  shows "copy_down m (d + of_nat k) (s + of_nat k) k a =
    (if unat (a - d) < k then m (s + (a - d)) else m a)"
  using assms
proof (induction k arbitrary: m)
  case 0
  then show ?case by simp
next
  case (Suc k)
  let ?K = "of_nat k :: uint"
  have K: "unat ?K = k"
    using Suc.prems(1) by (simp add: unsigned_of_nat take_bit_nat_eq_self)
  have step: "copy_down m (d + of_nat (Suc k)) (s + of_nat (Suc k)) (Suc k) a =
      (if unat (a - d) < k then (m(d + ?K := m (s + ?K))) (s + (a - d))
       else (m(d + ?K := m (s + ?K))) a)"
    using Suc by (simp add: Let_def algebra_simps)
  show ?case
  proof (cases "unat (a - d) < k")
    case True
    have "s + (a - d) \<noteq> d + ?K"
    proof
      assume eq: "s + (a - d) = d + ?K"
      have "unat s + unat (a - d) < 2 ^ 32" "unat d + unat ?K < 2 ^ 32"
        using True K Suc.prems(1,2) by simp_all
      then have "unat (s + (a - d)) = unat s + unat (a - d)" "unat (d + ?K) = unat d + unat ?K"
        by (simp_all add: unat_add_lem [symmetric])
      then have "unat s + unat (a - d) = unat d + k"
        using eq K by simp
      with True Suc.prems(3) show False by simp
    qed
    with True show ?thesis
      unfolding step by simp
  next
    case False
    have "a = d + ?K \<longleftrightarrow> a - d = ?K"
      by (simp add: diff_eq_eq add.commute)
    also have "\<dots> \<longleftrightarrow> unat (a - d) = k"
      by (simp only: word_unat_eq_iff K)
    finally have "a = d + ?K \<longleftrightarrow> unat (a - d) = k" .
    with False show ?thesis
      unfolding step by (auto simp: less_Suc_eq)
  qed
qed
text \<open>\<open>memmove\<close> copies as if through a buffer, whether the two areas overlap or not, as long as
  neither of them runs past the end of the address space.\<close>

lemma memmove_eq:
  assumes src: "unat src + unat n < 2 ^ 32" and dst: "unat dst + unat n \<le> 2 ^ 32"
  shows "memmove m dst src n = (\<lambda>a. if a - dst < n then m (src + (a - dst)) else m a)"
proof (cases "src < dst \<and> src + n > dst")
  case True
  have "memmove m dst src n a = copy_down m (dst + of_nat (unat n)) (src + of_nat (unat n)) (unat n) a" for a
    using True by (simp add: memmove_def)
  then show ?thesis
    using True src dst
    by (simp only: fun_eq_iff copy_down_eq [of src "unat n" dst] less_imp_le word_less_nat_alt) simp
next
  case False
  have "unat (src + n) = unat src + unat n"
    using src by (simp add: unat_add_lem [symmetric])
  with False have "unat dst \<le> unat src \<or> unat src + unat n \<le> unat dst"
    by (auto simp: word_less_nat_alt)
  then show ?thesis
    unfolding memmove_def if_not_P [OF False]
    using src dst by (simp add: fun_eq_iff copy_up_eq word_less_nat_alt)
qed

section \<open>Properties\<close>

text \<open>\<open>memset\<close> stores the low byte of its argument into the \<open>n\<close> bytes from \<open>dst\<close> on and nowhere
  else, whether it takes the word-wise path (aligned address and length) or the byte-wise one.\<close>

theorem memset_correct: "memset m dst ch n = (\<lambda>a. if a - dst < n then ucast ch else m a)"
  by (simp add: memset_stosb stosb_def)

text \<open>C30: \<open>memmove\<close> (and \<open>memcpy\<close>) copies as if through a buffer: afterwards the destination holds
  what the source held before, also when the areas overlap, and no other byte changes.\<close>

theorem memmove_correct:
  assumes "unat src + unat n < 2 ^ 32" "unat dst + unat n \<le> 2 ^ 32"
  shows "memmove m dst src n = (\<lambda>a. if a - dst < n then m (src + (a - dst)) else m a)
    \<and> memcpy m dst src n = memmove m dst src n"
  using memmove_eq [OF assms] by (simp add: memcpy_def)

theorem memmove_correct_witness:
  "memmove (\<lambda>a. ucast a) 0x1002 0x1000 8 0x1005 = (3 :: uchar)
    \<and> memmove (\<lambda>a. ucast a) 0x1000 0x1002 8 0x1005 = (7 :: uchar)"
  using memmove_correct [of "0x1000" 8 "0x1002" "\<lambda>a. ucast a"]
    memmove_correct [of "0x1002" 8 "0x1000" "\<lambda>a. ucast a"]
  by simp

end
