(* ===== verification/Kalloc.thy ===== *)
theory Kalloc
  imports Cprintf CString
begin

text \<open>
  \<^verbatim>\<open>kalloc.c\<close>, the physical page allocator, with the address arithmetic of \<^verbatim>\<open>memlayout.h\<close> and
  \<^verbatim>\<open>mmu.h\<close>. The memory \<open>ram\<close> is indexed by kernel virtual addresses, the ones the kernel's code
  uses. The free list is threaded through the free pages: the first word of a free page is the
  address of the next one.
\<close>

section \<open>Memory layout\<close>

definition EXTMEM :: uint where "EXTMEM = 0x100000"
definition PHYSTOP :: uint where "PHYSTOP = 0xE000000"
definition DEVSPACE :: uint where "DEVSPACE = 0xFE000000"
definition KERNBASE :: uint where "KERNBASE = 0x80000000"
definition KERNLINK :: uint where "KERNLINK = KERNBASE + EXTMEM"
definition PGSIZE :: uint where "PGSIZE = 4096"

definition V2P :: "uint \<Rightarrow> uint" where "V2P a = a - KERNBASE"
definition P2V :: "uint \<Rightarrow> uint" where "P2V a = a + KERNBASE"

definition PGROUNDUP :: "uint \<Rightarrow> uint" where
  "PGROUNDUP sz = (sz + PGSIZE - 1) AND NOT (PGSIZE - 1)"

definition PGROUNDDOWN :: "uint \<Rightarrow> uint" where
  "PGROUNDDOWN a = a AND NOT (PGSIZE - 1)"

section \<open>The allocator\<close>

record kmem_state = con_state +
  ram :: mem
  freelist :: uint
  use_lock :: bool
  kend :: uint

definition kfree :: "nat \<Rightarrow> uint \<Rightarrow> 'a kmem_state_scheme \<Rightarrow> 'a kmem_state_scheme res" where
  "kfree c v s =
     (if v mod PGSIZE \<noteq> 0 \<or> v < kend s \<or> V2P v \<ge> PHYSTOP then Panic ''kfree''
      else let s = s\<lparr>ram := memset (ram s) v 1 PGSIZE\<rparr>
           in bindr (if use_lock s then acquire c L_kmem s else Ok s) (\<lambda>s.
              let s = s\<lparr>ram := store32 (ram s) v (freelist s), freelist := v\<rparr>
              in if use_lock s then release c L_kmem s else Ok s))"

definition kalloc :: "nat \<Rightarrow> 'a kmem_state_scheme \<Rightarrow> (uint \<times> 'a kmem_state_scheme) res" where
  "kalloc c s =
     bindr (if use_lock s then acquire c L_kmem s else Ok s) (\<lambda>s.
       let r = freelist s;
           s = (if r \<noteq> 0 then s\<lparr>freelist := load32 (ram s) r\<rparr> else s)
       in bindr (if use_lock s then release c L_kmem s else Ok s) (\<lambda>s. Ok (r, s)))"

lemma kfree_Ok_range:
  "kfree c v s = Ok t \<Longrightarrow> v mod PGSIZE = 0 \<and> kend s \<le> v \<and> V2P v < PHYSTOP"
  by (auto simp: kfree_def split: if_splits)

lemma V2P_less_PHYSTOP:
  assumes "V2P v < PHYSTOP"
  shows "unat KERNBASE \<le> unat v" "unat v < unat KERNBASE + unat PHYSTOP"
  using assms unat32_less [of v] unfolding V2P_def PHYSTOP_def KERNBASE_def word_less_nat_alt
  by (simp_all add: unat_sub_if' split: if_splits)

text \<open>The loop ends: \<open>kfree\<close> lets it go on only for pages below the top of physical memory.\<close>

function free_pages :: "nat \<Rightarrow> uint \<Rightarrow> uint \<Rightarrow> 'a kmem_state_scheme \<Rightarrow> 'a kmem_state_scheme res"
  where
  "free_pages c p vend s =
     (if p + PGSIZE \<le> vend then bindr (kfree c p s) (\<lambda>s. free_pages c (p + PGSIZE) vend s)
      else Ok s)"
  by pat_completeness auto
termination
proof (relation "measure (\<lambda>(c, p, vend, s). 2 ^ 32 - unat p)")
  fix c p vend and s t :: "'a kmem_state_scheme"
  assume "kfree c p s = Ok t"
  then have "unat p < unat KERNBASE + unat PHYSTOP"
    by (simp add: kfree_Ok_range V2P_less_PHYSTOP)
  then have "unat (p + PGSIZE) = unat p + 4096"
    unfolding KERNBASE_def PHYSTOP_def PGSIZE_def by (simp add: unat_plus_if')
  then show "((c, p + PGSIZE, vend, t), c, p, vend, s) \<in> measure (\<lambda>(c, p, vend, s). 2 ^ 32 - unat p)"
    using unat32_less [of p] unat32_less [of "p + PGSIZE"] by simp
qed simp

definition freerange :: "nat \<Rightarrow> uint \<Rightarrow> uint \<Rightarrow> 'a kmem_state_scheme \<Rightarrow> 'a kmem_state_scheme res" where
  "freerange c vstart vend s = free_pages c (PGROUNDUP vstart) vend s"

definition kinit1 :: "nat \<Rightarrow> uint \<Rightarrow> uint \<Rightarrow> 'a kmem_state_scheme \<Rightarrow> 'a kmem_state_scheme res" where
  "kinit1 c vstart vend s =
     (let s = initlock L_kmem ''kmem'' s; s = s\<lparr>use_lock := False\<rparr>
      in freerange c vstart vend s)"

definition kinit2 :: "nat \<Rightarrow> uint \<Rightarrow> uint \<Rightarrow> 'a kmem_state_scheme \<Rightarrow> 'a kmem_state_scheme res" where
  "kinit2 c vstart vend s =
     bindr (freerange c vstart vend s) (\<lambda>s. Ok (s\<lparr>use_lock := True\<rparr>))"

declare free_pages.simps [simp del]

section \<open>The free list\<close>

primrec flist :: "mem \<Rightarrow> uint \<Rightarrow> uint list \<Rightarrow> bool" where
  "flist m p [] \<longleftrightarrow> p = 0"
| "flist m p (x # xs) \<longleftrightarrow> p = x \<and> x \<noteq> 0 \<and> flist m (load32 m x) xs"

text \<open>The pages \<open>kfree\<close> accepts.\<close>

definition page_ok :: "'a kmem_state_scheme \<Rightarrow> uint \<Rightarrow> bool" where
  "page_ok s v \<longleftrightarrow> v mod PGSIZE = 0 \<and> kend s \<le> v \<and> V2P v < PHYSTOP"

definition kmem_inv :: "'a kmem_state_scheme \<Rightarrow> uint list \<Rightarrow> bool" where
  "kmem_inv s xs \<longleftrightarrow>
     flist (ram s) (freelist s) xs \<and> distinct xs \<and> (\<forall>x \<in> set xs. page_ok s x)"

text \<open>A CPU that may call the allocator: the lock is in use only when it is free and not held by the
  caller.\<close>

definition kmem_ready :: "nat \<Rightarrow> 'a kmem_state_scheme \<Rightarrow> bool" where
  "kmem_ready c s \<longleftrightarrow>
     (use_lock s \<longrightarrow> c < length (cpus s) \<and> cpu_ok (the_cpu c s) \<and> lock_idle L_kmem s)"

definition kmem_settle :: "nat \<Rightarrow> 'a kmem_state_scheme \<Rightarrow> 'a kmem_state_scheme" where
  "kmem_settle c s = (if use_lock s then settle c s else s)"

definition same_page :: "uint \<Rightarrow> uint \<Rightarrow> bool" where
  "same_page v a \<longleftrightarrow> a - v < PGSIZE"

lemma page_ok_nonzero: "page_ok s v \<Longrightarrow> v \<noteq> 0"
  by (auto simp: page_ok_def V2P_def KERNBASE_def PHYSTOP_def)

lemma flist_inj: "flist m p xs \<Longrightarrow> flist m p ys \<Longrightarrow> xs = ys"
  by (induction xs arbitrary: p ys) (case_tac ys; auto)+

lemma flist_cong:
  "(\<And>x. x \<in> set xs \<Longrightarrow> load32 m x = load32 m' x) \<Longrightarrow> flist m p xs = flist m' p xs"
  by (induction xs arbitrary: p) auto

lemma page_dvd: "unat PGSIZE dvd 2 ^ 32"
  by (simp add: PGSIZE_def)

lemma page_aligned_4: "v mod PGSIZE = 0 \<Longrightarrow> v mod 4 = 0"
  for v :: uint
proof -
  assume "v mod PGSIZE = 0"
  then have "unat v mod 4096 = 0"
    using unat_mod [of v PGSIZE] by (simp add: PGSIZE_def)
  then have "unat v mod 4 = 0"
    using mod_mod_cancel [of 4 4096 "unat v"] by simp
  then show ?thesis
    using unat_mod [of v 4] by (simp add: word_unat_eq_iff)
qed

lemma other_page:
  assumes "v mod PGSIZE = 0" "x mod PGSIZE = 0" "x \<noteq> v" "i < PGSIZE"
  shows "\<not> same_page v (x + i)"
proof
  assume "same_page v (x + i)"
  then have "x = v \<and> i = x + i - v"
    using aligned_split [OF page_dvd assms(2,1,4), of "x + i - v"] by (simp add: same_page_def)
  then show False
    using assms(3) by simp
qed

lemma store32_same_page:
  assumes "v mod PGSIZE = 0" "\<not> same_page v a"
  shows "store32 m v w a = m a"
proof -
  have "a \<noteq> v + i" if "i < PGSIZE" for i
    using assms(2) that by (auto simp: same_page_def)
  from this [of 0] this [of 1] this [of 2] this [of 3] show ?thesis
    by (intro store32_other) (simp_all add: PGSIZE_def)
qed

lemma memset_page: "memset m v ch PGSIZE = (\<lambda>a. if same_page v a then ucast ch else m a)"
  by (simp add: memset_stosb stosb_def same_page_def)

lemma load32_same_page_cong:
  assumes "v mod PGSIZE = 0" "x mod PGSIZE = 0" "x \<noteq> v"
    and "\<And>a. \<not> same_page v a \<Longrightarrow> m a = m' a"
  shows "load32 m x = load32 m' x"
  using other_page [OF assms(1-3), of 0] other_page [OF assms(1-3), of 1]
    other_page [OF assms(1-3), of 2] other_page [OF assms(1-3), of 3]
  by (intro load32_cong) (simp_all add: assms(4) PGSIZE_def)

section \<open>Allocation and release\<close>

lemma kmem_inv_cong:
  "ram t = ram s \<Longrightarrow> freelist t = freelist s \<Longrightarrow> kend t = kend s \<Longrightarrow> kmem_inv t xs = kmem_inv s xs"
  by (simp add: kmem_inv_def page_ok_def)

lemma kalloc_eq:
  assumes "kmem_ready c s"
  shows "kalloc c s = Ok (freelist s, kmem_settle c
     (s\<lparr>freelist := (if freelist s \<noteq> 0 then load32 (ram s) (freelist s) else freelist s)\<rparr>))"
proof (cases "use_lock s")
  case True
  let ?s = "grabbed c L_kmem s"
  let ?t = "if freelist ?s \<noteq> 0 then ?s\<lparr>freelist := load32 (ram ?s) (freelist ?s)\<rparr> else ?s"
  have a: "c < length (cpus s)" "cpu_ok (the_cpu c s)" "lock_idle L_kmem s"
    using assms True by (auto simp: kmem_ready_def)
  have "release c L_kmem ?t = Ok (?t\<lparr>cpus := upd c settled (cpus s), locks := locks s\<rparr>)"
    by (rule release_grabbed [OF a]) simp_all
  then show ?thesis
    using True
    by (auto simp: kalloc_def acquire_grabbed [OF a] Let_def kmem_settle_def settle_def grabbed_def
        set_lock_def upd_cpu_def)
next
  case False
  then show ?thesis
    by (simp add: kalloc_def kmem_settle_def Let_def)
qed

lemma kfree_eq:
  assumes "kmem_ready c s" "page_ok s v"
  shows "kfree c v s = Ok (kmem_settle c
     (s\<lparr>ram := store32 (memset (ram s) v 1 PGSIZE) v (freelist s), freelist := v\<rparr>))"
proof (cases "use_lock s")
  case True
  let ?u = "s\<lparr>ram := memset (ram s) v 1 PGSIZE\<rparr>"
  let ?s = "grabbed c L_kmem ?u"
  let ?t = "?s\<lparr>ram := store32 (ram ?s) v (freelist ?s), freelist := v\<rparr>"
  have a: "c < length (cpus ?u)" "cpu_ok (the_cpu c ?u)" "lock_idle L_kmem ?u"
    using assms True by (auto simp: kmem_ready_def lock_idle_def)
  have "release c L_kmem ?t = Ok (?t\<lparr>cpus := upd c settled (cpus ?u), locks := locks ?u\<rparr>)"
    by (rule release_grabbed [OF a]) simp_all
  then show ?thesis
    using True assms(2)
    by (auto simp: kfree_def page_ok_def acquire_grabbed [OF a] Let_def kmem_settle_def settle_def
        grabbed_def set_lock_def upd_cpu_def)
next
  case False
  then show ?thesis
    using assms(2) by (auto simp: kfree_def kmem_settle_def page_ok_def Let_def)
qed

lemma kmem_settle_frame [simp]:
  "ram (kmem_settle c s) = ram s" "freelist (kmem_settle c s) = freelist s"
  "use_lock (kmem_settle c s) = use_lock s" "kend (kmem_settle c s) = kend s"
  "locks (kmem_settle c s) = locks s" "length (cpus (kmem_settle c s)) = length (cpus s)"
  "kmem_state.more (kmem_settle c s) = kmem_state.more s"
  "kout (kmem_settle c s) = kout s" "cons_locking (kmem_settle c s) = cons_locking s"
  by (simp_all add: kmem_settle_def settle_def upd_cpu_def)

text \<open>What the allocator leaves alone: everything but the memory, the list head and the CPU's saved
  interrupt flag.\<close>

definition kmem_frame :: "nat \<Rightarrow> 'a kmem_state_scheme \<Rightarrow> 'a kmem_state_scheme \<Rightarrow> bool" where
  "kmem_frame c s t \<longleftrightarrow>
     (cpus t = cpus s \<or> c < length (cpus s) \<and> cpus t = upd c settled (cpus s)) \<and> locks t = locks s
     \<and> kout t = kout s \<and> cons_locking t = cons_locking s
     \<and> use_lock t = use_lock s \<and> kend t = kend s \<and> kmem_state.more t = kmem_state.more s"

lemma kmem_frame_refl [simp]: "kmem_frame c s s"
  by (simp add: kmem_frame_def)

lemma kmem_frame_trans [trans]:
  assumes "kmem_frame c s t" "kmem_frame c t u" shows "kmem_frame c s u"
proof -
  have "upd c settled (upd c settled (cpus s)) = upd c settled (cpus s)" if "c < length (cpus s)"
    using that by (simp add: upd_upd comp_def)
  then show ?thesis
    using assms by (auto simp: kmem_frame_def)
qed

lemma kmem_frame_ram [simp]:
  "kmem_frame c s (t\<lparr>ram := m\<rparr>) = kmem_frame c s t"
  "kmem_frame c s (t\<lparr>freelist := f\<rparr>) = kmem_frame c s t"
  by (simp_all add: kmem_frame_def)

lemma kmem_frame_settle: "kmem_ready c s \<Longrightarrow> kmem_frame c s (kmem_settle c s)"
  by (auto simp: kmem_frame_def kmem_settle_def settle_def upd_cpu_def kmem_ready_def)

lemma kmem_frame_page_ok: "kmem_frame c s t \<Longrightarrow> page_ok t = page_ok s"
  by (simp add: kmem_frame_def page_ok_def fun_eq_iff)

lemma kmem_frame_ready: "kmem_frame c s t \<Longrightarrow> kmem_ready c s \<Longrightarrow> kmem_ready c t"
  by (auto simp: kmem_frame_def kmem_ready_def lock_idle_def nth_upd)

text \<open>\<open>kalloc\<close> takes the first page of the list.\<close>

lemma kalloc_inv:
  assumes "kmem_ready c s" "kmem_inv s xs"
  shows "\<exists>t. kalloc c s = Ok ((case xs of [] \<Rightarrow> 0 | x # _ \<Rightarrow> x), t) \<and> kmem_inv t (tl xs)
    \<and> ram t = ram s \<and> kmem_frame c s t"
  using assms kmem_frame_settle [OF assms(1)]
  by (cases xs) (auto simp: kalloc_eq kmem_inv_def page_ok_def kmem_frame_def kmem_settle_def
      settle_def upd_cpu_def)

text \<open>\<open>kfree\<close> puts the page in front of the list and writes nowhere else.\<close>

lemma kfree_inv:
  assumes "kmem_ready c s" "kmem_inv s xs" "page_ok s v" "v \<notin> set xs"
  shows "\<exists>t. kfree c v s = Ok t \<and> kmem_inv t (v # xs) \<and> kmem_frame c s t
    \<and> (\<forall>a. \<not> same_page v a \<longrightarrow> ram t a = ram s a)"
proof -
  let ?m = "store32 (memset (ram s) v 1 PGSIZE) v (freelist s)"
  have v: "v mod PGSIZE = 0"
    using assms(3) by (simp add: page_ok_def)
  have out: "?m a = ram s a" if "\<not> same_page v a" for a
    using that by (simp add: store32_same_page [OF v] memset_page)
  have "flist ?m (freelist s) xs = flist (ram s) (freelist s) xs"
  proof (rule flist_cong)
    fix x assume "x \<in> set xs"
    then have "x mod PGSIZE = 0" "x \<noteq> v"
      using assms(2,4) by (auto simp: kmem_inv_def page_ok_def)
    then show "load32 ?m x = load32 (ram s) x"
      by (rule load32_same_page_cong [OF v]) (simp add: out)
  qed
  moreover have "kmem_frame c s (kmem_settle c (s\<lparr>ram := ?m, freelist := v\<rparr>))"
    using kmem_frame_settle [OF assms(1)]
    by (simp add: kmem_frame_def kmem_settle_def settle_def upd_cpu_def split: if_splits)
  ultimately show ?thesis
    using assms page_ok_nonzero [OF assms(3)] out
    by (auto simp: kfree_eq kmem_inv_def page_ok_def load_store_same)
qed

text \<open>The pages of a range, and freeing them all.\<close>

primrec page_run :: "uint \<Rightarrow> nat \<Rightarrow> uint list" where
  "page_run p 0 = []"
| "page_run p (Suc n) = p # page_run (p + PGSIZE) n"

lemma free_pages_inv:
  assumes "kmem_ready c s" "kmem_inv s xs"
    "\<forall>v \<in> set (page_run p n). page_ok s v" "distinct (page_run p n)"
    "set (page_run p n) \<inter> set xs = {}"
    "unat vend < unat p + n * 4096 + 4096" "unat vend + 4096 < 2 ^ 32"
    "unat p + n * 4096 \<le> unat vend"
  shows "\<exists>t. free_pages c p vend s = Ok t \<and> kmem_inv t (rev (page_run p n) @ xs) \<and> kmem_frame c s t
    \<and> (\<forall>a. (\<forall>v \<in> set (page_run p n). \<not> same_page v a) \<longrightarrow> ram t a = ram s a)"
  using assms
proof (induction n arbitrary: p s xs)
  case 0
  then have "\<not> p + PGSIZE \<le> vend"
    by (simp add: word_le_nat_alt PGSIZE_def unat_plus_if')
  then show ?case
    using 0 by (simp add: free_pages.simps [of c p])
next
  case (Suc n)
  obtain t where t: "kfree c p s = Ok t" "kmem_inv t (p # xs)" "kmem_frame c s t"
    "\<forall>a. \<not> same_page p a \<longrightarrow> ram t a = ram s a"
    using kfree_inv [OF Suc.prems(1,2), of p] Suc.prems(3,5) by auto
  have up: "unat (p + PGSIZE) = unat p + 4096"
    using Suc.prems(8) unat32_less [of vend] by (simp add: PGSIZE_def unat_plus_if')
  then have le: "p + PGSIZE \<le> vend"
    using Suc.prems(8) by (simp add: word_le_nat_alt)
  have "\<exists>u. free_pages c (p + PGSIZE) vend t = Ok u
      \<and> kmem_inv u (rev (page_run (p + PGSIZE) n) @ p # xs) \<and> kmem_frame c t u
      \<and> (\<forall>a. (\<forall>v \<in> set (page_run (p + PGSIZE) n). \<not> same_page v a) \<longrightarrow> ram u a = ram t a)"
    using Suc.prems t up
    by (intro Suc.IH) (auto simp: kmem_frame_ready kmem_frame_page_ok algebra_simps)
  with t le show ?case
    by (fastforce simp: free_pages.simps [of c p] intro: kmem_frame_trans)
qed

lemma PGROUNDDOWN_eq: "PGROUNDDOWN a = a - a mod PGSIZE"
proof -
  have "PGSIZE - 1 = mask 12" "PGSIZE = 2 ^ 12"
    by (simp_all add: PGSIZE_def mask_eq_exp_minus_1)
  moreover have "a AND NOT (mask 12) = push_bit 12 (drop_bit 12 a)"
    by (rule bit_word_eqI) (auto simp: bit_simps)
  moreover have "push_bit 12 (drop_bit 12 a) + take_bit 12 a = a"
    by (rule bits_ident)
  ultimately show ?thesis
    by (simp add: PGROUNDDOWN_def take_bit_eq_mod eq_diff_eq)
qed

lemma unat_PGROUNDDOWN: "unat (PGROUNDDOWN a) = unat a - unat a mod 4096"
proof -
  have "a mod PGSIZE \<le> a"
    by (simp add: word_le_nat_alt unat_mod)
  then show ?thesis
    by (simp add: PGROUNDDOWN_eq unat_sub unat_mod PGSIZE_def)
qed

lemma PGROUNDDOWN_aligned [simp]: "PGROUNDDOWN a mod PGSIZE = 0"
proof -
  have "(unat a - unat a mod 4096) mod 4096 = 0"
    by (simp add: minus_mod_eq_mult_div)
  then show ?thesis
    by (simp add: word_unat_eq_iff unat_mod unat_PGROUNDDOWN) (simp add: PGSIZE_def)
qed

lemma PGROUNDUP_DOWN: "PGROUNDUP a = PGROUNDDOWN (a + (PGSIZE - 1))"
  by (simp add: PGROUNDUP_def PGROUNDDOWN_def algebra_simps)

lemma PGROUNDUP_aligned [simp]: "PGROUNDUP a mod PGSIZE = 0"
  by (simp add: PGROUNDUP_DOWN)

lemma unat_PGROUNDUP:
  assumes "unat a + 4095 < 2 ^ 32"
  shows "unat (PGROUNDUP a) = unat a + 4095 - (unat a + 4095) mod 4096"
proof -
  have "unat (a + (PGSIZE - 1)) = unat a + 4095"
    using assms by (simp add: PGSIZE_def unat_plus_if')
  then show ?thesis
    by (simp add: PGROUNDUP_DOWN unat_PGROUNDDOWN)
qed

lemma PGROUNDUP_bounds:
  assumes "unat a + 4095 < 2 ^ 32"
  shows "unat a \<le> unat (PGROUNDUP a)" "unat (PGROUNDUP a) < unat a + 4096"
  using mod_less_divisor [of 4096 "unat a + 4095"]
  by (simp_all add: unat_PGROUNDUP [OF assms])

lemma unat_page_run:
  assumes "unat p + n * 4096 < 2 ^ 32" "v \<in> set (page_run p n)"
  shows "\<exists>i < n. unat v = unat p + i * 4096"
  using assms
proof (induction n arbitrary: p)
  case (Suc n)
  have "unat (p + PGSIZE) = unat p + 4096"
    using Suc.prems(1) by (simp add: PGSIZE_def unat_plus_if')
  then show ?case
    using Suc.prems Suc.IH [of "p + PGSIZE"] by (fastforce intro: exI [of _ "Suc _"])
qed simp

lemma page_aligned_add:
  assumes "a mod PGSIZE = 0" "b mod PGSIZE = 0" shows "(a + b) mod PGSIZE = 0"
proof -
  have "4096 dvd unat a" "4096 dvd unat b"
    using assms unat_mod [of a PGSIZE] unat_mod [of b PGSIZE] by (auto simp: PGSIZE_def)
  then have "4096 dvd unat (a + b)"
    by (auto simp: unat_plus_if' dvd_diff_nat)
  then show ?thesis
    using unat_mod [of "a + b" PGSIZE] by (simp add: word_unat_eq_iff PGSIZE_def)
qed

lemma page_run_aligned: "p mod PGSIZE = 0 \<Longrightarrow> v \<in> set (page_run p n) \<Longrightarrow> v mod PGSIZE = 0"
proof (induction n arbitrary: p)
  case (Suc n)
  have "(p + PGSIZE) mod PGSIZE = 0"
    using Suc.prems(1) by (intro page_aligned_add) simp_all
  then show ?case
    using Suc.prems Suc.IH [of "p + PGSIZE"] by (metis page_run.simps(2) set_ConsD)
qed simp

lemma distinct_page_run: "unat p + n * 4096 < 2 ^ 32 \<Longrightarrow> distinct (page_run p n)"
proof (induction n arbitrary: p)
  case (Suc n)
  have u: "unat (p + PGSIZE) = unat p + 4096"
    using Suc.prems(1) by (simp add: PGSIZE_def unat_plus_if')
  then have "p \<notin> set (page_run (p + PGSIZE) n)"
    using Suc.prems unat_page_run [of "p + PGSIZE" n p] by auto
  then show ?case
    using Suc.prems u Suc.IH by simp
qed simp

definition npages :: "uint \<Rightarrow> uint \<Rightarrow> nat" where
  "npages p vend = (unat vend - unat p) div 4096"

text \<open>\<open>freerange\<close> hands every whole page of the range to the allocator.\<close>

lemma page_run_ok:
  assumes "p mod PGSIZE = 0" "kend s \<le> p" "KERNBASE \<le> p" "unat p + n * 4096 \<le> unat KERNBASE + unat PHYSTOP"
    "v \<in> set (page_run p n)"
  shows "page_ok s v"
proof -
  have "unat p + n * 4096 < 2 ^ 32"
    using assms(4) by (simp add: KERNBASE_def PHYSTOP_def)
  then obtain i where i: "i < n" "unat v = unat p + i * 4096"
    using unat_page_run assms(5) by blast
  then have "unat v < unat KERNBASE + unat PHYSTOP" "unat p \<le> unat v"
    using assms(4) by auto
  then have "V2P v < PHYSTOP" "kend s \<le> v"
    using assms(2,3)
    by (auto simp: V2P_def word_less_nat_alt word_le_nat_alt unat_sub_if' KERNBASE_def PHYSTOP_def)
  then show ?thesis
    using page_run_aligned [OF assms(1,5)] by (simp add: page_ok_def)
qed

lemma freerange_inv:
  assumes "kmem_ready c s" "kmem_inv s xs" "kend s \<le> vstart" "KERNBASE \<le> vstart"
    "vstart \<le> vend" "vend \<le> KERNBASE + PHYSTOP" "\<forall>x \<in> set xs. x < vstart \<or> vend \<le> x"
  defines "ps \<equiv> page_run (PGROUNDUP vstart) (npages (PGROUNDUP vstart) vend)"
  shows "\<exists>t. freerange c vstart vend s = Ok t \<and> kmem_inv t (rev ps @ xs) \<and> kmem_frame c s t
    \<and> (\<forall>a. (\<forall>v \<in> set ps. \<not> same_page v a) \<longrightarrow> ram t a = ram s a)"
proof -
  let ?p = "PGROUNDUP vstart" let ?n = "npages ?p vend"
  have le: "unat vstart \<le> unat vend" "unat vend \<le> unat KERNBASE + unat PHYSTOP"
    using assms(5,6) by (simp_all add: word_le_nat_alt KERNBASE_def PHYSTOP_def)
  then have p: "unat vstart \<le> unat ?p" "unat ?p < unat vstart + 4096"
    using PGROUNDUP_bounds [of vstart] by (simp_all add: KERNBASE_def PHYSTOP_def)
  show ?thesis
  proof (cases "unat ?p \<le> unat vend")
    case True
    then have n: "unat ?p + ?n * 4096 \<le> unat vend" "unat vend < unat ?p + ?n * 4096 + 4096"
      using mod_less_divisor [of 4096 "unat vend - unat ?p"]
      by (simp_all add: npages_def minus_mod_eq_div_mult [symmetric])
    have v: "unat vend + 4096 < 2 ^ 32"
      using le by (simp add: KERNBASE_def PHYSTOP_def)
    have ok: "\<forall>v \<in> set ps. page_ok s v"
      using assms(3,4) n(1) le p page_run_ok [of ?p s ?n]
      by (auto simp: ps_def word_le_nat_alt)
    have lt: "unat ?p + ?n * 4096 < 2 ^ 32"
      using n(1) le by (simp add: KERNBASE_def PHYSTOP_def)
    have "x \<notin> set ps" if "x \<in> set xs" for x
      using unat_page_run [OF lt, of x] bspec [OF assms(7) that] n(1) p
      by (auto simp: ps_def word_less_nat_alt word_le_nat_alt)
    then show ?thesis
      using free_pages_inv [OF assms(1,2) _ _ _ n(2) v n(1)] ok distinct_page_run [OF lt]
      by (auto simp: freerange_def ps_def)
  next
    case False
    then have "?n = 0" "\<not> ?p + PGSIZE \<le> vend"
      using le p by (auto simp: npages_def word_le_nat_alt PGSIZE_def unat_plus_if' KERNBASE_def PHYSTOP_def)
    then show ?thesis
      using assms(1,2) by (simp add: freerange_def free_pages.simps ps_def)
  qed
qed

section \<open>The allocator's interface\<close>

datatype page_event = AllocPage | FreePage uint

fun page_step :: "('s \<Rightarrow> (uint \<times> 's) res) \<Rightarrow> (uint \<Rightarrow> 's \<Rightarrow> 's res) \<Rightarrow> page_event \<Rightarrow> uint list \<times> 's
    \<Rightarrow> (uint list \<times> 's) res" where
  "page_step al fr AllocPage (held, s) =
     bindr (al s) (\<lambda>(p, s). Ok (if p = 0 then held else p # held, s))"
| "page_step al fr (FreePage v) (held, s) =
     (if v \<in> set held then bindr (fr v s) (\<lambda>s. Ok (remove1 v held, s)) else Ok (held, s))"

primrec client_run :: "('s \<Rightarrow> (uint \<times> 's) res) \<Rightarrow> (uint \<Rightarrow> 's \<Rightarrow> 's res) \<Rightarrow> page_event list
    \<Rightarrow> uint list \<times> 's \<Rightarrow> (uint list \<times> 's) res" where
  "client_run al fr [] hs = Ok hs"
| "client_run al fr (e # es) hs = bindr (page_step al fr e hs) (client_run al fr es)"

text \<open>What the clients of the allocator rely on: the free pages form a list without repetition,
  \<open>alloc\<close> takes its head and writes no memory, \<open>free\<close> pushes a page and writes only to it.\<close>

locale page_pool =
  fixes alloc :: "'s \<Rightarrow> (uint \<times> 's) res" and free :: "uint \<Rightarrow> 's \<Rightarrow> 's res"
    and pool :: "'s \<Rightarrow> uint list \<Rightarrow> bool" and content :: "'s \<Rightarrow> mem" and frame :: "'s \<Rightarrow> uint \<Rightarrow> bool"
  assumes pool_pages: "pool s xs \<Longrightarrow> distinct xs \<and> 0 \<notin> set xs \<and> (\<forall>x \<in> set xs. frame s x)"
    and alloc_law: "pool s xs \<Longrightarrow> \<exists>t. alloc s = Ok ((case xs of [] \<Rightarrow> 0 | x # _ \<Rightarrow> x), t)
      \<and> pool t (tl xs) \<and> content t = content s \<and> frame t = frame s"
    and free_law: "pool s xs \<Longrightarrow> frame s v \<Longrightarrow> v \<notin> set xs \<Longrightarrow> \<exists>t. free v s = Ok t \<and> pool t (v # xs)
      \<and> frame t = frame s \<and> (\<forall>a. \<not> same_page v a \<longrightarrow> content t a = content s a)"
begin

text \<open>A client that frees only what it was given: at every moment the pages it holds and the free
  pages together are the pages there were, and no page is in both or twice in one.\<close>

lemma page_run_step_law:
  assumes "pool s xs" "distinct (held @ xs)" "\<forall>x \<in> set held. frame s x"
  shows "\<exists>held' t ys. page_step alloc free ev (held, s) = Ok (held', t) \<and> pool t ys \<and> distinct (held' @ ys)
    \<and> set held' \<union> set ys = set held \<union> set xs \<and> (\<forall>x \<in> set held'. frame t x)"
proof (cases ev)
  case AllocPage
  obtain t where t: "alloc s = Ok ((case xs of [] \<Rightarrow> 0 | x # _ \<Rightarrow> x), t)" "pool t (tl xs)"
    "frame t = frame s"
    using alloc_law [OF assms(1)] by blast
  then show ?thesis
    using assms pool_pages [OF assms(1)] AllocPage by (cases xs) auto
next
  case (FreePage v)
  show ?thesis
  proof (cases "v \<in> set held")
    case True
    then obtain t where "free v s = Ok t" "pool t (v # xs)" "frame t = frame s"
      using free_law [OF assms(1), of v] assms(2,3) by auto
    moreover have "set (remove1 v held) = set held - {v}"
      using assms(2) by (simp add: set_remove1_eq)
    ultimately show ?thesis
      using True assms(2,3) FreePage by (intro exI [of _ "remove1 v held"] exI [of _ t] exI [of _ "v # xs"]) auto
  qed (use assms FreePage in auto)
qed

lemma client_run_law:
  assumes "pool s xs" "distinct (held @ xs)" "\<forall>x \<in> set held. frame s x"
  shows "\<exists>held' t ys. client_run alloc free evs (held, s) = Ok (held', t) \<and> pool t ys
    \<and> distinct (held' @ ys) \<and> set held' \<union> set ys = set held \<union> set xs"
  using assms
proof (induction evs arbitrary: held s xs)
  case (Cons ev evs)
  obtain h t ys where "page_step alloc free ev (held, s) = Ok (h, t)" "pool t ys" "distinct (h @ ys)"
    "set h \<union> set ys = set held \<union> set xs" "\<forall>x \<in> set h. frame t x"
    using page_run_step_law [OF Cons.prems] by blast
  then show ?case
    using Cons.IH [of t ys h] by simp
qed auto

text \<open>Giving the page back restores the pool.\<close>

lemma alloc_free:
  assumes "pool s (x # xs)"
  shows "\<exists>t u. alloc s = Ok (x, t) \<and> free x t = Ok u \<and> pool u (x # xs)
    \<and> (\<forall>a. \<not> same_page x a \<longrightarrow> content u a = content s a)"
proof -
  obtain t where t: "alloc s = Ok (x, t)" "pool t xs" "content t = content s" "frame t = frame s"
    using alloc_law [OF assms] by auto
  then show ?thesis
    using free_law [OF t(2), of x] pool_pages [OF assms] by auto
qed

text \<open>Freeing a page makes it the next one handed out.\<close>

lemma free_alloc:
  assumes "pool s xs" "frame s v" "v \<notin> set xs"
  shows "\<exists>t u. free v s = Ok t \<and> alloc t = Ok (v, u) \<and> pool u xs"
  using free_law [OF assms] alloc_law by fastforce

end

definition kmem_pool :: "nat \<Rightarrow> 'a kmem_state_scheme \<Rightarrow> uint list \<Rightarrow> bool" where
  "kmem_pool c s xs \<longleftrightarrow> kmem_ready c s \<and> kmem_inv s xs"

interpretation kmem: page_pool "kalloc c" "kfree c" "kmem_pool c" ram page_ok
  for c
proof
  fix s :: "'a kmem_state_scheme" and xs
  assume pool: "kmem_pool c s xs"
  then show "distinct xs \<and> 0 \<notin> set xs \<and> (\<forall>x \<in> set xs. page_ok s x)"
    using page_ok_nonzero by (fastforce simp: kmem_pool_def kmem_inv_def)
  show "\<exists>t. kalloc c s = Ok ((case xs of [] \<Rightarrow> 0 | x # _ \<Rightarrow> x), t) \<and> kmem_pool c t (tl xs)
      \<and> ram t = ram s \<and> page_ok t = page_ok s"
    using pool unfolding kmem_pool_def
    by (metis kalloc_inv kmem_frame_ready kmem_frame_page_ok)
  fix v assume "page_ok s v" "v \<notin> set xs"
  then show "\<exists>t. kfree c v s = Ok t \<and> kmem_pool c t (v # xs) \<and> page_ok t = page_ok s
      \<and> (\<forall>a. \<not> same_page v a \<longrightarrow> ram t a = ram s a)"
    using pool unfolding kmem_pool_def
    by (metis kfree_inv kmem_frame_ready kmem_frame_page_ok)
qed

section \<open>Properties\<close>

text \<open>C7: A client of the allocator that frees only pages it was given, in whatever order it calls
  \<open>kalloc\<close> and \<open>kfree\<close>: every call comes back, the pages it holds are pairwise different, none of
  them is still in the free list, and no page is lost or made up.\<close>

theorem kalloc_hands_out_disjoint_pages:
  assumes "kmem_pool c s xs"
  shows "\<exists>held t ys. client_run (kalloc c) (kfree c) evs ([], s) = Ok (held, t) \<and> kmem_pool c t ys
    \<and> distinct (held @ ys) \<and> set held \<union> set ys = set xs"
  using kmem.client_run_law [OF assms, of "[]" evs] kmem.pool_pages [OF assms] by auto

definition one_page :: kmem_state where
  "one_page = \<lparr>cpus = cpus two_cpus, locks = locks two_cpus, kout = [], cons_locking = False,
     ram = (\<lambda>_. 0), freelist = 0x80400000, use_lock = True, kend = 0x80200000\<rparr>"

lemma one_page_pool: "kmem_pool 0 one_page [0x80400000]"
  by (simp add: kmem_pool_def kmem_ready_def kmem_inv_def one_page_def two_cpus_def Let_def cpu_ok_def
      lock_idle_def page_ok_def PGSIZE_def V2P_def KERNBASE_def PHYSTOP_def load32_def)

theorem kalloc_hands_out_disjoint_pages_witness:
  "\<exists>held t ys. client_run (kalloc 0) (kfree 0) [AllocPage, AllocPage, FreePage 0x80400000, AllocPage]
       ([], one_page) = Ok (held, t) \<and> set held \<union> set ys = {0x80400000}"
  using kalloc_hands_out_disjoint_pages [OF one_page_pool] by fastforce

text \<open>\<open>kfree\<close> followed by \<open>kalloc\<close> gives the same page back and the rest of the free list is as
  before; the memory outside that page is untouched.\<close>

theorem kfree_kalloc:
  assumes "kmem_ready c s" "kmem_inv s xs" "page_ok s v" "v \<notin> set xs"
  shows "\<exists>t u. kfree c v s = Ok t \<and> kalloc c t = Ok (v, u) \<and> kmem_inv u xs
    \<and> (\<forall>a. \<not> same_page v a \<longrightarrow> ram u a = ram s a)"
proof -
  obtain t where t: "kfree c v s = Ok t" "kmem_inv t (v # xs)" "kmem_frame c s t"
    "\<forall>a. \<not> same_page v a \<longrightarrow> ram t a = ram s a"
    using kfree_inv [OF assms] by blast
  then show ?thesis
    using kalloc_inv [OF kmem_frame_ready [OF t(3) assms(1)] t(2)] by auto
qed

theorem kfree_kalloc_witness:
  "\<exists>t u. kfree 0 0x80401000 one_page = Ok t \<and> kalloc 0 t = Ok (0x80401000, u) \<and> kmem_inv u [0x80400000]"
  using kfree_kalloc [of 0 one_page "[0x80400000]" "0x80401000"] one_page_pool
  by (auto simp: kmem_pool_def page_ok_def one_page_def PGSIZE_def V2P_def KERNBASE_def PHYSTOP_def)

text \<open>\<open>kfree\<close> refuses, by a panic, every address that is not the start of a page between the end of
  the kernel and the top of physical memory, and accepts every other one.\<close>

theorem kfree_panics_iff:
  assumes "kmem_ready c s"
  shows "kfree c v s = Panic ''kfree'' \<longleftrightarrow> \<not> page_ok s v"
proof (cases "page_ok s v")
  case True
  then show ?thesis
    using kfree_eq [OF assms] by simp
next
  case False
  then show ?thesis
    by (auto simp: kfree_def page_ok_def not_less not_le)
qed

theorem kfree_panics_iff_witness: "kfree 0 0x80400004 one_page = Panic ''kfree''"
  using kfree_panics_iff [of 0 one_page "0x80400004"] one_page_pool
  by (simp add: kmem_pool_def page_ok_def PGSIZE_def)

text \<open>\<open>freerange\<close> hands every whole page between \<open>vstart\<close> and \<open>vend\<close> to the allocator, each once,
  and writes to no other memory.\<close>

theorem freerange_frees_every_page:
  assumes "kmem_ready c s" "kmem_inv s xs" "kend s \<le> vstart" "KERNBASE \<le> vstart"
    "vstart \<le> vend" "vend \<le> KERNBASE + PHYSTOP" "\<forall>x \<in> set xs. x < vstart \<or> vend \<le> x"
  shows "\<exists>t. freerange c vstart vend s = Ok t
    \<and> kmem_inv t (rev (page_run (PGROUNDUP vstart) (npages (PGROUNDUP vstart) vend)) @ xs)
    \<and> (\<forall>a. (\<forall>v \<in> set (page_run (PGROUNDUP vstart) (npages (PGROUNDUP vstart) vend)). \<not> same_page v a)
         \<longrightarrow> ram t a = ram s a)"
  using freerange_inv [OF assms] by blast

theorem freerange_frees_every_page_witness:
  "\<exists>t. freerange 0 0x80400001 0x80404000 (one_page\<lparr>freelist := 0\<rparr>) = Ok t
     \<and> kmem_inv t [0x80403000, 0x80402000, 0x80401000]"
proof -
  have "PGROUNDUP 0x80400001 = 0x80401000"
    by (simp add: PGROUNDUP_def PGSIZE_def)
  moreover have "page_run 0x80401000 (npages 0x80401000 0x80404000) = [0x80401000, 0x80402000, 0x80403000]"
    by (simp add: npages_def numeral_3_eq_3 PGSIZE_def)
  moreover have "kmem_ready 0 (one_page\<lparr>freelist := 0\<rparr>)"
    using one_page_pool by (simp add: kmem_pool_def kmem_ready_def one_page_def lock_idle_def)
  ultimately show ?thesis
    using freerange_frees_every_page [of 0 "one_page\<lparr>freelist := 0\<rparr>" "[]" "0x80400001" "0x80404000"]
    by (auto simp: kmem_inv_def one_page_def KERNBASE_def PHYSTOP_def)
qed

end
