(* ===== verification/Vm.thy ===== *)
theory Vm
  imports Kalloc
begin

text \<open>
  \<^verbatim>\<open>vm.c\<close>: page tables. Page directories and page tables are pages of \<open>ram\<close>, read and written as words
  the way the code does. A loop over addresses carries the number of pages of the address space as a
  bound; running out of it (an address that wraps around for ever) is the outcome \<open>Spin\<close>. A pointer
  that the code does not check and that is null is a \<open>Fault\<close> when it is used.
  \<^verbatim>\<open>switchuvm\<close> is in \<open>Proc\<close> and \<^verbatim>\<open>loaduvm\<close> in \<open>Exec\<close>, with the data they read.
\<close>

section \<open>Page table entries\<close>

definition PTE_P :: uint where "PTE_P = 0x001"
definition PTE_W :: uint where "PTE_W = 0x002"
definition PTE_U :: uint where "PTE_U = 0x004"

definition PDX :: "uint \<Rightarrow> uint" where "PDX va = drop_bit 22 va AND 0x3FF"
definition PTX :: "uint \<Rightarrow> uint" where "PTX va = drop_bit 12 va AND 0x3FF"
definition PGADDR :: "uint \<Rightarrow> uint \<Rightarrow> uint \<Rightarrow> uint" where
  "PGADDR d t off = push_bit 22 d OR push_bit 12 t OR off"

definition PTE_ADDR :: "uint \<Rightarrow> uint" where "PTE_ADDR pte = pte AND NOT 0xFFF"
definition PTE_FLAGS :: "uint \<Rightarrow> uint" where "PTE_FLAGS pte = pte AND 0xFFF"

definition NPDENTRIES :: nat where "NPDENTRIES = 1024"

definition PAGES :: nat where "PAGES = 2 ^ 20"

record vm_state = kmem_state +
  kpgdir :: uint
  kdata :: uint

abbreviation peek :: "'a kmem_state_scheme \<Rightarrow> uint \<Rightarrow> uint" where
  "peek s a \<equiv> load32 (ram s) a"

definition poke :: "uint \<Rightarrow> uint \<Rightarrow> 'a kmem_state_scheme \<Rightarrow> 'a kmem_state_scheme" where
  "poke a v s = s\<lparr>ram := store32 (ram s) a v\<rparr>"

section \<open>Walking and mapping\<close>

definition walkpgdir :: "nat \<Rightarrow> uint \<Rightarrow> uint \<Rightarrow> bool \<Rightarrow> 'a kmem_state_scheme
    \<Rightarrow> (uint \<times> 'a kmem_state_scheme) res" where
  "walkpgdir c pgdir va al s =
     (let pde = pgdir + 4 * PDX va
      in if peek s pde AND PTE_P \<noteq> 0
         then Ok (P2V (PTE_ADDR (peek s pde)) + 4 * PTX va, s)
         else if \<not> al then Ok (0, s)
         else bindr (kalloc c s) (\<lambda>(pgtab, s).
           if pgtab = 0 then Ok (0, s)
           else let s = s\<lparr>ram := memset (ram s) pgtab 0 PGSIZE\<rparr>;
                    s = poke pde (V2P pgtab OR PTE_P OR PTE_W OR PTE_U) s
                in Ok (pgtab + 4 * PTX va, s)))"

primrec map_loop :: "nat \<Rightarrow> nat \<Rightarrow> uint \<Rightarrow> uint \<Rightarrow> uint \<Rightarrow> uint \<Rightarrow> uint \<Rightarrow> 'a kmem_state_scheme
    \<Rightarrow> (int \<times> 'a kmem_state_scheme) res" where
  "map_loop 0 c pgdir a lastp pa perm s = Spin"
| "map_loop (Suc k) c pgdir a lastp pa perm s =
     bindr (walkpgdir c pgdir a True s) (\<lambda>(pte, s).
       if pte = 0 then Ok (-1, s)
       else if peek s pte AND PTE_P \<noteq> 0 then Panic ''remap''
       else let s = poke pte (pa OR perm OR PTE_P) s
            in if a = lastp then Ok (0, s)
               else map_loop k c pgdir (a + PGSIZE) lastp (pa + PGSIZE) perm s)"

definition mappages :: "nat \<Rightarrow> uint \<Rightarrow> uint \<Rightarrow> uint \<Rightarrow> uint \<Rightarrow> uint \<Rightarrow> 'a kmem_state_scheme
    \<Rightarrow> (int \<times> 'a kmem_state_scheme) res" where
  "mappages c pgdir va sz pa perm s =
     (let a = PGROUNDDOWN va; lastp = PGROUNDDOWN (va + sz - 1)
      in map_loop PAGES c pgdir a lastp pa perm s)"

section \<open>Releasing a user address space\<close>

primrec dealloc_loop :: "nat \<Rightarrow> nat \<Rightarrow> uint \<Rightarrow> uint \<Rightarrow> uint \<Rightarrow> 'a kmem_state_scheme
    \<Rightarrow> 'a kmem_state_scheme res" where
  "dealloc_loop 0 c pgdir a oldsz s = Spin"
| "dealloc_loop (Suc k) c pgdir a oldsz s =
     (if a < oldsz
      then bindr (walkpgdir c pgdir a False s) (\<lambda>(pte, s).
        if pte = 0 then
          let a = PGADDR (PDX a + 1) 0 0 - PGSIZE
          in dealloc_loop k c pgdir (a + PGSIZE) oldsz s
        else if peek s pte AND PTE_P \<noteq> 0 then
          let pa = PTE_ADDR (peek s pte)
          in if pa = 0 then Panic ''kfree''
             else bindr (kfree c (P2V pa) s) (\<lambda>s.
               dealloc_loop k c pgdir (a + PGSIZE) oldsz (poke pte 0 s))
        else dealloc_loop k c pgdir (a + PGSIZE) oldsz s)
      else Ok s)"

definition deallocuvm :: "nat \<Rightarrow> uint \<Rightarrow> uint \<Rightarrow> uint \<Rightarrow> 'a kmem_state_scheme
    \<Rightarrow> (uint \<times> 'a kmem_state_scheme) res" where
  "deallocuvm c pgdir oldsz newsz s =
     (if newsz \<ge> oldsz then Ok (oldsz, s)
      else bindr (dealloc_loop PAGES c pgdir (PGROUNDUP newsz) oldsz s) (\<lambda>s. Ok (newsz, s)))"

primrec free_tables :: "nat \<Rightarrow> nat \<Rightarrow> uint \<Rightarrow> 'a kmem_state_scheme \<Rightarrow> 'a kmem_state_scheme res" where
  "free_tables 0 c pgdir s = Ok s"
| "free_tables (Suc k) c pgdir s =
     (let i = of_nat (NPDENTRIES - Suc k); pde = peek s (pgdir + 4 * i)
      in if pde AND PTE_P \<noteq> 0
         then bindr (kfree c (P2V (PTE_ADDR pde)) s) (free_tables k c pgdir)
         else free_tables k c pgdir s)"

definition freevm :: "nat \<Rightarrow> uint \<Rightarrow> 'a kmem_state_scheme \<Rightarrow> 'a kmem_state_scheme res" where
  "freevm c pgdir s =
     (if pgdir = 0 then Panic ''freevm: no pgdir''
      else bindr (deallocuvm c pgdir KERNBASE 0 s) (\<lambda>(_, s).
           bindr (free_tables NPDENTRIES c pgdir s) (\<lambda>s.
           kfree c pgdir s)))"

section \<open>The kernel's part of an address space\<close>

record kmap_entry =
  k_virt :: uint
  k_phys_start :: uint
  k_phys_end :: uint
  k_perm :: uint

definition kmap :: "uint \<Rightarrow> kmap_entry list" where
  "kmap data =
     [\<lparr>k_virt = KERNBASE, k_phys_start = 0, k_phys_end = EXTMEM, k_perm = PTE_W\<rparr>,
      \<lparr>k_virt = KERNLINK, k_phys_start = V2P KERNLINK, k_phys_end = V2P data, k_perm = 0\<rparr>,
      \<lparr>k_virt = data, k_phys_start = V2P data, k_phys_end = PHYSTOP, k_perm = PTE_W\<rparr>,
      \<lparr>k_virt = DEVSPACE, k_phys_start = DEVSPACE, k_phys_end = 0, k_perm = PTE_W\<rparr>]"

primrec kmap_loop :: "nat \<Rightarrow> uint \<Rightarrow> kmap_entry list \<Rightarrow> 'a kmem_state_scheme
    \<Rightarrow> (uint \<times> 'a kmem_state_scheme) res" where
  "kmap_loop c pgdir [] s = Ok (pgdir, s)"
| "kmap_loop c pgdir (k # ks) s =
     bindr (mappages c pgdir (k_virt k) (k_phys_end k - k_phys_start k) (k_phys_start k) (k_perm k) s)
       (\<lambda>(r, s). if r < 0 then bindr (freevm c pgdir s) (\<lambda>s. Ok (0, s))
                else kmap_loop c pgdir ks s)"

definition setupkvm :: "nat \<Rightarrow> 'a vm_state_scheme \<Rightarrow> (uint \<times> 'a vm_state_scheme) res" where
  "setupkvm c s =
     bindr (kalloc c s) (\<lambda>(pgdir, s).
       if pgdir = 0 then Ok (0, s)
       else let s = s\<lparr>ram := memset (ram s) pgdir 0 PGSIZE\<rparr>
            in if P2V PHYSTOP > DEVSPACE then Panic ''PHYSTOP too high''
               else kmap_loop c pgdir (kmap (kdata s)) s)"

definition switchkvm :: "nat \<Rightarrow> 'a vm_state_scheme \<Rightarrow> 'a vm_state_scheme" where
  "switchkvm c s = upd_cpu c (\<lambda>k. k\<lparr>cr3 := V2P (kpgdir s)\<rparr>) s"

definition kvmalloc :: "nat \<Rightarrow> 'a vm_state_scheme \<Rightarrow> 'a vm_state_scheme res" where
  "kvmalloc c s = bindr (setupkvm c s) (\<lambda>(d, s). Ok (switchkvm c (s\<lparr>kpgdir := d\<rparr>)))"

section \<open>Growing and copying a user address space\<close>

definition inituvm :: "nat \<Rightarrow> uint \<Rightarrow> uint \<Rightarrow> uint \<Rightarrow> 'a kmem_state_scheme \<Rightarrow> 'a kmem_state_scheme res"
  where
  "inituvm c pgdir init sz s =
     (if sz \<ge> PGSIZE then Panic ''inituvm: more than a page''
      else bindr (kalloc c s) (\<lambda>(mem, s).
        if mem = 0 then Fault
        else let s = s\<lparr>ram := memset (ram s) mem 0 PGSIZE\<rparr>
             in bindr (mappages c pgdir 0 PGSIZE (V2P mem) (PTE_W OR PTE_U) s) (\<lambda>(_, s).
                Ok (s\<lparr>ram := memmove (ram s) mem init sz\<rparr>))))"

primrec alloc_loop :: "nat \<Rightarrow> nat \<Rightarrow> uint \<Rightarrow> uint \<Rightarrow> uint \<Rightarrow> uint \<Rightarrow> 'a kmem_state_scheme
    \<Rightarrow> (uint \<times> 'a kmem_state_scheme) res" where
  "alloc_loop 0 c pgdir a oldsz newsz s = Spin"
| "alloc_loop (Suc k) c pgdir a oldsz newsz s =
     (if a < newsz
      then bindr (kalloc c s) (\<lambda>(mem, s).
        if mem = 0 then
          bindr (cprintf c (''allocuvm out of memory'' @ [CHR 0x0A]) [] s) (\<lambda>s.
          bindr (deallocuvm c pgdir newsz oldsz s) (\<lambda>(_, s). Ok (0, s)))
        else
          let s = s\<lparr>ram := memset (ram s) mem 0 PGSIZE\<rparr>
          in bindr (mappages c pgdir a PGSIZE (V2P mem) (PTE_W OR PTE_U) s) (\<lambda>(r, s).
             if r < 0 then
               bindr (cprintf c (''allocuvm out of memory (2)'' @ [CHR 0x0A]) [] s) (\<lambda>s.
               bindr (deallocuvm c pgdir newsz oldsz s) (\<lambda>(_, s).
               bindr (kfree c mem s) (\<lambda>s. Ok (0, s))))
             else alloc_loop k c pgdir (a + PGSIZE) oldsz newsz s))
      else Ok (newsz, s))"

definition allocuvm :: "nat \<Rightarrow> uint \<Rightarrow> uint \<Rightarrow> uint \<Rightarrow> 'a kmem_state_scheme
    \<Rightarrow> (uint \<times> 'a kmem_state_scheme) res" where
  "allocuvm c pgdir oldsz newsz s =
     (if newsz \<ge> KERNBASE then Ok (0, s)
      else if newsz < oldsz then Ok (oldsz, s)
      else alloc_loop PAGES c pgdir (PGROUNDUP oldsz) oldsz newsz s)"

definition clearpteu :: "nat \<Rightarrow> uint \<Rightarrow> uint \<Rightarrow> 'a kmem_state_scheme \<Rightarrow> 'a kmem_state_scheme res" where
  "clearpteu c pgdir uva s =
     bindr (walkpgdir c pgdir uva False s) (\<lambda>(pte, s).
       if pte = 0 then Panic ''clearpteu'' else Ok (poke pte (peek s pte AND NOT PTE_U) s))"

primrec copy_loop :: "nat \<Rightarrow> nat \<Rightarrow> uint \<Rightarrow> uint \<Rightarrow> uint \<Rightarrow> uint \<Rightarrow> 'a kmem_state_scheme
    \<Rightarrow> (uint \<times> 'a kmem_state_scheme) res" where
  "copy_loop 0 c pgdir d i sz s = Spin"
| "copy_loop (Suc k) c pgdir d i sz s =
     (if i < sz
      then bindr (walkpgdir c pgdir i False s) (\<lambda>(pte, s).
        if pte = 0 then Panic ''copyuvm: pte should exist''
        else if peek s pte AND PTE_P = 0 then Panic ''copyuvm: page not present''
        else let pa = PTE_ADDR (peek s pte); flags = PTE_FLAGS (peek s pte)
             in bindr (kalloc c s) (\<lambda>(mem, s).
                if mem = 0 then bindr (freevm c d s) (\<lambda>s. Ok (0, s))
                else let s = s\<lparr>ram := memmove (ram s) mem (P2V pa) PGSIZE\<rparr>
                     in bindr (mappages c d i PGSIZE (V2P mem) flags s) (\<lambda>(r, s).
                        if r < 0 then
                          bindr (kfree c mem s) (\<lambda>s. bindr (freevm c d s) (\<lambda>s. Ok (0, s)))
                        else copy_loop k c pgdir d (i + PGSIZE) sz s)))
      else Ok (d, s))"

definition copyuvm :: "nat \<Rightarrow> uint \<Rightarrow> uint \<Rightarrow> 'a vm_state_scheme \<Rightarrow> (uint \<times> 'a vm_state_scheme) res"
  where
  "copyuvm c pgdir sz s =
     bindr (setupkvm c s) (\<lambda>(d, s).
       if d = 0 then Ok (0, s) else copy_loop PAGES c pgdir d 0 sz s)"

section \<open>Reaching user memory from the kernel\<close>

definition uva2ka :: "nat \<Rightarrow> uint \<Rightarrow> uint \<Rightarrow> 'a kmem_state_scheme \<Rightarrow> uint res" where
  "uva2ka c pgdir uva s =
     bindr (walkpgdir c pgdir uva False s) (\<lambda>(pte, s).
       if pte = 0 then Fault
       else if peek s pte AND PTE_P = 0 then Ok 0
       else if peek s pte AND PTE_U = 0 then Ok 0
       else Ok (P2V (PTE_ADDR (peek s pte))))"

text \<open>The source buffer of \<^verbatim>\<open>copyout\<close> is given by its bytes.\<close>

primrec put_bytes :: "mem \<Rightarrow> uint \<Rightarrow> uchar list \<Rightarrow> mem" where
  "put_bytes m a [] = m"
| "put_bytes m a (b # bs) = put_bytes (m(a := b)) (a + 1) bs"

lemma copyout_chunk: "0 < unat (PGSIZE - (va - PGROUNDDOWN va))"
proof -
  have "unat (va - PGROUNDDOWN va) < 4096"
    using mod_less_divisor [of 4096 "unat va"] by (simp add: PGROUNDDOWN_eq unat_mod PGSIZE_def)
  then show ?thesis
    by (simp add: unat_sub_if' PGSIZE_def)
qed

function copyout :: "nat \<Rightarrow> uint \<Rightarrow> uint \<Rightarrow> uchar list \<Rightarrow> 'a kmem_state_scheme
    \<Rightarrow> (int \<times> 'a kmem_state_scheme) res" where
  "copyout c pgdir va buf s =
     (if length buf > 0
      then let va0 = PGROUNDDOWN va
           in bindr (uva2ka c pgdir va0 s) (\<lambda>pa0.
              if pa0 = 0 then Ok (-1, s)
              else let n = unat (PGSIZE - (va - va0)); n = (if n > length buf then length buf else n);
                       s = s\<lparr>ram := put_bytes (ram s) (pa0 + (va - va0)) (take n buf)\<rparr>
                   in copyout c pgdir (va0 + PGSIZE) (drop n buf) s)
      else Ok (0, s))"
  by pat_completeness auto
termination
  by (relation "measure (\<lambda>(c, pgdir, va, buf, s). length buf)") (auto simp: copyout_chunk)

declare copyout.simps [simp del]

end
