(* ===== verification/VmFrame.thy ===== *)
theory VmFrame
  imports Vm
begin

text \<open>
  What the memory routines of \<^verbatim>\<open>kalloc.c\<close>, \<^verbatim>\<open>vm.c\<close> and \<^verbatim>\<open>cprintf\<close> leave alone when they come back: every
  part of the kernel's state but the memory, the free list, the output, their own two locks and the
  saved interrupt flag of the CPU.
\<close>

section \<open>What the memory routines leave alone\<close>

definition mem_frame :: "nat \<Rightarrow> 'a kmem_state_scheme \<Rightarrow> 'a kmem_state_scheme \<Rightarrow> bool" where
  "mem_frame c s t \<longleftrightarrow>
     (cpus t = cpus s \<or> cpus t = upd c settled (cpus s))
     \<and> (\<forall>l. l \<noteq> L_kmem \<and> l \<noteq> L_cons \<longrightarrow> locks t l = locks s l)
     \<and> use_lock t = use_lock s \<and> kend t = kend s \<and> cons_locking t = cons_locking s
     \<and> kmem_state.more t = kmem_state.more s"

definition cpu_at :: "nat \<Rightarrow> 'a mach_scheme \<Rightarrow> bool" where
  "cpu_at c s \<longleftrightarrow> c < length (cpus s) \<and> cpu_ok (the_cpu c s)"

lemma mem_frame_refl [simp]: "mem_frame c s s"
  by (simp add: mem_frame_def)

lemma mem_frame_at: "mem_frame c s t \<Longrightarrow> cpu_at c s \<Longrightarrow> cpu_at c t"
  by (auto simp: mem_frame_def cpu_at_def nth_upd)

lemma mem_frame_trans:
  assumes "mem_frame c s t" "mem_frame c t u" "cpu_at c s" shows "mem_frame c s u"
proof -
  have "upd c settled (upd c settled (cpus s)) = upd c settled (cpus s)"
    by (simp add: comp_def)
  then show ?thesis
    using assms by (auto simp: mem_frame_def)
qed

lemma mem_frame_ram [simp]:
  "mem_frame c s (t\<lparr>ram := m\<rparr>) = mem_frame c s t" "mem_frame c (s\<lparr>ram := m\<rparr>) t = mem_frame c s t"
  "mem_frame c s (t\<lparr>freelist := f\<rparr>) = mem_frame c s t"
  "mem_frame c s (poke a v t) = mem_frame c s t" "mem_frame c (poke a v s) t = mem_frame c s t"
  by (simp_all add: mem_frame_def poke_def)

lemma cpu_at_ram [simp]: "cpu_at c (s\<lparr>ram := m\<rparr>) = cpu_at c s" "cpu_at c (poke a v s) = cpu_at c s"
  by (simp_all add: cpu_at_def poke_def)

lemma section_frame:
  assumes "cpu_at c s" "acquire c l s = Ok u" "release c l v = Ok t" "l = L_kmem \<or> l = L_cons"
    and "cpus v = cpus u" "locks v = locks u" "use_lock v = use_lock s" "kend v = kend s"
    "cons_locking v = cons_locking s" "kmem_state.more v = kmem_state.more s"
  shows "mem_frame c s t"
  using section_Ok [OF _ _ assms(2,5,6,3)] assms by (auto simp: mem_frame_def cpu_at_def)

lemma acquire_fields:
  assumes "acquire c l s = Ok t" "cpu_at c s"
  shows "ram t = ram s" "freelist t = freelist s" "use_lock t = use_lock s" "kend t = kend s"
    "kout t = kout s" "cons_locking t = cons_locking s" "kmem_state.more t = kmem_state.more s"
  using assms by (auto simp: cpu_at_def grabbed_def set_lock_def upd_cpu_def dest: acquire_OkD(1))

lemma kfree_frame:
  assumes "kfree c v s = Ok t" "cpu_at c s"
  shows "mem_frame c s t"
proof (cases "use_lock s")
  case True
  let ?s = "s\<lparr>ram := memset (ram s) v 1 PGSIZE\<rparr>"
  obtain u where u: "acquire c L_kmem ?s = Ok u"
      "release c L_kmem (u\<lparr>ram := store32 (ram u) v (freelist u), freelist := v\<rparr>) = Ok t"
    using assms True acquire_fields(3) [of c L_kmem ?s]
    by (auto simp: kfree_def Let_def outcome_simps split: if_splits)
  have "mem_frame c ?s t"
    using assms(2) by (intro section_frame [OF _ u]) (simp_all add: acquire_fields [OF u(1)])
  then show ?thesis
    by simp
next
  case False
  then show ?thesis
    using assms(1) by (auto simp: kfree_def split: if_splits)
qed

lemma kalloc_frame:
  assumes "kalloc c s = Ok (p, t)" "cpu_at c s"
  shows "mem_frame c s t"
proof (cases "use_lock s")
  case True
  then obtain u where u: "acquire c L_kmem s = Ok u"
    "release c L_kmem (if freelist u \<noteq> 0 then u\<lparr>freelist := load32 (ram u) (freelist u)\<rparr> else u) = Ok t"
    using assms(1) by (auto simp: kalloc_def Let_def outcome_simps acquire_fields [OF _ assms(2)] split: if_splits)
  show ?thesis
    using assms(2) by (intro section_frame [OF _ u]) (simp_all add: acquire_fields [OF u(1)])
next
  case False
  then show ?thesis
    using assms(1) by (auto simp: kalloc_def Let_def split: if_splits)
qed

lemma cprintf_frame:
  fixes s :: "'a kmem_state_scheme"
  assumes "cprintf c fmt args s = Ok t" "cpu_at c s"
  shows "mem_frame c s t"
proof (cases "cons_locking s")
  case True
  then obtain u out where u: "acquire c L_cons s = Ok u" "release c L_cons (u\<lparr>kout := kout u @ out\<rparr>) = Ok t"
    using assms(1) by (auto simp: cprintf_def Let_def outcome_simps split: if_splits)
  show ?thesis
    using assms(2) by (intro section_frame [OF _ u]) (simp_all add: acquire_fields [OF u(1)])
next
  case False
  then show ?thesis
    using assms(1) by (auto simp: cprintf_def Let_def outcome_simps mem_frame_def)
qed

text \<open>The same for outcomes, so that the frame of a routine follows the structure of its body.\<close>

definition framed :: "nat \<Rightarrow> 'a kmem_state_scheme \<Rightarrow> ('b \<Rightarrow> 'a kmem_state_scheme) \<Rightarrow> 'b res \<Rightarrow> bool" where
  "framed c s f r \<longleftrightarrow> cpu_at c s \<longrightarrow> (\<forall>x. r = Ok x \<longrightarrow> mem_frame c s (f x))"

named_theorems framed_intros

lemma framed_bindr:
  assumes "framed c s f m" "\<And>x. framed c (f x) h (g x)"
  shows "framed c s h (bindr m g)"
  unfolding framed_def
proof (intro impI allI)
  fix y assume c: "cpu_at c s" and "bindr m g = Ok y"
  then obtain x where x: "m = Ok x" "g x = Ok y"
    by (auto simp: outcome_simps)
  have "mem_frame c s (f x)"
    using assms(1) c x(1) by (simp add: framed_def)
  moreover have "mem_frame c (f x) (h y)"
    using assms(2) [of x] x(2) mem_frame_at [OF calculation c] by (simp add: framed_def)
  ultimately show "mem_frame c s (h y)"
    using c by (rule mem_frame_trans)
qed

lemmas framed_bindr_state [framed_intros] = framed_bindr [where f = "\<lambda>t. t"]
lemmas framed_bindr_pair [framed_intros] = framed_bindr [where f = snd]

lemma framed_Ok [framed_intros]: "mem_frame c s (f x) \<Longrightarrow> framed c s f (Ok x)"
  by (simp add: framed_def)

lemma framed_stop [framed_intros]:
  "framed c s f (Panic m)" "framed c s f Spin" "framed c s f Fault" "framed c s f Asleep"
  by (simp_all add: framed_def)

lemma framed_if [framed_intros]:
  "(b \<Longrightarrow> framed c s f x) \<Longrightarrow> (\<not> b \<Longrightarrow> framed c s f y) \<Longrightarrow> framed c s f (if b then x else y)"
  by simp

lemma framed_prod [framed_intros]: "framed c s f (g (fst p) (snd p)) \<Longrightarrow> framed c s f (case p of (a, b) \<Rightarrow> g a b)"
  by (simp add: case_prod_unfold)

lemma framed_ram [simp]: "framed c (s\<lparr>ram := m\<rparr>) f r = framed c s f r" "framed c (poke a v s) f r = framed c s f r"
  by (simp_all add: framed_def)

lemma framed_pre_ram: "framed c (s\<lparr>ram := m\<rparr>) f r \<Longrightarrow> framed c s f r"
  and framed_pre_poke: "framed c (poke a v s) f r \<Longrightarrow> framed c s f r"
  by simp_all

lemma framed_kfree [framed_intros]: "framed c s (\<lambda>t. t) (kfree c v s)"
  by (simp add: framed_def kfree_frame)

lemma framed_kalloc [framed_intros]: "framed c s snd (kalloc c s)"
  by (auto simp: framed_def kalloc_frame)

lemma framed_cprintf [framed_intros]: "framed c s (\<lambda>t. t) (cprintf c fmt args s)"
  by (simp add: framed_def cprintf_frame)

lemma framed_walkpgdir [framed_intros]: "framed c s snd (walkpgdir c pgdir va al s)"
  unfolding walkpgdir_def Let_def by (intro framed_intros) simp_all

lemma framed_map_loop [framed_intros]: "framed c s snd (map_loop k c pgdir a lp pa perm s)"
proof (induction k arbitrary: a pa s)
  case (Suc k)
  show ?case
    unfolding map_loop.simps Let_def
    by (intro framed_intros framed_pre_poke [OF Suc]) (simp_all add: Suc)
qed (simp add: framed_intros)

lemma framed_mappages [framed_intros]: "framed c s snd (mappages c pgdir va sz pa perm s)"
  unfolding mappages_def Let_def by (intro framed_intros)

lemmas framed_mappages_ram [framed_intros] = framed_pre_ram [OF framed_mappages]

lemma framed_dealloc_loop [framed_intros]: "framed c s (\<lambda>t. t) (dealloc_loop k c pgdir a oldsz s)"
proof (induction k arbitrary: a s)
  case (Suc k)
  show ?case
    unfolding dealloc_loop.simps Let_def
    by (intro framed_intros framed_pre_poke [OF Suc]) (simp_all add: Suc)
qed (simp add: framed_intros)

lemma framed_deallocuvm [framed_intros]: "framed c s snd (deallocuvm c pgdir oldsz newsz s)"
  unfolding deallocuvm_def by (intro framed_intros) simp_all

lemma framed_free_tables [framed_intros]: "framed c s (\<lambda>t. t) (free_tables k c pgdir s)"
proof (induction k arbitrary: s)
  case (Suc k)
  show ?case
    unfolding free_tables.simps Let_def
    by (intro framed_intros) (simp_all add: Suc)
qed (simp add: framed_intros)

lemma framed_freevm [framed_intros]: "framed c s (\<lambda>t. t) (freevm c pgdir s)"
  unfolding freevm_def by (intro framed_intros)

lemma framed_kmap_loop [framed_intros]: "framed c s snd (kmap_loop c pgdir ks s)"
proof (induction ks arbitrary: s)
  case (Cons k ks)
  show ?case
    unfolding kmap_loop.simps
    by (intro framed_intros) (simp_all add: Cons)
qed (simp add: framed_intros)

lemmas framed_kmap_loop_ram [framed_intros] = framed_pre_ram [OF framed_kmap_loop]

lemma framed_setupkvm [framed_intros]: "framed c s snd (setupkvm c s)"
  unfolding setupkvm_def Let_def by (intro framed_intros) (simp_all add: framed_intros)

lemma framed_inituvm [framed_intros]: "framed c s (\<lambda>t. t) (inituvm c pgdir init sz s)"
  unfolding inituvm_def Let_def by (intro framed_intros) (simp_all add: framed_intros)

lemma framed_alloc_loop [framed_intros]: "framed c s snd (alloc_loop k c pgdir a oldsz newsz s)"
proof (induction k arbitrary: a s)
  case (Suc k)
  show ?case
    unfolding alloc_loop.simps Let_def
    by (intro framed_intros) (simp_all add: Suc framed_intros)
qed (simp add: framed_intros)

lemma framed_allocuvm [framed_intros]: "framed c s snd (allocuvm c pgdir oldsz newsz s)"
  unfolding allocuvm_def by (intro framed_intros) simp_all

lemma framed_copy_loop [framed_intros]: "framed c s snd (copy_loop k c pgdir d i sz s)"
proof (induction k arbitrary: i s)
  case (Suc k)
  show ?case
    unfolding copy_loop.simps Let_def
    by (intro framed_intros) (simp_all add: Suc framed_intros)
qed (simp add: framed_intros)

lemma framed_copyuvm [framed_intros]: "framed c s snd (copyuvm c pgdir sz s)"
  unfolding copyuvm_def by (intro framed_intros) simp_all

end
