(* ===== verification/Proc.thy ===== *)
theory Proc
  imports Rand VmFrame
begin

text \<open>
  \<^verbatim>\<open>proc.c\<close> and \<^verbatim>\<open>proc.h\<close>: the process table, the lottery scheduler, sleeping and waking, killing,
  waiting. Processes are indices of \<open>ptable\<close>; a null \<open>struct proc *\<close> is \<open>None\<close>.

  A context switch cuts a routine in two. What a routine does up to \<^verbatim>\<open>swtch\<close> and what it does after are
  separate definitions, and the saved \<open>context\<close> of a process says where it goes on: in \<^verbatim>\<open>forkret\<close>, or
  after the \<^verbatim>\<open>swtch\<close> of \<^verbatim>\<open>sched\<close> on behalf of \<^verbatim>\<open>yield\<close>, \<^verbatim>\<open>sleep\<close> or \<^verbatim>\<open>exit\<close>. A CPU whose \<open>cpu_proc\<close> is
  \<open>None\<close> is at the head of the loop of \<^verbatim>\<open>scheduler\<close>. The scheduler's locals \<open>total_tickets\<close> and
  \<open>tickets_passed\<close> live across iterations and are fields of the CPU.

  The trap frame, which the code keeps at the top of the kernel stack, is a value of the process
  record; \<open>p_name\<close> holds the characters before the terminator. A channel \<^verbatim>\<open>void *chan\<close> is the address of some kernel object and is named by that object.
  \<open>sched_test\<close> says whether the kernel was built with \<^verbatim>\<open>SCHED_TEST\<close>.
\<close>

section \<open>Processes\<close>

definition NPROC :: nat where "NPROC = 64"
definition NOFILE :: nat where "NOFILE = 32"
definition KSTACKSIZE :: uint where "KSTACKSIZE = 4096"

datatype procstate = UNUSED | EMBRYO | SLEEPING | RUNNABLE | RUNNING | ZOMBIE

datatype chan =
    Chan_proc nat | Chan_ticks | Chan_buf nat | Chan_log | Chan_sleeplock lockid
  | Chan_pipe_read uint | Chan_pipe_write uint | Chan_input

record trapframe =
  tf_edi :: uint
  tf_esi :: uint
  tf_ebp :: uint
  tf_ebx :: uint
  tf_edx :: uint
  tf_ecx :: uint
  tf_eax :: uint
  tf_gs :: ushort
  tf_fs :: ushort
  tf_es :: ushort
  tf_ds :: ushort
  tf_trapno :: uint
  tf_err :: uint
  tf_eip :: uint
  tf_cs :: ushort
  tf_eflags :: uint
  tf_esp :: uint
  tf_ss :: ushort

datatype sched_caller = By_yield | By_exit | By_sleep lockid

datatype kcontext = Ctx_forkret | Ctx_sched bool sched_caller | Ctx_reacquire lockid

record proc =
  p_sz :: uint
  p_pgdir :: uint
  p_kstack :: uint
  p_state :: procstate
  p_pid :: int
  p_parent :: "nat option"
  p_tf :: trapframe
  p_context :: "kcontext option"
  p_chan :: "chan option"
  p_killed :: bool
  p_ofile :: "nat option list"
  p_cwd :: "nat option"
  p_name :: string
  p_tickets :: int
  p_ticks :: int

record proc_state = vm_state +
  ptable :: "proc list"
  nextpid :: int
  initproc :: "nat option"
  start_state :: ushort
  ps_pid :: int
  ps_ticks :: int
  ps_startflag :: int
  sched_test :: bool
  ticks :: uint

definition upd_proc :: "nat \<Rightarrow> (proc \<Rightarrow> proc) \<Rightarrow> 'a proc_state_scheme \<Rightarrow> 'a proc_state_scheme" where
  "upd_proc i f s = s\<lparr>ptable := upd i f (ptable s)\<rparr>"

abbreviation the_proc :: "nat \<Rightarrow> 'a proc_state_scheme \<Rightarrow> proc" where
  "the_proc i s \<equiv> ptable s ! i"

definition pinit :: "'a proc_state_scheme \<Rightarrow> 'a proc_state_scheme" where
  "pinit s = initlock L_ptable ''ptable'' s"

definition myproc :: "nat \<Rightarrow> 'a mach_scheme \<Rightarrow> (nat option \<times> 'a mach_scheme) res" where
  "myproc c s =
     (let s = pushcli c s; p = cpu_proc (the_cpu c s)
      in bindr (popcli c s) (\<lambda>s. Ok (p, s)))"

section \<open>Allocating a slot\<close>

definition allocproc :: "nat \<Rightarrow> 'a proc_state_scheme \<Rightarrow> (nat option \<times> 'a proc_state_scheme) res" where
  "allocproc c s =
     bindr (acquire c L_ptable s) (\<lambda>s.
       case first_idx (\<lambda>p. p_state p = UNUSED) (ptable s) of
         None \<Rightarrow> bindr (release c L_ptable s) (\<lambda>s. Ok (None, s))
       | Some i \<Rightarrow>
           let s = upd_proc i (\<lambda>p. p\<lparr>p_state := EMBRYO, p_pid := nextpid s\<rparr>) s;
               s = s\<lparr>nextpid := i32 (nextpid s + 1)\<rparr>;
               s = upd_proc i (\<lambda>p. p\<lparr>p_tickets := 100, p_ticks := 0\<rparr>) s
           in bindr (release c L_ptable s) (\<lambda>s.
              bindr (kalloc c s) (\<lambda>(k, s).
                let s = upd_proc i (\<lambda>p. p\<lparr>p_kstack := k\<rparr>) s
                in if k = 0 then Ok (None, upd_proc i (\<lambda>p. p\<lparr>p_state := UNUSED\<rparr>) s)
                   else Ok (Some i, upd_proc i (\<lambda>p. p\<lparr>p_context := Some Ctx_forkret\<rparr>) s))))"

section \<open>The scheduler\<close>

definition switchuvm :: "nat \<Rightarrow> nat option \<Rightarrow> 'a proc_state_scheme \<Rightarrow> 'a proc_state_scheme res" where
  "switchuvm c p s =
     (case p of
        None \<Rightarrow> Panic ''switchuvm: no process''
      | Some i \<Rightarrow>
          if p_kstack (the_proc i s) = 0 then Panic ''switchuvm: no kstack''
          else if p_pgdir (the_proc i s) = 0 then Panic ''switchuvm: no pgdir''
          else let s = pushcli c s;
                   s = upd_cpu c (\<lambda>k. k\<lparr>ts_esp0 := p_kstack (the_proc i s) + KSTACKSIZE\<rparr>) s;
                   s = upd_cpu c (\<lambda>k. k\<lparr>cr3 := V2P (p_pgdir (the_proc i s))\<rparr>) s
               in popcli c s)"

definition scheduler_start :: "nat \<Rightarrow> 'a proc_state_scheme \<Rightarrow> 'a proc_state_scheme" where
  "scheduler_start c s =
     (let s = upd_cpu c (\<lambda>k. k\<lparr>cpu_proc := None\<rparr>) s;
          s = upd_cpu c (\<lambda>k. k\<lparr>total_tickets := 0, tickets_passed := 0\<rparr>) s
      in if sched_test s then initlock L_proc_sched ''proc_sched'' s else s)"

text \<open>The two loops over the table: the sum of the tickets, and the search for the winner, which
  returns the index where it stopped (the length of the table if it did not) and
  \<open>tickets_passed\<close>.\<close>

primrec sum_tickets :: "int \<Rightarrow> proc list \<Rightarrow> int" where
  "sum_tickets tot [] = tot"
| "sum_tickets tot (p # ps) =
     sum_tickets (if p_state p = RUNNABLE then i32 (tot + p_tickets p) else tot) ps"

primrec find_winner :: "int \<Rightarrow> int \<Rightarrow> proc list \<Rightarrow> nat \<times> int" where
  "find_winner ticket_no passed [] = (0, passed)"
| "find_winner ticket_no passed (p # ps) =
     (if p_state p = RUNNABLE
      then let passed = i32 (passed + p_tickets p)
           in if passed > ticket_no then (0, passed)
              else apfst Suc (find_winner ticket_no passed ps)
      else apfst Suc (find_winner ticket_no passed ps))"

definition sched_trace :: "nat \<Rightarrow> nat \<Rightarrow> 'a proc_state_scheme \<Rightarrow> 'a proc_state_scheme res" where
  "sched_trace c i s =
     bindr (acquire c L_proc_sched s) (\<lambda>s.
     bindr (if ps_startflag s = 1 then
              if ps_pid s = 0 then
                Ok (s\<lparr>ps_pid := p_pid (the_proc i s), ps_ticks := i32 (ps_ticks s + 1)\<rparr>)
              else if p_pid (the_proc i s) = ps_pid s then
                Ok (s\<lparr>ps_ticks := i32 (ps_ticks s + 1)\<rparr>)
              else
                bindr (cprintf c (''PID = %d, TICKS = %d'' @ [CHR 0x0A])
                        [A_int (ps_pid s), A_int (ps_ticks s)] s) (\<lambda>s.
                Ok (s\<lparr>ps_pid := p_pid (the_proc i s), ps_ticks := 1\<rparr>))
            else Ok s) (\<lambda>s.
     release c L_proc_sched s))"

text \<open>One iteration up to \<^verbatim>\<open>swtch\<close>, which is reached with the process in \<open>cpu_proc\<close>, or to the end of the
  iteration when there is nothing to run. A search that falls off the table leaves a pointer past
  its end.\<close>

definition scheduler_round :: "nat \<Rightarrow> 'a proc_state_scheme \<Rightarrow> (nat option \<times> 'a proc_state_scheme) res"
  where
  "scheduler_round c s =
     (let s = sti c s
      in bindr (acquire c L_ptable s) (\<lambda>s.
         let s = upd_cpu c (\<lambda>k. k\<lparr>total_tickets := sum_tickets (total_tickets k) (ptable s)\<rparr>) s;
             tot = total_tickets (the_cpu c s)
         in if tot > 0 then
              bindr (generate_random_number (start_state s) (of_int tot)) (\<lambda>(r, st).
                let s = s\<lparr>start_state := st\<rparr>; ticket_no = uint r;
                    (i, passed) = find_winner ticket_no (tickets_passed (the_cpu c s)) (ptable s);
                    s = upd_cpu c (\<lambda>k. k\<lparr>tickets_passed := passed\<rparr>) s
                in if i \<ge> length (ptable s) then Fault
                   else let s = upd_cpu c (\<lambda>k. k\<lparr>cpu_proc := Some i\<rparr>) s
                        in bindr (switchuvm c (Some i) s) (\<lambda>s.
                           let s = upd_proc i (\<lambda>p. p\<lparr>p_ticks := i32 (p_ticks p + 1)\<rparr>) s;
                               s = upd_proc i (\<lambda>p. p\<lparr>p_state := RUNNING\<rparr>) s
                           in bindr (if sched_test s then sched_trace c i s else Ok s) (\<lambda>s.
                              Ok (Some i, s))))
            else bindr (release c L_ptable s) (\<lambda>s. Ok (None, s))))"

text \<open>The rest of the iteration, when a process switches back.\<close>

definition scheduler_back :: "nat \<Rightarrow> 'a proc_state_scheme \<Rightarrow> 'a proc_state_scheme res" where
  "scheduler_back c s =
     (let s = switchkvm c s;
          s = upd_cpu c (\<lambda>k. k\<lparr>cpu_proc := None\<rparr>) s;
          s = upd_cpu c (\<lambda>k. k\<lparr>total_tickets := 0, tickets_passed := 0\<rparr>) s
      in release c L_ptable s)"

section \<open>Leaving the CPU\<close>

definition sched :: "nat \<Rightarrow> sched_caller \<Rightarrow> 'a proc_state_scheme \<Rightarrow> 'a proc_state_scheme res" where
  "sched c by s =
     bindr (myproc c s) (\<lambda>(p, s).
     bindr (holding c L_ptable s) (\<lambda>(h, s).
       if \<not> h then Panic ''sched ptable.lock''
       else if ncli (the_cpu c s) \<noteq> 1 then Panic ''sched locks''
       else case p of
          None \<Rightarrow> Fault
        | Some i \<Rightarrow>
            if p_state (the_proc i s) = RUNNING then Panic ''sched running''
            else if eflags_IF (the_cpu c s) then Panic ''sched interruptible''
            else let ie = intena (the_cpu c s);
                     s = upd_proc i (\<lambda>p. p\<lparr>p_context := Some (Ctx_sched ie by)\<rparr>) s
                 in scheduler_back c s))"

definition yield :: "nat \<Rightarrow> 'a proc_state_scheme \<Rightarrow> 'a proc_state_scheme res" where
  "yield c s =
     bindr (acquire c L_ptable s) (\<lambda>s.
     bindr (myproc c s) (\<lambda>(p, s).
       case p of None \<Rightarrow> Fault
       | Some i \<Rightarrow> sched c By_yield (upd_proc i (\<lambda>p. p\<lparr>p_state := RUNNABLE\<rparr>) s)))"

text \<open>A routine as the list of its atomic actions, so that what another CPU does between two of them can be
  considered. Run without anything in between, the actions follow each other.\<close>

primrec run_acts :: "('s \<Rightarrow> 's res) list \<Rightarrow> 's \<Rightarrow> 's res" where
  "run_acts [] s = Ok s"
| "run_acts (a # as) s = bindr (a s) (run_acts as)"

definition sleep_acts :: "nat \<Rightarrow> nat \<Rightarrow> chan \<Rightarrow> lockid \<Rightarrow> ('a proc_state_scheme \<Rightarrow> 'a proc_state_scheme res) list"
  where
  "sleep_acts c i ch lk =
     (if lk \<noteq> L_ptable then [acquire c L_ptable, release c lk] else [])
     @ [\<lambda>s. Ok (upd_proc i (\<lambda>p. p\<lparr>p_chan := Some ch\<rparr>) s),
        \<lambda>s. Ok (upd_proc i (\<lambda>p. p\<lparr>p_state := SLEEPING\<rparr>) s),
        sched c (By_sleep lk)]"

definition sleep :: "nat \<Rightarrow> chan \<Rightarrow> lockid option \<Rightarrow> 'a proc_state_scheme \<Rightarrow> 'a proc_state_scheme res"
  where
  "sleep c ch lk s =
     bindr (myproc c s) (\<lambda>(p, s).
       case p of
         None \<Rightarrow> Panic ''sleep''
       | Some i \<Rightarrow>
           (case lk of
              None \<Rightarrow> Panic ''sleep without lk''
            | Some lk \<Rightarrow> run_acts (sleep_acts c i ch lk) s))"

section \<open>Waking and killing\<close>

definition wake_entry :: "chan option \<Rightarrow> proc \<Rightarrow> proc" where
  "wake_entry ch p =
     (if p_state p = SLEEPING \<and> p_chan p = ch then p\<lparr>p_state := RUNNABLE\<rparr> else p)"

definition wakeup1 :: "chan option \<Rightarrow> 'a proc_state_scheme \<Rightarrow> 'a proc_state_scheme" where
  "wakeup1 ch s = s\<lparr>ptable := map (wake_entry ch) (ptable s)\<rparr>"

definition wakeup_acts :: "nat \<Rightarrow> chan option \<Rightarrow> ('a proc_state_scheme \<Rightarrow> 'a proc_state_scheme res) list" where
  "wakeup_acts c ch = [acquire c L_ptable, \<lambda>s. Ok (wakeup1 ch s), release c L_ptable]"

definition wakeup :: "nat \<Rightarrow> chan option \<Rightarrow> 'a proc_state_scheme \<Rightarrow> 'a proc_state_scheme res" where
  "wakeup c ch s = run_acts (wakeup_acts c ch) s"

definition kill :: "nat \<Rightarrow> int \<Rightarrow> 'a proc_state_scheme \<Rightarrow> (int \<times> 'a proc_state_scheme) res" where
  "kill c pid s =
     bindr (acquire c L_ptable s) (\<lambda>s.
       case first_idx (\<lambda>p. p_pid p = pid) (ptable s) of
         Some i \<Rightarrow>
           let s = upd_proc i (\<lambda>p. p\<lparr>p_killed := True\<rparr>) s;
               s = (if p_state (the_proc i s) = SLEEPING
                    then upd_proc i (\<lambda>p. p\<lparr>p_state := RUNNABLE\<rparr>) s else s)
           in bindr (release c L_ptable s) (\<lambda>s. Ok (0, s))
       | None \<Rightarrow> bindr (release c L_ptable s) (\<lambda>s. Ok (-1, s)))"

text \<open>The last step of \<^verbatim>\<open>fork\<close> and of \<^verbatim>\<open>userinit\<close>: the new process may be chosen from now on.\<close>

definition make_runnable :: "nat \<Rightarrow> nat \<Rightarrow> 'a proc_state_scheme \<Rightarrow> 'a proc_state_scheme res" where
  "make_runnable c np s =
     bindr (acquire c L_ptable s) (\<lambda>s.
     release c L_ptable (upd_proc np (\<lambda>p. p\<lparr>p_state := RUNNABLE\<rparr>) s))"

section \<open>Exit and wait\<close>

abbreviation proc_chan :: "nat option \<Rightarrow> chan option" where
  "proc_chan p \<equiv> map_option Chan_proc p"

primrec reparent :: "nat \<Rightarrow> nat list \<Rightarrow> 'a proc_state_scheme \<Rightarrow> 'a proc_state_scheme" where
  "reparent cur [] s = s"
| "reparent cur (i # is) s =
     reparent cur is
       (if p_parent (the_proc i s) = Some cur
        then let s = upd_proc i (\<lambda>p. p\<lparr>p_parent := initproc s\<rparr>) s
             in if p_state (the_proc i s) = ZOMBIE then wakeup1 (proc_chan (initproc s)) s else s
        else s)"

text \<open>The last part of \<^verbatim>\<open>exit\<close>, once the files are closed; \<^verbatim>\<open>exit\<close> itself is in \<open>Life\<close>.\<close>

definition exit_final :: "nat \<Rightarrow> nat \<Rightarrow> 'a proc_state_scheme \<Rightarrow> 'a proc_state_scheme res" where
  "exit_final c cur s =
     bindr (acquire c L_ptable s) (\<lambda>s.
       let s = wakeup1 (proc_chan (p_parent (the_proc cur s))) s;
           s = reparent cur [0..<length (ptable s)] s;
           s = upd_proc cur (\<lambda>p. p\<lparr>p_state := ZOMBIE\<rparr>) s
       in sched c By_exit s)"

definition reap :: "nat \<Rightarrow> nat \<Rightarrow> 'a proc_state_scheme \<Rightarrow> (int \<times> 'a proc_state_scheme) res" where
  "reap c i s =
     (let pid = p_pid (the_proc i s)
      in bindr (kfree c (p_kstack (the_proc i s)) s) (\<lambda>s.
         let s = upd_proc i (\<lambda>p. p\<lparr>p_kstack := 0\<rparr>) s
         in bindr (freevm c (p_pgdir (the_proc i s)) s) (\<lambda>s.
            let s = upd_proc i (\<lambda>p. p\<lparr>p_pid := 0, p_tickets := 0, p_ticks := 0, p_parent := None,
                      p_name := [], p_killed := False, p_state := UNUSED\<rparr>) s
            in bindr (release c L_ptable s) (\<lambda>s. Ok (pid, s)))))"

datatype wait_out = W_return int | W_asleep

text \<open>One pass of the loop of \<^verbatim>\<open>wait\<close>, with \<^verbatim>\<open>ptable.lock\<close> held.\<close>

definition wait_loop :: "nat \<Rightarrow> nat \<Rightarrow> 'a proc_state_scheme \<Rightarrow> (wait_out \<times> 'a proc_state_scheme) res"
  where
  "wait_loop c cur s =
     (case first_idx (\<lambda>p. p_parent p = Some cur \<and> p_state p = ZOMBIE) (ptable s) of
        Some i \<Rightarrow> bindr (reap c i s) (\<lambda>(pid, s). Ok (W_return pid, s))
      | None \<Rightarrow>
          let havekids = (\<exists>p \<in> set (ptable s). p_parent p = Some cur)
          in if \<not> havekids \<or> p_killed (the_proc cur s)
             then bindr (release c L_ptable s) (\<lambda>s. Ok (W_return (-1), s))
             else bindr (sleep c (Chan_proc cur) (Some L_ptable) s) (\<lambda>s. Ok (W_asleep, s)))"

definition wait :: "nat \<Rightarrow> 'a proc_state_scheme \<Rightarrow> (wait_out \<times> 'a proc_state_scheme) res" where
  "wait c s =
     bindr (myproc c s) (\<lambda>(p, s).
     bindr (acquire c L_ptable s) (\<lambda>s.
       case p of None \<Rightarrow> Fault | Some cur \<Rightarrow> wait_loop c cur s))"

section \<open>Going on after a switch\<close>

datatype resumed = R_forkret | R_return | R_reacquire lockid | R_wait wait_out

text \<open>What the process on the CPU does first after the scheduler's \<^verbatim>\<open>swtch\<close>.\<close>

definition resume :: "nat \<Rightarrow> nat \<Rightarrow> 'a proc_state_scheme \<Rightarrow> (resumed \<times> 'a proc_state_scheme) res" where
  "resume c i s =
     (case p_context (the_proc i s) of
        None \<Rightarrow> Fault
      | Some Ctx_forkret \<Rightarrow>
          bindr (release c L_ptable (upd_proc i (\<lambda>p. p\<lparr>p_context := None\<rparr>) s)) (\<lambda>s. Ok (R_forkret, s))
      | Some (Ctx_reacquire lk) \<Rightarrow> Fault
      | Some (Ctx_sched ie by) \<Rightarrow>
          let s = upd_cpu c (\<lambda>k. k\<lparr>intena := ie\<rparr>) s;
              s = upd_proc i (\<lambda>p. p\<lparr>p_context := None\<rparr>) s
          in (case by of
                By_yield \<Rightarrow> bindr (release c L_ptable s) (\<lambda>s. Ok (R_return, s))
              | By_exit \<Rightarrow> Panic ''zombie exit''
              | By_sleep lk \<Rightarrow>
                  let s = upd_proc i (\<lambda>p. p\<lparr>p_chan := None\<rparr>) s
                  in if lk \<noteq> L_ptable
                     then let s = upd_proc i (\<lambda>p. p\<lparr>p_context := Some (Ctx_reacquire lk)\<rparr>) s
                          in bindr (release c L_ptable s) (\<lambda>s. Ok (R_reacquire lk, s))
                     else bindr (wait_loop c i s) (\<lambda>(w, s). Ok (R_wait w, s))))"

text \<open>The final \<^verbatim>\<open>acquire(lk)\<close> of \<^verbatim>\<open>sleep\<close>, a step of its own because it may have to spin.\<close>

definition reacquire :: "nat \<Rightarrow> nat \<Rightarrow> 'a proc_state_scheme \<Rightarrow> 'a proc_state_scheme res" where
  "reacquire c i s =
     (case p_context (the_proc i s) of
        Some (Ctx_reacquire lk) \<Rightarrow>
          acquire c lk (upd_proc i (\<lambda>p. p\<lparr>p_context := None\<rparr>) s)
      | _ \<Rightarrow> Fault)"

text \<open>An iteration of the scheduler with the first thing the chosen process does.\<close>

definition scheduler :: "nat \<Rightarrow> 'a proc_state_scheme \<Rightarrow> (resumed option \<times> 'a proc_state_scheme) res" where
  "scheduler c s =
     bindr (scheduler_round c s) (\<lambda>(p, s).
       case p of None \<Rightarrow> Ok (None, s)
       | Some i \<Rightarrow> bindr (resume c i s) (\<lambda>(r, s). Ok (Some r, s)))"

section \<open>Frame facts\<close>

lemma upd_cpu_fields [simp]:
  "kout (upd_cpu c f s) = kout s" "cons_locking (upd_cpu c f s) = cons_locking s"
  "ram (upd_cpu c f s) = ram s" "freelist (upd_cpu c f s) = freelist s"
  "use_lock (upd_cpu c f s) = use_lock s" "kend (upd_cpu c f s) = kend s"
  "kpgdir (upd_cpu c f s) = kpgdir s" "kdata (upd_cpu c f s) = kdata s"
  "ptable (upd_cpu c f s) = ptable s" "nextpid (upd_cpu c f s) = nextpid s"
  "initproc (upd_cpu c f s) = initproc s" "start_state (upd_cpu c f s) = start_state s"
  "ps_pid (upd_cpu c f s) = ps_pid s" "ps_ticks (upd_cpu c f s) = ps_ticks s"
  "ps_startflag (upd_cpu c f s) = ps_startflag s" "sched_test (upd_cpu c f s) = sched_test s"
  "ticks (upd_cpu c f s) = ticks s" "proc_state.more (upd_cpu c f s) = proc_state.more s"
  by (simp_all add: upd_cpu_def)

lemma set_lock_fields [simp]:
  "kout (set_lock l k s) = kout s" "cons_locking (set_lock l k s) = cons_locking s"
  "ram (set_lock l k s) = ram s" "freelist (set_lock l k s) = freelist s"
  "use_lock (set_lock l k s) = use_lock s" "kend (set_lock l k s) = kend s"
  "kpgdir (set_lock l k s) = kpgdir s" "kdata (set_lock l k s) = kdata s"
  "ptable (set_lock l k s) = ptable s" "nextpid (set_lock l k s) = nextpid s"
  "initproc (set_lock l k s) = initproc s" "start_state (set_lock l k s) = start_state s"
  "ps_pid (set_lock l k s) = ps_pid s" "ps_ticks (set_lock l k s) = ps_ticks s"
  "ps_startflag (set_lock l k s) = ps_startflag s" "sched_test (set_lock l k s) = sched_test s"
  "ticks (set_lock l k s) = ticks s" "proc_state.more (set_lock l k s) = proc_state.more s"
  by (simp_all add: set_lock_def)

lemma grabbed_fields [simp]:
  "kout (grabbed c l s) = kout s" "cons_locking (grabbed c l s) = cons_locking s"
  "ram (grabbed c l s) = ram s" "freelist (grabbed c l s) = freelist s"
  "use_lock (grabbed c l s) = use_lock s" "kend (grabbed c l s) = kend s"
  "kpgdir (grabbed c l s) = kpgdir s" "kdata (grabbed c l s) = kdata s"
  "ptable (grabbed c l s) = ptable s" "nextpid (grabbed c l s) = nextpid s"
  "initproc (grabbed c l s) = initproc s" "start_state (grabbed c l s) = start_state s"
  "ps_pid (grabbed c l s) = ps_pid s" "ps_ticks (grabbed c l s) = ps_ticks s"
  "ps_startflag (grabbed c l s) = ps_startflag s" "sched_test (grabbed c l s) = sched_test s"
  "ticks (grabbed c l s) = ticks s" "proc_state.more (grabbed c l s) = proc_state.more s"
  by (simp_all add: grabbed_def)

lemma upd_proc_fields [simp]:
  "cpus (upd_proc i f s) = cpus s" "locks (upd_proc i f s) = locks s"
  "kout (upd_proc i f s) = kout s" "cons_locking (upd_proc i f s) = cons_locking s"
  "ram (upd_proc i f s) = ram s" "freelist (upd_proc i f s) = freelist s"
  "use_lock (upd_proc i f s) = use_lock s" "kend (upd_proc i f s) = kend s"
  "kpgdir (upd_proc i f s) = kpgdir s" "kdata (upd_proc i f s) = kdata s"
  "nextpid (upd_proc i f s) = nextpid s" "initproc (upd_proc i f s) = initproc s"
  "start_state (upd_proc i f s) = start_state s" "ps_pid (upd_proc i f s) = ps_pid s"
  "ps_ticks (upd_proc i f s) = ps_ticks s" "ps_startflag (upd_proc i f s) = ps_startflag s"
  "sched_test (upd_proc i f s) = sched_test s" "ticks (upd_proc i f s) = ticks s"
  "proc_state.more (upd_proc i f s) = proc_state.more s"
  by (simp_all add: upd_proc_def)

lemma ptable_upd_proc [simp]: "ptable (upd_proc i f s) = upd i f (ptable s)"
  by (simp add: upd_proc_def)

lemma upd_proc_upd_proc [simp]: "upd_proc i f (upd_proc i g s) = upd_proc i (\<lambda>p. f (g p)) s"
  by (simp add: upd_proc_def)

lemma myproc_eq:
  assumes "cpu_at c s"
  shows "myproc c s = Ok (cpu_proc (the_cpu c s), upd_cpu c settled s)"
proof -
  have c: "c < length (cpus s)" "cpu_ok (the_cpu c s)"
    using assms by (auto simp: cpu_at_def)
  have "popcli c (upd_cpu c pushed s) = Ok (upd_cpu c popped (upd_cpu c pushed s))"
    using c by (intro popcli_eq) (simp_all add: cpu_ok_def pushed_def)
  also have "upd_cpu c popped (upd_cpu c pushed s) = upd_cpu c settled s"
    using c by (simp add: upd_cpu_def upd_def)
  finally show ?thesis
    using c by (simp add: myproc_def pushcli_eq Let_def)
qed

lemma upd_settled_id: "ncli (the_cpu c s) \<noteq> 0 \<Longrightarrow> upd_cpu c settled s = s"
  by (simp add: upd_cpu_def upd_settled_nested)

section \<open>A small machine\<close>

text \<open>Concrete states for the examples: one CPU, a table of free slots, processes to put into it.\<close>

definition idle_cpu0 :: cpu where
  "idle_cpu0 = \<lparr>apicid = 0, started = True, ncli = 0, intena = True, cpu_proc = None,
     eflags_IF = True, cr3 = 0, ts_esp0 = 0, total_tickets = 0, tickets_passed = 0\<rparr>"

definition no_frame :: trapframe where
  "no_frame = \<lparr>tf_edi = 0, tf_esi = 0, tf_ebp = 0, tf_ebx = 0, tf_edx = 0, tf_ecx = 0, tf_eax = 0,
     tf_gs = 0, tf_fs = 0, tf_es = 0, tf_ds = 0, tf_trapno = 0, tf_err = 0, tf_eip = 0, tf_cs = 0,
     tf_eflags = 0, tf_esp = 0, tf_ss = 0\<rparr>"

definition no_proc :: proc where
  "no_proc = \<lparr>p_sz = 0, p_pgdir = 0, p_kstack = 0, p_state = UNUSED, p_pid = 0, p_parent = None,
     p_tf = no_frame, p_context = None, p_chan = None, p_killed = False,
     p_ofile = replicate 32 None, p_cwd = None, p_name = [], p_tickets = 0, p_ticks = 0\<rparr>"

definition ready_proc :: "int \<Rightarrow> int \<Rightarrow> proc" where
  "ready_proc pid tks = no_proc\<lparr>p_state := RUNNABLE, p_pid := pid, p_tickets := tks,
     p_kstack := 0x8E000000 - 4096, p_pgdir := 0x8E000000 - 8192, p_context := Some Ctx_forkret\<rparr>"

definition free_lock :: spinlock where
  "free_lock = \<lparr>locked = False, lk_name = [], lk_cpu = None\<rparr>"

definition small_machine :: "proc list \<Rightarrow> proc_state" where
  "small_machine ps =
     \<lparr>cpus = [idle_cpu0], locks = (\<lambda>_. free_lock), kout = [], cons_locking = True,
      ram = (\<lambda>_. 0), freelist = 0, use_lock = True, kend = 0x80200000, kpgdir = 0x80300000,
      kdata = 0x80108000, ptable = ps @ replicate (64 - length ps) no_proc, nextpid = 10,
      initproc = Some 0, start_state = START_STATE, ps_pid = 0, ps_ticks = 0, ps_startflag = 0,
      sched_test = True, ticks = 0\<rparr>"

section \<open>Routines run without interruption\<close>

lemma run_acts_Nil: "run_acts [] = Ok"
  by (rule ext) simp

lemma run_acts_Cons: "run_acts (a # as) = (\<lambda>s. bindr (a s) (run_acts as))"
  by (rule ext) simp

lemma bindr_Ok_right: "bindr m Ok = m"
  by (cases m) simp_all

lemmas run_acts_eqs = run_acts_Nil run_acts_Cons bindr_Ok_right

lemma sleep_eq:
  "sleep c ch lk s =
     bindr (myproc c s) (\<lambda>(p, s).
       case p of
         None \<Rightarrow> Panic ''sleep''
       | Some i \<Rightarrow>
           (case lk of
              None \<Rightarrow> Panic ''sleep without lk''
            | Some lk \<Rightarrow>
                bindr (if lk \<noteq> L_ptable
                       then bindr (acquire c L_ptable s) (\<lambda>s. release c lk s) else Ok s) (\<lambda>s.
                let s = upd_proc i (\<lambda>p. p\<lparr>p_chan := Some ch\<rparr>) s;
                    s = upd_proc i (\<lambda>p. p\<lparr>p_state := SLEEPING\<rparr>) s
                in sched c (By_sleep lk) s)))"
  unfolding sleep_def sleep_acts_def Let_def
  by (intro bindr_cong refl)
    (auto simp: run_acts_eqs bindr_assoc simp del: run_acts.simps split: option.splits)

lemma wakeup_eq_section: "wakeup c ch s = bindr (acquire c L_ptable s) (\<lambda>s. release c L_ptable (wakeup1 ch s))"
  by (simp add: wakeup_def wakeup_acts_def run_acts_eqs del: run_acts.simps)

end
