(* ===== verification/Lottery.thy ===== *)
theory Lottery
  imports Proc
begin

text \<open>
  The lottery of \<^verbatim>\<open>scheduler\<close> in \<^verbatim>\<open>proc.c\<close>: what the two loops over the process table compute, which
  ticket numbers select which process, and what one iteration does to the state. The contract of a
  lottery is the locale \<open>lottery\<close>; the scheduler's search is its interpretation \<open>draw\<close>.
\<close>

section \<open>The abstract lottery\<close>

locale lottery =
  fixes slots :: "'s \<Rightarrow> nat" and weight :: "'s \<Rightarrow> nat \<Rightarrow> int" and pick :: "int \<Rightarrow> 's \<Rightarrow> nat"
    and valid :: "'s \<Rightarrow> bool"
  assumes weight_nonneg: "valid s \<Longrightarrow> i < slots s \<Longrightarrow> 0 \<le> weight s i"
    and pick_law: "valid s \<Longrightarrow> 0 \<le> r \<Longrightarrow> r < (\<Sum>j < slots s. weight s j) \<Longrightarrow>
      pick r s < slots s \<and> (\<Sum>j < pick r s. weight s j) \<le> r \<and> r < (\<Sum>j < Suc (pick r s). weight s j)"
begin

lemma prefix_mono:
  assumes "valid s" "i \<le> j" "j \<le> slots s"
  shows "(\<Sum>k < i. weight s k) \<le> (\<Sum>k < j. weight s k)"
  using assms by (intro sum_mono2) (auto intro: weight_nonneg)

text \<open>A ticket number selects a slot exactly when it lies in the slot's interval.\<close>

lemma pick_iff:
  assumes "valid s" "i < slots s" "0 \<le> r" "r < (\<Sum>j < slots s. weight s j)"
  shows "pick r s = i \<longleftrightarrow> (\<Sum>j < i. weight s j) \<le> r \<and> r < (\<Sum>j < Suc i. weight s j)"
proof
  assume r: "(\<Sum>j < i. weight s j) \<le> r \<and> r < (\<Sum>j < Suc i. weight s j)"
  have p: "pick r s < slots s" "(\<Sum>j < pick r s. weight s j) \<le> r"
    "r < (\<Sum>j < Suc (pick r s). weight s j)"
    using pick_law [OF assms(1,3,4)] by auto
  show "pick r s = i"
  proof (rule ccontr)
    assume "pick r s \<noteq> i"
    then have "Suc (pick r s) \<le> i \<or> Suc i \<le> pick r s"
      by linarith
    then show False
      using prefix_mono [OF assms(1), of "Suc (pick r s)" i] prefix_mono [OF assms(1), of "Suc i" "pick r s"]
        p r assms(2) by fastforce
  qed
qed (use pick_law [OF assms(1,3,4)] in auto)

lemma winning_numbers:
  assumes "valid s" "i < slots s"
  shows "{r. 0 \<le> r \<and> r < (\<Sum>j < slots s. weight s j) \<and> pick r s = i}
    = {(\<Sum>j < i. weight s j) ..< (\<Sum>j < Suc i. weight s j)}"
proof -
  have "0 \<le> (\<Sum>j < i. weight s j)" "(\<Sum>j < Suc i. weight s j) \<le> (\<Sum>j < slots s. weight s j)"
    using prefix_mono [OF assms(1), of 0 i] prefix_mono [OF assms(1), of "Suc i" "slots s"] assms(2)
    by simp_all
  then have "(0 \<le> r \<and> r < (\<Sum>j < slots s. weight s j) \<and> pick r s = i)
      = (r \<in> {(\<Sum>j < i. weight s j) ..< (\<Sum>j < Suc i. weight s j)})" for r
    using pick_iff [OF assms, of r]
    by (cases "0 \<le> r \<and> r < (\<Sum>j < slots s. weight s j)") (auto simp del: sum.lessThan_Suc)
  then show ?thesis
    by blast
qed

text \<open>A slot wins for as many numbers as it has tickets.\<close>

theorem proportional:
  assumes "valid s" "i < slots s"
  shows "int (card {r. 0 \<le> r \<and> r < (\<Sum>j < slots s. weight s j) \<and> pick r s = i}) = weight s i"
  unfolding winning_numbers [OF assms] using weight_nonneg [OF assms] by simp

lemma wins_weight_pos:
  assumes "valid s" "0 \<le> r" "r < (\<Sum>j < slots s. weight s j)"
  shows "0 < weight s (pick r s)"
  using pick_law [OF assms] by simp

end

section \<open>The scheduler's draw\<close>

definition weight_at :: "proc list \<Rightarrow> nat \<Rightarrow> int" where
  "weight_at ps i = (if p_state (ps ! i) = RUNNABLE then p_tickets (ps ! i) else 0)"

definition total_of :: "proc list \<Rightarrow> int" where
  "total_of ps = (\<Sum>i < length ps. weight_at ps i)"

definition tickets_ok :: "proc list \<Rightarrow> bool" where
  "tickets_ok ps \<longleftrightarrow> (\<forall>p \<in> set ps. p_state p = RUNNABLE \<longrightarrow> 1 \<le> p_tickets p) \<and> total_of ps < 2 ^ 31"

lemma weight_at_Cons [simp]: "weight_at (p # ps) (Suc i) = weight_at ps i"
  by (simp add: weight_at_def)

lemma weight_at_0 [simp]:
  "weight_at (p # ps) 0 = (if p_state p = RUNNABLE then p_tickets p else 0)"
  by (simp add: weight_at_def)

lemma weight_sum_Cons:
  "(\<Sum>i < Suc n. weight_at (p # ps) i)
    = (if p_state p = RUNNABLE then p_tickets p else 0) + (\<Sum>i < n. weight_at ps i)"
  by (subst sum.lessThan_Suc_shift) simp

lemma total_of_Cons [simp]:
  "total_of (p # ps) = (if p_state p = RUNNABLE then p_tickets p else 0) + total_of ps"
  by (simp add: total_of_def weight_sum_Cons del: sum.lessThan_Suc)

lemma total_of_Nil [simp]: "total_of [] = 0"
  by (simp add: total_of_def)

lemma total_of_append: "total_of (ps @ qs) = total_of ps + total_of qs"
  by (induction ps) auto

lemma total_of_unused: "p_state p \<noteq> RUNNABLE \<Longrightarrow> total_of (replicate n p) = 0"
  by (induction n) auto

lemma total_of_nonneg:
  "\<forall>p \<in> set ps. p_state p = RUNNABLE \<longrightarrow> 1 \<le> p_tickets p \<Longrightarrow> 0 \<le> total_of ps"
  by (induction ps) auto

lemma sum_tickets_eq:
  assumes "\<forall>p \<in> set ps. p_state p = RUNNABLE \<longrightarrow> 1 \<le> p_tickets p" "0 \<le> tot" "tot + total_of ps < 2 ^ 31"
  shows "sum_tickets tot ps = tot + total_of ps"
  using assms
proof (induction ps arbitrary: tot)
  case (Cons p ps)
  moreover have "0 \<le> total_of ps"
    using Cons.prems(1) by (simp add: total_of_nonneg)
  ultimately show ?case
    by auto
qed simp

lemma find_winner_eq:
  assumes "\<forall>p \<in> set ps. p_state p = RUNNABLE \<longrightarrow> 1 \<le> p_tickets p" "0 \<le> passed"
    "passed + total_of ps < 2 ^ 31" "passed \<le> r" "r < passed + total_of ps"
  shows "\<exists>i < length ps. find_winner r passed ps = (i, passed + (\<Sum>j < Suc i. weight_at ps j))
    \<and> p_state (ps ! i) = RUNNABLE
    \<and> passed + (\<Sum>j < i. weight_at ps j) \<le> r \<and> r < passed + (\<Sum>j < Suc i. weight_at ps j)"
  using assms
proof (induction ps arbitrary: passed)
  case (Cons p ps)
  have t: "0 \<le> total_of ps"
    using Cons.prems(1) by (simp add: total_of_nonneg)
  show ?case
  proof (cases "p_state p = RUNNABLE \<and> r < passed + p_tickets p")
    case True
    then show ?thesis
      using Cons.prems t by (intro exI [of _ 0]) simp
  next
    case False
    let ?q = "if p_state p = RUNNABLE then passed + p_tickets p else passed"
    obtain i where i: "i < length ps" "find_winner r ?q ps = (i, ?q + (\<Sum>j < Suc i. weight_at ps j))"
      "p_state (ps ! i) = RUNNABLE" "?q + (\<Sum>j < i. weight_at ps j) \<le> r"
      "r < ?q + (\<Sum>j < Suc i. weight_at ps j)"
      using Cons.IH [of ?q] Cons.prems False by (auto split: if_splits)
    have "find_winner r passed (p # ps) = apfst Suc (find_winner r ?q ps)"
      using Cons.prems False t by (auto simp: Let_def)
    then show ?thesis
      using i by (intro exI [of _ "Suc i"]) (auto simp: weight_sum_Cons simp del: sum.lessThan_Suc)
  qed
qed simp

definition winner :: "int \<Rightarrow> proc list \<Rightarrow> nat" where
  "winner r ps = fst (find_winner r 0 ps)"

interpretation draw: lottery length weight_at winner tickets_ok
proof
  fix ps i
  assume "tickets_ok ps" "i < length ps"
  then show "0 \<le> weight_at ps i"
    by (force simp: tickets_ok_def weight_at_def)
next
  fix ps r
  assume "tickets_ok ps" "0 \<le> r" "r < (\<Sum>j < length ps. weight_at ps j)"
  then show "winner r ps < length ps \<and> (\<Sum>j < winner r ps. weight_at ps j) \<le> r
      \<and> r < (\<Sum>j < Suc (winner r ps). weight_at ps j)"
    using find_winner_eq [of ps 0 r] by (auto simp: tickets_ok_def winner_def total_of_def)
qed

section \<open>One iteration of the scheduler\<close>

definition int_ok :: "int \<Rightarrow> bool" where
  "int_ok x \<longleftrightarrow> - (2 ^ 31) \<le> x \<and> x < 2 ^ 31"

lemma int_ok_i32 [simp]: "int_ok (i32 x)"
  using i32_range [of x] by (simp add: int_ok_def)

lemma int_ok_1 [simp]: "int_ok 1" and int_ok_0 [simp]: "int_ok 0"
  by (simp_all add: int_ok_def)

text \<open>What tracing the schedule needs: its lock and the console's, and integers that are ints.\<close>

definition trace_ready :: "'a proc_state_scheme \<Rightarrow> bool" where
  "trace_ready s \<longleftrightarrow> lock_idle L_proc_sched s \<and> (cons_locking s \<longrightarrow> lock_idle L_cons s)
     \<and> int_ok (ps_pid s) \<and> int_ok (ps_ticks s)"

lemma printint_decimal_Ok: "int_ok n \<Longrightarrow> \<exists>out. printint n 10 True = Ok out"
  using int_chars_digits [of 10 kdigits n] by (auto simp: int_ok_def printint_def kdigits_def)

lemma trace_line_Ok:
  assumes "int_ok a" "int_ok b"
  shows "\<exists>out. cprintf_chars (''PID = %d, TICKS = %d'' @ [CHR 0x0A]) [A_int a, A_int b] = Ok out"
  using printint_decimal_Ok [OF assms(1)] printint_decimal_Ok [OF assms(2)] by auto

definition trace_only :: "'a proc_state_scheme \<Rightarrow> 'a proc_state_scheme \<Rightarrow> bool" where
  "trace_only s u \<longleftrightarrow> (\<exists>out pid tks. u = s\<lparr>kout := out, ps_pid := pid, ps_ticks := tks\<rparr>
     \<and> int_ok pid \<and> int_ok tks)"

lemma sched_trace_eq:
  assumes "c < length (cpus s)" "cpu_ok (the_cpu c s)" "ncli (the_cpu c s) \<noteq> 0" "trace_ready s"
    "int_ok (p_pid (the_proc i s))"
  shows "\<exists>u. sched_trace c i s = Ok u \<and> trace_only s u"
proof -
  let ?g = "grabbed c L_proc_sched s"
  have idle: "lock_idle L_proc_sched s" and ok: "int_ok (ps_pid s)" "int_ok (ps_ticks s)"
    using assms(4) by (simp_all add: trace_ready_def)
  have g: "c < length (cpus ?g)" "cpu_ok (the_cpu c ?g)" "ncli (the_cpu c ?g) \<noteq> 0"
    "cons_locking ?g \<Longrightarrow> lock_idle L_cons ?g"
    using assms by (auto simp: grabbed_def trace_ready_def lock_idle_def nth_upd cpu_ok_def)
  have rel: "\<exists>u. release c L_proc_sched t = Ok u \<and> trace_only s u"
    if t: "t = ?g\<lparr>kout := out, ps_pid := pid, ps_ticks := tks\<rparr>" "int_ok pid" "int_ok tks" for t out pid tks
  proof -
    have "release c L_proc_sched t = Ok (t\<lparr>cpus := cpus s, locks := locks s\<rparr>)"
      using assms idle t(1) by (intro release_nested) simp_all
    moreover have "trace_only s (t\<lparr>cpus := cpus s, locks := locks s\<rparr>)"
      unfolding trace_only_def t(1)
      by (intro exI [of _ out] exI [of _ pid] exI [of _ tks])
        (simp add: grabbed_def set_lock_def upd_cpu_def t(2,3))
    ultimately show ?thesis
      by blast
  qed
  obtain out where out:
    "cprintf_chars (''PID = %d, TICKS = %d'' @ [CHR 0x0A]) [A_int (ps_pid s), A_int (ps_ticks s)] = Ok out"
    using trace_line_Ok ok by blast
  note cp = cprintf_nested [OF g out, simplified]
  note tr = sched_trace_def acquire_grabbed [OF assms(1,2) idle]
  have g': "?g\<lparr>kout := kout s, ps_pid := ps_pid s, ps_ticks := ps_ticks s\<rparr> = ?g"
      "?g\<lparr>kout := kout s, ps_pid := a, ps_ticks := b\<rparr> = ?g\<lparr>ps_pid := a, ps_ticks := b\<rparr>"
      "?g\<lparr>kout := kout s, ps_pid := ps_pid s, ps_ticks := b\<rparr> = ?g\<lparr>ps_ticks := b\<rparr>" for a b
    by (simp_all add: grabbed_def set_lock_def upd_cpu_def)
  consider "ps_startflag s \<noteq> 1" | "ps_startflag s = 1" "ps_pid s = 0"
    | "ps_startflag s = 1" "ps_pid s \<noteq> 0" "p_pid (the_proc i s) = ps_pid s"
    | "ps_startflag s = 1" "ps_pid s \<noteq> 0" "p_pid (the_proc i s) \<noteq> ps_pid s"
    by blast
  then show ?thesis
  proof cases
    case 1
    then show ?thesis
      using rel [OF g'(1) [symmetric] ok] by (simp add: tr)
  next
    case 2
    then show ?thesis
      using rel [OF g'(2) [symmetric] assms(5), of "i32 (ps_ticks s + 1)"] by (simp add: tr)
  next
    case 3
    then show ?thesis
      using rel [OF g'(3) [symmetric] ok(1), of "i32 (ps_ticks s + 1)"] by (simp add: tr)
  next
    case 4
    then show ?thesis
      using rel [OF refl assms(5), of 1 "kout s @ out"] by (simp add: tr cp)
  qed
qed

lemma switchuvm_nested:
  assumes "c < length (cpus s)" "cpu_ok (the_cpu c s)" "ncli (the_cpu c s) \<noteq> 0"
    "p_kstack (the_proc i s) \<noteq> 0" "p_pgdir (the_proc i s) \<noteq> 0"
  shows "switchuvm c (Some i) s = Ok (upd_cpu c (\<lambda>k. k\<lparr>cr3 := V2P (p_pgdir (the_proc i s)),
     ts_esp0 := p_kstack (the_proc i s) + KSTACKSIZE\<rparr>) s)"
proof -
  have "0 < ncli (the_cpu c s)" "\<not> eflags_IF (the_cpu c s)"
    using assms(2,3) by (auto simp: cpu_ok_def)
  then show ?thesis
    using assms
    by (cases "the_cpu c s")
      (simp add: switchuvm_def pushcli_eq popcli_def Let_def pushed_def upd_cpu_def upd_def)
qed

definition sched_ready :: "nat \<Rightarrow> 'a proc_state_scheme \<Rightarrow> bool" where
  "sched_ready c s \<longleftrightarrow> c < length (cpus s) \<and> cpu_ok (the_cpu c s) \<and> ncli (the_cpu c s) = 0
     \<and> total_tickets (the_cpu c s) = 0 \<and> tickets_passed (the_cpu c s) = 0 \<and> lock_idle L_ptable s
     \<and> (sched_test s \<longrightarrow> trace_ready s)"

text \<open>The state at \<^verbatim>\<open>swtch\<close>, when process \<open>i\<close> has been chosen.\<close>

definition chosen_cpu :: "nat \<Rightarrow> proc \<Rightarrow> int \<Rightarrow> int \<Rightarrow> cpu \<Rightarrow> cpu" where
  "chosen_cpu i p tot passed k =
     k\<lparr>eflags_IF := False, intena := True, ncli := 1, total_tickets := tot, tickets_passed := passed,
       cpu_proc := Some i, cr3 := V2P (p_pgdir p), ts_esp0 := p_kstack p + KSTACKSIZE\<rparr>"

definition chosen_proc :: "proc \<Rightarrow> proc" where
  "chosen_proc p = p\<lparr>p_ticks := i32 (p_ticks p + 1), p_state := RUNNING\<rparr>"

definition locked_by :: "nat \<Rightarrow> lockid \<Rightarrow> (lockid \<Rightarrow> spinlock) \<Rightarrow> lockid \<Rightarrow> spinlock" where
  "locked_by c l ls = ls(l := (ls l)\<lparr>locked := True, lk_cpu := Some c\<rparr>)"

definition chosen :: "nat \<Rightarrow> nat \<Rightarrow> 'a proc_state_scheme \<Rightarrow> 'a proc_state_scheme \<Rightarrow> bool" where
  "chosen c i s t \<longleftrightarrow> (\<exists>passed out st pid tks.
     t = s\<lparr>cpus := upd c (chosen_cpu i (the_proc i s) (total_of (ptable s)) passed) (cpus s),
           locks := locked_by c L_ptable (locks s), kout := out,
           ptable := upd i chosen_proc (ptable s), start_state := st, ps_pid := pid, ps_ticks := tks\<rparr>
     \<and> (sched_test s \<longrightarrow> int_ok pid \<and> int_ok tks))"

lemma random_below_total:
  assumes "generate_random_number st0 (of_int tot) = Ok (r, st)" "0 \<le> tot"
  shows "uint r < tot"
proof -
  have "of_int tot \<noteq> (0 :: ushort)"
    using assms(1) by (cases "of_int tot = (0 :: ushort)") (auto simp: generate_random_number_zero)
  then have "r < of_int tot"
    using assms(1) by (rule generate_random_number_less)
  then have "uint r < uint (of_int tot :: ushort)"
    by (simp add: word_less_def)
  also have "\<dots> \<le> tot"
    using assms(2) by (simp add: uint_word_of_int zmod_le_nonneg_dividend)
  finally show ?thesis .
qed

lemma scheduler_round_pick:
  assumes "sched_ready c s" "tickets_ok (ptable s)" "0 < total_of (ptable s)"
    and pids: "\<forall>p \<in> set (ptable s). int_ok (p_pid p)"
    and mem: "\<forall>p \<in> set (ptable s). p_state p = RUNNABLE \<longrightarrow> p_kstack p \<noteq> 0 \<and> p_pgdir p \<noteq> 0"
    and rnd: "generate_random_number (start_state s) (of_int (total_of (ptable s))) = Ok (r, st)"
  shows "\<exists>t. scheduler_round c s = Ok (Some (winner (uint r) (ptable s)), t)
    \<and> chosen c (winner (uint r) (ptable s)) s t \<and> start_state t = st"
proof -
  let ?ps = "ptable s" let ?i = "winner (uint r) ?ps"
  have c: "c < length (cpus s)"
    using assms(1) by (simp add: sched_ready_def)
  have "uint r < total_of ?ps"
    using random_below_total [OF rnd] assms(3) by simp
  then obtain passed where w: "find_winner (uint r) 0 ?ps = (?i, passed)" "?i < length ?ps"
      "p_state (?ps ! ?i) = RUNNABLE"
    using find_winner_eq [of ?ps 0 "uint r"] assms(2) by (auto simp: tickets_ok_def winner_def)
  have sum: "sum_tickets 0 ?ps = total_of ?ps"
    using sum_tickets_eq [of ?ps 0] assms(2) by (simp add: tickets_ok_def)
  let ?s1 = "grabbed c L_ptable (sti c s)"
  let ?k1 = "(the_cpu c s)\<lparr>ncli := 1, intena := True, eflags_IF := False\<rparr>"
  have acq: "acquire c L_ptable (sti c s) = Ok ?s1"
    using assms(1) by (intro acquire_grabbed) (auto simp: sched_ready_def sti_def lock_idle_def nth_upd cpu_ok_def)
  have k1: "the_cpu c ?s1 = ?k1"
    using assms(1) by (simp add: sched_ready_def grabbed_def sti_def nth_upd pushed_def)
  have k0: "total_tickets (the_cpu c s) = 0" "tickets_passed (the_cpu c s) = 0"
    using assms(1) by (simp_all add: sched_ready_def)
  have [simp]: "ptable (sti c s) = ptable s" "start_state (sti c s) = start_state s"
    by (simp_all add: sti_def)
  have c1: "c < length (cpus ?s1)"
    using c by (simp add: grabbed_def sti_def)
  let ?u = "s\<lparr>cpus := upd c (\<lambda>k. k\<lparr>eflags_IF := False, intena := True, ncli := 1,
      total_tickets := total_of ?ps, tickets_passed := passed, cpu_proc := Some ?i\<rparr>) (cpus s),
    locks := locked_by c L_ptable (locks s), start_state := st\<rparr>"
  let ?w = "s\<lparr>cpus := upd c (chosen_cpu ?i (the_proc ?i s) (total_of ?ps) passed) (cpus s),
    locks := locked_by c L_ptable (locks s), ptable := upd ?i chosen_proc ?ps, start_state := st\<rparr>"
  have u: "upd_cpu c (\<lambda>k. k\<lparr>tickets_passed := passed, cpu_proc := Some ?i\<rparr>)
      ((upd_cpu c (\<lambda>k. k\<lparr>total_tickets := sum_tickets (total_tickets k) ?ps\<rparr>) ?s1)\<lparr>start_state := st\<rparr>) = ?u"
    using assms(1) by (simp add: upd_cpu_def grabbed_def set_lock_def sti_def locked_by_def upd_def k0 sum
        pushed_def sched_ready_def)
  have sw: "switchuvm c (Some ?i) ?u = Ok (upd_cpu c (\<lambda>k. k\<lparr>cr3 := V2P (p_pgdir (?ps ! ?i)),
      ts_esp0 := p_kstack (?ps ! ?i) + KSTACKSIZE\<rparr>) ?u)"
    using switchuvm_nested [of c ?u ?i] c w mem by (simp add: nth_upd cpu_ok_def)
  have v: "upd_proc ?i (p_state_update (\<lambda>_. RUNNING)) (upd_proc ?i (\<lambda>p. p\<lparr>p_ticks := i32 (p_ticks p + 1)\<rparr>)
      (upd_cpu c (\<lambda>k. k\<lparr>cr3 := V2P (p_pgdir (?ps ! ?i)), ts_esp0 := p_kstack (?ps ! ?i) + KSTACKSIZE\<rparr>) ?u)) = ?w"
    using c w(2) by (simp add: upd_proc_def upd_cpu_def upd_def chosen_proc_def chosen_cpu_def)
  have round: "scheduler_round c s = bindr (if sched_test s then sched_trace c ?i ?w else Ok ?w) (\<lambda>t. Ok (Some ?i, t))"
    using w rnd assms(3)
    by (simp add: scheduler_round_def acq Let_def k1 k0 sum c1 nth_upd u sw v del: upd_proc_upd_proc)
  show ?thesis
  proof (cases "sched_test s")
    case True
    have "\<exists>t. sched_trace c ?i ?w = Ok t \<and> trace_only ?w t"
      using c w(2) pids assms(1) True
      by (intro sched_trace_eq) (auto simp: nth_upd chosen_cpu_def cpu_ok_def trace_ready_def lock_idle_def
          locked_by_def sched_ready_def chosen_proc_def)
    then obtain t where t: "sched_trace c ?i ?w = Ok t" "trace_only ?w t"
      by blast
    then obtain out pid tks where
        w': "t = ?w\<lparr>kout := out, ps_pid := pid, ps_ticks := tks\<rparr>" "int_ok pid" "int_ok tks"
      by (auto simp: trace_only_def)
    then have "chosen c ?i s t"
      unfolding chosen_def
      by (intro exI [of _ passed] exI [of _ out] exI [of _ st] exI [of _ pid] exI [of _ tks]) simp
    then show ?thesis
      using True round t(1) by (simp add: w'(1))
  next
    case False
    then have "chosen c ?i s ?w"
      unfolding chosen_def
      by (intro exI [of _ passed] exI [of _ "kout s"] exI [of _ st] exI [of _ "ps_pid s"]
          exI [of _ "ps_ticks s"]) simp
    then show ?thesis
      using round False by simp
  qed
qed

lemma acquire_ptable_sti:
  "sched_ready c s \<Longrightarrow> acquire c L_ptable (sti c s) = Ok (grabbed c L_ptable (sti c s))"
  by (intro acquire_grabbed) (auto simp: sched_ready_def sti_def lock_idle_def nth_upd cpu_ok_def)

text \<open>With nothing to run, the iteration only leaves interrupts on.\<close>

lemma scheduler_round_idle:
  assumes "sched_ready c s" "\<forall>p \<in> set (ptable s). p_state p \<noteq> RUNNABLE"
  shows "scheduler_round c s = Ok (None, upd_cpu c (\<lambda>k. k\<lparr>eflags_IF := True, intena := True\<rparr>) s)"
proof -
  have c: "c < length (cpus s)" "cpu_ok (the_cpu c s)" "ncli (the_cpu c s) = 0" "lock_idle L_ptable s"
    "total_tickets (the_cpu c s) = 0"
    using assms(1) by (simp_all add: sched_ready_def)
  have "sum_tickets tot ps = tot" if "\<forall>p \<in> set ps. p_state p \<noteq> RUNNABLE" for tot ps
    using that by (induction ps) auto
  then have sum: "sum_tickets tot (ptable s) = tot" for tot
    using assms(2) by simp
  let ?s = "sti c s"
  let ?t = "grabbed c L_ptable ?s"
  have t: "upd_cpu c (\<lambda>k. k) ?t = ?t"
    by (rule upd_cpu_id) simp
  have "release c L_ptable ?t = Ok (?t\<lparr>cpus := upd c settled (cpus ?s), locks := locks ?s\<rparr>)"
    using c by (intro release_grabbed) (auto simp: sti_def nth_upd cpu_ok_def lock_idle_def)
  then have "release c L_ptable (grabbed c L_ptable ?s)
      = Ok (upd_cpu c (\<lambda>k. k\<lparr>eflags_IF := True, intena := True\<rparr>) s)"
    using c
    by (simp add: grabbed_def upd_cpu_def sti_def set_lock_def upd_def settled_def)
  moreover have "total_tickets (the_cpu c (grabbed c L_ptable ?s)) = 0" "ptable ?s = ptable s"
    "c < length (cpus (grabbed c L_ptable ?s))"
    using c by (simp_all add: grabbed_def sti_def nth_upd pushed_def)
  ultimately show ?thesis
    by (simp add: scheduler_round_def acquire_ptable_sti [OF assms(1)] Let_def sum t nth_upd)
qed

text \<open>The total is handed to the generator as an \<open>ushort\<close>: a total that is a multiple of 65536
  becomes 0, and the division in the generator traps.\<close>

lemma scheduler_round_fault:
  assumes "sched_ready c s" "tickets_ok (ptable s)" "0 < total_of (ptable s)"
    "65536 dvd total_of (ptable s)"
  shows "scheduler_round c s = Fault"
proof -
  have c: "c < length (cpus s)" "total_tickets (the_cpu c s) = 0"
    using assms(1) by (simp_all add: sched_ready_def)
  have z: "of_int (total_of (ptable s)) = (0 :: ushort)"
    using assms(4) by (simp add: word_of_int_eq_0_iff)
  have "sum_tickets 0 (ptable s) = total_of (ptable s)"
    using sum_tickets_eq [of "ptable s" 0] assms(2) by (simp add: tickets_ok_def)
  moreover have "total_tickets (the_cpu c (grabbed c L_ptable (sti c s))) = 0" "ptable (sti c s) = ptable s"
    "c < length (cpus (grabbed c L_ptable (sti c s)))"
    using c by (simp_all add: grabbed_def sti_def nth_upd pushed_def)
  ultimately show ?thesis
    using assms(3)
    by (simp add: scheduler_round_def acquire_ptable_sti [OF assms(1)] Let_def nth_upd z
        generate_random_number_zero)
qed

lemma chosenD:
  assumes "chosen c i s t"
  shows "ptable t = upd i chosen_proc (ptable s)" "locks t = locked_by c L_ptable (locks s)"
    "\<exists>passed. cpus t = upd c (chosen_cpu i (the_proc i s) (total_of (ptable s)) passed) (cpus s)"
    "nextpid t = nextpid s" "initproc t = initproc s" "ram t = ram s" "freelist t = freelist s"
    "use_lock t = use_lock s" "kend t = kend s" "kpgdir t = kpgdir s" "kdata t = kdata s"
    "ticks t = ticks s" "sched_test t = sched_test s" "proc_state.more t = proc_state.more s"
    "cons_locking t = cons_locking s" "ps_startflag t = ps_startflag s"
  using assms unfolding chosen_def by auto

lemma chosen_cpu_proc:
  assumes "chosen c i s t" "c < length (cpus s)"
  shows "cpu_proc (the_cpu c t) = Some i"
  using chosenD(3) [OF assms(1)] assms(2) by (auto simp: nth_upd chosen_cpu_def)

lemma total_of_le:
  "\<forall>p \<in> set ps. p_state p = RUNNABLE \<longrightarrow> p_tickets p \<le> m \<Longrightarrow> 0 \<le> m \<Longrightarrow> total_of ps \<le> m * int (length ps)"
  by (induction ps) (auto simp: algebra_simps)

lemma total_of_pos:
  assumes "\<forall>p \<in> set ps. p_state p = RUNNABLE \<longrightarrow> 1 \<le> p_tickets p" "\<exists>p \<in> set ps. p_state p = RUNNABLE"
  shows "0 < total_of ps"
  using assms
proof (induction ps)
  case (Cons p ps)
  then show ?case
    using total_of_nonneg [of ps] by fastforce
qed simp

section \<open>Properties\<close>

text \<open>C1: One iteration of the scheduler. If some process is RUNNABLE, every RUNNABLE process has at
  least one ticket, and the total is not a multiple of 65536, the iteration reaches \<^verbatim>\<open>swtch\<close> with a
  RUNNABLE process: the one whose share of the line of tickets contains the number drawn. That process
  is RUNNING on this CPU and counted one tick more, its address space and kernel stack are loaded,
  \<^verbatim>\<open>ptable.lock\<close> is held, and nothing else in the table changes.\<close>

theorem scheduler_picks_winner:
  assumes "sched_ready c s" "tickets_ok (ptable s)" "0 < total_of (ptable s)"
    "\<not> 65536 dvd total_of (ptable s)" "\<forall>p \<in> set (ptable s). int_ok (p_pid p)"
    "\<forall>p \<in> set (ptable s). p_state p = RUNNABLE \<longrightarrow> p_kstack p \<noteq> 0 \<and> p_pgdir p \<noteq> 0"
  shows "\<exists>i t r. scheduler_round c s = Ok (Some i, t) \<and> i < length (ptable s)
    \<and> p_state (the_proc i s) = RUNNABLE \<and> chosen c i s t
    \<and> generate_random_number (start_state s) (of_int (total_of (ptable s))) = Ok (r, start_state t)
    \<and> (\<Sum>j < i. weight_at (ptable s) j) \<le> uint r \<and> uint r < (\<Sum>j < Suc i. weight_at (ptable s) j)"
proof -
  let ?l = "of_int (total_of (ptable s)) :: ushort"
  have l: "?l \<noteq> 0"
    using assms(4) by (simp add: word_of_int_eq_0_iff)
  then obtain r st where r: "generate_random_number (start_state s) ?l = Ok (r, st)"
    by (simp add: generate_random_number_eq)
  have lt: "uint r < total_of (ptable s)"
    using random_below_total [OF r] assms(3) by simp
  obtain t where t: "scheduler_round c s = Ok (Some (winner (uint r) (ptable s)), t)"
    "chosen c (winner (uint r) (ptable s)) s t" "start_state t = st"
    using scheduler_round_pick [OF assms(1-3,5,6) r] by blast
  have "winner (uint r) (ptable s) < length (ptable s)
      \<and> (\<Sum>j < winner (uint r) (ptable s). weight_at (ptable s) j) \<le> uint r
      \<and> uint r < (\<Sum>j < Suc (winner (uint r) (ptable s)). weight_at (ptable s) j)"
    using draw.pick_law [of "ptable s" "uint r"] assms(2) lt by (simp add: total_of_def)
  moreover have "p_state (the_proc (winner (uint r) (ptable s)) s) = RUNNABLE"
    using draw.wins_weight_pos [of "ptable s" "uint r"] assms(2) lt
    by (simp add: total_of_def weight_at_def split: if_splits)
  ultimately show ?thesis
    using t r by blast
qed

lemma small_machine_simps:
  "cpus (small_machine ps) = [idle_cpu0]" "locks (small_machine ps) = (\<lambda>_. free_lock)"
  "ptable (small_machine ps) = ps @ replicate (64 - length ps) no_proc"
  "sched_test (small_machine ps)" "ps_pid (small_machine ps) = 0" "ps_ticks (small_machine ps) = 0"
  "start_state (small_machine ps) = START_STATE"
  by (simp_all add: small_machine_def)

lemma small_machine_ready: "sched_ready 0 (small_machine ps)"
  by (simp add: sched_ready_def trace_ready_def lock_idle_def cpu_ok_def small_machine_simps
      idle_cpu0_def free_lock_def)

lemma total_of_small_machine: "total_of (ptable (small_machine ps)) = total_of ps"
  by (simp add: small_machine_simps total_of_append total_of_unused no_proc_def)

theorem scheduler_picks_winner_witness:
  "\<exists>i t. scheduler_round 0 (small_machine [ready_proc 1 100, ready_proc 2 300]) = Ok (Some i, t)
     \<and> cpu_proc (the_cpu 0 t) = Some i"
proof -
  let ?s = "small_machine [ready_proc 1 100, ready_proc 2 300]"
  have "total_of (ptable ?s) = 400"
    by (simp add: total_of_small_machine ready_proc_def)
  then have "tickets_ok (ptable ?s)" "0 < total_of (ptable ?s)" "\<not> 65536 dvd total_of (ptable ?s)"
    "\<forall>p \<in> set (ptable ?s). int_ok (p_pid p)"
    "\<forall>p \<in> set (ptable ?s). p_state p = RUNNABLE \<longrightarrow> p_kstack p \<noteq> 0 \<and> p_pgdir p \<noteq> 0"
    by (auto simp: tickets_ok_def small_machine_simps ready_proc_def no_proc_def int_ok_def)
  from scheduler_picks_winner [OF small_machine_ready this] show ?thesis
    using chosen_cpu_proc [of 0 _ ?s] by (fastforce simp: small_machine_simps)
qed

text \<open>C2: Proportional share. Among the ticket numbers below the total, the search of the scheduler
  stops at a given entry of the table for exactly as many numbers as the entry has tickets (none, if
  the process is not RUNNABLE).\<close>

theorem lottery_proportional:
  assumes "tickets_ok ps" "i < length ps"
  shows "int (card {r. 0 \<le> r \<and> r < total_of ps \<and> fst (find_winner r 0 ps) = i}) = weight_at ps i"
  using draw.proportional [OF assms] by (simp add: winner_def total_of_def)

theorem lottery_proportional_witness:
  "int (card {r. 0 \<le> r \<and> r < 400 \<and> fst (find_winner r 0 [ready_proc 1 100, ready_proc 2 300]) = 1}) = 300"
  using lottery_proportional [of "[ready_proc 1 100, ready_proc 2 300]" 1]
  by (simp add: tickets_ok_def ready_proc_def weight_at_def)

text \<open>C11: The total is an \<open>int\<close>, the parameter of \<^verbatim>\<open>generate_random_number\<close> an \<open>ushort\<close>: when the tickets of
  the RUNNABLE processes add up to a multiple of 65536, the kernel divides by zero in the
  scheduler.\<close>

theorem scheduler_traps_on_65536:
  assumes "sched_ready c s" "tickets_ok (ptable s)" "0 < total_of (ptable s)"
    "65536 dvd total_of (ptable s)"
  shows "scheduler_round c s = Fault"
  using assms by (rule scheduler_round_fault)

theorem scheduler_traps_on_65536_witness:
  "scheduler_round 0 (small_machine [ready_proc 1 100, ready_proc 2 65436]) = Fault"
proof -
  let ?s = "small_machine [ready_proc 1 100, ready_proc 2 65436]"
  have "total_of (ptable ?s) = 65536"
    by (simp add: total_of_small_machine ready_proc_def)
  then have "tickets_ok (ptable ?s)" "0 < total_of (ptable ?s)" "65536 dvd total_of (ptable ?s)"
    by (auto simp: tickets_ok_def small_machine_simps ready_proc_def no_proc_def)
  from scheduler_traps_on_65536 [OF small_machine_ready this] show ?thesis .
qed

text \<open>C10: With at most 64 table entries and at most \<^verbatim>\<open>MAX_TICKETS_PER_PROCESS\<close> (1000) tickets for each
  RUNNABLE process, no total can be a multiple of 65536 and the scheduler's iteration always comes to
  its end or to \<^verbatim>\<open>swtch\<close>: it neither traps nor panics nor runs off the table.\<close>

theorem scheduler_returns_within_limits:
  assumes "sched_ready c s" "length (ptable s) \<le> 64"
    "\<forall>p \<in> set (ptable s). int_ok (p_pid p) \<and> (p_state p = RUNNABLE \<longrightarrow>
       1 \<le> p_tickets p \<and> p_tickets p \<le> 1000 \<and> p_kstack p \<noteq> 0 \<and> p_pgdir p \<noteq> 0)"
  shows "\<exists>i t. scheduler_round c s = Ok (i, t)
    \<and> (i = None \<longleftrightarrow> (\<forall>p \<in> set (ptable s). p_state p \<noteq> RUNNABLE))"
proof (cases "\<forall>p \<in> set (ptable s). p_state p \<noteq> RUNNABLE")
  case True
  then show ?thesis
    using scheduler_round_idle [OF assms(1)] by simp
next
  case False
  have "total_of (ptable s) \<le> 1000 * int (length (ptable s))"
    using assms(3) by (intro total_of_le) auto
  then have le: "total_of (ptable s) \<le> 64000"
    using assms(2) by linarith
  have pos: "0 < total_of (ptable s)"
    using assms(3) False by (intro total_of_pos) auto
  let ?l = "of_int (total_of (ptable s)) :: ushort"
  have "?l \<noteq> 0"
    using le pos zdvd_imp_le [of 65536 "total_of (ptable s)"] by (auto simp: word_of_int_eq_0_iff)
  then obtain r st where r: "generate_random_number (start_state s) ?l = Ok (r, st)"
    by (simp add: generate_random_number_eq)
  have "tickets_ok (ptable s)"
    using assms(3) le by (auto simp: tickets_ok_def)
  then show ?thesis
    using scheduler_round_pick [OF assms(1) _ pos _ _ r] assms(3) False by fastforce
qed

theorem scheduler_returns_within_limits_witness:
  "\<exists>i t. scheduler_round 0 (small_machine [ready_proc 1 100, ready_proc 2 1000]) = Ok (Some i, t)"
  using scheduler_returns_within_limits [OF small_machine_ready, of "[ready_proc 1 100, ready_proc 2 1000]"]
  by (auto simp: small_machine_simps ready_proc_def no_proc_def int_ok_def)

end
