(* ===== verification/Fairness.thy ===== *)
theory Fairness
  imports Lottery
begin

text \<open>
  The lottery over many rounds. While the tickets on offer stay the same, successive calls of
  \<^verbatim>\<open>generate_random_number\<close> run through all 65535 seeds before one comes back, and the register is a
  permutation, so a full cycle of draws is shared out among the processes in proportion to their
  tickets.
\<close>

section \<open>Successive calls\<close>

primrec calls :: "nat \<Rightarrow> ushort \<Rightarrow> ushort \<Rightarrow> (ushort \<times> ushort) res" where
  "calls 0 st limit = generate_random_number st limit"
| "calls (Suc k) st limit = bindr (generate_random_number st limit) (\<lambda>(_, st). calls k st limit)"

definition call_seed :: "ushort \<Rightarrow> nat \<Rightarrow> ushort" where
  "call_seed st k = of_nat ((unat (seed_of st) - 1 + k) mod 65535 + 1)"

lemma unat16_less: "unat (x :: ushort) < 65536"
  using unsigned_less [of x, where 'a = nat] by simp

lemma unat_of_nat16: "n < 65536 \<Longrightarrow> unat (of_nat n :: ushort) = n"
  by (simp add: unsigned_of_nat take_bit_nat_eq_self)

lemma seed_of_pos: "0 < unat (seed_of st)"
  by (simp add: seed_of_def unat_gt_0)

lemma call_seed_0: "call_seed st 0 = seed_of st"
proof -
  have "(unat (seed_of st) - 1) mod 65535 + 1 = unat (seed_of st)"
    using seed_of_pos [of st] unat16_less [of "seed_of st"] by (subst mod_less) auto
  then show ?thesis
    by (simp add: call_seed_def)
qed

lemma call_seed_next: "call_seed (seed_of st + 1) k = call_seed st (Suc k)"
proof (cases "unat (seed_of st) = 65535")
  case True
  then have "seed_of st = 65535"
    by (simp add: word_unat_eq_iff)
  then have "seed_of st + 1 = 0"
    by (simp only:) code_simp
  then have "seed_of (seed_of st + 1) = 1"
    by (simp add: seed_of_def)
  then show ?thesis
    using True by (simp add: call_seed_def)
next
  case False
  then have "unat (seed_of st + 1) = unat (seed_of st) + 1"
    using unat16_less [of "seed_of st"] by (simp add: unat_plus_if')
  then have "unat (seed_of (seed_of st + 1)) = unat (seed_of st) + 1"
    by (auto simp: seed_of_def)
  then show ?thesis
    using seed_of_pos [of st] by (simp add: call_seed_def)
qed

lemma calls_eq:
  "limit \<noteq> 0 \<Longrightarrow>
   calls k st limit = Ok ((lfsr_step ^^ unat limit) (call_seed st k) mod limit, call_seed st k + 1)"
  by (induction k arbitrary: st) (simp_all add: generate_random_number_eq call_seed_0 call_seed_next)

lemma unat_call_seed: "unat (call_seed st k) = (unat (seed_of st) - 1 + k) mod 65535 + 1"
proof -
  have "(unat (seed_of st) - 1 + k) mod 65535 + 1 < 65536"
    using mod_less_divisor [of 65535 "unat (seed_of st) - 1 + k"] by simp
  then show ?thesis
    unfolding call_seed_def by (rule unat_of_nat16)
qed

lemma call_seed_bij: "bij_betw (call_seed st) {..<65535} {x. x \<noteq> 0}"
proof -
  define a where "a = unat (seed_of st) - 1"
  have a: "a < 65535"
    using unat16_less [of "seed_of st"] by (simp add: a_def)
  have f: "unat (call_seed st k) = (a + k) mod 65535 + 1" for k
    by (simp add: unat_call_seed a_def)
  define g where "g x = (unat x - 1 + (65535 - a)) mod 65535" for x :: ushort
  show ?thesis
  proof (rule bij_betw_byWitness [where f' = g])
    show "\<forall>k \<in> {..<65535}. g (call_seed st k) = k"
    proof
      fix k :: nat assume "k \<in> {..<65535}"
      have "g (call_seed st k) = (a + k + (65535 - a)) mod 65535"
        by (simp add: g_def f mod_add_left_eq)
      then show "g (call_seed st k) = k"
        using a \<open>k \<in> _\<close> by simp
    qed
    show "\<forall>x \<in> {x. x \<noteq> 0}. call_seed st (g x) = x"
    proof
      fix x :: ushort assume "x \<in> {x. x \<noteq> 0}"
      then have x: "0 < unat x" "unat x < 65536"
        by (auto simp: unat16_less unat_gt_0)
      have "unat (call_seed st (g x)) = (a + (unat x - 1 + (65535 - a))) mod 65535 + 1"
        by (simp only: g_def f mod_add_right_eq)
      also have "a + (unat x - 1 + (65535 - a)) = unat x - 1 + 65535"
        using a by simp
      also have "(unat x - 1 + 65535) mod 65535 = unat x - 1"
        using x by (subst mod_add_self2) simp
      finally show "call_seed st (g x) = x"
        using x by (simp add: word_unat_eq_iff)
    qed
    show "call_seed st ` {..<65535} \<subseteq> {x. x \<noteq> 0}"
      using f by (auto simp flip: unat_eq_0)
    show "g ` {x. x \<noteq> 0} \<subseteq> {..<65535}"
      by (auto simp: g_def)
  qed
qed

lemma steps_bij: "bij_betw (lfsr_step ^^ n) {x. x \<noteq> 0} {x. x \<noteq> 0}"
proof -
  have "inj (lfsr_step ^^ n)"
    by (induction n) (auto simp: inj_def dest: lfsr_step_inj)
  then have "inj_on (lfsr_step ^^ n) {x. x \<noteq> 0}"
    by (rule inj_on_subset) simp
  moreover have "(lfsr_step ^^ n) ` {x. x \<noteq> 0} \<subseteq> {x. x \<noteq> 0}"
    by (auto simp: lfsr_steps_eq_0)
  ultimately show ?thesis
    by (simp add: bij_betw_def endo_inj_surj)
qed

lemma bij_betw_filter_card:
  assumes "bij_betw f A B"
  shows "card {k \<in> A. Q (f k)} = card {x \<in> B. Q x}"
proof -
  have "f ` {k \<in> A. Q (f k)} = {x \<in> B. Q x}" "inj_on f {k \<in> A. Q (f k)}"
    using assms by (auto simp: bij_betw_def intro: inj_on_subset)
  then show ?thesis
    by (metis card_image)
qed

text \<open>A cycle of calls reduces every number other than 0 once.\<close>

lemma cycle_card:
  assumes "limit \<noteq> 0"
  shows "card {k. k < 65535 \<and> (\<exists>r st'. calls k st limit = Ok (r, st') \<and> P r)}
    = card {x. x \<noteq> 0 \<and> P (x mod limit)}"
proof -
  define f where "f k = (lfsr_step ^^ unat limit) (call_seed st k)" for k
  have "bij_betw f {..<65535} {x. x \<noteq> 0}"
    unfolding f_def using bij_betw_trans [OF call_seed_bij steps_bij] by (simp add: o_def)
  note bij_betw_filter_card [OF this, of "\<lambda>x. P (x mod limit)"]
  moreover have "(\<exists>r st'. calls k st limit = Ok (r, st') \<and> P r) = P (f k mod limit)" for k
    using assms by (simp add: calls_eq f_def)
  ultimately show ?thesis
    by (simp only: lessThan_iff mem_Collect_eq)
qed

section \<open>Shares\<close>

lemma residue_count:
  fixes N n r :: nat
  assumes "0 < n" "r < n"
  shows "N div n \<le> card {x. 1 \<le> x \<and> x \<le> N \<and> x mod n = r}"
    "card {x. 1 \<le> x \<and> x \<le> N \<and> x mod n = r} \<le> N div n + 1"
proof -
  define b where "b = (if r = 0 then n else r)"
  have sub1: "(\<lambda>j. b + j * n) ` {..<N div n} \<subseteq> {x. 1 \<le> x \<and> x \<le> N \<and> x mod n = r}"
  proof
    fix x assume "x \<in> (\<lambda>j. b + j * n) ` {..<N div n}"
    then obtain j where j: "x = b + j * n" "j + 1 \<le> N div n"
      using Suc_leI by fastforce
    have "b + j * n \<le> (j + 1) * n"
      using assms by (simp add: b_def)
    also have "\<dots> \<le> N div n * n"
      using j(2) by (rule mult_le_mono1)
    also have "\<dots> \<le> N"
      by simp
    finally show "x \<in> {x. 1 \<le> x \<and> x \<le> N \<and> x mod n = r}"
      using assms by (auto simp: j(1) b_def)
  qed
  have inj: "inj_on (\<lambda>j. b + j * n) A" for A
    using assms(1) by (auto simp: inj_on_def)
  have fin: "finite {x. 1 \<le> x \<and> x \<le> N \<and> x mod n = r}"
    by (rule finite_subset [of _ "{..N}"]) auto
  show "N div n \<le> card {x. 1 \<le> x \<and> x \<le> N \<and> x mod n = r}"
    using card_mono [OF fin sub1] by (simp add: card_image inj)
  have "{x. 1 \<le> x \<and> x \<le> N \<and> x mod n = r} \<subseteq> (\<lambda>j. r + j * n) ` {..N div n}"
  proof
    fix x assume x: "x \<in> {x. 1 \<le> x \<and> x \<le> N \<and> x mod n = r}"
    then have "x = r + x div n * n" "x div n \<le> N div n"
      using div_mult_mod_eq [of x n] by (auto intro: div_le_mono)
    then show "x \<in> (\<lambda>j. r + j * n) ` {..N div n}"
      by blast
  qed
  then have "card {x. 1 \<le> x \<and> x \<le> N \<and> x mod n = r} \<le> card ((\<lambda>j. r + j * n) ` {..N div n})"
    by (intro card_mono) simp
  also have "\<dots> \<le> card {..N div n}"
    by (rule card_image_le) simp
  finally show "card {x. 1 \<le> x \<and> x \<le> N \<and> x mod n = r} \<le> N div n + 1"
    by simp
qed

lemma residues_count:
  fixes N n a b :: nat
  assumes "0 < n" "a \<le> b" "b \<le> n"
  shows "(b - a) * (N div n) \<le> card {x. 1 \<le> x \<and> x \<le> N \<and> a \<le> x mod n \<and> x mod n < b}"
    "card {x. 1 \<le> x \<and> x \<le> N \<and> a \<le> x mod n \<and> x mod n < b} \<le> (b - a) * (N div n + 1)"
proof -
  define A where "A r = {x. 1 \<le> x \<and> x \<le> N \<and> x mod n = r}" for r
  have fin: "finite (A r)" for r
    unfolding A_def by (rule finite_subset [of _ "{..N}"]) auto
  have "{x. 1 \<le> x \<and> x \<le> N \<and> a \<le> x mod n \<and> x mod n < b} = (\<Union>r \<in> {a..<b}. A r)"
    by (auto simp: A_def)
  then have eq: "card {x. 1 \<le> x \<and> x \<le> N \<and> a \<le> x mod n \<and> x mod n < b} = (\<Sum>r \<in> {a..<b}. card (A r))"
    using fin by (simp add: card_UN_disjoint A_def disjoint_iff)
  have "(\<Sum>r \<in> {a..<b}. N div n) \<le> (\<Sum>r \<in> {a..<b}. card (A r))"
    "(\<Sum>r \<in> {a..<b}. card (A r)) \<le> (\<Sum>r \<in> {a..<b}. N div n + 1)"
    unfolding A_def using assms residue_count [of n _ N] by (intro sum_mono; force)+
  then show "(b - a) * (N div n) \<le> card {x. 1 \<le> x \<and> x \<le> N \<and> a \<le> x mod n \<and> x mod n < b}"
    "card {x. 1 \<le> x \<and> x \<le> N \<and> a \<le> x mod n \<and> x mod n < b} \<le> (b - a) * (N div n + 1)"
    unfolding eq by simp_all
qed

lemma card_ushort:
  "card {x :: ushort. x \<noteq> 0 \<and> Q (unat x)} = card {n. 1 \<le> n \<and> n \<le> 65535 \<and> Q n}"
proof -
  have "unat ` {x :: ushort. x \<noteq> 0 \<and> Q (unat x)} = {n. 1 \<le> n \<and> n \<le> 65535 \<and> Q n}"
  proof (intro set_eqI iffI)
    fix n assume "n \<in> {n. 1 \<le> n \<and> n \<le> 65535 \<and> Q n}"
    then have "unat (of_nat n :: ushort) = n" "Q n" "n \<noteq> 0"
      by (simp_all add: unat_of_nat16)
    then show "n \<in> unat ` {x :: ushort. x \<noteq> 0 \<and> Q (unat x)}"
      by (intro image_eqI [of _ _ "of_nat n"]) (auto simp flip: unat_eq_0)
  next
    fix n assume "n \<in> unat ` {x :: ushort. x \<noteq> 0 \<and> Q (unat x)}"
    then obtain x :: ushort where x: "n = unat x" "x \<noteq> 0" "Q n"
      by auto
    have "0 < unat x"
      using x(2) by (simp add: unat_gt_0)
    then show "n \<in> {n. 1 \<le> n \<and> n \<le> 65535 \<and> Q n}"
      using x unat16_less [of x] by simp
  qed
  moreover have "inj_on unat {x :: ushort. x \<noteq> 0 \<and> Q (unat x)}"
    by (rule inj_onI) (simp add: word_unat_eq_iff)
  ultimately show ?thesis
    using card_image by fastforce
qed

text \<open>The calls of a cycle that select a process.\<close>

definition wins :: "proc list \<Rightarrow> ushort \<Rightarrow> nat \<Rightarrow> nat set" where
  "wins ps st i = {k. k < 65535 \<and> (\<exists>r st'. calls k st (of_int (total_of ps)) = Ok (r, st')
     \<and> fst (find_winner (uint r) 0 ps) = i)}"

lemma card_wins:
  assumes "tickets_ok ps" "i < length ps" "0 < total_of ps" "total_of ps \<le> 65535"
  shows "card (wins ps st i) = card {x. 1 \<le> x \<and> x \<le> 65535
    \<and> nat (\<Sum>j < i. weight_at ps j) \<le> x mod nat (total_of ps)
    \<and> x mod nat (total_of ps) < nat (\<Sum>j < Suc i. weight_at ps j)}"
proof -
  let ?L = "of_int (total_of ps) :: ushort" and ?a = "\<Sum>j < i. weight_at ps j" and ?b = "\<Sum>j < Suc i. weight_at ps j"
  have L: "uint ?L = total_of ps"
    using assms(3,4) by (simp add: unsigned_of_int take_bit_int_eq_self)
  have a: "0 \<le> ?a"
    using draw.prefix_mono [OF assms(1), of 0 i] assms(2) by simp
  have "unat ?L = nat (total_of ps)"
    using L by (metis nat_uint_eq)
  then have un: "nat (uint (x mod ?L)) = unat x mod nat (total_of ps)" for x :: ushort
    by (simp add: unat_mod)
  have "?L \<noteq> 0"
    using L assms(3) by auto
  have win: "fst (find_winner (uint (x mod ?L)) 0 ps) = i
      \<longleftrightarrow> nat ?a \<le> unat x mod nat (total_of ps) \<and> unat x mod nat (total_of ps) < nat ?b" for x
  proof -
    have u: "0 \<le> uint (x mod ?L)" "uint (x mod ?L) < total_of ps"
      using L assms(3) by (simp_all add: uint_mod)
    then have "winner (uint (x mod ?L)) ps = i \<longleftrightarrow> ?a \<le> uint (x mod ?L) \<and> uint (x mod ?L) < ?b"
      using draw.pick_iff [OF assms(1,2)] by (simp add: total_of_def)
    also have "\<dots> \<longleftrightarrow> nat ?a \<le> nat (uint (x mod ?L)) \<and> nat (uint (x mod ?L)) < nat ?b"
      using u(1) a by linarith
    finally show ?thesis
      unfolding un winner_def .
  qed
  show ?thesis
    unfolding wins_def cycle_card [OF \<open>?L \<noteq> 0\<close>] win by (rule card_ushort)
qed

section \<open>Properties\<close>

text \<open>C3: Fair shares, and no starvation. While the RUNNABLE processes hold at most 65535 tickets in all
  and keep them, then out of 65535 successive draws, whatever the seed, a process with \<open>w\<close> of the \<open>n\<close>
  tickets wins between \<open>w * (65535 div n)\<close> and \<open>w * (65535 div n + 1)\<close> times. Each RUNNABLE process wins at
  least once.\<close>

theorem lottery_fair_cycle:
  assumes "tickets_ok ps" "i < length ps" "0 < total_of ps" "total_of ps \<le> 65535"
  shows "weight_at ps i * (65535 div total_of ps) \<le> int (card (wins ps st i))
    \<and> int (card (wins ps st i)) \<le> weight_at ps i * (65535 div total_of ps + 1)
    \<and> (p_state (ps ! i) = RUNNABLE \<longrightarrow> wins ps st i \<noteq> {})"
proof -
  let ?a = "\<Sum>j < i. weight_at ps j" and ?b = "\<Sum>j < Suc i. weight_at ps j" and ?n = "nat (total_of ps)"
  have ab: "0 \<le> ?a" "?a \<le> ?b" "?b \<le> total_of ps"
    using draw.prefix_mono [OF assms(1), of 0 i] draw.prefix_mono [OF assms(1), of i "Suc i"]
      draw.prefix_mono [OF assms(1), of "Suc i" "length ps"] assms(2) by (simp_all add: total_of_def)
  have w: "int (nat ?b - nat ?a) = weight_at ps i"
    using ab(1,2) by simp
  have n: "int (65535 div ?n) = 65535 div total_of ps"
    using assms(3) by (simp add: zdiv_int)
  have "(nat ?b - nat ?a) * (65535 div ?n) \<le> card (wins ps st i)"
    "card (wins ps st i) \<le> (nat ?b - nat ?a) * (65535 div ?n + 1)"
    unfolding card_wins [OF assms] using ab assms(3)
    by (intro residues_count; simp add: nat_mono del: sum.lessThan_Suc)+
  then have "int ((nat ?b - nat ?a) * (65535 div ?n)) \<le> int (card (wins ps st i))"
    "int (card (wins ps st i)) \<le> int ((nat ?b - nat ?a) * (65535 div ?n + 1))"
    by (simp_all only: of_nat_le_iff)
  then have le: "weight_at ps i * (65535 div total_of ps) \<le> int (card (wins ps st i))"
    "int (card (wins ps st i)) \<le> weight_at ps i * (65535 div total_of ps + 1)"
    by (simp_all only: of_nat_mult of_nat_add of_nat_1 w n)
  have "wins ps st i \<noteq> {}" if "p_state (ps ! i) = RUNNABLE"
  proof -
    have "1 \<le> weight_at ps i"
      using that assms(1,2) by (auto simp: weight_at_def tickets_ok_def)
    moreover have "1 \<le> 65535 div total_of ps"
      using assms(3,4) pos_imp_zdiv_pos_iff [of "total_of ps" 65535] by linarith
    ultimately have "1 * 1 \<le> weight_at ps i * (65535 div total_of ps)"
      by (intro mult_mono) auto
    with le(1) show ?thesis
      by auto
  qed
  with le show ?thesis
    by blast
qed

theorem lottery_fair_cycle_witness:
  "300 * 163 \<le> int (card (wins [ready_proc 1 100, ready_proc 2 300] 7 1))
    \<and> wins [ready_proc 1 100, ready_proc 2 300] 7 1 \<noteq> {}"
  using lottery_fair_cycle [of "[ready_proc 1 100, ready_proc 2 300]" 1 7]
  by (simp add: tickets_ok_def ready_proc_def weight_at_def)

end
