(* ===== verification/ProcInv.thy ===== *)
theory ProcInv
  imports Lottery
begin

text \<open>
  The invariant of the process table: a process is RUNNING exactly when one CPU runs it, and then
  only that one; processes that wait have what they need to go on; pids of live processes differ until the counter of
  pids wraps around.
  Every routine of \<^verbatim>\<open>proc.c\<close> that comes back keeps it.
\<close>

section \<open>The table invariant\<close>

text \<open>What holds of one entry. A process that waits for the CPU has a context to go on from, a kernel
  stack and an address space; one that sleeps has a channel; one that runs has no saved context
  unless it still has to take a lock back.\<close>

definition proc_ok :: "proc \<Rightarrow> bool" where
  "proc_ok p \<longleftrightarrow>
     (p_state p \<in> {RUNNABLE, SLEEPING} \<longrightarrow>
        (p_context p = Some Ctx_forkret \<or> (\<exists>ie. p_context p = Some (Ctx_sched ie By_yield))
          \<or> (\<exists>ie lk. p_context p = Some (Ctx_sched ie (By_sleep lk)))))
     \<and> (p_state p = RUNNING \<longrightarrow>
          p_context p = None \<or> (\<exists>lk. lk \<noteq> L_ptable \<and> p_context p = Some (Ctx_reacquire lk)))
     \<and> (p_state p \<in> {RUNNABLE, SLEEPING, RUNNING} \<longrightarrow> p_kstack p \<noteq> 0 \<and> p_pgdir p \<noteq> 0)
     \<and> (p_state p = SLEEPING \<longrightarrow> p_chan p \<noteq> None)
     \<and> (p_state p \<noteq> UNUSED \<longrightarrow> 1 \<le> p_tickets p)"

text \<open>The table and the CPUs agree on who runs where; as long as the
  counter of pids has not wrapped around (\<open>nw\<close>), live processes have different pids below the next one.\<close>

definition tab_inv :: "bool \<Rightarrow> nat option list \<Rightarrow> proc list \<Rightarrow> int \<Rightarrow> bool" where
  "tab_inv nw cps ps n \<longleftrightarrow>
     (\<forall>c < length cps. \<forall>i. cps ! c = Some i \<longrightarrow> i < length ps \<and> p_state (ps ! i) = RUNNING)
     \<and> (\<forall>c < length cps. \<forall>d < length cps. \<forall>i. cps ! c = Some i \<and> cps ! d = Some i \<longrightarrow> c = d)
     \<and> (\<forall>i < length ps. p_state (ps ! i) = RUNNING \<longrightarrow> (\<exists>c < length cps. cps ! c = Some i))
     \<and> (\<forall>i < length ps. proc_ok (ps ! i))
     \<and> (nw \<longrightarrow>
          (\<forall>i < length ps. p_state (ps ! i) \<noteq> UNUSED \<longrightarrow> 0 < p_pid (ps ! i) \<and> p_pid (ps ! i) < n)
        \<and> (\<forall>i < length ps. \<forall>j < length ps. p_state (ps ! i) \<noteq> UNUSED \<and> p_state (ps ! j) \<noteq> UNUSED
             \<and> p_pid (ps ! i) = p_pid (ps ! j) \<longrightarrow> i = j)
        \<and> 0 < n)"

lemma tab_invD:
  assumes "tab_inv nw cps ps n"
  shows "c < length cps \<Longrightarrow> cps ! c = Some i \<Longrightarrow> i < length ps \<and> p_state (ps ! i) = RUNNING"
    "c < length cps \<Longrightarrow> d < length cps \<Longrightarrow> cps ! c = Some i \<Longrightarrow> cps ! d = Some i \<Longrightarrow> c = d"
    "i < length ps \<Longrightarrow> p_state (ps ! i) = RUNNING \<Longrightarrow> \<exists>c < length cps. cps ! c = Some i"
    "i < length ps \<Longrightarrow> proc_ok (ps ! i)"
    "nw \<Longrightarrow> i < length ps \<Longrightarrow> p_state (ps ! i) \<noteq> UNUSED \<Longrightarrow> 0 < p_pid (ps ! i) \<and> p_pid (ps ! i) < n"
    "nw \<Longrightarrow> i < length ps \<Longrightarrow> j < length ps \<Longrightarrow> p_state (ps ! i) \<noteq> UNUSED \<Longrightarrow> p_state (ps ! j) \<noteq> UNUSED
       \<Longrightarrow> p_pid (ps ! i) = p_pid (ps ! j) \<Longrightarrow> i = j"
    "nw \<Longrightarrow> 0 < n"
  using assms unfolding tab_inv_def by blast+

lemma tab_invI:
  assumes "\<And>c i. c < length cps \<Longrightarrow> cps ! c = Some i \<Longrightarrow> i < length ps \<and> p_state (ps ! i) = RUNNING"
    "\<And>c d i. c < length cps \<Longrightarrow> d < length cps \<Longrightarrow> cps ! c = Some i \<Longrightarrow> cps ! d = Some i \<Longrightarrow> c = d"
    "\<And>i. i < length ps \<Longrightarrow> p_state (ps ! i) = RUNNING \<Longrightarrow> \<exists>c < length cps. cps ! c = Some i"
    "\<And>i. i < length ps \<Longrightarrow> proc_ok (ps ! i)"
    "\<And>i. nw \<Longrightarrow> i < length ps \<Longrightarrow> p_state (ps ! i) \<noteq> UNUSED \<Longrightarrow> 0 < p_pid (ps ! i) \<and> p_pid (ps ! i) < n"
    "\<And>i j. nw \<Longrightarrow> i < length ps \<Longrightarrow> j < length ps \<Longrightarrow> p_state (ps ! i) \<noteq> UNUSED \<Longrightarrow> p_state (ps ! j) \<noteq> UNUSED
       \<Longrightarrow> p_pid (ps ! i) = p_pid (ps ! j) \<Longrightarrow> i = j"
    "nw \<Longrightarrow> 0 < n"
  shows "tab_inv nw cps ps n"
  using assms unfolding tab_inv_def by blast

text \<open>A change of the whole table that moves nobody on or off a CPU and makes no new process.\<close>

lemma tab_inv_table:
  assumes inv: "tab_inv nw cps ps n" and len: "length qs = length ps"
    and run: "\<And>j. j < length ps \<Longrightarrow> p_state (qs ! j) = RUNNING \<longleftrightarrow> p_state (ps ! j) = RUNNING"
    and ok: "\<And>j. j < length ps \<Longrightarrow> proc_ok (qs ! j)"
    and live: "\<And>j. j < length ps \<Longrightarrow> p_state (qs ! j) \<noteq> UNUSED \<Longrightarrow>
      p_state (ps ! j) \<noteq> UNUSED \<and> p_pid (qs ! j) = p_pid (ps ! j)"
  shows "tab_inv nw cps qs n"
proof (rule tab_invI, unfold len)
  fix c i assume "c < length cps" "cps ! c = Some i"
  then show "i < length ps \<and> p_state (qs ! i) = RUNNING"
    using tab_invD(1) [OF inv] run by blast
next
  fix i j assume nw "i < length ps" "j < length ps" "p_state (qs ! i) \<noteq> UNUSED" "p_state (qs ! j) \<noteq> UNUSED"
    "p_pid (qs ! i) = p_pid (qs ! j)"
  then show "i = j"
    using live [of i] live [of j] tab_invD(6) [OF inv, of i j] by simp
next
  fix i assume "i < length ps" "p_state (qs ! i) = RUNNING"
  then show "\<exists>c < length cps. cps ! c = Some i"
    using run tab_invD(3) [OF inv] by blast
next
  fix i assume nw "i < length ps" "p_state (qs ! i) \<noteq> UNUSED"
  then show "0 < p_pid (qs ! i) \<and> p_pid (qs ! i) < n"
    using live [of i] tab_invD(5) [OF inv, of i] by simp
qed (use ok tab_invD(2,7) [OF inv] in blast)+

lemma tab_inv_upd:
  assumes "tab_inv nw cps ps n" "i < length ps"
    "p_state (f (ps ! i)) = RUNNING \<longleftrightarrow> p_state (ps ! i) = RUNNING" "proc_ok (f (ps ! i))"
    "p_state (f (ps ! i)) \<noteq> UNUSED \<Longrightarrow>
      p_state (ps ! i) \<noteq> UNUSED \<and> p_pid (f (ps ! i)) = p_pid (ps ! i)"
  shows "tab_inv nw cps (upd i f ps) n"
  using assms tab_invD(4) [OF assms(1)] by (intro tab_inv_table [OF assms(1)]) (auto simp: nth_upd)

text \<open>A CPU takes up a process, and lets go of it.\<close>

lemma tab_inv_dispatch:
  assumes inv: "tab_inv nw cps ps n" and i: "i < length ps" "p_state (ps ! i) = RUNNABLE"
    and c: "c < length cps" "cps ! c = None"
    and f: "p_state (f (ps ! i)) = RUNNING" "proc_ok (f (ps ! i))" "p_pid (f (ps ! i)) = p_pid (ps ! i)"
  shows "tab_inv nw (cps[c := Some i]) (upd i f ps) n"
proof -
  have other: "cps ! d \<noteq> Some i" if "d < length cps" for d
    using tab_invD(1) [OF inv that, of i] i by auto
  show ?thesis
  proof (rule tab_invI, goal_cases)
    case (1 d j)
    then show ?case
      using tab_invD(1) [OF inv, of d j] i c f(1) by (cases "d = c") (auto simp: nth_upd)
  next
    case (2 d e j)
    then show ?case
      using tab_invD(2) [OF inv, of d e j] other [of d] other [of e] by (cases "d = c"; cases "e = c") auto
  next
    case (3 j)
    then show ?case
      using tab_invD(3) [OF inv, of j] c by (cases "j = i") (fastforce simp: nth_upd nth_list_update)+
  next
    case (4 j)
    then show ?case
      using tab_invD(4) [OF inv, of j] f(2) by (cases "j = i") (auto simp: nth_upd)
  next
    case (5 j)
    then show ?case
      using tab_invD(5) [OF inv, of j] i f(3) by (cases "j = i") (auto simp: nth_upd)
  next
    case (6 j k)
    then show ?case
      using tab_invD(6) [OF inv, of j k] i f(3) by (cases "j = i"; cases "k = i") (auto simp: nth_upd)
  next
    case 7
    then show ?case
      by (rule tab_invD(7) [OF inv])
  qed
qed

lemma tab_inv_leave:
  assumes inv: "tab_inv nw cps ps n" and c: "c < length cps" "cps ! c = Some i"
    and f: "p_state (f (ps ! i)) \<noteq> RUNNING" "proc_ok (f (ps ! i))" "p_pid (f (ps ! i)) = p_pid (ps ! i)"
  shows "tab_inv nw (cps[c := None]) (upd i f ps) n"
proof -
  have i: "i < length ps" "p_state (ps ! i) = RUNNING"
    using tab_invD(1) [OF inv c] by auto
  have other: "cps ! d \<noteq> Some i" if "d < length cps" "d \<noteq> c" for d
    using tab_invD(2) [OF inv _ _ c(2), of d] c that by auto
  show ?thesis
  proof (rule tab_invI, goal_cases)
    case (1 d j)
    then show ?case
      using tab_invD(1) [OF inv, of d j] other [of d] by (cases "d = c") (auto simp: nth_upd)
  next
    case (2 d e j)
    then show ?case
      using tab_invD(2) [OF inv, of d e j] other [of d] other [of e] by (cases "d = c"; cases "e = c") auto
  next
    case (3 j)
    then show ?case
      using tab_invD(3) [OF inv, of j] c f(1) by (cases "j = i") (fastforce simp: nth_upd nth_list_update)+
  next
    case (4 j)
    then show ?case
      using tab_invD(4) [OF inv, of j] f(2) by (cases "j = i") (auto simp: nth_upd)
  next
    case (5 j)
    then show ?case
      using tab_invD(5) [OF inv, of j] i f(3) by (cases "j = i") (auto simp: nth_upd)
  next
    case (6 j k)
    then show ?case
      using tab_invD(6) [OF inv, of j k] i f(3) by (cases "j = i"; cases "k = i") (auto simp: nth_upd)
  next
    case 7
    then show ?case
      by (rule tab_invD(7) [OF inv])
  qed
qed

text \<open>A free slot becomes a new process.\<close>

lemma tab_inv_new:
  assumes inv: "tab_inv nw cps ps n" and i: "i < length ps" "p_state (ps ! i) = UNUSED"
    and f: "p_state (f (ps ! i)) = EMBRYO" "proc_ok (f (ps ! i))" "p_pid (f (ps ! i)) = n"
    and m: "nw \<Longrightarrow> m = n + 1"
  shows "tab_inv nw cps (upd i f ps) m"
proof -
  have pid: "p_pid (ps ! j) < n" if nw "j < length ps" "p_state (ps ! j) \<noteq> UNUSED" for j
    using tab_invD(5) [OF inv that] by simp
  show ?thesis
  proof (rule tab_invI, goal_cases)
    case (1 d j)
    then show ?case
      using tab_invD(1) [OF inv, of d j] i by (auto simp: nth_upd)
  next
    case (2 d e j)
    then show ?case
      using tab_invD(2) [OF inv, of d e j] by simp
  next
    case (3 j)
    then show ?case
      using tab_invD(3) [OF inv, of j] f(1) by (cases "j = i") (auto simp: nth_upd)
  next
    case (4 j)
    then show ?case
      using tab_invD(4) [OF inv, of j] f(2) by (cases "j = i") (auto simp: nth_upd)
  next
    case (5 j)
    then show ?case
      using tab_invD(5) [OF inv, of j] tab_invD(7) [OF inv] f(3) m by (cases "j = i") (auto simp: nth_upd)
  next
    case (6 j k)
    then show ?case
      using tab_invD(6) [OF inv, of j k] pid [of j] pid [of k] f(3) by (cases "j = i"; cases "k = i") (auto simp: nth_upd)
  next
    case 7
    then show ?case
      using tab_invD(7) [OF inv] m by simp
  qed
qed

section \<open>The kernel invariant\<close>

definition idle_cpu :: "cpu \<Rightarrow> bool" where
  "idle_cpu k \<longleftrightarrow> ncli k = 0"

definition cpus_inv :: "nat option \<Rightarrow> cpu list \<Rightarrow> bool" where
  "cpus_inv h ks \<longleftrightarrow> (\<forall>d < length ks. cpu_ok (ks ! d)
     \<and> (cpu_proc (ks ! d) = None \<longrightarrow> h \<noteq> Some d \<longrightarrow> idle_cpu (ks ! d)))"

abbreviation cps :: "'a mach_scheme \<Rightarrow> nat option list" where
  "cps s \<equiv> map cpu_proc (cpus s)"

text \<open>Between steps the table's lock is free; during a step one CPU holds it.\<close>

definition kinv :: "bool \<Rightarrow> 'a proc_state_scheme \<Rightarrow> bool" where
  "kinv nw s \<longleftrightarrow> lock_idle L_ptable s \<and> cpus_inv None (cpus s) \<and> tab_inv nw (cps s) (ptable s) (nextpid s)"

definition kheld :: "bool \<Rightarrow> nat \<Rightarrow> 'a proc_state_scheme \<Rightarrow> bool" where
  "kheld nw c s \<longleftrightarrow> c < length (cpus s) \<and> holds c L_ptable s \<and> 1 \<le> ncli (the_cpu c s)
     \<and> cpus_inv (Some c) (cpus s) \<and> tab_inv nw (cps s) (ptable s) (nextpid s)"

lemma cpus_inv_ok: "cpus_inv h ks \<Longrightarrow> c < length ks \<Longrightarrow> cpu_ok (ks ! c)"
  by (simp add: cpus_inv_def)

lemma kheld_at: "kheld nw c s \<Longrightarrow> cpu_at c s"
  by (auto simp: kheld_def cpu_at_def intro: cpus_inv_ok)

lemma kinv_at: "kinv nw s \<Longrightarrow> c < length (cpus s) \<Longrightarrow> cpu_at c s"
  by (auto simp: kinv_def cpu_at_def intro: cpus_inv_ok)

lemma cps_upd [simp]: "(\<And>k. cpu_proc (f k) = cpu_proc k) \<Longrightarrow> map cpu_proc (upd c f ks) = map cpu_proc ks"
  by (auto intro!: nth_equalityI simp: nth_upd)

lemma cpus_inv_upd:
  assumes "cpus_inv h ks" "c < length ks \<Longrightarrow> cpu_ok (f (ks ! c))"
    "c < length ks \<Longrightarrow> cpu_proc (f (ks ! c)) = None \<Longrightarrow> h' = Some c \<or> idle_cpu (f (ks ! c))"
    "h = h' \<or> h = Some c \<or> h = None"
  shows "cpus_inv h' (upd c f ks)"
  using assms by (auto simp: cpus_inv_def nth_upd)

lemma kheld_acquire:
  assumes "kinv nw s" "c < length (cpus s)" "acquire c L_ptable s = Ok u"
  shows "kheld nw c u" "u = grabbed c L_ptable s"
proof -
  note at = kinv_at [OF assms(1,2)]
  show u: "u = grabbed c L_ptable s"
    using acquire_OkD(1) [OF assms(3)] at by (simp add: cpu_at_def)
  have "0 \<le> ncli (the_cpu c s)"
    using at by (simp add: cpu_at_def cpu_ok_def)
  then show "kheld nw c u"
    using assms(1,2) at unfolding u kheld_def kinv_def grabbed_def
    by (auto simp: holds_def cpu_at_def nth_upd intro!: cpus_inv_upd)
qed

lemma release_held:
  assumes "kheld nw c s" "release c L_ptable s = Ok t"
  shows "t = set_lock L_ptable ((locks s L_ptable)\<lparr>lk_cpu := None, locked := False\<rparr>) (upd_cpu c popped s)"
  using release_eq [of c s L_ptable] kheld_at [OF assms(1)] assms by (simp add: kheld_def cpu_at_def)

lemma kinv_release:
  assumes "kheld nw c s" "release c L_ptable s = Ok t"
    "cpu_proc (the_cpu c s) = None \<Longrightarrow> ncli (the_cpu c s) = 1"
  shows "kinv nw t"
proof -
  have at: "c < length (cpus s)" "cpu_ok (the_cpu c s)" "0 < ncli (the_cpu c s)"
    using assms(1) kheld_at [OF assms(1)] by (auto simp: kheld_def cpu_at_def)
  have "cpu_ok (popped (the_cpu c s))" "cpu_proc (popped k) = cpu_proc k" for k
    using at by (auto simp: cpu_ok_def popped_def)
  then show "kinv nw t"
    using assms(1,3) unfolding release_held [OF assms(1,2)] kinv_def kheld_def
    by (auto simp: lock_idle_def idle_cpu_def intro!: cpus_inv_upd)
qed

section \<open>Leaving the CPU\<close>

definition vacated :: "uint \<Rightarrow> cpu \<Rightarrow> cpu" where
  "vacated kp k = k\<lparr>cr3 := V2P kp, cpu_proc := None, total_tickets := 0, tickets_passed := 0\<rparr>"

text \<open>The state in which the scheduler goes on after a process has switched to it.\<close>

definition gone :: "nat \<Rightarrow> nat \<Rightarrow> sched_caller \<Rightarrow> 'a proc_state_scheme \<Rightarrow> 'a proc_state_scheme" where
  "gone c i by s =
     set_lock L_ptable ((locks s L_ptable)\<lparr>lk_cpu := None, locked := False\<rparr>)
       (upd_cpu c (\<lambda>k. popped (vacated (kpgdir s) k))
         (upd_proc i (\<lambda>p. p\<lparr>p_context := Some (Ctx_sched (intena (the_cpu c s)) by)\<rparr>) s))"

lemma scheduler_back_eq:
  assumes "cpu_at c s" "holds c L_ptable s" "0 < ncli (the_cpu c s)"
  shows "scheduler_back c s =
    Ok (set_lock L_ptable ((locks s L_ptable)\<lparr>lk_cpu := None, locked := False\<rparr>)
      (upd_cpu c (\<lambda>k. popped (vacated (kpgdir s) k)) s))"
proof -
  let ?s = "upd_cpu c (vacated (kpgdir s)) s"
  have "release c L_ptable ?s = Ok (set_lock L_ptable ((locks ?s L_ptable)\<lparr>lk_cpu := None, locked := False\<rparr>)
      (upd_cpu c popped ?s))"
    using assms by (simp add: release_eq cpu_at_def nth_upd holds_def vacated_def cpu_ok_def)
  then show ?thesis
    by (simp add: scheduler_back_def switchkvm_def vacated_def [abs_def] Let_def)
qed

lemma sched_OkD:
  assumes "sched c by s = Ok t" "cpu_at c s"
  shows "\<exists>i. cpu_proc (the_cpu c s) = Some i \<and> ncli (the_cpu c s) = 1 \<and> holds c L_ptable s
    \<and> p_state (the_proc i s) \<noteq> RUNNING \<and> t = gone c i by s"
proof -
  have c: "c < length (cpus s)" "cpu_ok (the_cpu c s)"
    using assms(2) by (auto simp: cpu_at_def)
  let ?s = "upd_cpu c settled s"
  have hold: "holding c L_ptable ?s = Ok (holds c L_ptable ?s, ?s)"
    using c by (simp add: holding_eq)
  have n: "ncli (the_cpu c s) = 1"
    using assms(1) c by (auto simp: sched_def myproc_eq [OF assms(2)] hold nth_upd split: if_splits)
  have s: "?s = s"
    using n by (simp add: upd_settled_id)
  obtain i where i: "cpu_proc (the_cpu c s) = Some i" "holds c L_ptable s" "p_state (the_proc i s) \<noteq> RUNNING"
    "scheduler_back c (upd_proc i (\<lambda>p. p\<lparr>p_context := Some (Ctx_sched (intena (the_cpu c s)) by)\<rparr>) s) = Ok t"
    using assms(1) hold
    by (auto simp: sched_def myproc_eq [OF assms(2)] s Let_def split: if_splits option.splits)
  then show ?thesis
    using scheduler_back_eq [of c "upd_proc i (\<lambda>p. p\<lparr>p_context := Some (Ctx_sched (intena (the_cpu c s)) by)\<rparr>) s"]
      assms(2) n by (auto simp: gone_def cpu_at_def holds_def)
qed

lemma sched_inv:
  assumes held: "kheld nw c s" and i: "cpu_proc (the_cpu c s) = Some i"
    and sched: "sched c by (upd_proc i f s) = Ok t"
    and f: "\<And>ie. proc_ok ((f (the_proc i s))\<lparr>p_context := Some (Ctx_sched ie by)\<rparr>)"
      "p_pid (f (the_proc i s)) = p_pid (the_proc i s)"
  shows "kinv nw t"
proof -
  let ?u = "upd_proc i f s"
  have c: "c < length (cpus s)"
    using held by (simp add: kheld_def)
  have i': "i < length (ptable s)"
    using held i c tab_invD(1) [of nw "cps s" "ptable s" "nextpid s" c i] by (simp add: kheld_def)
  have "cpu_at c ?u"
    using kheld_at [OF held] by (simp add: cpu_at_def)
  then have u: "p_state (f (the_proc i s)) \<noteq> RUNNING" "t = gone c i by ?u" "ncli (the_cpu c s) = 1"
    using sched_OkD [OF sched] i i' by (auto simp: nth_upd)
  let ?g = "\<lambda>p. (f p)\<lparr>p_context := Some (Ctx_sched (intena (the_cpu c s)) by)\<rparr>"
  have "tab_inv nw ((cps s)[c := None]) (upd i ?g (ptable s)) (nextpid s)"
    using held i c u(1) f by (intro tab_inv_leave) (auto simp: kheld_def)
  moreover have "map cpu_proc (upd c (\<lambda>k. popped (vacated kp k)) ks) = (map cpu_proc ks)[c := None]" for kp ks
    by (auto intro!: nth_equalityI simp: nth_upd nth_list_update vacated_def popped_def)
  moreover have "cpus_inv None (upd c (\<lambda>k. popped (vacated kp k)) (cpus s))" for kp
    using held u(3)
    by (intro cpus_inv_upd [of "Some c"]) (auto simp: kheld_def idle_cpu_def popped_def vacated_def cpu_ok_def)
  ultimately show ?thesis
    using i' by (simp add: kinv_def u(2) gone_def lock_idle_def)
qed

lemma kinv_section:
  assumes "kinv nw s" "c < length (cpus s)" "acquire c L_ptable s = Ok u" "cpus v = cpus u" "kheld nw c v"
    "release c L_ptable v = Ok t"
  shows "kinv nw t"
proof (rule kinv_release [OF assms(5,6)])
  assume "cpu_proc (the_cpu c v) = None"
  then have "cpu_proc (the_cpu c s) = None"
    using assms(2,4) by (simp add: kheld_acquire(2) [OF assms(1-3)] grabbed_def nth_upd)
  then have "idle_cpu (the_cpu c s)"
    using assms(1,2) by (simp add: kinv_def cpus_inv_def)
  then show "ncli (the_cpu c v) = 1"
    using assms(2,4) by (simp add: kheld_acquire(2) [OF assms(1-3)] grabbed_def nth_upd idle_cpu_def)
qed

lemma kheld_table:
  assumes "kheld nw c s" "cpus t = cpus s" "locks t L_ptable = locks s L_ptable"
    "tab_inv nw (cps s) (ptable t) (nextpid t)"
  shows "kheld nw c t"
  using assms by (auto simp: kheld_def holds_def)

lemma kheld_proc_ok: "kheld nw c s \<Longrightarrow> i < length (ptable s) \<Longrightarrow> proc_ok (the_proc i s)"
  by (auto simp: kheld_def intro: tab_invD)

lemma kheld_running:
  assumes "kheld nw c s" "cpu_proc (the_cpu c s) = Some i"
  shows "i < length (ptable s)" "p_state (the_proc i s) = RUNNING"
  using assms tab_invD(1) [of nw "cps s" "ptable s" "nextpid s" c i] by (auto simp: kheld_def)

lemma kheld_myproc: "kheld nw c s \<Longrightarrow> myproc c s = Ok (cpu_proc (the_cpu c s), s)"
  by (simp add: myproc_eq kheld_at) (simp add: kheld_def upd_settled_id)

lemma yield_inv:
  assumes "kinv nw s" "c < length (cpus s)" "yield c s = Ok t"
  shows "kinv nw t"
proof -
  obtain u where u: "acquire c L_ptable s = Ok u"
    using assms(3) by (auto simp: yield_def outcome_simps)
  note held = kheld_acquire(1) [OF assms(1,2) u]
  obtain i where i: "cpu_proc (the_cpu c u) = Some i"
    "sched c By_yield (upd_proc i (\<lambda>p. p\<lparr>p_state := RUNNABLE\<rparr>) u) = Ok t"
    using assms(3) by (auto simp: yield_def u kheld_myproc [OF held] split: option.splits)
  note run = kheld_running [OF held i(1)]
  show ?thesis
    using kheld_proc_ok [OF held run(1)] run(2) by (intro sched_inv [OF held i]) (auto simp: proc_ok_def)
qed

lemma sleep_held_inv:
  assumes "kheld nw c s" "sleep c ch (Some L_ptable) s = Ok t"
  shows "kinv nw t"
proof -
  obtain i where i: "cpu_proc (the_cpu c s) = Some i"
    "sched c (By_sleep L_ptable) (upd_proc i (\<lambda>p. p\<lparr>p_chan := Some ch, p_state := SLEEPING\<rparr>) s) = Ok t"
    using assms(2) by (auto simp: sleep_eq kheld_myproc [OF assms(1)] Let_def split: option.splits)
  note run = kheld_running [OF assms(1) i(1)]
  show ?thesis
    using kheld_proc_ok [OF assms(1) run(1)] run(2) by (intro sched_inv [OF assms(1) i]) (auto simp: proc_ok_def)
qed

lemma wake_entry_fields [simp]:
  "p_pid (wake_entry ch p) = p_pid p" "p_state (wake_entry ch p) = UNUSED \<longleftrightarrow> p_state p = UNUSED"
  "p_state (wake_entry ch p) = RUNNING \<longleftrightarrow> p_state p = RUNNING" "p_parent (wake_entry ch p) = p_parent p"
  by (auto simp: wake_entry_def)

lemma proc_ok_wake: "proc_ok p \<Longrightarrow> proc_ok (wake_entry ch p)"
  by (auto simp: proc_ok_def wake_entry_def)

lemma kheld_tabD: "kheld nw c s \<Longrightarrow> tab_inv nw (cps s) (ptable s) (nextpid s)"
  by (simp add: kheld_def)

lemma kheld_wakeup1:
  assumes "kheld nw c s" shows "kheld nw c (wakeup1 ch s)"
proof (rule kheld_table [OF assms])
  show "tab_inv nw (cps s) (ptable (wakeup1 ch s)) (nextpid (wakeup1 ch s))"
    unfolding wakeup1_def
    by (simp, rule tab_inv_table [OF kheld_tabD [OF assms]])
      (simp_all add: proc_ok_wake kheld_proc_ok [OF assms])
qed (simp_all add: wakeup1_def)

lemma wakeup_inv:
  assumes "kinv nw s" "c < length (cpus s)" "wakeup c ch s = Ok t"
  shows "kinv nw t"
proof -
  obtain u where u: "acquire c L_ptable s = Ok u" "release c L_ptable (wakeup1 ch u) = Ok t"
    using assms(3) by (auto simp: wakeup_eq_section outcome_simps)
  have "cpus (wakeup1 ch u) = cpus u"
    by (simp add: wakeup1_def)
  then show ?thesis
    using kheld_wakeup1 [OF kheld_acquire(1) [OF assms(1,2) u(1)]]
    by (rule kinv_section [OF assms(1,2) u(1) _ _ u(2)])
qed

lemma kheld_upd:
  assumes "kheld nw c s" "i < length (ptable s)"
    "p_state (f (the_proc i s)) = RUNNING \<longleftrightarrow> p_state (the_proc i s) = RUNNING" "proc_ok (f (the_proc i s))"
    "p_state (f (the_proc i s)) \<noteq> UNUSED \<Longrightarrow>
      p_state (the_proc i s) \<noteq> UNUSED \<and> p_pid (f (the_proc i s)) = p_pid (the_proc i s)"
  shows "kheld nw c (upd_proc i f s)"
  using assms by (intro kheld_table [OF assms(1)]) (simp_all add: tab_inv_upd kheld_tabD)

lemma kill_inv:
  assumes "kinv nw s" "c < length (cpus s)" "kill c pid s = Ok (r, t)"
  shows "kinv nw t"
proof -
  obtain u where u: "acquire c L_ptable s = Ok u"
    using assms(3) by (auto simp: kill_def outcome_simps)
  note held = kheld_acquire(1) [OF assms(1,2) u]
  show ?thesis
  proof (cases "first_idx (\<lambda>p. p_pid p = pid) (ptable u)")
    case None
    then have "release c L_ptable u = Ok t"
      using assms(3) by (auto simp: kill_def u outcome_simps)
    then show ?thesis
      by (rule kinv_section [OF assms(1,2) u refl held])
  next
    case (Some i)
    let ?f = "if p_state (the_proc i u) = SLEEPING then (\<lambda>p. p\<lparr>p_killed := True, p_state := RUNNABLE\<rparr>)
      else (\<lambda>p. p\<lparr>p_killed := True\<rparr>)"
    have i: "i < length (ptable u)"
      using Some by (rule first_idx_SomeD [THEN conjunct1])
    have "release c L_ptable (upd_proc i ?f u) = Ok t"
      using assms(3) i Some by (simp add: kill_def u outcome_simps Let_def nth_upd split: if_splits)
    moreover have "kheld nw c (upd_proc i ?f u)"
      using kheld_proc_ok [OF held i] by (intro kheld_upd [OF held i]) (simp_all add: proc_ok_def split: if_splits)
    ultimately show ?thesis
      by (intro kinv_section [OF assms(1,2) u]) simp_all
  qed
qed

section \<open>Exit and wait\<close>

lemma kheld_reparent: "kheld nw c s \<Longrightarrow> \<forall>i \<in> set js. i < length (ptable s) \<Longrightarrow> kheld nw c (reparent cur js s)
    \<and> cpus (reparent cur js s) = cpus s \<and> length (ptable (reparent cur js s)) = length (ptable s)
    \<and> (\<forall>i < length (ptable s). p_pid (the_proc i (reparent cur js s)) = p_pid (the_proc i s))"
proof (induction js arbitrary: s)
  case (Cons i js)
  let ?t = "upd_proc i (\<lambda>p. p\<lparr>p_parent := initproc s\<rparr>) s"
  let ?s = "if p_parent (the_proc i s) = Some cur
    then if p_state (the_proc i s) = ZOMBIE then wakeup1 (proc_chan (initproc s)) ?t else ?t else s"
  have i: "i < length (ptable s)"
    using Cons.prems by simp
  have "kheld nw c ?t"
    using kheld_proc_ok [OF Cons.prems(1) i] by (intro kheld_upd [OF Cons.prems(1) i]) (simp_all add: proc_ok_def)
  then have held: "kheld nw c ?s"
    using Cons.prems(1) kheld_wakeup1 [of nw c ?t "proc_chan (initproc s)"] by simp
  moreover have "cpus ?s = cpus s" "length (ptable ?s) = length (ptable s)"
    "\<forall>j < length (ptable s). p_pid (the_proc j ?s) = p_pid (the_proc j s)"
    by (auto simp: wakeup1_def nth_upd)
  moreover have "reparent cur (i # js) s = reparent cur js ?s"
    using i by (simp add: Let_def nth_upd)
  ultimately show ?case
    using Cons.IH [of ?s] Cons.prems(2) by simp
qed simp

lemma exit_final_inv:
  assumes "kinv nw s" "c < length (cpus s)" "cpu_proc (the_cpu c s) = Some cur" "exit_final c cur s = Ok t"
  shows "kinv nw t"
proof -
  obtain u where u: "acquire c L_ptable s = Ok u"
    using assms(4) by (auto simp: exit_final_def outcome_simps)
  note held = kheld_acquire [OF assms(1,2) u]
  have cu: "the_cpu c u = pushed (the_cpu c s)"
    using assms(2) by (simp add: held(2) grabbed_def nth_upd)
  let ?w = "wakeup1 (proc_chan (p_parent (the_proc cur u))) u"
  let ?r = "reparent cur [0..<length (ptable ?w)] ?w"
  have r: "kheld nw c ?r" "cpus ?r = cpus u"
    using kheld_reparent [OF kheld_wakeup1 [OF held(1)]] by (auto simp: wakeup1_def)
  have cur: "cpu_proc (the_cpu c ?r) = Some cur"
    unfolding r(2) using cu assms(3) by simp
  have sched: "sched c By_exit (upd_proc cur (\<lambda>p. p\<lparr>p_state := ZOMBIE\<rparr>) ?r) = Ok t"
    using assms(4) by (simp add: exit_final_def u Let_def)
  show ?thesis
    using kheld_proc_ok [OF r(1) kheld_running(1) [OF r(1) cur]] kheld_running(2) [OF r(1) cur]
    by (intro sched_inv [OF r(1) cur sched]) (auto simp: proc_ok_def)
qed

lemma mem_frame_kheld:
  assumes "kheld nw c s" "mem_frame c s t"
  shows "kheld nw c t" "ptable t = ptable s" "cpus t = cpus s" "locks t L_ptable = locks s L_ptable"
    "nextpid t = nextpid s" "initproc t = initproc s"
proof -
  have more: "kmem_state.more t = kmem_state.more s"
    using assms(2) by (simp add: mem_frame_def)
  then show p: "ptable t = ptable s" "nextpid t = nextpid s" "initproc t = initproc s"
    by (cases s; cases t; simp)+
  show c: "cpus t = cpus s" "locks t L_ptable = locks s L_ptable"
    using assms upd_settled_nested [where c = c and s = s] by (auto simp: mem_frame_def kheld_def)
  show "kheld nw c t"
    using assms(1) p c by (auto simp: kheld_def holds_def)
qed

lemma reap_inv:
  assumes "kheld nw c s" "cpu_proc (the_cpu c s) = Some j" "i < length (ptable s)" "p_state (the_proc i s) = ZOMBIE"
    "reap c i s = Ok (pid, t)"
  shows "kinv nw t" "pid = p_pid (the_proc i s)"
proof -
  let ?f = "\<lambda>p. p\<lparr>p_pid := 0, p_tickets := 0, p_ticks := 0, p_parent := None, p_name := [],
    p_killed := False, p_state := UNUSED\<rparr>"
  obtain u v where u: "kfree c (p_kstack (the_proc i s)) s = Ok u"
    and v: "freevm c (p_pgdir (the_proc i (upd_proc i (\<lambda>p. p\<lparr>p_kstack := 0\<rparr>) u)))
        (upd_proc i (\<lambda>p. p\<lparr>p_kstack := 0\<rparr>) u) = Ok v"
    and t: "release c L_ptable (upd_proc i ?f v) = Ok t"
    and pid: "pid = p_pid (the_proc i s)"
    using assms(5) by (auto simp: reap_def Let_def outcome_simps)
  let ?u = "upd_proc i (\<lambda>p. p\<lparr>p_kstack := 0\<rparr>) u"
  have "mem_frame c s u"
    using framed_kfree [of c s] u kheld_at [OF assms(1)] by (simp add: framed_def)
  note fu = mem_frame_kheld [OF assms(1) this]
  have hu: "kheld nw c ?u"
    using fu(2) assms(3,4) kheld_proc_ok [OF assms(1,3)] by (intro kheld_upd [OF fu(1)]) (simp_all add: proc_ok_def)
  have "mem_frame c ?u v"
    using framed_freevm [of c ?u] v kheld_at [OF hu] by (simp add: framed_def)
  note fv = mem_frame_kheld [OF hu this]
  have hv: "kheld nw c (upd_proc i ?f v)"
    using fv(2) fu(2) assms(3,4) by (intro kheld_upd [OF fv(1)]) (simp_all add: proc_ok_def nth_upd)
  show "kinv nw t"
    using kinv_release [OF hv t] assms(2) fv(3) fu(3) by simp
  show "pid = p_pid (the_proc i s)"
    by (rule pid)
qed

lemma wait_loop_inv:
  assumes "kheld nw c s" "cpu_proc (the_cpu c s) = Some cur" "wait_loop c cur s = Ok (w, t)"
  shows "kinv nw t"
proof (cases "first_idx (\<lambda>p. p_parent p = Some cur \<and> p_state p = ZOMBIE) (ptable s)")
  case (Some i)
  then obtain pid where "reap c i s = Ok (pid, t)" "i < length (ptable s)" "p_state (the_proc i s) = ZOMBIE"
    using assms(3) first_idx_SomeD [OF Some] by (auto simp: wait_loop_def outcome_simps)
  then show ?thesis
    using reap_inv(1) [OF assms(1,2)] by blast
next
  case None
  then show ?thesis
    using assms(3) kinv_release [OF assms(1)] sleep_held_inv [OF assms(1)] assms(2)
    by (auto simp: wait_loop_def Let_def outcome_simps split: if_splits)
qed

lemma cpus_inv_settled:
  assumes "cpus_inv h ks" shows "cpus_inv h (upd c settled ks)"
  using assms by (simp add: cpus_inv_def nth_upd settled_def cpu_ok_def idle_cpu_def)

lemma kinv_settled: "kinv nw s \<Longrightarrow> kinv nw (upd_cpu c settled s)"
  by (auto simp: kinv_def lock_idle_def cpus_inv_settled)

lemma wait_inv:
  assumes "kinv nw s" "c < length (cpus s)" "wait c s = Ok (w, t)"
  shows "kinv nw t"
proof -
  let ?s = "upd_cpu c settled s"
  note my = myproc_eq [OF kinv_at [OF assms(1,2)]]
  have inv: "kinv nw ?s" "c < length (cpus ?s)"
    using assms(1,2) by (simp_all add: kinv_settled)
  obtain u cur where u: "acquire c L_ptable ?s = Ok u" "cpu_proc (the_cpu c s) = Some cur"
    "wait_loop c cur u = Ok (w, t)"
    using assms(3) by (auto simp: wait_def my outcome_simps split: option.splits)
  have "cpu_proc (the_cpu c u) = Some cur"
    using u(2) assms(2) by (simp add: kheld_acquire(2) [OF inv u(1)] grabbed_def nth_upd)
  then show ?thesis
    using wait_loop_inv [OF kheld_acquire(1) [OF inv u(1)] _ u(3)] by simp
qed

lemma mem_frame_kinv:
  assumes "kinv nw s" "mem_frame c s t"
  shows "kinv nw t" "ptable t = ptable s" "nextpid t = nextpid s" "initproc t = initproc s"
    "length (cpus t) = length (cpus s)" "cps t = cps s"
proof -
  have more: "kmem_state.more t = kmem_state.more s"
    using assms(2) by (simp add: mem_frame_def)
  then show p: "ptable t = ptable s" "nextpid t = nextpid s" "initproc t = initproc s"
    by (cases s; cases t; simp)+
  show c: "length (cpus t) = length (cpus s)" "cps t = cps s"
    using assms(2) by (auto simp: mem_frame_def)
  have "cpus_inv None (cpus t)" "locks t L_ptable = locks s L_ptable"
    using assms by (auto simp: mem_frame_def kinv_def cpus_inv_settled)
  then show "kinv nw t"
    using assms(1) p c(2) by (simp add: kinv_def lock_idle_def)
qed

lemma kinv_upd:
  assumes "kinv nw s" "i < length (ptable s)"
    "p_state (f (the_proc i s)) = RUNNING \<longleftrightarrow> p_state (the_proc i s) = RUNNING" "proc_ok (f (the_proc i s))"
    "p_state (f (the_proc i s)) \<noteq> UNUSED \<Longrightarrow>
      p_state (the_proc i s) \<noteq> UNUSED \<and> p_pid (f (the_proc i s)) = p_pid (the_proc i s)"
  shows "kinv nw (upd_proc i f s)"
  using assms tab_inv_upd [of nw "cps s" "ptable s" "nextpid s" i f] by (simp add: kinv_def lock_idle_def)

lemma allocproc_inv:
  assumes "kinv nw s" "c < length (cpus s)" "nw \<Longrightarrow> nextpid s < 2 ^ 31 - 1" "allocproc c s = Ok (r, t)"
  shows "kinv nw t"
proof -
  obtain u where u: "acquire c L_ptable s = Ok u"
    using assms(4) by (auto simp: allocproc_def outcome_simps)
  note held = kheld_acquire [OF assms(1,2) u]
  have n: "i32 (nextpid u + 1) = nextpid u + 1" if nw
    using that assms(1,3) tab_invD(7) [of nw "cps s" "ptable s" "nextpid s"] by (auto simp: held(2) kinv_def)
  show ?thesis
  proof (cases "first_idx (\<lambda>p. p_state p = UNUSED) (ptable u)")
    case None
    then have "release c L_ptable u = Ok t"
      using assms(4) by (auto simp: allocproc_def u outcome_simps)
    then show ?thesis
      by (rule kinv_section [OF assms(1,2) u refl held(1)])
  next
    case (Some i)
    have i: "i < length (ptable u)" "p_state (the_proc i u) = UNUSED"
      using first_idx_SomeD [OF Some] by auto
    let ?f = "\<lambda>p. p\<lparr>p_state := EMBRYO, p_pid := nextpid u, p_tickets := 100, p_ticks := 0\<rparr>"
    let ?v = "upd_proc i (\<lambda>p. p\<lparr>p_tickets := 100, p_ticks := 0\<rparr>)
      ((upd_proc i (\<lambda>p. p\<lparr>p_state := EMBRYO, p_pid := nextpid u\<rparr>) u)\<lparr>nextpid := i32 (nextpid u + 1)\<rparr>)"
    obtain w k x where w: "release c L_ptable ?v = Ok w" "kalloc c w = Ok (k, x)"
      and t: "t = (if k = 0 then upd_proc i (\<lambda>p. p\<lparr>p_kstack := k, p_state := UNUSED\<rparr>) x
        else upd_proc i (\<lambda>p. p\<lparr>p_kstack := k, p_context := Some Ctx_forkret\<rparr>) x)"
      using assms(4) Some by (auto simp: allocproc_def u Let_def outcome_simps split: if_splits)
    have "kheld nw c ?v"
    proof (rule kheld_table [OF held(1)])
      have "ptable ?v = upd i ?f (ptable u)" "nextpid ?v = i32 (nextpid u + 1)"
        by (simp_all add: upd_proc_def)
      then show "tab_inv nw (cps u) (ptable ?v) (nextpid ?v)"
        using tab_inv_new [OF kheld_tabD [OF held(1)] i, of ?f, OF _ _ _ n] by (simp add: proc_ok_def)
    qed (simp_all add: upd_proc_def)
    then have w': "kinv nw w" "ptable w = upd i ?f (ptable u)" "c < length (cpus w)"
      using kinv_section [OF assms(1,2) u _ _ w(1)] release_held [OF _ w(1)] assms(2) held(2)
      by (simp_all add: upd_proc_def grabbed_def)
    have "mem_frame c w x"
      using kalloc_frame [OF w(2)] kinv_at [OF w'(1,3)] by simp
    note x = mem_frame_kinv [OF w'(1) this]
    show ?thesis
      using x(2) w'(2) i unfolding t
      by (auto intro!: kinv_upd [OF x(1)] simp: nth_upd proc_ok_def)
  qed
qed

end
