(* ===== verification/ProcSched.thy ===== *)
theory ProcSched
  imports ProcInv
begin

text \<open>
  The invariant of \<^verbatim>\<open>proc.c\<close> through a context switch: a round of \<^verbatim>\<open>scheduler\<close>, the return of a process from
  \<^verbatim>\<open>sched\<close> or into \<^verbatim>\<open>forkret\<close>, \<^verbatim>\<open>sleep\<close> with a lock of the caller's, and what the other locks of the
  kernel leave alone.
\<close>

section \<open>The scheduler\<close>

lemma find_winner_RUNNABLE:
  "fst (find_winner r passed ps) < length ps \<Longrightarrow> p_state (ps ! fst (find_winner r passed ps)) = RUNNABLE"
  by (induction ps arbitrary: passed) (auto simp: Let_def split: if_splits)

definition same_procs :: "'a proc_state_scheme \<Rightarrow> 'a proc_state_scheme \<Rightarrow> bool" where
  "same_procs s t \<longleftrightarrow> cpus t = cpus s \<and> locks t L_ptable = locks s L_ptable \<and> ptable t = ptable s
     \<and> nextpid t = nextpid s"

lemma same_procs_kheld: "same_procs s t \<Longrightarrow> kheld nw c s \<Longrightarrow> kheld nw c t"
  by (auto simp: same_procs_def kheld_def holds_def)

lemma mem_frame_same_procs:
  fixes s :: "'a proc_state_scheme"
  assumes "mem_frame c s t" "ncli (the_cpu c s) \<noteq> 0"
  shows "same_procs s t"
proof -
  have "kmem_state.more t = kmem_state.more s"
    using assms(1) by (simp add: mem_frame_def)
  then have "ptable t = ptable s" "nextpid t = nextpid s"
    by (cases s; cases t; simp)+
  then show ?thesis
    using assms upd_settled_nested [where c = c and s = s] by (auto simp: same_procs_def mem_frame_def)
qed

lemma sched_trace_frame:
  assumes "sched_trace c i s = Ok t" "cpu_at c s" "ncli (the_cpu c s) \<noteq> 0"
  shows "same_procs s t"
proof -
  obtain u v where u: "acquire c L_proc_sched s = Ok u" and v: "release c L_proc_sched v = Ok t"
    and body: "(if ps_startflag u = 1 then
        if ps_pid u = 0 then Ok (u\<lparr>ps_pid := p_pid (the_proc i u), ps_ticks := i32 (ps_ticks u + 1)\<rparr>)
        else if p_pid (the_proc i u) = ps_pid u then Ok (u\<lparr>ps_ticks := i32 (ps_ticks u + 1)\<rparr>)
        else bindr (cprintf c (''PID = %d, TICKS = %d'' @ [CHR 0x0A]) [A_int (ps_pid u), A_int (ps_ticks u)] u)
          (\<lambda>s. Ok (s\<lparr>ps_pid := p_pid (the_proc i s), ps_ticks := 1\<rparr>)) else Ok u) = Ok v"
    using assms(1) by (auto simp: sched_trace_def outcome_simps simp del: append.simps)
  have g: "u = grabbed c L_proc_sched s"
    using acquire_OkD(1) [OF u] assms(2) by (simp add: cpu_at_def)
  have at: "cpu_at c u" "ncli (the_cpu c u) \<noteq> 0"
    using assms(2,3) by (auto simp: g grabbed_def cpu_at_def nth_upd cpu_ok_def)
  have prt: "same_procs u w \<and> locks w L_proc_sched = locks u L_proc_sched"
    if "cprintf c f a u = Ok w" for f a w
    using cprintf_frame [OF that at(1)] mem_frame_same_procs [OF _ at(2)] by (auto simp: mem_frame_def)
  have v': "same_procs u v \<and> locks v L_proc_sched = locks u L_proc_sched"
    using body prt by (fastforce simp: same_procs_def outcome_simps split: if_splits simp del: append.simps)
  have "cpu_at c v" "0 < ncli (the_cpu c v)" "holds c L_proc_sched v"
    using v' at by (auto simp: same_procs_def cpu_at_def cpu_ok_def holds_def g grabbed_def)
  then have "t = set_lock L_proc_sched ((locks v L_proc_sched)\<lparr>lk_cpu := None, locked := False\<rparr>) (upd_cpu c popped v)"
    using release_eq [of c v L_proc_sched] v by (simp add: cpu_at_def)
  moreover have "upd c popped (cpus u) = cpus s"
    using assms(2,3) by (simp add: g grabbed_def upd_def cpu_at_def)
  ultimately show ?thesis
    using v' by (simp add: same_procs_def g grabbed_def)
qed

lemma switchuvm_OkD:
  assumes "switchuvm c (Some i) s = Ok t" "cpu_at c s" "ncli (the_cpu c s) \<noteq> 0"
  shows "p_kstack (the_proc i s) \<noteq> 0" "p_pgdir (the_proc i s) \<noteq> 0"
    "t = upd_cpu c (\<lambda>k. k\<lparr>cr3 := V2P (p_pgdir (the_proc i s)),
       ts_esp0 := p_kstack (the_proc i s) + KSTACKSIZE\<rparr>) s"
proof -
  show k: "p_kstack (the_proc i s) \<noteq> 0" "p_pgdir (the_proc i s) \<noteq> 0"
    using assms(1) by (auto simp: switchuvm_def split: if_splits)
  show "t = upd_cpu c (\<lambda>k. k\<lparr>cr3 := V2P (p_pgdir (the_proc i s)),
       ts_esp0 := p_kstack (the_proc i s) + KSTACKSIZE\<rparr>) s"
    using switchuvm_nested [OF _ _ assms(3) k] assms(1,2) by (simp add: cpu_at_def)
qed

lemma dispatch_kheld:
  assumes "kheld nw c s" "cpu_proc (the_cpu c s) = None" "i < length (ptable s)" "p_state (the_proc i s) = RUNNABLE"
    and t: "cpus t = upd c g (cpus s)" "locks t L_ptable = locks s L_ptable" "nextpid t = nextpid s"
      "ptable t = upd i f (ptable s)"
    and g: "cpu_proc (g (the_cpu c s)) = Some i" "cpu_ok (g (the_cpu c s))" "1 \<le> ncli (g (the_cpu c s))"
    and f: "p_state (f (the_proc i s)) = RUNNING" "proc_ok (f (the_proc i s))"
      "p_pid (f (the_proc i s)) = p_pid (the_proc i s)"
  shows "kheld nw c t"
proof -
  have c: "c < length (cpus s)"
    using assms(1) by (simp add: kheld_def)
  have "map cpu_proc (upd c g (cpus s)) = (cps s)[c := Some i]"
    using c g(1) by (auto intro!: nth_equalityI simp: nth_upd nth_list_update)
  moreover have "tab_inv nw ((cps s)[c := Some i]) (upd i f (ptable s)) (nextpid s)"
    using kheld_tabD [OF assms(1)] assms(2-4) c f by (intro tab_inv_dispatch) auto
  moreover have "cpus_inv (Some c) (upd c g (cpus s))"
    using assms(1) g by (intro cpus_inv_upd [of "Some c"]) (auto simp: kheld_def)
  ultimately show ?thesis
    using assms(1) c g(3) by (simp add: kheld_def t holds_def nth_upd)
qed

lemma kinv_sti:
  assumes "kinv nw s" "c < length (cpus s)" "cpu_proc (the_cpu c s) = None"
  shows "kinv nw (sti c s)"
proof -
  have "idle_cpu (the_cpu c s)"
    using assms by (auto simp: kinv_def cpus_inv_def)
  then have "cpus_inv None (upd c (\<lambda>k. k\<lparr>eflags_IF := True\<rparr>) (cpus s))"
    using assms(1) by (intro cpus_inv_upd [of None]) (auto simp: kinv_def idle_cpu_def cpu_ok_def)
  then show ?thesis
    using assms(1) by (simp add: kinv_def sti_def lock_idle_def)
qed

text \<open>The state at \<^verbatim>\<open>swtch\<close>: the winner is marked RUNNING, its context not yet resumed.\<close>

definition switching :: "bool \<Rightarrow> nat \<Rightarrow> nat \<Rightarrow> 'a proc_state_scheme \<Rightarrow> bool" where
  "switching nw c i t \<longleftrightarrow> (\<exists>s :: 'a proc_state_scheme. kheld nw c s \<and> cpu_proc (the_cpu c s) = None \<and> ncli (the_cpu c s) = 1
     \<and> i < length (ptable s) \<and> p_state (the_proc i s) = RUNNABLE
     \<and> (\<exists>g. cpus t = upd c g (cpus s) \<and> cpu_proc (g (the_cpu c s)) = Some i
          \<and> cpu_ok (g (the_cpu c s)) \<and> ncli (g (the_cpu c s)) = 1)
     \<and> locks t L_ptable = locks s L_ptable \<and> nextpid t = nextpid s
     \<and> ptable t = upd i chosen_proc (ptable s))"

lemma scheduler_round_inv:
  assumes "kinv nw s" "c < length (cpus s)" "cpu_proc (the_cpu c s) = None" "scheduler_round c s = Ok (r, t)"
  shows "case r of None \<Rightarrow> kinv nw t | Some i \<Rightarrow> switching nw c i t"
proof -
  note inv = kinv_sti [OF assms(1-3)]
  have idle: "idle_cpu (the_cpu c s)"
    using assms(1-3) by (auto simp: kinv_def cpus_inv_def)
  have c: "c < length (cpus (sti c s))"
    using assms(2) by (simp add: sti_def)
  obtain u where u: "acquire c L_ptable (sti c s) = Ok u"
    using assms(4) by (auto simp: scheduler_round_def Let_def outcome_simps)
  note held = kheld_acquire [OF inv c u]
  let ?f = "\<lambda>k. k\<lparr>total_tickets := sum_tickets (total_tickets k) (ptable u)\<rparr>"
  let ?v = "upd_cpu c ?f u"
  have cu: "c < length (cpus u)" "cpu_proc (the_cpu c u) = None" "ncli (the_cpu c u) = 1"
    using idle assms(2,3) by (simp_all add: held(2) grabbed_def sti_def nth_upd pushed_def idle_cpu_def)
  show ?thesis
  proof (cases "0 < total_tickets (the_cpu c ?v)")
    case False
    then have rel: "release c L_ptable ?v = Ok t" "r = None"
      using assms(4) by (auto simp: scheduler_round_def Let_def u outcome_simps)
    have "kheld nw c ?v"
      using held(1) cu(1,3) unfolding kheld_def
      by (auto simp: holds_def nth_upd cpu_ok_def intro!: cpus_inv_upd dest: cpus_inv_ok)
    then show ?thesis
      using kinv_release [OF _ rel(1)] cu rel(2) by (simp add: nth_upd)
  next
    case True
    let ?tot = "total_tickets (the_cpu c ?v)"
    obtain rn st where rn: "generate_random_number (start_state u) (of_int ?tot) = Ok (rn, st)"
      using assms(4) True by (auto simp: scheduler_round_def Let_def u outcome_simps)
    obtain i passed where w: "find_winner (uint rn) (tickets_passed (the_cpu c ?v)) (ptable u) = (i, passed)"
      by (cases "find_winner (uint rn) (tickets_passed (the_cpu c ?v)) (ptable u)")
    let ?x = "upd_cpu c (\<lambda>k. k\<lparr>cpu_proc := Some i\<rparr>) (upd_cpu c (\<lambda>k. k\<lparr>tickets_passed := passed\<rparr>) (?v\<lparr>start_state := st\<rparr>))"
    let ?run = "\<lambda>s. upd_proc i (\<lambda>p. p\<lparr>p_state := RUNNING\<rparr>) (upd_proc i (\<lambda>p. p\<lparr>p_ticks := i32 (p_ticks p + 1)\<rparr>) s)"
    obtain y where y: "i < length (ptable u)" "switchuvm c (Some i) ?x = Ok y"
      "(if sched_test (?run y) then sched_trace c i (?run y) else Ok (?run y)) = Ok t" "r = Some i"
      using assms(4) True w rn by (auto simp: scheduler_round_def Let_def u outcome_simps split: if_splits)
    have x: "cpu_at c ?x" "ncli (the_cpu c ?x) = 1"
      using cu kheld_at [OF held(1)] by (auto simp: cpu_at_def nth_upd cpu_ok_def)
    have y': "y = upd_cpu c (\<lambda>k. k\<lparr>cr3 := V2P (p_pgdir (the_proc i ?x)),
        ts_esp0 := p_kstack (the_proc i ?x) + KSTACKSIZE\<rparr>) ?x"
      using switchuvm_OkD(3) [OF y(2) x(1)] x(2) by simp
    have run: "cpu_at c (?run y)" "ncli (the_cpu c (?run y)) = 1"
      using x cu(1) by (auto simp: y' cpu_at_def nth_upd cpu_ok_def)
    have t: "same_procs (?run y) t"
      using y(3) sched_trace_frame [OF _ run(1)] run(2)
      by (auto simp: same_procs_def split: if_splits)
    let ?g = "\<lambda>k. (?f k)\<lparr>tickets_passed := passed, cpu_proc := Some i, cr3 := V2P (p_pgdir (the_proc i ?x)),
        ts_esp0 := p_kstack (the_proc i ?x) + KSTACKSIZE\<rparr>"
    have "p_state (the_proc i u) = RUNNABLE"
      using find_winner_RUNNABLE [of "uint rn" "tickets_passed (the_cpu c ?v)" "ptable u"] w y(1) by simp
    moreover have "cpus t = upd c ?g (cpus u)" "locks t L_ptable = locks u L_ptable" "nextpid t = nextpid u"
      "ptable t = upd i chosen_proc (ptable u)"
      using t by (simp_all add: same_procs_def y' chosen_proc_def [abs_def])
    moreover have "cpu_proc (?g (the_cpu c u)) = Some i" "cpu_ok (?g (the_cpu c u))" "ncli (?g (the_cpu c u)) = 1"
      using cu kheld_at [OF held(1)] by (simp_all add: cpu_at_def cpu_ok_def)
    ultimately have "switching nw c i t"
      unfolding switching_def using held(1) cu y(1) by blast
    then show ?thesis
      using y(4) by simp
  qed
qed

text \<open>The winner goes on: \<open>resume\<close> leads back to the invariant.\<close>

lemma switching_ctx:
  assumes "switching nw c i t"
  shows "i < length (ptable t)" "p_context (the_proc i t) = Some Ctx_forkret
    \<or> (\<exists>ie. p_context (the_proc i t) = Some (Ctx_sched ie By_yield))
    \<or> (\<exists>ie lk. p_context (the_proc i t) = Some (Ctx_sched ie (By_sleep lk)))"
proof -
  obtain s :: "'a proc_state_scheme" where s: "kheld nw c s" "i < length (ptable s)"
      "p_state (the_proc i s) = RUNNABLE" "ptable t = upd i chosen_proc (ptable s)"
    using assms unfolding switching_def by blast
  show "i < length (ptable t)"
    using s by simp
  show "p_context (the_proc i t) = Some Ctx_forkret
    \<or> (\<exists>ie. p_context (the_proc i t) = Some (Ctx_sched ie By_yield))
    \<or> (\<exists>ie lk. p_context (the_proc i t) = Some (Ctx_sched ie (By_sleep lk)))"
    using kheld_proc_ok [OF s(1,2)] s by (simp add: nth_upd chosen_proc_def proc_ok_def)
qed

lemma switching_resumed:
  assumes "switching nw c i t"
    and v: "cpus v = upd c h (cpus t)" "locks v L_ptable = locks t L_ptable" "nextpid v = nextpid t"
      "ptable v = upd i f (ptable t)"
    and h: "\<And>k. cpu_proc (h k) = cpu_proc k \<and> ncli (h k) = ncli k \<and> cpu_ok (h k) = cpu_ok k"
    and f: "\<And>p. proc_ok p \<Longrightarrow> p_state p = RUNNABLE \<Longrightarrow> p_state (f (chosen_proc p)) = RUNNING
      \<and> proc_ok (f (chosen_proc p)) \<and> p_pid (f (chosen_proc p)) = p_pid p"
  shows "kheld nw c v" "cpu_proc (the_cpu c v) = Some i"
proof -
  obtain s :: "'a proc_state_scheme" and g where s: "kheld nw c s" "cpu_proc (the_cpu c s) = None" "i < length (ptable s)"
      "p_state (the_proc i s) = RUNNABLE"
    and t: "cpus t = upd c g (cpus s)" "cpu_proc (g (the_cpu c s)) = Some i" "cpu_ok (g (the_cpu c s))"
      "ncli (g (the_cpu c s)) = 1" "locks t L_ptable = locks s L_ptable" "nextpid t = nextpid s"
      "ptable t = upd i chosen_proc (ptable s)"
    using assms(1) unfolding switching_def by blast
  show "kheld nw c v"
    by (rule dispatch_kheld [OF s, where g = "\<lambda>k. h (g k)" and f = "\<lambda>p. f (chosen_proc p)"])
      (use v t h f kheld_proc_ok [OF s(1,3)] s(4) in simp_all)
  show "cpu_proc (the_cpu c v) = Some i"
    using s(1) v t h by (simp add: kheld_def nth_upd)
qed

lemma resume_inv:
  assumes "switching nw c i t" "resume c i t = Ok (r, v)"
  shows "kinv nw v"
proof -
  note ctx = switching_ctx [OF assms(1)]
  have rel: "kinv nw v" if "kheld nw c u" "cpu_proc (the_cpu c u) = Some i" "release c L_ptable u = Ok v" for u
    using kinv_release [OF that(1,3)] that(2) by simp
  from ctx(2) consider "p_context (the_proc i t) = Some Ctx_forkret"
    | ie where "p_context (the_proc i t) = Some (Ctx_sched ie By_yield)"
    | ie lk where "p_context (the_proc i t) = Some (Ctx_sched ie (By_sleep lk))"
    by blast
  then show ?thesis
  proof cases
    case 1
    let ?u = "upd_proc i (\<lambda>p. p\<lparr>p_context := None\<rparr>) t"
    have "kheld nw c ?u" "cpu_proc (the_cpu c ?u) = Some i"
      by (rule switching_resumed [OF assms(1), where h = "\<lambda>k. k" and f = "\<lambda>p. p\<lparr>p_context := None\<rparr>"];
          simp add: proc_ok_def chosen_proc_def upd_def)+
    then show ?thesis
      using assms(2) 1 rel by (auto simp: resume_def outcome_simps)
  next
    case 2
    let ?u = "upd_proc i (\<lambda>p. p\<lparr>p_context := None\<rparr>) (upd_cpu c (\<lambda>k. k\<lparr>intena := ie\<rparr>) t)"
    have "kheld nw c ?u" "cpu_proc (the_cpu c ?u) = Some i"
      by (rule switching_resumed [OF assms(1), where h = "\<lambda>k. k\<lparr>intena := ie\<rparr>" and f = "\<lambda>p. p\<lparr>p_context := None\<rparr>"];
          simp add: proc_ok_def chosen_proc_def cpu_ok_def)+
    then show ?thesis
      using assms(2) 2 rel by (auto simp: resume_def outcome_simps Let_def)
  next
    case 3
    let ?s = "upd_cpu c (\<lambda>k. k\<lparr>intena := ie\<rparr>) t"
    let ?f = "\<lambda>p. p\<lparr>p_context := None, p_chan := None\<rparr>"
    let ?g = "\<lambda>p. p\<lparr>p_context := None, p_chan := None, p_context := Some (Ctx_reacquire lk)\<rparr>"
    have wait: "kheld nw c (upd_proc i ?f ?s)" "cpu_proc (the_cpu c (upd_proc i ?f ?s)) = Some i"
      by (rule switching_resumed [OF assms(1), where h = "\<lambda>k. k\<lparr>intena := ie\<rparr>" and f = ?f];
          simp add: proc_ok_def chosen_proc_def cpu_ok_def)+
    have sleep: "kheld nw c (upd_proc i ?g ?s)" "cpu_proc (the_cpu c (upd_proc i ?g ?s)) = Some i" if "lk \<noteq> L_ptable"
      by (rule switching_resumed [OF assms(1), where h = "\<lambda>k. k\<lparr>intena := ie\<rparr>" and f = ?g];
          simp add: proc_ok_def chosen_proc_def cpu_ok_def that)+
    show ?thesis
      using assms(2) 3 rel [OF sleep] wait_loop_inv [OF wait]
      by (auto simp: resume_def outcome_simps Let_def split: if_splits)
  qed
qed

lemma scheduler_inv:
  assumes "kinv nw s" "c < length (cpus s)" "cpu_proc (the_cpu c s) = None" "scheduler c s = Ok (r, t)"
  shows "kinv nw t"
proof -
  obtain p u where u: "scheduler_round c s = Ok (p, u)"
    "(case p of None \<Rightarrow> Ok (None, u) | Some i \<Rightarrow> bindr (resume c i u) (\<lambda>(r, s). Ok (Some r, s))) = Ok (r, t)"
    using assms(4) by (auto simp: scheduler_def outcome_simps)
  show ?thesis
    using scheduler_round_inv [OF assms(1-3) u(1)] u(2) resume_inv
    by (cases p) (auto simp: outcome_simps)
qed

section \<open>Sleeping with a lock, and the other locks\<close>

lemma sleep_inv:
  assumes "kinv nw s" "c < length (cpus s)" "lk \<noteq> L_ptable" "sleep c ch (Some lk) s = Ok t"
  shows "kinv nw t"
proof -
  let ?s = "upd_cpu c settled s"
  note my = myproc_eq [OF kinv_at [OF assms(1,2)]]
  have inv: "kinv nw ?s" "c < length (cpus ?s)"
    using assms(1,2) by (simp_all add: kinv_settled)
  obtain i u v where i: "cpu_proc (the_cpu c s) = Some i"
    and u: "acquire c L_ptable ?s = Ok u" and v: "release c lk u = Ok v"
    and sc: "sched c (By_sleep lk) (upd_proc i (\<lambda>p. p\<lparr>p_chan := Some ch, p_state := SLEEPING\<rparr>) v) = Ok t"
    using assms(3,4) by (auto simp: sleep_eq my outcome_simps Let_def split: option.splits)
  note held = kheld_acquire [OF inv u]
  have u': "cpu_proc (the_cpu c u) = Some i" "cpu_at c u" "0 < ncli (the_cpu c u)"
    using i assms(2) held(1) kheld_at [OF held(1)] by (auto simp: held(2) grabbed_def nth_upd kheld_def)
  have v': "v = set_lock lk ((locks u lk)\<lparr>lk_cpu := None, locked := False\<rparr>) (upd_cpu c popped u)"
    using release_eq [of c u lk] v u' by (auto simp: cpu_at_def split: if_splits)
  have cv: "cpu_at c v" "cpu_proc (the_cpu c v) = Some i"
    using u' by (auto simp: v' cpu_at_def nth_upd cpu_ok_popped)
  have "ncli (the_cpu c v) = 1"
    using sched_OkD [OF sc] cv(1) by (auto simp: cpu_at_def)
  then have "kheld nw c v"
    using held(1) u' assms(3) cv unfolding kheld_def
    by (auto simp: v' holds_def cpu_at_def nth_upd cpu_ok_popped intro!: cpus_inv_upd)
  moreover note run = kheld_running [OF this cv(2)]
  ultimately show ?thesis
    using kheld_proc_ok [OF _ run(1)] run(2) by (intro sched_inv [OF _ cv(2) sc]) (auto simp: proc_ok_def)
qed

lemma acquire_other_inv:
  assumes "kinv nw s" "c < length (cpus s)" "cpu_proc (the_cpu c s) = Some i" "l \<noteq> L_ptable" "acquire c l s = Ok t"
  shows "kinv nw t"
proof -
  note at = kinv_at [OF assms(1,2)]
  have t: "t = grabbed c l s"
    using acquire_OkD(1) [OF assms(5)] at by (simp add: cpu_at_def)
  have "cpus_inv None (upd c pushed (cpus s))"
    using assms(1-3) at by (intro cpus_inv_upd [of None]) (auto simp: kinv_def cpu_at_def)
  then show ?thesis
    using assms(1,4) by (simp add: kinv_def t grabbed_def lock_idle_def)
qed

lemma release_other_inv:
  assumes "kinv nw s" "c < length (cpus s)" "cpu_proc (the_cpu c s) = Some i" "l \<noteq> L_ptable"
    "0 < ncli (the_cpu c s)" "release c l s = Ok t"
  shows "kinv nw t"
proof -
  note at = kinv_at [OF assms(1,2)]
  have t: "t = set_lock l ((locks s l)\<lparr>lk_cpu := None, locked := False\<rparr>) (upd_cpu c popped s)"
    using release_eq [of c s l] assms(5,6) at by (auto simp: cpu_at_def split: if_splits)
  have "cpus_inv None (upd c popped (cpus s))"
    using assms(1-3,5) at by (intro cpus_inv_upd [of None]) (auto simp: kinv_def cpu_at_def cpu_ok_popped)
  then show ?thesis
    using assms(1,4) by (simp add: kinv_def t lock_idle_def)
qed

lemma reacquire_inv:
  assumes "kinv nw s" "c < length (cpus s)" "cpu_proc (the_cpu c s) = Some i" "reacquire c i s = Ok t"
  shows "kinv nw t"
proof -
  have i: "i < length (ptable s)" "p_state (the_proc i s) = RUNNING" "proc_ok (the_proc i s)"
    using assms(1-3) tab_invD(1,4) [of nw "cps s" "ptable s" "nextpid s"] by (auto simp: kinv_def)
  let ?u = "upd_proc i (\<lambda>p. p\<lparr>p_context := None\<rparr>) s"
  obtain lk where lk: "p_context (the_proc i s) = Some (Ctx_reacquire lk)" "acquire c lk ?u = Ok t"
    using assms(4) by (auto simp: reacquire_def split: option.splits kcontext.splits)
  have "kinv nw ?u"
    using i by (intro kinv_upd [OF assms(1)]) (auto simp: proc_ok_def)
  moreover have "lk \<noteq> L_ptable"
    using i(2,3) lk(1) by (auto simp: proc_ok_def)
  ultimately show ?thesis
    using acquire_other_inv [of nw ?u c i lk t] assms(2,3) lk(2) by simp
qed

lemma locked_update_inv:
  assumes "kinv nw s" "c < length (cpus s)" "acquire c L_ptable s = Ok u" "i < length (ptable s)"
    "release c L_ptable (upd_proc i f u) = Ok t"
    and f: "p_state (f (the_proc i s)) = RUNNING \<longleftrightarrow> p_state (the_proc i s) = RUNNING" "proc_ok (f (the_proc i s))"
      "p_state (f (the_proc i s)) \<noteq> UNUSED \<Longrightarrow>
        p_state (the_proc i s) \<noteq> UNUSED \<and> p_pid (f (the_proc i s)) = p_pid (the_proc i s)"
  shows "kinv nw t"
proof -
  note held = kheld_acquire [OF assms(1-3)]
  have p: "ptable u = ptable s"
    by (simp add: held(2))
  have "kheld nw c (upd_proc i f u)"
    using assms(4) f by (intro kheld_upd [OF held(1)]) (simp_all add: p)
  then show ?thesis
    using kinv_section [OF assms(1-3) _ _ assms(5)] by simp
qed

end
