(* ===== verification/Usermem.thy ===== *)
theory Usermem
  imports Proc
begin

text \<open>
  The arguments of a system call: \<^verbatim>\<open>fetchint\<close> to \<^verbatim>\<open>argstr\<close> of \<^verbatim>\<open>syscall.c\<close>. In the kernel a user address is
  an address of the current address space, so an access goes through the page directory in \<^verbatim>\<open>cr3\<close>
  (\<open>mmu\<close>); an access to a page that is not there is a \<open>Fault\<close>. A routine of the kernel that gets a
  user buffer is given its bytes, and one that fills a buffer returns them; \<open>copy_in\<close> and \<open>copy_out\<close>
  move them between the buffer and the address space of the process.
\<close>

section \<open>User memory\<close>

definition mmu :: "bool \<Rightarrow> nat \<Rightarrow> uint \<Rightarrow> 'a kmem_state_scheme \<Rightarrow> uint res" where
  "mmu wr c va s =
     (if va \<ge> KERNBASE then Ok va
      else let pde = peek s (P2V (cr3 (the_cpu c s)) + 4 * PDX va);
               pte = peek s (P2V (PTE_ADDR pde) + 4 * PTX va)
           in if pde AND PTE_P = 0 \<or> pte AND PTE_P = 0 then Fault
              else if wr \<and> (pde AND PTE_W = 0 \<or> pte AND PTE_W = 0) then Fault
              else Ok (P2V (PTE_ADDR pte) + (va AND 0xFFF)))"

definition load8 :: "nat \<Rightarrow> uint \<Rightarrow> 'a kmem_state_scheme \<Rightarrow> uchar res" where
  "load8 c va s = bindr (mmu False c va s) (\<lambda>a. Ok (ram s a))"

definition store8 :: "nat \<Rightarrow> uint \<Rightarrow> uchar \<Rightarrow> 'a kmem_state_scheme \<Rightarrow> 'a kmem_state_scheme res" where
  "store8 c va v s = bindr (mmu True c va s) (\<lambda>a. Ok (s\<lparr>ram := (ram s)(a := v)\<rparr>))"

primrec copy_in :: "nat \<Rightarrow> uint \<Rightarrow> nat \<Rightarrow> 'a kmem_state_scheme \<Rightarrow> uchar list res" where
  "copy_in c va 0 s = Ok []"
| "copy_in c va (Suc k) s =
     bindr (load8 c va s) (\<lambda>v. bindr (copy_in c (va + 1) k s) (\<lambda>vs. Ok (v # vs)))"

primrec copy_out :: "nat \<Rightarrow> uint \<Rightarrow> uchar list \<Rightarrow> 'a kmem_state_scheme \<Rightarrow> 'a kmem_state_scheme res" where
  "copy_out c va [] s = Ok s"
| "copy_out c va (v # vs) s = bindr (store8 c va v s) (\<lambda>s. copy_out c (va + 1) vs s)"

text \<open>Words in a sequence of bytes, the way the processor stores them.\<close>

definition byte_at :: "uchar list \<Rightarrow> nat \<Rightarrow> uchar" where
  "byte_at bs i = (if i < length bs then bs ! i else 0)"

definition get16 :: "uchar list \<Rightarrow> nat \<Rightarrow> ushort" where
  "get16 bs i = (ucast (byte_at bs i) :: ushort) OR push_bit 8 (ucast (byte_at bs (i + 1)))"

definition get32 :: "uchar list \<Rightarrow> nat \<Rightarrow> uint" where
  "get32 bs i = (ucast (byte_at bs i) :: uint) OR push_bit 8 (ucast (byte_at bs (i + 1)))
     OR push_bit 16 (ucast (byte_at bs (i + 2))) OR push_bit 24 (ucast (byte_at bs (i + 3)))"

definition bytes16 :: "ushort \<Rightarrow> uchar list" where
  "bytes16 v = [ucast v, ucast (drop_bit 8 v)]"

definition bytes32 :: "uint \<Rightarrow> uchar list" where
  "bytes32 v = [ucast v, ucast (drop_bit 8 v), ucast (drop_bit 16 v), ucast (drop_bit 24 v)]"

definition splice :: "nat \<Rightarrow> 'b list \<Rightarrow> 'b list \<Rightarrow> 'b list" where
  "splice off xs bs = take off bs @ xs @ drop (off + length xs) bs"

lemma length_splice [simp]: "off + length xs \<le> length bs \<Longrightarrow> length (splice off xs bs) = length bs"
  by (simp add: splice_def)

lemma nth_splice:
  "off + length xs \<le> length bs \<Longrightarrow> i < length bs \<Longrightarrow>
   splice off xs bs ! i = (if off \<le> i \<and> i < off + length xs then xs ! (i - off) else bs ! i)"
  by (auto simp: splice_def nth_append min_def)

lemma byte_at_splice:
  "off + length xs \<le> length bs \<Longrightarrow>
   byte_at (splice off xs bs) i = (if off \<le> i \<and> i < off + length xs then xs ! (i - off) else byte_at bs i)"
  by (auto simp: byte_at_def nth_splice)

lemma get32_bytes32:
  assumes "off + 4 \<le> length bs"
  shows "get32 (splice off (bytes32 v) bs) off = v"
proof -
  have "get32 (splice off (bytes32 v) bs) off = load32 (store32 (\<lambda>_. 0) 0 v) 0"
    using assms by (simp add: get32_def load32_def store32_def byte_at_splice bytes32_def)
  then show ?thesis
    by (simp add: load_store_same)
qed

lemma get32_splice_other:
  assumes "off + length xs \<le> length bs" "i + 4 \<le> off \<or> off + length xs \<le> i"
  shows "get32 (splice off xs bs) i = get32 bs i"
  using assms by (auto simp: get32_def byte_at_splice)

lemma get16_bytes16:
  assumes "off + 2 \<le> length bs"
  shows "get16 (splice off (bytes16 v) bs) off = v"
proof -
  have "(ucast (ucast v :: uchar) :: ushort) OR push_bit 8 (ucast (ucast (drop_bit 8 v) :: uchar)) = v"
    by (rule bit_word_eqI) (auto simp: bit_simps)
  then show ?thesis
    using assms by (simp add: get16_def byte_at_splice bytes16_def)
qed

lemma get16_splice_other:
  assumes "off + length xs \<le> length bs" "i + 2 \<le> off \<or> off + length xs \<le> i"
  shows "get16 (splice off xs bs) i = get16 bs i"
  using assms by (auto simp: get16_def byte_at_splice)

section \<open>Fetching arguments\<close>

definition with_cur :: "nat \<Rightarrow> (nat \<Rightarrow> 'a proc_state_scheme \<Rightarrow> 'b res) \<Rightarrow> 'a proc_state_scheme \<Rightarrow> 'b res"
  where
  "with_cur c f s = bindr (myproc c s) (\<lambda>(p, s). case p of None \<Rightarrow> Fault | Some i \<Rightarrow> f i s)"

text \<open>A routine that returns \<open>-1\<close> and leaves its out-parameter alone returns \<open>None\<close>.\<close>

definition fetchint :: "nat \<Rightarrow> uint \<Rightarrow> 'a proc_state_scheme \<Rightarrow> (uint option \<times> 'a proc_state_scheme) res" where
  "fetchint c addr = with_cur c (\<lambda>i s.
     if addr \<ge> p_sz (the_proc i s) \<or> addr + 4 > p_sz (the_proc i s) then Ok (None, s)
     else bindr (copy_in c addr 4 s) (\<lambda>bs. Ok (Some (get32 bs 0), s)))"

primrec scan_nul :: "nat \<Rightarrow> nat \<Rightarrow> uint \<Rightarrow> 'a kmem_state_scheme \<Rightarrow> uchar list option res" where
  "scan_nul c 0 va s = Ok None"
| "scan_nul c (Suc k) va s =
     bindr (load8 c va s) (\<lambda>v.
       if v = 0 then Ok (Some [])
       else bindr (scan_nul c k (va + 1) s) (\<lambda>r. Ok (map_option (\<lambda>vs. v # vs) r)))"

text \<open>The string that starts at the address, up to its terminator, which has to come before the end
  of the process.\<close>

definition fetchstr :: "nat \<Rightarrow> uint \<Rightarrow> 'a proc_state_scheme
    \<Rightarrow> (uchar list option \<times> 'a proc_state_scheme) res" where
  "fetchstr c addr = with_cur c (\<lambda>i s.
     if addr \<ge> p_sz (the_proc i s) then Ok (None, s)
     else bindr (scan_nul c (unat (p_sz (the_proc i s) - addr)) addr s) (\<lambda>r. Ok (r, s)))"

definition argint :: "nat \<Rightarrow> nat \<Rightarrow> 'a proc_state_scheme \<Rightarrow> (uint option \<times> 'a proc_state_scheme) res" where
  "argint c n = with_cur c (\<lambda>i s. fetchint c (tf_esp (p_tf (the_proc i s)) + 4 + 4 * of_nat n) s)"

definition argptr :: "nat \<Rightarrow> nat \<Rightarrow> int \<Rightarrow> 'a proc_state_scheme \<Rightarrow> (uint option \<times> 'a proc_state_scheme) res"
  where
  "argptr c n sz = with_cur c (\<lambda>i s.
     bindr (argint c n s) (\<lambda>(r, s).
       case r of None \<Rightarrow> Ok (None, s)
       | Some a \<Rightarrow>
           if sz < 0 \<or> a \<ge> p_sz (the_proc i s) \<or> a + of_int sz > p_sz (the_proc i s) then Ok (None, s)
           else Ok (Some a, s)))"

definition argstr :: "nat \<Rightarrow> nat \<Rightarrow> 'a proc_state_scheme \<Rightarrow> (uchar list option \<times> 'a proc_state_scheme) res"
  where
  "argstr c n s =
     bindr (argint c n s) (\<lambda>(r, s). case r of None \<Rightarrow> Ok (None, s) | Some a \<Rightarrow> fetchstr c a s)"

end
