(* ===== verification/Sleeplock.thy ===== *)
theory Sleeplock
  imports Usermem
begin

text \<open>
  \<^verbatim>\<open>sleeplock.c\<close>. A routine that finds the lock taken puts its process to sleep: the full step is
  \<open>acquiresleep_loop\<close>, entered with the inner spin lock held, at first and again each time the process
  has been woken. The callers of \<open>acquiresleep\<close> see the outcome \<open>Asleep\<close> in that case.

  The second half is about \<open>quiet\<close> states: the process on the CPU holds no spin lock, nobody else does,
  and no process is queued on a file-system channel. There the critical sections collapse to the
  update they protect, and the file-system theories compute with these equations.
\<close>

record sleeplock =
  sl_locked :: bool
  sl_name :: string
  sl_pid :: int

record sleep_state = proc_state +
  sleeplocks :: "lockid \<Rightarrow> sleeplock"

definition upd_sleeplock :: "lockid \<Rightarrow> (sleeplock \<Rightarrow> sleeplock) \<Rightarrow> 'a sleep_state_scheme \<Rightarrow> 'a sleep_state_scheme"
  where
  "upd_sleeplock l f s = s\<lparr>sleeplocks := (sleeplocks s)(l := f (sleeplocks s l))\<rparr>"

definition initsleeplock :: "lockid \<Rightarrow> string \<Rightarrow> 'a sleep_state_scheme \<Rightarrow> 'a sleep_state_scheme" where
  "initsleeplock l name s =
     (let s = initlock l ''sleep lock'' s;
          s = upd_sleeplock l (\<lambda>k. k\<lparr>sl_name := name\<rparr>) s
      in upd_sleeplock l (\<lambda>k. k\<lparr>sl_locked := False, sl_pid := 0\<rparr>) s)"

definition acquiresleep_loop :: "nat \<Rightarrow> lockid \<Rightarrow> 'a sleep_state_scheme \<Rightarrow> (bool \<times> 'a sleep_state_scheme) res"
  where
  "acquiresleep_loop c l s =
     (if sl_locked (sleeplocks s l)
      then bindr (sleep c (Chan_sleeplock l) (Some l) s) (\<lambda>s. Ok (False, s))
      else let s = upd_sleeplock l (\<lambda>k. k\<lparr>sl_locked := True\<rparr>) s
           in with_cur c (\<lambda>i s.
                let s = upd_sleeplock l (\<lambda>k. k\<lparr>sl_pid := p_pid (the_proc i s)\<rparr>) s
                in bindr (release c l s) (\<lambda>s. Ok (True, s))) s)"

definition acquiresleep :: "nat \<Rightarrow> lockid \<Rightarrow> 'a sleep_state_scheme \<Rightarrow> 'a sleep_state_scheme res" where
  "acquiresleep c l s =
     bindr (acquire c l s) (\<lambda>s.
     bindr (acquiresleep_loop c l s) (\<lambda>(got, s). if got then Ok s else Asleep))"

definition releasesleep :: "nat \<Rightarrow> lockid \<Rightarrow> 'a sleep_state_scheme \<Rightarrow> 'a sleep_state_scheme res" where
  "releasesleep c l s =
     bindr (acquire c l s) (\<lambda>s.
       let s = upd_sleeplock l (\<lambda>k. k\<lparr>sl_locked := False, sl_pid := 0\<rparr>) s
       in bindr (wakeup c (Some (Chan_sleeplock l)) s) (\<lambda>s. release c l s))"

definition holdingsleep :: "nat \<Rightarrow> lockid \<Rightarrow> 'a sleep_state_scheme \<Rightarrow> (bool \<times> 'a sleep_state_scheme) res"
  where
  "holdingsleep c l s =
     bindr (acquire c l s) (\<lambda>s.
     bindr (if sl_locked (sleeplocks s l)
            then with_cur c (\<lambda>i s. Ok (sl_pid (sleeplocks s l) = p_pid (the_proc i s), s)) s
            else Ok (False, s)) (\<lambda>(r, s).
     bindr (release c l s) (\<lambda>s. Ok (r, s))))"

section \<open>Quiet states\<close>

definition fs_chan :: "chan \<Rightarrow> bool" where
  "fs_chan ch = (case ch of Chan_sleeplock l \<Rightarrow> True | Chan_log \<Rightarrow> True | _ \<Rightarrow> False)"

definition quiet :: "nat \<Rightarrow> nat \<Rightarrow> 'a proc_state_scheme \<Rightarrow> bool" where
  "quiet c i s \<longleftrightarrow> c < length (cpus s) \<and> ncli (the_cpu c s) = 0 \<and> intena (the_cpu c s) = eflags_IF (the_cpu c s)
     \<and> cpu_proc (the_cpu c s) = Some i \<and> i < length (ptable s) \<and> (\<forall>l. lock_idle l s)
     \<and> (\<forall>p \<in> set (ptable s). p_state p = SLEEPING \<longrightarrow> (\<forall>ch. p_chan p = Some ch \<longrightarrow> \<not> fs_chan ch))"

lemma quietD:
  assumes "quiet c i s"
  shows "c < length (cpus s)" "ncli (the_cpu c s) = 0" "cpu_ok (the_cpu c s)" "settled (the_cpu c s) = the_cpu c s"
    "cpu_proc (the_cpu c s) = Some i" "i < length (ptable s)" "lock_idle l s" "cpu_at c s"
  using assms by (auto simp: quiet_def settled_def cpu_ok_def cpu_at_def)

lemma quiet_upd_settled: "quiet c i s \<Longrightarrow> upd c settled (cpus s) = cpus s"
  by (simp add: upd_def quietD)

text \<open>A state of the same processor, locks and processes is as quiet.\<close>

lemma quiet_cong:
  "cpus t = cpus s \<Longrightarrow> locks t = locks s \<Longrightarrow> ptable t = ptable s \<Longrightarrow> quiet c i t = quiet c i s"
  by (simp add: quiet_def lock_idle_def)

lemma quiet_acquire: "quiet c i s \<Longrightarrow> acquire c l s = Ok (grabbed c l s)"
  by (simp add: acquire_grabbed quietD)

lemma quiet_release:
  assumes "quiet c i s" "cpus t = cpus (grabbed c l s)" "locks t = locks (grabbed c l s)"
  shows "release c l t = Ok (t\<lparr>cpus := cpus s, locks := locks s\<rparr>)"
  using release_grabbed [of c s l t] assms by (simp add: quietD quiet_upd_settled)

lemma quiet_myproc: "quiet c i s \<Longrightarrow> myproc c s = Ok (Some i, s)"
  by (simp add: myproc_eq quietD upd_cpu_id)

lemma quiet_with_cur: "quiet c i s \<Longrightarrow> with_cur c f s = f i s"
  by (simp add: with_cur_def quiet_myproc)

text \<open>Inside a section of another lock.\<close>

lemma grabbed_at: "quiet c i s \<Longrightarrow> cpu_at c (grabbed c l s)"
  by (auto simp: cpu_at_def grabbed_def quietD)

lemma grabbed_nested: "quiet c i s \<Longrightarrow> ncli (the_cpu c (grabbed c l s)) \<noteq> 0"
  by (simp add: grabbed_def quietD)

lemma section_with_cur:
  assumes "quiet c i s" "cpus t = cpus (grabbed c l s)"
  shows "with_cur c f t = f i t"
proof -
  have "cpu_at c t" "ncli (the_cpu c t) \<noteq> 0" "cpu_proc (the_cpu c t) = Some i"
    using grabbed_at [OF assms(1)] grabbed_nested [OF assms(1)] assms
    by (auto simp: cpu_at_def grabbed_def quietD)
  then show ?thesis
    by (simp add: with_cur_def myproc_eq upd_settled_id)
qed

lemma quiet_wakeup1:
  assumes "quiet c i s" "ptable t = ptable s" "fs_chan ch"
  shows "wakeup1 (Some ch) t = t"
proof -
  have "map (wake_entry (Some ch)) (ptable s) = ptable s"
    using assms by (intro map_idI) (auto simp: wake_entry_def quiet_def)
  then show ?thesis
    using assms(2) by (simp add: wakeup1_def)
qed

text \<open>A wakeup that finds nobody, with another lock held or none.\<close>

lemma section_wakeup:
  assumes "quiet c i s" "cpus t = cpus (grabbed c l s)" "locks t = locks (grabbed c l s)" "ptable t = ptable s"
    "l \<noteq> L_ptable" "fs_chan ch"
  shows "wakeup c (Some ch) t = Ok t"
proof -
  have at: "cpu_at c t" "ncli (the_cpu c t) \<noteq> 0"
    using grabbed_at [OF assms(1)] grabbed_nested [OF assms(1)] assms by (auto simp: cpu_at_def)
  have idle: "lock_idle L_ptable t"
    using assms(1,3,5) by (simp add: quiet_def lock_idle_def grabbed_def)
  have "wakeup1 (Some ch) (grabbed c L_ptable t) = grabbed c L_ptable t"
    using assms by (intro quiet_wakeup1) simp_all
  then have "wakeup c (Some ch) t = release c L_ptable (grabbed c L_ptable t)"
    using at idle by (simp add: wakeup_eq_section acquire_grabbed cpu_at_def)
  also have "\<dots> = Ok ((grabbed c L_ptable t)\<lparr>cpus := cpus t, locks := locks t\<rparr>)"
    using at idle by (intro release_nested) (simp_all add: cpu_at_def)
  finally show ?thesis
    by (simp add: grabbed_def set_lock_def upd_cpu_def)
qed

section \<open>Sleep locks in quiet states\<close>

definition sl_free :: "lockid \<Rightarrow> 'a sleep_state_scheme \<Rightarrow> bool" where
  "sl_free l s \<longleftrightarrow> \<not> sl_locked (sleeplocks s l)"

definition sl_held :: "nat \<Rightarrow> lockid \<Rightarrow> 'a sleep_state_scheme \<Rightarrow> bool" where
  "sl_held i l s \<longleftrightarrow> sl_locked (sleeplocks s l) \<and> sl_pid (sleeplocks s l) = p_pid (the_proc i s)"

abbreviation sl_take :: "nat \<Rightarrow> lockid \<Rightarrow> 'a sleep_state_scheme \<Rightarrow> 'a sleep_state_scheme" where
  "sl_take i l s \<equiv> upd_sleeplock l (\<lambda>k. k\<lparr>sl_locked := True, sl_pid := p_pid (the_proc i s)\<rparr>) s"

abbreviation sl_give :: "lockid \<Rightarrow> 'a sleep_state_scheme \<Rightarrow> 'a sleep_state_scheme" where
  "sl_give l s \<equiv> upd_sleeplock l (\<lambda>k. k\<lparr>sl_locked := False, sl_pid := 0\<rparr>) s"

lemma upd_sleeplock_fields [simp]:
  "cpus (upd_sleeplock l f s) = cpus s" "locks (upd_sleeplock l f s) = locks s"
  "ptable (upd_sleeplock l f s) = ptable s"
  "sleeplocks (upd_sleeplock l f s) = (sleeplocks s)(l := f (sleeplocks s l))"
  "sleep_state.more (upd_sleeplock l f s) = sleep_state.more s"
  by (simp_all add: upd_sleeplock_def)

lemma upd_sleeplock_twice [simp]:
  "upd_sleeplock l f (upd_sleeplock l g s) = upd_sleeplock l (\<lambda>k. f (g k)) s"
  by (simp add: upd_sleeplock_def)

lemma quiet_upd_sleeplock [simp]: "quiet c i (upd_sleeplock l f s) = quiet c i s"
  by (rule quiet_cong) simp_all

lemma sleeplocks_grabbed [simp]: "sleeplocks (grabbed c l s) = sleeplocks s"
  by (simp add: grabbed_def set_lock_def upd_cpu_def)

lemma ungrab [simp]:
  "(upd_sleeplock m f (grabbed c l s))\<lparr>cpus := cpus s, locks := locks s\<rparr> = upd_sleeplock m f s"
  "(grabbed c l s)\<lparr>cpus := cpus s, locks := locks s\<rparr> = s"
  by (simp_all add: upd_sleeplock_def grabbed_def set_lock_def upd_cpu_def)

lemma acquiresleep_quiet:
  assumes "quiet c i s" "sl_free l s"
  shows "acquiresleep c l s = Ok (sl_take i l s)"
proof -
  let ?t = "upd_sleeplock l (\<lambda>k. k\<lparr>sl_locked := True\<rparr>) (grabbed c l s)"
  have "acquiresleep_loop c l (grabbed c l s) =
      bindr (release c l (upd_sleeplock l (\<lambda>k. k\<lparr>sl_pid := p_pid (the_proc i s)\<rparr>) ?t)) (\<lambda>s. Ok (True, s))"
    using assms by (simp add: acquiresleep_loop_def sl_free_def section_with_cur [OF assms(1)] Let_def)
  also have "\<dots> = Ok (True, sl_take i l s)"
    using quiet_release [OF assms(1), of "sl_take i l (grabbed c l s)" l] by simp
  finally show ?thesis
    using assms by (simp add: acquiresleep_def quiet_acquire)
qed

lemma releasesleep_quiet:
  assumes "quiet c i s" "l \<noteq> L_ptable"
  shows "releasesleep c l s = Ok (sl_give l s)"
proof -
  let ?t = "sl_give l (grabbed c l s)"
  have "wakeup c (Some (Chan_sleeplock l)) ?t = Ok ?t"
    using assms by (intro section_wakeup [OF assms(1)]) (simp_all add: fs_chan_def)
  then show ?thesis
    using quiet_release [OF assms(1), of ?t l] assms(1) by (simp add: releasesleep_def quiet_acquire)
qed

lemma holdingsleep_quiet:
  assumes "quiet c i s"
  shows "holdingsleep c l s = Ok (sl_held i l s, s)"
  using assms quiet_release [OF assms, of "grabbed c l s" l]
  by (simp add: holdingsleep_def quiet_acquire section_with_cur sl_held_def)

text \<open>A sleep lock keeps the promises of a lock.\<close>

lemma acquiresleep_busy:
  assumes "quiet c i s" "\<not> sl_free l s"
  shows "acquiresleep c l s \<noteq> Ok t"
  using assms by (auto simp: acquiresleep_def quiet_acquire acquiresleep_loop_def sl_free_def outcome_simps)

interpretation sl: mutex "acquiresleep c l" "releasesleep c l" "sl_held i l" "sl_free l"
  "\<lambda>s. quiet c i s \<and> l \<noteq> L_ptable" for c i l
proof (unfold_locales, goal_cases)
  case (1 s)
  then show ?case
    by (intro exI [of _ "sl_take i l s"]) (simp add: acquiresleep_quiet sl_held_def)
next
  case (2 s t)
  then show ?case
    using acquiresleep_busy by blast
next
  case (3 s)
  then show ?case
    by (intro exI [of _ "sl_give l s"]) (simp add: releasesleep_quiet [of c i] sl_free_def)
next
  case (4 s)
  then show ?case
    by (simp add: sl_held_def sl_free_def)
qed

end
