(* ===== verification/Bio.thy ===== *)
theory Bio
  imports Sleeplock
begin

text \<open>
  The buffer cache, \<^verbatim>\<open>bio.c\<close>, over the disk in memory of \<^verbatim>\<open>memide.c\<close>. A buffer is an index of \<open>bufs\<close>; the
  doubly linked list through \<^verbatim>\<open>prev\<close> and \<^verbatim>\<open>next\<close> is the list \<open>bcache_list\<close> of the indices from
  \<^verbatim>\<open>head.next\<close>, the most recently used, to \<^verbatim>\<open>head.prev\<close>. The disk is a function from block numbers to
  blocks of \<open>BSIZE\<close> bytes; \<open>dwrites\<close> records the writes the disk has seen, in order, so that a crash
  between two of them can be spoken of.
\<close>

section \<open>State\<close>

definition BSIZE :: nat where "BSIZE = 512"
definition NBUF :: nat where "NBUF = 30"
definition B_VALID :: uint where "B_VALID = 2"
definition B_DIRTY :: uint where "B_DIRTY = 4"

type_synonym block = "uchar list"

record buf =
  b_flags :: uint
  b_dev :: uint
  b_blockno :: uint
  b_refcnt :: uint
  b_data :: block

record bio_state = sleep_state +
  bufs :: "buf list"
  bcache_list :: "nat list"
  memdisk :: "uint \<Rightarrow> block"
  disksize :: uint
  dwrites :: "(uint \<times> block) list"

definition upd_buf :: "nat \<Rightarrow> (buf \<Rightarrow> buf) \<Rightarrow> 'a bio_state_scheme \<Rightarrow> 'a bio_state_scheme" where
  "upd_buf b f s = s\<lparr>bufs := upd b f (bufs s)\<rparr>"

abbreviation the_buf :: "nat \<Rightarrow> 'a bio_state_scheme \<Rightarrow> buf" where
  "the_buf b s \<equiv> bufs s ! b"

abbreviation set_data :: "nat \<Rightarrow> block \<Rightarrow> 'a bio_state_scheme \<Rightarrow> 'a bio_state_scheme" where
  "set_data b d s \<equiv> upd_buf b (\<lambda>k. k\<lparr>b_data := d\<rparr>) s"

section \<open>The disk\<close>

definition ideinit :: "(uint \<Rightarrow> block) \<Rightarrow> uint \<Rightarrow> 'a bio_state_scheme \<Rightarrow> 'a bio_state_scheme" where
  "ideinit img imgsize s = s\<lparr>memdisk := img, disksize := imgsize div of_nat BSIZE\<rparr>"

definition ideintr :: "'a bio_state_scheme \<Rightarrow> 'a bio_state_scheme res" where
  "ideintr s = Ok s"

definition iderw :: "nat \<Rightarrow> nat \<Rightarrow> 'a bio_state_scheme \<Rightarrow> 'a bio_state_scheme res" where
  "iderw c b s =
     bindr (holdingsleep c (L_sleep_buf b) s) (\<lambda>(h, s).
       if \<not> h then Panic ''iderw: buf not locked''
       else if b_flags (the_buf b s) AND (B_VALID OR B_DIRTY) = B_VALID then Panic ''iderw: nothing to do''
       else if b_dev (the_buf b s) \<noteq> 1 then Panic ''iderw: request not for disk 1''
       else if b_blockno (the_buf b s) \<ge> disksize s then Panic ''iderw: block out of range''
       else let p = b_blockno (the_buf b s);
                s = (if b_flags (the_buf b s) AND B_DIRTY \<noteq> 0
                     then let s = upd_buf b (\<lambda>k. k\<lparr>b_flags := b_flags k AND NOT B_DIRTY\<rparr>) s;
                              d = b_data (the_buf b s)
                          in s\<lparr>memdisk := (memdisk s)(p := d), dwrites := dwrites s @ [(p, d)]\<rparr>
                     else set_data b (memdisk s p) s)
            in Ok (upd_buf b (\<lambda>k. k\<lparr>b_flags := b_flags k OR B_VALID\<rparr>) s))"

section \<open>The cache\<close>

primrec init_bufs :: "nat list \<Rightarrow> 'a bio_state_scheme \<Rightarrow> 'a bio_state_scheme" where
  "init_bufs [] s = s"
| "init_bufs (b # bs) s =
     init_bufs bs (let s = initsleeplock (L_sleep_buf b) ''buffer'' s
                   in s\<lparr>bcache_list := b # bcache_list s\<rparr>)"

definition binit :: "'a bio_state_scheme \<Rightarrow> 'a bio_state_scheme" where
  "binit s = (let s = initlock L_bcache ''bcache'' s; s = s\<lparr>bcache_list := []\<rparr> in init_bufs [0..<NBUF] s)"

definition bget :: "nat \<Rightarrow> uint \<Rightarrow> uint \<Rightarrow> 'a bio_state_scheme \<Rightarrow> (nat \<times> 'a bio_state_scheme) res" where
  "bget c dev blockno s =
     bindr (acquire c L_bcache s) (\<lambda>s.
       case List.find (\<lambda>b. b_dev (the_buf b s) = dev \<and> b_blockno (the_buf b s) = blockno) (bcache_list s) of
         Some b \<Rightarrow>
           let s = upd_buf b (\<lambda>k. k\<lparr>b_refcnt := b_refcnt k + 1\<rparr>) s
           in bindr (release c L_bcache s) (\<lambda>s.
              bindr (acquiresleep c (L_sleep_buf b) s) (\<lambda>s. Ok (b, s)))
       | None \<Rightarrow>
           (case List.find (\<lambda>b. b_refcnt (the_buf b s) = 0 \<and> b_flags (the_buf b s) AND B_DIRTY = 0)
                  (rev (bcache_list s)) of
              Some b \<Rightarrow>
                let s = upd_buf b (\<lambda>k. k\<lparr>b_dev := dev, b_blockno := blockno, b_flags := 0, b_refcnt := 1\<rparr>) s
                in bindr (release c L_bcache s) (\<lambda>s.
                   bindr (acquiresleep c (L_sleep_buf b) s) (\<lambda>s. Ok (b, s)))
            | None \<Rightarrow> Panic ''bget: no buffers''))"

definition bread :: "nat \<Rightarrow> uint \<Rightarrow> uint \<Rightarrow> 'a bio_state_scheme \<Rightarrow> (nat \<times> 'a bio_state_scheme) res" where
  "bread c dev blockno s =
     bindr (bget c dev blockno s) (\<lambda>(b, s).
       if b_flags (the_buf b s) AND B_VALID = 0 then bindr (iderw c b s) (\<lambda>s. Ok (b, s))
       else Ok (b, s))"

definition bwrite :: "nat \<Rightarrow> nat \<Rightarrow> 'a bio_state_scheme \<Rightarrow> 'a bio_state_scheme res" where
  "bwrite c b s =
     bindr (holdingsleep c (L_sleep_buf b) s) (\<lambda>(h, s).
       if \<not> h then Panic ''bwrite''
       else let s = upd_buf b (\<lambda>k. k\<lparr>b_flags := b_flags k OR B_DIRTY\<rparr>) s in iderw c b s)"

definition brelse :: "nat \<Rightarrow> nat \<Rightarrow> 'a bio_state_scheme \<Rightarrow> 'a bio_state_scheme res" where
  "brelse c b s =
     bindr (holdingsleep c (L_sleep_buf b) s) (\<lambda>(h, s).
       if \<not> h then Panic ''brelse''
       else bindr (releasesleep c (L_sleep_buf b) s) (\<lambda>s.
            bindr (acquire c L_bcache s) (\<lambda>s.
              let s = upd_buf b (\<lambda>k. k\<lparr>b_refcnt := b_refcnt k - 1\<rparr>) s;
                  s = (if b_refcnt (the_buf b s) = 0 then s\<lparr>bcache_list := b # remove1 b (bcache_list s)\<rparr> else s)
              in release c L_bcache s)))"

end
