(* ===== verification/Log.thy ===== *)
theory Log
  imports Bio
begin

text \<open>
  The write-ahead log, \<^verbatim>\<open>log.c\<close>. The loops over the blocks of a transaction run over their indices
  \<open>0..<n\<close>; an index beyond the array of the log header is a \<open>Fault\<close>. Like \<open>acquiresleep\<close>, \<open>begin_op\<close> has
  its loop \<open>begin_op_loop\<close> as a definition of its own, entered again each time the process has been
  woken.
\<close>

section \<open>State\<close>

definition MAXOPBLOCKS :: int where "MAXOPBLOCKS = 10"
definition LOGSIZE :: int where "LOGSIZE = 30"

record superblock =
  sb_size :: uint
  sb_nblocks :: uint
  sb_ninodes :: uint
  sb_nlog :: uint
  sb_logstart :: uint
  sb_inodestart :: uint
  sb_bmapstart :: uint

record logheader =
  lh_n :: int
  lh_block :: "uint list"

record log_state = bio_state +
  log_start :: uint
  log_size :: int
  outstanding :: int
  committing :: bool
  log_dev :: uint
  lh :: logheader

definition superblock_of :: "block \<Rightarrow> superblock" where
  "superblock_of d = \<lparr>sb_size = get32 d 0, sb_nblocks = get32 d 4, sb_ninodes = get32 d 8,
     sb_nlog = get32 d 12, sb_logstart = get32 d 16, sb_inodestart = get32 d 20, sb_bmapstart = get32 d 24\<rparr>"

definition readsb :: "nat \<Rightarrow> uint \<Rightarrow> 'a bio_state_scheme \<Rightarrow> (superblock \<times> 'a bio_state_scheme) res" where
  "readsb c dev s =
     bindr (bread c dev 1 s) (\<lambda>(bp, s).
       let sb = superblock_of (b_data (the_buf bp s))
       in bindr (brelse c bp s) (\<lambda>s. Ok (sb, s)))"

section \<open>Moving blocks\<close>

primrec install_loop :: "nat \<Rightarrow> nat list \<Rightarrow> 'a log_state_scheme \<Rightarrow> 'a log_state_scheme res" where
  "install_loop c [] s = Ok s"
| "install_loop c (tail # ts) s =
     bindr (bread c (log_dev s) (log_start s + of_nat tail + 1) s) (\<lambda>(lbuf, s).
       if tail \<ge> length (lh_block (lh s)) then Fault
       else bindr (bread c (log_dev s) (lh_block (lh s) ! tail) s) (\<lambda>(dbuf, s).
            let s = set_data dbuf (b_data (the_buf lbuf s)) s
            in bindr (bwrite c dbuf s) (\<lambda>s.
               bindr (brelse c lbuf s) (\<lambda>s.
               bindr (brelse c dbuf s) (\<lambda>s.
               install_loop c ts s)))))"

definition install_trans :: "nat \<Rightarrow> 'a log_state_scheme \<Rightarrow> 'a log_state_scheme res" where
  "install_trans c s = install_loop c [0..<nat (lh_n (lh s))] s"

text \<open>The header block: the count, then the block numbers.\<close>

primrec read_entries :: "block \<Rightarrow> nat list \<Rightarrow> 'a log_state_scheme \<Rightarrow> 'a log_state_scheme res" where
  "read_entries d [] s = Ok s"
| "read_entries d (i # is) s =
     (if i \<ge> length (lh_block (lh s)) then Fault
      else read_entries d is
             (s\<lparr>lh := (lh s)\<lparr>lh_block := (lh_block (lh s))[i := get32 d (4 + 4 * i)]\<rparr>\<rparr>))"

definition read_head :: "nat \<Rightarrow> 'a log_state_scheme \<Rightarrow> 'a log_state_scheme res" where
  "read_head c s =
     bindr (bread c (log_dev s) (log_start s) s) (\<lambda>(b, s).
       let d = b_data (the_buf b s); n = sint (get32 d 0); s = s\<lparr>lh := (lh s)\<lparr>lh_n := n\<rparr>\<rparr>
       in bindr (read_entries d [0..<nat n] s) (\<lambda>s.
          brelse c b s))"

primrec write_entries :: "nat \<Rightarrow> nat list \<Rightarrow> 'a log_state_scheme \<Rightarrow> 'a log_state_scheme res" where
  "write_entries b [] s = Ok s"
| "write_entries b (i # is) s =
     (if i \<ge> length (lh_block (lh s)) then Fault
      else write_entries b is
             (upd_buf b (\<lambda>k. k\<lparr>b_data := splice (4 + 4 * i) (bytes32 (lh_block (lh s) ! i)) (b_data k)\<rparr>) s))"

definition write_head :: "nat \<Rightarrow> 'a log_state_scheme \<Rightarrow> 'a log_state_scheme res" where
  "write_head c s =
     bindr (bread c (log_dev s) (log_start s) s) (\<lambda>(b, s).
       let n = lh_n (lh s);
           s = upd_buf b (\<lambda>k. k\<lparr>b_data := splice 0 (bytes32 (of_int n)) (b_data k)\<rparr>) s
       in bindr (write_entries b [0..<nat n] s) (\<lambda>s.
          bindr (bwrite c b s) (\<lambda>s.
          brelse c b s)))"

definition recover_from_log :: "nat \<Rightarrow> 'a log_state_scheme \<Rightarrow> 'a log_state_scheme res" where
  "recover_from_log c s =
     bindr (read_head c s) (\<lambda>s.
     bindr (install_trans c s) (\<lambda>s.
     write_head c (s\<lparr>lh := (lh s)\<lparr>lh_n := 0\<rparr>\<rparr>)))"

definition initlog :: "nat \<Rightarrow> uint \<Rightarrow> 'a log_state_scheme \<Rightarrow> 'a log_state_scheme res" where
  "initlog c dev s =
     (if 4 + 4 * LOGSIZE \<ge> int BSIZE then Panic ''initlog: too big logheader''
      else let s = initlock L_log ''log'' s
           in bindr (readsb c dev s) (\<lambda>(sb, s).
              recover_from_log c
                (s\<lparr>log_start := sb_logstart sb, log_size := sint (sb_nlog sb), log_dev := dev\<rparr>)))"

primrec write_log_loop :: "nat \<Rightarrow> nat list \<Rightarrow> 'a log_state_scheme \<Rightarrow> 'a log_state_scheme res" where
  "write_log_loop c [] s = Ok s"
| "write_log_loop c (tail # ts) s =
     bindr (bread c (log_dev s) (log_start s + of_nat tail + 1) s) (\<lambda>(to, s).
       if tail \<ge> length (lh_block (lh s)) then Fault
       else bindr (bread c (log_dev s) (lh_block (lh s) ! tail) s) (\<lambda>(from, s).
            let s = set_data to (b_data (the_buf from s)) s
            in bindr (bwrite c to s) (\<lambda>s.
               bindr (brelse c from s) (\<lambda>s.
               bindr (brelse c to s) (\<lambda>s.
               write_log_loop c ts s)))))"

definition write_log :: "nat \<Rightarrow> 'a log_state_scheme \<Rightarrow> 'a log_state_scheme res" where
  "write_log c s = write_log_loop c [0..<nat (lh_n (lh s))] s"

definition commit :: "nat \<Rightarrow> 'a log_state_scheme \<Rightarrow> 'a log_state_scheme res" where
  "commit c s =
     (if lh_n (lh s) > 0
      then bindr (write_log c s) (\<lambda>s.
           bindr (write_head c s) (\<lambda>s.
           bindr (install_trans c s) (\<lambda>s.
           write_head c (s\<lparr>lh := (lh s)\<lparr>lh_n := 0\<rparr>\<rparr>))))
      else Ok s)"

section \<open>Transactions\<close>

definition begin_op_loop :: "nat \<Rightarrow> 'a log_state_scheme \<Rightarrow> (bool \<times> 'a log_state_scheme) res" where
  "begin_op_loop c s =
     (if committing s then bindr (sleep c Chan_log (Some L_log) s) (\<lambda>s. Ok (False, s))
      else if lh_n (lh s) + (outstanding s + 1) * MAXOPBLOCKS > LOGSIZE
      then bindr (sleep c Chan_log (Some L_log) s) (\<lambda>s. Ok (False, s))
      else bindr (release c L_log (s\<lparr>outstanding := outstanding s + 1\<rparr>)) (\<lambda>s. Ok (True, s)))"

definition begin_op :: "nat \<Rightarrow> 'a log_state_scheme \<Rightarrow> 'a log_state_scheme res" where
  "begin_op c s =
     bindr (acquire c L_log s) (\<lambda>s.
     bindr (begin_op_loop c s) (\<lambda>(go, s). if go then Ok s else Asleep))"

definition end_op :: "nat \<Rightarrow> 'a log_state_scheme \<Rightarrow> 'a log_state_scheme res" where
  "end_op c s =
     bindr (acquire c L_log s) (\<lambda>s.
       let s = s\<lparr>outstanding := outstanding s - 1\<rparr>
       in if committing s then Panic ''log.committing''
          else bindr (if outstanding s = 0 then Ok (True, s\<lparr>committing := True\<rparr>)
                      else bindr (wakeup c (Some Chan_log) s) (\<lambda>s. Ok (False, s))) (\<lambda>(do_commit, s).
               bindr (release c L_log s) (\<lambda>s.
                 if do_commit
                 then bindr (commit c s) (\<lambda>s.
                      bindr (acquire c L_log s) (\<lambda>s.
                        let s = s\<lparr>committing := False\<rparr>
                        in bindr (wakeup c (Some Chan_log) s) (\<lambda>s. release c L_log s)))
                 else Ok s)))"

definition log_write :: "nat \<Rightarrow> nat \<Rightarrow> 'a log_state_scheme \<Rightarrow> 'a log_state_scheme res" where
  "log_write c b s =
     (if lh_n (lh s) \<ge> LOGSIZE \<or> lh_n (lh s) \<ge> log_size s - 1 then Panic ''too big a transaction''
      else if outstanding s < 1 then Panic ''log_write outside of trans''
      else bindr (acquire c L_log s) (\<lambda>s.
        let n = nat (lh_n (lh s));
            i = (case first_idx (\<lambda>x. x = b_blockno (the_buf b s)) (take n (lh_block (lh s))) of
                   Some i \<Rightarrow> i | None \<Rightarrow> n);
            s = s\<lparr>lh := (lh s)\<lparr>lh_block := (lh_block (lh s))[i := b_blockno (the_buf b s)]\<rparr>\<rparr>;
            s = (if i = n then s\<lparr>lh := (lh s)\<lparr>lh_n := lh_n (lh s) + 1\<rparr>\<rparr> else s);
            s = upd_buf b (\<lambda>k. k\<lparr>b_flags := b_flags k OR B_DIRTY\<rparr>) s
        in release c L_log s))"

end
