(* ===== verification/Inode.thy ===== *)
theory Inode
  imports Log
begin

text \<open>
  The lower half of \<^verbatim>\<open>fs.c\<close>: the bitmap of blocks, the inodes on disk, the inode cache, and the blocks of
  a file. An inode pointer is an index of \<open>inodes\<close>, or \<open>None\<close> for a null pointer. The \<^verbatim>\<open>short\<close> fields are
  16-bit words, read as signed numbers where the code compares them.
\<close>

section \<open>State\<close>

definition NINODE :: nat where "NINODE = 50"
definition NDIRECT :: nat where "NDIRECT = 12"
definition NINDIRECT :: nat where "NINDIRECT = 128"
definition MAXFILE :: nat where "MAXFILE = 140"
definition IPB :: uint where "IPB = 8"
definition BPB :: uint where "BPB = 4096"

definition T_DIR :: ushort where "T_DIR = 1"
definition T_FILE :: ushort where "T_FILE = 2"
definition T_DEV :: ushort where "T_DEV = 3"

record inode =
  i_dev :: uint
  i_inum :: uint
  i_ref :: int
  i_valid :: bool
  i_type :: ushort
  i_major :: ushort
  i_minor :: ushort
  i_nlink :: ushort
  i_size :: uint
  i_addrs :: "uint list"

record fs_state = log_state +
  sb :: superblock
  inodes :: "inode list"

definition upd_inode :: "nat \<Rightarrow> (inode \<Rightarrow> inode) \<Rightarrow> 'a fs_state_scheme \<Rightarrow> 'a fs_state_scheme" where
  "upd_inode ip f s = s\<lparr>inodes := upd ip f (inodes s)\<rparr>"

abbreviation the_inode :: "nat \<Rightarrow> 'a fs_state_scheme \<Rightarrow> inode" where
  "the_inode ip s \<equiv> inodes s ! ip"

definition IBLOCK :: "uint \<Rightarrow> superblock \<Rightarrow> uint" where
  "IBLOCK i b = i div IPB + sb_inodestart b"

definition BBLOCK :: "uint \<Rightarrow> superblock \<Rightarrow> uint" where
  "BBLOCK b k = b div BPB + sb_bmapstart k"

section \<open>Blocks\<close>

definition bzero :: "nat \<Rightarrow> uint \<Rightarrow> uint \<Rightarrow> 'a log_state_scheme \<Rightarrow> 'a log_state_scheme res" where
  "bzero c dev bno s =
     bindr (bread c dev bno s) (\<lambda>(bp, s).
       let s = set_data bp (replicate BSIZE 0) s
       in bindr (log_write c bp s) (\<lambda>s. brelse c bp s))"

abbreviation bit_mask :: "nat \<Rightarrow> uchar" where
  "bit_mask bi \<equiv> push_bit (bi mod 8) 1"

primrec scan_bits :: "block \<Rightarrow> nat \<Rightarrow> nat \<Rightarrow> nat option" where
  "scan_bits d bi 0 = None"
| "scan_bits d bi (Suc k) =
     (if d ! (bi div 8) AND bit_mask bi = 0 then Some bi else scan_bits d (bi + 1) k)"

text \<open>The outer loop visits at most \<open>size div BPB + 1\<close> blocks of the map.\<close>

primrec balloc_loop :: "nat \<Rightarrow> nat \<Rightarrow> uint \<Rightarrow> uint \<Rightarrow> 'a fs_state_scheme \<Rightarrow> (uint \<times> 'a fs_state_scheme) res"
  where
  "balloc_loop 0 c dev b s = Panic ''balloc: out of blocks''"
| "balloc_loop (Suc k) c dev b s =
     (if b < sb_size (sb s)
      then bindr (bread c dev (BBLOCK b (sb s)) s) (\<lambda>(bp, s).
        case scan_bits (b_data (the_buf bp s)) 0 (min (unat BPB) (unat (sb_size (sb s)) - unat b)) of
          Some bi \<Rightarrow>
            let s = upd_buf bp (\<lambda>k. k\<lparr>b_data :=
                      (b_data k)[bi div 8 := b_data k ! (bi div 8) OR bit_mask bi]\<rparr>) s
            in bindr (log_write c bp s) (\<lambda>s.
               bindr (brelse c bp s) (\<lambda>s.
               bindr (bzero c dev (b + of_nat bi) s) (\<lambda>s.
               Ok (b + of_nat bi, s))))
        | None \<Rightarrow> bindr (brelse c bp s) (\<lambda>s. balloc_loop k c dev (b + BPB) s))
      else Panic ''balloc: out of blocks'')"

definition balloc :: "nat \<Rightarrow> uint \<Rightarrow> 'a fs_state_scheme \<Rightarrow> (uint \<times> 'a fs_state_scheme) res" where
  "balloc c dev s = balloc_loop (unat (sb_size (sb s)) div unat BPB + 1) c dev 0 s"

definition bfree :: "nat \<Rightarrow> uint \<Rightarrow> uint \<Rightarrow> 'a fs_state_scheme \<Rightarrow> 'a fs_state_scheme res" where
  "bfree c dev b s =
     bindr (bread c dev (BBLOCK b (sb s)) s) (\<lambda>(bp, s).
       let bi = unat (b mod BPB)
       in if b_data (the_buf bp s) ! (bi div 8) AND bit_mask bi = 0 then Panic ''freeing free block''
          else let s = upd_buf bp (\<lambda>k. k\<lparr>b_data :=
                         (b_data k)[bi div 8 := b_data k ! (bi div 8) AND NOT (bit_mask bi)]\<rparr>) s
               in bindr (log_write c bp s) (\<lambda>s. brelse c bp s))"

section \<open>Inodes on disk\<close>

text \<open>An inode is 64 bytes of its block: four shorts, the size, the thirteen addresses.\<close>

definition dinode_off :: "uint \<Rightarrow> nat" where
  "dinode_off inum = 64 * unat (inum mod IPB)"

definition dinode_type :: "block \<Rightarrow> uint \<Rightarrow> ushort" where
  "dinode_type d inum = get16 d (dinode_off inum)"

definition dinode_bytes :: "inode \<Rightarrow> uchar list" where
  "dinode_bytes ip = bytes16 (i_type ip) @ bytes16 (i_major ip) @ bytes16 (i_minor ip)
     @ bytes16 (i_nlink ip) @ bytes32 (i_size ip) @ concat (map bytes32 (i_addrs ip))"

definition load_dinode :: "block \<Rightarrow> uint \<Rightarrow> inode \<Rightarrow> inode" where
  "load_dinode d inum ip =
     (let b0 = dinode_off inum
      in ip\<lparr>i_type := get16 d b0, i_major := get16 d (b0 + 2), i_minor := get16 d (b0 + 4),
            i_nlink := get16 d (b0 + 6), i_size := get32 d (b0 + 8),
            i_addrs := map (\<lambda>j. get32 d (b0 + 12 + 4 * j)) [0..<NDIRECT + 1]\<rparr>)"

definition iupdate :: "nat \<Rightarrow> nat \<Rightarrow> 'a fs_state_scheme \<Rightarrow> 'a fs_state_scheme res" where
  "iupdate c ip s =
     bindr (bread c (i_dev (the_inode ip s)) (IBLOCK (i_inum (the_inode ip s)) (sb s)) s) (\<lambda>(bp, s).
       let s = upd_buf bp (\<lambda>k. k\<lparr>b_data :=
                 splice (dinode_off (i_inum (the_inode ip s))) (dinode_bytes (the_inode ip s)) (b_data k)\<rparr>) s
       in bindr (log_write c bp s) (\<lambda>s. brelse c bp s))"

section \<open>The inode cache\<close>

primrec init_inodes :: "nat list \<Rightarrow> 'a fs_state_scheme \<Rightarrow> 'a fs_state_scheme" where
  "init_inodes [] s = s"
| "init_inodes (i # is) s = init_inodes is (initsleeplock (L_sleep_inode i) ''inode'' s)"

definition iinit :: "nat \<Rightarrow> uint \<Rightarrow> 'a fs_state_scheme \<Rightarrow> 'a fs_state_scheme res" where
  "iinit c dev s =
     (let s = initlock L_icache ''icache'' s; s = init_inodes [0..<NINODE] s
      in bindr (readsb c dev s) (\<lambda>(b, s).
           let s = s\<lparr>sb := b\<rparr>
           in cprintf c (''sb: size %d nblocks %d ninodes %d nlog %d logstart %d inodestart %d bmap start %d''
                         @ [CHR 0x0A])
                (map (\<lambda>x. A_int (sint x)) [sb_size b, sb_nblocks b, sb_ninodes b, sb_nlog b,
                   sb_logstart b, sb_inodestart b, sb_bmapstart b]) s))"

definition iget :: "nat \<Rightarrow> uint \<Rightarrow> uint \<Rightarrow> 'a fs_state_scheme \<Rightarrow> (nat \<times> 'a fs_state_scheme) res" where
  "iget c dev inum s =
     bindr (acquire c L_icache s) (\<lambda>s.
       case first_idx (\<lambda>ip. i_ref ip > 0 \<and> i_dev ip = dev \<and> i_inum ip = inum) (inodes s) of
         Some i \<Rightarrow>
           let s = upd_inode i (\<lambda>ip. ip\<lparr>i_ref := i_ref ip + 1\<rparr>) s
           in bindr (release c L_icache s) (\<lambda>s. Ok (i, s))
       | None \<Rightarrow>
           (case first_idx (\<lambda>ip. i_ref ip = 0) (inodes s) of
              None \<Rightarrow> Panic ''iget: no inodes''
            | Some i \<Rightarrow>
                let s = upd_inode i (\<lambda>ip. ip\<lparr>i_dev := dev, i_inum := inum, i_ref := 1, i_valid := False\<rparr>) s
                in bindr (release c L_icache s) (\<lambda>s. Ok (i, s))))"

text \<open>The search runs over the inode numbers from 1.\<close>

primrec ialloc_loop :: "nat \<Rightarrow> nat \<Rightarrow> uint \<Rightarrow> ushort \<Rightarrow> uint \<Rightarrow> 'a fs_state_scheme
    \<Rightarrow> (nat \<times> 'a fs_state_scheme) res" where
  "ialloc_loop 0 c dev ty inum s = Panic ''ialloc: no inodes''"
| "ialloc_loop (Suc k) c dev ty inum s =
     bindr (bread c dev (IBLOCK inum (sb s)) s) (\<lambda>(bp, s).
       if dinode_type (b_data (the_buf bp s)) inum = 0
       then let s = upd_buf bp (\<lambda>k. k\<lparr>b_data := splice (dinode_off inum) (replicate 64 0) (b_data k)\<rparr>) s;
                s = upd_buf bp (\<lambda>k. k\<lparr>b_data := splice (dinode_off inum) (bytes16 ty) (b_data k)\<rparr>) s
            in bindr (log_write c bp s) (\<lambda>s.
               bindr (brelse c bp s) (\<lambda>s.
               iget c dev inum s))
       else bindr (brelse c bp s) (\<lambda>s. ialloc_loop k c dev ty (inum + 1) s))"

definition ialloc :: "nat \<Rightarrow> uint \<Rightarrow> ushort \<Rightarrow> 'a fs_state_scheme \<Rightarrow> (nat \<times> 'a fs_state_scheme) res" where
  "ialloc c dev ty s = ialloc_loop (unat (sb_ninodes (sb s)) - 1) c dev ty 1 s"

definition idup :: "nat \<Rightarrow> nat option \<Rightarrow> 'a fs_state_scheme \<Rightarrow> (nat \<times> 'a fs_state_scheme) res" where
  "idup c ip s =
     bindr (acquire c L_icache s) (\<lambda>s.
       case ip of None \<Rightarrow> Fault
       | Some i \<Rightarrow>
           let s = upd_inode i (\<lambda>ip. ip\<lparr>i_ref := i_ref ip + 1\<rparr>) s
           in bindr (release c L_icache s) (\<lambda>s. Ok (i, s)))"

definition ilock :: "nat \<Rightarrow> nat \<Rightarrow> 'a fs_state_scheme \<Rightarrow> 'a fs_state_scheme res" where
  "ilock c ip s =
     (if i_ref (the_inode ip s) < 1 then Panic ''ilock''
      else bindr (acquiresleep c (L_sleep_inode ip) s) (\<lambda>s.
        if \<not> i_valid (the_inode ip s)
        then bindr (bread c (i_dev (the_inode ip s)) (IBLOCK (i_inum (the_inode ip s)) (sb s)) s) (\<lambda>(bp, s).
               let s = upd_inode ip (load_dinode (b_data (the_buf bp s)) (i_inum (the_inode ip s))) s
               in bindr (brelse c bp s) (\<lambda>s.
                  let s = upd_inode ip (\<lambda>k. k\<lparr>i_valid := True\<rparr>) s
                  in if i_type (the_inode ip s) = 0 then Panic ''ilock: no type'' else Ok s))
        else Ok s))"

definition iunlock :: "nat \<Rightarrow> nat \<Rightarrow> 'a fs_state_scheme \<Rightarrow> 'a fs_state_scheme res" where
  "iunlock c ip s =
     bindr (holdingsleep c (L_sleep_inode ip) s) (\<lambda>(h, s).
       if \<not> h \<or> i_ref (the_inode ip s) < 1 then Panic ''iunlock''
       else releasesleep c (L_sleep_inode ip) s)"

section \<open>The blocks of a file\<close>

definition bmap :: "nat \<Rightarrow> nat \<Rightarrow> uint \<Rightarrow> 'a fs_state_scheme \<Rightarrow> (uint \<times> 'a fs_state_scheme) res" where
  "bmap c ip bn s =
     (if bn < of_nat NDIRECT
      then let addr = i_addrs (the_inode ip s) ! unat bn
           in if addr = 0
              then bindr (balloc c (i_dev (the_inode ip s)) s) (\<lambda>(addr, s).
                   Ok (addr, upd_inode ip (\<lambda>k. k\<lparr>i_addrs := (i_addrs k)[unat bn := addr]\<rparr>) s))
              else Ok (addr, s)
      else let bn = bn - of_nat NDIRECT
           in if bn < of_nat NINDIRECT
              then let addr = i_addrs (the_inode ip s) ! NDIRECT
                   in bindr (if addr = 0
                             then bindr (balloc c (i_dev (the_inode ip s)) s) (\<lambda>(addr, s).
                                  Ok (addr, upd_inode ip (\<lambda>k. k\<lparr>i_addrs := (i_addrs k)[NDIRECT := addr]\<rparr>) s))
                             else Ok (addr, s)) (\<lambda>(addr, s).
                      bindr (bread c (i_dev (the_inode ip s)) addr s) (\<lambda>(bp, s).
                        let addr = get32 (b_data (the_buf bp s)) (4 * unat bn)
                        in bindr (if addr = 0
                                  then bindr (balloc c (i_dev (the_inode ip s)) s) (\<lambda>(addr, s).
                                       let s = upd_buf bp (\<lambda>k. k\<lparr>b_data :=
                                                 splice (4 * unat bn) (bytes32 addr) (b_data k)\<rparr>) s
                                       in bindr (log_write c bp s) (\<lambda>s. Ok (addr, s)))
                                  else Ok (addr, s)) (\<lambda>(addr, s).
                           bindr (brelse c bp s) (\<lambda>s. Ok (addr, s)))))
              else Panic ''bmap: out of range'')"

primrec trunc_direct :: "nat \<Rightarrow> nat \<Rightarrow> nat list \<Rightarrow> 'a fs_state_scheme \<Rightarrow> 'a fs_state_scheme res" where
  "trunc_direct c ip [] s = Ok s"
| "trunc_direct c ip (i # is) s =
     (let addr = i_addrs (the_inode ip s) ! i
      in if addr \<noteq> 0
         then bindr (bfree c (i_dev (the_inode ip s)) addr s) (\<lambda>s.
              trunc_direct c ip is (upd_inode ip (\<lambda>k. k\<lparr>i_addrs := (i_addrs k)[i := 0]\<rparr>) s))
         else trunc_direct c ip is s)"

primrec trunc_indirect :: "nat \<Rightarrow> nat \<Rightarrow> nat \<Rightarrow> nat list \<Rightarrow> 'a fs_state_scheme \<Rightarrow> 'a fs_state_scheme res" where
  "trunc_indirect c ip bp [] s = Ok s"
| "trunc_indirect c ip bp (j # js) s =
     (let a = get32 (b_data (the_buf bp s)) (4 * j)
      in if a \<noteq> 0
         then bindr (bfree c (i_dev (the_inode ip s)) a s) (\<lambda>s. trunc_indirect c ip bp js s)
         else trunc_indirect c ip bp js s)"

definition itrunc :: "nat \<Rightarrow> nat \<Rightarrow> 'a fs_state_scheme \<Rightarrow> 'a fs_state_scheme res" where
  "itrunc c ip s =
     bindr (trunc_direct c ip [0..<NDIRECT] s) (\<lambda>s.
     bindr (let addr = i_addrs (the_inode ip s) ! NDIRECT
            in if addr \<noteq> 0
               then bindr (bread c (i_dev (the_inode ip s)) addr s) (\<lambda>(bp, s).
                    bindr (trunc_indirect c ip bp [0..<NINDIRECT] s) (\<lambda>s.
                    bindr (brelse c bp s) (\<lambda>s.
                    bindr (bfree c (i_dev (the_inode ip s)) (i_addrs (the_inode ip s) ! NDIRECT) s) (\<lambda>s.
                    Ok (upd_inode ip (\<lambda>k. k\<lparr>i_addrs := (i_addrs k)[NDIRECT := 0]\<rparr>) s)))))
               else Ok s) (\<lambda>s.
     iupdate c ip (upd_inode ip (\<lambda>k. k\<lparr>i_size := 0\<rparr>) s)))"

definition iput :: "nat \<Rightarrow> nat \<Rightarrow> 'a fs_state_scheme \<Rightarrow> 'a fs_state_scheme res" where
  "iput c ip s =
     bindr (acquiresleep c (L_sleep_inode ip) s) (\<lambda>s.
     bindr (if i_valid (the_inode ip s) \<and> i_nlink (the_inode ip s) = 0
            then bindr (acquire c L_icache s) (\<lambda>s.
                 let r = i_ref (the_inode ip s)
                 in bindr (release c L_icache s) (\<lambda>s.
                    if r = 1
                    then bindr (itrunc c ip s) (\<lambda>s.
                         bindr (iupdate c ip (upd_inode ip (\<lambda>k. k\<lparr>i_type := 0\<rparr>) s)) (\<lambda>s.
                         Ok (upd_inode ip (\<lambda>k. k\<lparr>i_valid := False\<rparr>) s)))
                    else Ok s))
            else Ok s) (\<lambda>s.
     bindr (releasesleep c (L_sleep_inode ip) s) (\<lambda>s.
     bindr (acquire c L_icache s) (\<lambda>s.
     release c L_icache (upd_inode ip (\<lambda>k. k\<lparr>i_ref := i_ref k - 1\<rparr>) s)))))"

definition iunlockput :: "nat \<Rightarrow> nat \<Rightarrow> 'a fs_state_scheme \<Rightarrow> 'a fs_state_scheme res" where
  "iunlockput c ip s = bindr (iunlock c ip s) (\<lambda>s. iput c ip s)"

record stat =
  st_type :: ushort
  st_dev :: uint
  st_ino :: uint
  st_nlink :: ushort
  st_size :: uint

definition stati :: "nat \<Rightarrow> 'a fs_state_scheme \<Rightarrow> stat" where
  "stati ip s =
     (let k = the_inode ip s
      in \<lparr>st_type = i_type k, st_dev = i_dev k, st_ino = i_inum k, st_nlink = i_nlink k, st_size = i_size k\<rparr>)"

end
