(* ===== verification/Fs.thy ===== *)
theory Fs
  imports Inode
begin

text \<open>
  The upper half of \<^verbatim>\<open>fs.c\<close>, reading and writing files, directories and path names, with the console
  device of \<^verbatim>\<open>console.c\<close>, which a device inode leads to. Buffers of bytes are lists: \<open>readi\<close> returns what it
  stores at its destination, \<open>writei\<close> is given what it finds at its source. A name in a directory is the
  list of its characters up to the terminator, at most \<open>DIRSIZ\<close>; a path is a list without terminator.
\<close>

section \<open>The console\<close>

definition INPUT_BUF :: uint where "INPUT_BUF = 128"

record input_buf =
  in_buf :: "uchar list"
  in_r :: uint
  in_w :: uint
  in_e :: uint

datatype devfns = Dev_console

record dev_state = fs_state +
  input :: input_buf
  devsw :: "devfns option list"

definition consputc :: "uchar \<Rightarrow> 'a con_state_scheme \<Rightarrow> 'a con_state_scheme" where
  "consputc ch s = s\<lparr>kout := kout s @ [char_of (unat ch)]\<rparr>"

definition cons_backspace :: "'a con_state_scheme \<Rightarrow> 'a con_state_scheme" where
  "cons_backspace s = s\<lparr>kout := kout s @ [CHR 0x08, CHR '' '', CHR 0x08]\<rparr>"

definition consoleinit :: "'a dev_state_scheme \<Rightarrow> 'a dev_state_scheme" where
  "consoleinit s =
     (let s = initlock L_cons ''console'' s
      in s\<lparr>devsw := (devsw s)[1 := Some Dev_console], cons_locking := True\<rparr>)"

abbreviation in_at :: "input_buf \<Rightarrow> uint \<Rightarrow> uchar" where
  "in_at b i \<equiv> in_buf b ! unat (i mod INPUT_BUF)"

text \<open>The loop of \<^verbatim>\<open>Control-U\<close>; between \<open>w\<close> and \<open>e\<close> there are at most \<open>INPUT_BUF\<close> characters.\<close>

primrec kill_line :: "nat \<Rightarrow> 'a dev_state_scheme \<Rightarrow> 'a dev_state_scheme res" where
  "kill_line 0 s = Spin"
| "kill_line (Suc k) s =
     (if in_e (input s) \<noteq> in_w (input s) \<and> in_at (input s) (in_e (input s) - 1) \<noteq> 0x0A
      then kill_line k (cons_backspace (s\<lparr>input := (input s)\<lparr>in_e := in_e (input s) - 1\<rparr>\<rparr>))
      else Ok s)"

definition console_char :: "nat \<Rightarrow> uchar \<Rightarrow> 'a dev_state_scheme \<Rightarrow> 'a dev_state_scheme res" where
  "console_char c ch s =
     (if ch = 0x15 then kill_line 129 s
      else if ch = 0x08 \<or> ch = 0x7F then
        Ok (if in_e (input s) \<noteq> in_w (input s)
            then cons_backspace (s\<lparr>input := (input s)\<lparr>in_e := in_e (input s) - 1\<rparr>\<rparr>) else s)
      else if ch \<noteq> 0 \<and> in_e (input s) - in_r (input s) < INPUT_BUF then
        let ch = (if ch = 0x0D then 0x0A else ch); e = in_e (input s);
            s = s\<lparr>input := (input s)\<lparr>in_buf := (in_buf (input s))[unat (e mod INPUT_BUF) := ch], in_e := e + 1\<rparr>\<rparr>;
            s = consputc ch s
        in if ch = 0x0A \<or> ch = 0x04 \<or> in_e (input s) = in_r (input s) + INPUT_BUF
           then wakeup c (Some Chan_input) (s\<lparr>input := (input s)\<lparr>in_w := in_e (input s)\<rparr>\<rparr>)
           else Ok s
      else Ok s)"

text \<open>\<^verbatim>\<open>consoleintr\<close> with the characters that \<^verbatim>\<open>getc\<close> has until it runs out; the result says whether the
  caller is to list the processes.\<close>

primrec consoleintr_loop :: "nat \<Rightarrow> uchar list \<Rightarrow> bool \<Rightarrow> 'a dev_state_scheme \<Rightarrow> (bool \<times> 'a dev_state_scheme) res"
  where
  "consoleintr_loop c [] d s = Ok (d, s)"
| "consoleintr_loop c (ch # chs) d s =
     (if ch = 0x10 then consoleintr_loop c chs True s
      else bindr (console_char c ch s) (\<lambda>s. consoleintr_loop c chs d s))"

definition consoleintr :: "nat \<Rightarrow> uchar list \<Rightarrow> 'a dev_state_scheme \<Rightarrow> (bool \<times> 'a dev_state_scheme) res" where
  "consoleintr c chs s =
     bindr (acquire c L_cons s) (\<lambda>s.
     bindr (consoleintr_loop c chs False s) (\<lambda>(d, s).
     bindr (release c L_cons s) (\<lambda>s. Ok (d, s))))"

datatype cread_out = C_done "uchar list" | C_killed | C_blocked nat "uchar list"

text \<open>The loop of \<^verbatim>\<open>consoleread\<close>, with \<^verbatim>\<open>cons.lock\<close> held, \<open>n\<close> characters still wanted and \<open>got\<close> already read.\<close>

primrec consoleread_loop :: "nat \<Rightarrow> nat \<Rightarrow> uchar list \<Rightarrow> 'a dev_state_scheme \<Rightarrow> (cread_out \<times> 'a dev_state_scheme) res"
  where
  "consoleread_loop c 0 got s = Ok (C_done got, s)"
| "consoleread_loop c (Suc n) got s =
     (if in_r (input s) = in_w (input s)
      then with_cur c (\<lambda>i s.
             if p_killed (the_proc i s) then Ok (C_killed, s)
             else bindr (sleep c Chan_input (Some L_cons) s) (\<lambda>s. Ok (C_blocked (Suc n) got, s))) s
      else let r = in_r (input s); ch = in_at (input s) r;
               s = s\<lparr>input := (input s)\<lparr>in_r := r + 1\<rparr>\<rparr>
           in if ch = 0x04
              then Ok (C_done got, if got \<noteq> [] then s\<lparr>input := (input s)\<lparr>in_r := in_r (input s) - 1\<rparr>\<rparr> else s)
              else if ch = 0x0A then Ok (C_done (got @ [ch]), s)
              else consoleread_loop c n (got @ [ch]) s)"

definition consoleread :: "nat \<Rightarrow> nat \<Rightarrow> nat \<Rightarrow> 'a dev_state_scheme \<Rightarrow> (int \<times> uchar list \<times> 'a dev_state_scheme) res"
  where
  "consoleread c ip n s =
     bindr (iunlock c ip s) (\<lambda>s.
     bindr (acquire c L_cons s) (\<lambda>s.
     bindr (consoleread_loop c n [] s) (\<lambda>(r, s).
       case r of
         C_done bs \<Rightarrow> bindr (release c L_cons s) (\<lambda>s. bindr (ilock c ip s) (\<lambda>s. Ok (int (length bs), bs, s)))
       | C_killed \<Rightarrow> bindr (release c L_cons s) (\<lambda>s. bindr (ilock c ip s) (\<lambda>s. Ok (-1, [], s)))
       | C_blocked n bs \<Rightarrow> Asleep)))"

definition consolewrite :: "nat \<Rightarrow> nat \<Rightarrow> uchar list \<Rightarrow> 'a dev_state_scheme \<Rightarrow> (int \<times> 'a dev_state_scheme) res"
  where
  "consolewrite c ip bs s =
     bindr (iunlock c ip s) (\<lambda>s.
     bindr (acquire c L_cons s) (\<lambda>s.
       let s = fold consputc bs s
       in bindr (release c L_cons s) (\<lambda>s.
          bindr (ilock c ip s) (\<lambda>s. Ok (int (length bs), s)))))"

section \<open>Reading and writing files\<close>

definition dev_of :: "nat \<Rightarrow> 'a dev_state_scheme \<Rightarrow> devfns option" where
  "dev_of ip s =
     (let m = sint (i_major (the_inode ip s))
      in if m < 0 \<or> m \<ge> int (length (devsw s)) then None else devsw s ! nat m)"

lemma chunk_less: "rem \<noteq> 0 \<Longrightarrow> rem - min rem (BSIZE - off mod BSIZE) < rem"
  using mod_less_divisor [of BSIZE off] by (auto simp: BSIZE_def)

function readi_loop :: "nat \<Rightarrow> nat \<Rightarrow> nat \<Rightarrow> nat \<Rightarrow> 'a dev_state_scheme \<Rightarrow> (uchar list \<times> 'a dev_state_scheme) res"
  where
  "readi_loop c ip off rem s =
     (if rem = 0 then Ok ([], s)
      else bindr (bmap c ip (of_nat (off div BSIZE)) s) (\<lambda>(a, s).
           bindr (bread c (i_dev (the_inode ip s)) a s) (\<lambda>(bp, s).
             let m = min rem (BSIZE - off mod BSIZE);
                 bs = take m (drop (off mod BSIZE) (b_data (the_buf bp s)))
             in bindr (brelse c bp s) (\<lambda>s.
                bindr (readi_loop c ip (off + m) (rem - m) s) (\<lambda>(r, s). Ok (bs @ r, s))))))"
  by pat_completeness auto
termination
  by (relation "measure (\<lambda>(c, ip, off, rem, s). rem)") (auto simp: chunk_less)

declare readi_loop.simps [simp del]

definition readi :: "nat \<Rightarrow> nat \<Rightarrow> uint \<Rightarrow> uint \<Rightarrow> 'a dev_state_scheme
    \<Rightarrow> (int \<times> uchar list \<times> 'a dev_state_scheme) res" where
  "readi c ip off n s =
     (if i_type (the_inode ip s) = T_DEV
      then (case dev_of ip s of None \<Rightarrow> Ok (-1, [], s)
            | Some Dev_console \<Rightarrow> consoleread c ip (nat (sint n)) s)
      else if off > i_size (the_inode ip s) \<or> off + n < off then Ok (-1, [], s)
      else let n = (if off + n > i_size (the_inode ip s) then i_size (the_inode ip s) - off else n)
           in bindr (readi_loop c ip (unat off) (unat n) s) (\<lambda>(bs, s). Ok (sint n, bs, s)))"

function writei_loop :: "nat \<Rightarrow> nat \<Rightarrow> nat \<Rightarrow> uchar list \<Rightarrow> 'a dev_state_scheme \<Rightarrow> 'a dev_state_scheme res" where
  "writei_loop c ip off src s =
     (if length src = 0 then Ok s
      else bindr (bmap c ip (of_nat (off div BSIZE)) s) (\<lambda>(a, s).
           bindr (bread c (i_dev (the_inode ip s)) a s) (\<lambda>(bp, s).
             let m = min (length src) (BSIZE - off mod BSIZE);
                 s = upd_buf bp (\<lambda>k. k\<lparr>b_data := splice (off mod BSIZE) (take m src) (b_data k)\<rparr>) s
             in bindr (log_write c bp s) (\<lambda>s.
                bindr (brelse c bp s) (\<lambda>s.
                writei_loop c ip (off + m) (drop m src) s)))))"
  by pat_completeness auto
termination
  by (relation "measure (\<lambda>(c, ip, off, src, s). length src)") (simp_all add: chunk_less)

declare writei_loop.simps [simp del]

definition writei :: "nat \<Rightarrow> nat \<Rightarrow> uchar list \<Rightarrow> uint \<Rightarrow> 'a dev_state_scheme \<Rightarrow> (int \<times> 'a dev_state_scheme) res"
  where
  "writei c ip src off s =
     (let n = of_nat (length src) :: uint
      in if i_type (the_inode ip s) = T_DEV
         then (case dev_of ip s of None \<Rightarrow> Ok (-1, s) | Some Dev_console \<Rightarrow> consolewrite c ip src s)
         else if off > i_size (the_inode ip s) \<or> off + n < off then Ok (-1, s)
         else if off + n > of_nat (MAXFILE * BSIZE) then Ok (-1, s)
         else bindr (writei_loop c ip (unat off) src s) (\<lambda>s.
              let off = off + n
              in bindr (if n > 0 \<and> off > i_size (the_inode ip s)
                        then iupdate c ip (upd_inode ip (\<lambda>k. k\<lparr>i_size := off\<rparr>) s) else Ok s) (\<lambda>s.
                 Ok (sint n, s))))"

section \<open>Directories\<close>

definition DIRSIZ :: nat where "DIRSIZ = 14"
definition DIRENT :: uint where "DIRENT = 16"

primrec namecmp_loop :: "nat \<Rightarrow> nat \<Rightarrow> uchar list \<Rightarrow> uchar list \<Rightarrow> int" where
  "namecmp_loop i 0 p q = 0"
| "namecmp_loop i (Suc k) p q =
     (if byte_at p i \<noteq> 0 \<and> byte_at p i = byte_at q i then namecmp_loop (i + 1) k p q
      else uint (byte_at p i) - uint (byte_at q i))"

definition namecmp :: "uchar list \<Rightarrow> uchar list \<Rightarrow> int" where
  "namecmp p q = namecmp_loop 0 DIRSIZ p q"

definition de_inum :: "uchar list \<Rightarrow> ushort" where
  "de_inum de = get16 de 0"

definition de_name :: "uchar list \<Rightarrow> uchar list" where
  "de_name de = drop 2 de"

definition dirent_bytes :: "ushort \<Rightarrow> uchar list \<Rightarrow> uchar list" where
  "dirent_bytes inum name = bytes16 inum @ take DIRSIZ (name @ replicate DIRSIZ 0)"

text \<open>The loops over the entries of a directory; they visit at most \<open>size div 16 + 1\<close> offsets.\<close>

primrec dirlookup_loop :: "nat \<Rightarrow> nat \<Rightarrow> nat \<Rightarrow> uchar list \<Rightarrow> uint \<Rightarrow> 'a dev_state_scheme
    \<Rightarrow> ((nat \<times> uint) option \<times> 'a dev_state_scheme) res" where
  "dirlookup_loop 0 c dp name off s = Spin"
| "dirlookup_loop (Suc k) c dp name off s =
     (if off < i_size (the_inode dp s)
      then bindr (readi c dp off DIRENT s) (\<lambda>(r, de, s).
        if r \<noteq> 16 then Panic ''dirlookup read''
        else if de_inum de = 0 then dirlookup_loop k c dp name (off + DIRENT) s
        else if namecmp name (de_name de) = 0
        then bindr (iget c (i_dev (the_inode dp s)) (ucast (de_inum de)) s) (\<lambda>(ip, s). Ok (Some (ip, off), s))
        else dirlookup_loop k c dp name (off + DIRENT) s)
      else Ok (None, s))"

definition dirlookup :: "nat \<Rightarrow> nat \<Rightarrow> uchar list \<Rightarrow> 'a dev_state_scheme
    \<Rightarrow> ((nat \<times> uint) option \<times> 'a dev_state_scheme) res" where
  "dirlookup c dp name s =
     (if i_type (the_inode dp s) \<noteq> T_DIR then Panic ''dirlookup not DIR''
      else dirlookup_loop (unat (i_size (the_inode dp s)) div 16 + 2) c dp name 0 s)"

primrec empty_slot :: "nat \<Rightarrow> nat \<Rightarrow> nat \<Rightarrow> uint \<Rightarrow> 'a dev_state_scheme \<Rightarrow> (uint \<times> 'a dev_state_scheme) res" where
  "empty_slot 0 c dp off s = Spin"
| "empty_slot (Suc k) c dp off s =
     (if off < i_size (the_inode dp s)
      then bindr (readi c dp off DIRENT s) (\<lambda>(r, de, s).
        if r \<noteq> 16 then Panic ''dirlink read''
        else if de_inum de = 0 then Ok (off, s)
        else empty_slot k c dp (off + DIRENT) s)
      else Ok (off, s))"

definition dirlink :: "nat \<Rightarrow> nat \<Rightarrow> uchar list \<Rightarrow> uint \<Rightarrow> 'a dev_state_scheme \<Rightarrow> (int \<times> 'a dev_state_scheme) res"
  where
  "dirlink c dp name inum s =
     bindr (dirlookup c dp name s) (\<lambda>(r, s).
       case r of
         Some (ip, _) \<Rightarrow> bindr (iput c ip s) (\<lambda>s. Ok (-1, s))
       | None \<Rightarrow>
           bindr (empty_slot (unat (i_size (the_inode dp s)) div 16 + 2) c dp 0 s) (\<lambda>(off, s).
           bindr (writei c dp (dirent_bytes (ucast inum) name) off s) (\<lambda>(r, s).
             if r \<noteq> 16 then Panic ''dirlink'' else Ok (0, s))))"

section \<open>Path names\<close>

definition slash :: uchar where "slash = 0x2F"

definition skipelem :: "uchar list \<Rightarrow> (uchar list \<times> uchar list) option" where
  "skipelem path =
     (let path = dropWhile (\<lambda>ch. ch = slash) path
      in if path = [] then None
         else let name = takeWhile (\<lambda>ch. ch \<noteq> slash) path; path = dropWhile (\<lambda>ch. ch \<noteq> slash) path
              in Some (take DIRSIZ name, dropWhile (\<lambda>ch. ch = slash) path))"

lemma skipelem_shorter: "skipelem path = Some (name, rest) \<Longrightarrow> length rest < length path"
proof -
  assume a: "skipelem path = Some (name, rest)"
  define p where "p = dropWhile (\<lambda>ch. ch = slash) path"
  have p: "p \<noteq> []" "rest = dropWhile (\<lambda>ch. ch = slash) (dropWhile (\<lambda>ch. ch \<noteq> slash) p)"
    using a by (auto simp: skipelem_def p_def Let_def split: if_splits)
  then have "hd p \<noteq> slash"
    using hd_dropWhile [of "\<lambda>ch. ch = slash" path] by (simp add: p_def)
  with p have "rest = dropWhile (\<lambda>ch. ch = slash) (dropWhile (\<lambda>ch. ch \<noteq> slash) (tl p))"
    by (cases p) auto
  then have "length rest \<le> length (tl p)"
    using length_dropWhile_le order_trans by metis
  moreover have "length p \<le> length path"
    by (simp add: p_def length_dropWhile_le)
  ultimately show ?thesis
    using p(1) by (cases p) auto
qed

function namex_loop :: "nat \<Rightarrow> bool \<Rightarrow> nat \<Rightarrow> uchar list \<Rightarrow> uchar list \<Rightarrow> 'a dev_state_scheme
    \<Rightarrow> ((nat \<times> uchar list) option \<times> 'a dev_state_scheme) res" where
  "namex_loop c parent ip name path s =
     (case skipelem path of
        None \<Rightarrow> if parent then bindr (iput c ip s) (\<lambda>s. Ok (None, s)) else Ok (Some (ip, name), s)
      | Some (name, path) \<Rightarrow>
          bindr (ilock c ip s) (\<lambda>s.
            if i_type (the_inode ip s) \<noteq> T_DIR then bindr (iunlockput c ip s) (\<lambda>s. Ok (None, s))
            else if parent \<and> path = [] then bindr (iunlock c ip s) (\<lambda>s. Ok (Some (ip, name), s))
            else bindr (dirlookup c ip name s) (\<lambda>(r, s).
              case r of
                None \<Rightarrow> bindr (iunlockput c ip s) (\<lambda>s. Ok (None, s))
              | Some (nxt, _) \<Rightarrow> bindr (iunlockput c ip s) (\<lambda>s. namex_loop c parent nxt name path s))))"
  by pat_completeness auto
termination
  by (relation "measure (\<lambda>(c, parent, ip, name, path, s). length path)") (auto simp: skipelem_shorter)

declare namex_loop.simps [simp del]

definition namex :: "nat \<Rightarrow> bool \<Rightarrow> uchar list \<Rightarrow> 'a dev_state_scheme
    \<Rightarrow> ((nat \<times> uchar list) option \<times> 'a dev_state_scheme) res" where
  "namex c parent path s =
     bindr (if byte_at path 0 = slash then iget c 1 1 s
            else with_cur c (\<lambda>i s. idup c (p_cwd (the_proc i s)) s) s) (\<lambda>(ip, s).
     namex_loop c parent ip [] path s)"

definition namei :: "nat \<Rightarrow> uchar list \<Rightarrow> 'a dev_state_scheme \<Rightarrow> (nat option \<times> 'a dev_state_scheme) res" where
  "namei c path s = bindr (namex c False path s) (\<lambda>(r, s). Ok (map_option fst r, s))"

definition nameiparent :: "nat \<Rightarrow> uchar list \<Rightarrow> 'a dev_state_scheme
    \<Rightarrow> ((nat \<times> uchar list) option \<times> 'a dev_state_scheme) res" where
  "nameiparent c path s = namex c True path s"

end
