(* ===== verification/File.thy ===== *)
theory File
  imports Fs
begin

text \<open>
  Open files and pipes: \<^verbatim>\<open>file.c\<close> and \<^verbatim>\<open>pipe.c\<close>. A \<^verbatim>\<open>struct file *\<close> is an index of \<open>ftable\<close>. A pipe lives in a page
  of its own and is named by the address of that page; its contents are the record \<open>pipes\<close> has there.
  The loops of \<^verbatim>\<open>piperead\<close> and \<^verbatim>\<open>pipewrite\<close>, entered with the lock of the pipe held, say where they stopped
  when they had to sleep (\<open>P_full\<close>, \<open>P_empty\<close>); the routines themselves turn that into \<open>Asleep\<close>.
\<close>

section \<open>State\<close>

definition NFILE :: nat where "NFILE = 100"
definition PIPESIZE :: uint where "PIPESIZE = 512"

datatype fdtype = FD_NONE | FD_PIPE | FD_INODE

record kfile =
  f_type :: fdtype
  f_ref :: int
  f_readable :: bool
  f_writable :: bool
  f_pipe :: uint
  f_ip :: nat
  f_off :: uint

record pipe =
  p_data :: "uchar list"
  nread :: uint
  nwrite :: uint
  readopen :: bool
  writeopen :: bool

record file_state = dev_state +
  ftable :: "kfile list"
  pipes :: "uint \<Rightarrow> pipe"
  forkret_first :: bool

definition upd_file :: "nat \<Rightarrow> (kfile \<Rightarrow> kfile) \<Rightarrow> 'a file_state_scheme \<Rightarrow> 'a file_state_scheme" where
  "upd_file f g s = s\<lparr>ftable := upd f g (ftable s)\<rparr>"

abbreviation the_file :: "nat \<Rightarrow> 'a file_state_scheme \<Rightarrow> kfile" where
  "the_file f s \<equiv> ftable s ! f"

definition upd_pipe :: "uint \<Rightarrow> (pipe \<Rightarrow> pipe) \<Rightarrow> 'a file_state_scheme \<Rightarrow> 'a file_state_scheme" where
  "upd_pipe p g s = s\<lparr>pipes := (pipes s)(p := g (pipes s p))\<rparr>"

section \<open>Pipes\<close>

definition pipeclose :: "nat \<Rightarrow> uint \<Rightarrow> bool \<Rightarrow> 'a file_state_scheme \<Rightarrow> 'a file_state_scheme res" where
  "pipeclose c p writable s =
     bindr (acquire c (L_pipe p) s) (\<lambda>s.
     bindr (if writable
            then wakeup c (Some (Chan_pipe_read p)) (upd_pipe p (\<lambda>q. q\<lparr>writeopen := False\<rparr>) s)
            else wakeup c (Some (Chan_pipe_write p)) (upd_pipe p (\<lambda>q. q\<lparr>readopen := False\<rparr>) s)) (\<lambda>s.
       if \<not> readopen (pipes s p) \<and> \<not> writeopen (pipes s p)
       then bindr (release c (L_pipe p) s) (\<lambda>s. kfree c p s)
       else release c (L_pipe p) s))"

datatype pwrite_out = P_wrote | P_failed | P_full "uchar list"

definition pipe_put :: "uchar \<Rightarrow> pipe \<Rightarrow> pipe" where
  "pipe_put b q = q\<lparr>p_data := (p_data q)[unat (nwrite q mod PIPESIZE) := b], nwrite := nwrite q + 1\<rparr>"

primrec pipewrite_loop :: "nat \<Rightarrow> uint \<Rightarrow> uchar list \<Rightarrow> 'a file_state_scheme \<Rightarrow> (pwrite_out \<times> 'a file_state_scheme) res"
  where
  "pipewrite_loop c p [] s = bindr (wakeup c (Some (Chan_pipe_read p)) s) (\<lambda>s. Ok (P_wrote, s))"
| "pipewrite_loop c p (b # bs) s =
     (if nwrite (pipes s p) = nread (pipes s p) + PIPESIZE
      then if \<not> readopen (pipes s p) then Ok (P_failed, s)
           else with_cur c (\<lambda>i s.
                  if p_killed (the_proc i s) then Ok (P_failed, s)
                  else bindr (wakeup c (Some (Chan_pipe_read p)) s) (\<lambda>s.
                       bindr (sleep c (Chan_pipe_write p) (Some (L_pipe p)) s) (\<lambda>s.
                       Ok (P_full (b # bs), s)))) s
      else pipewrite_loop c p bs (upd_pipe p (pipe_put b) s))"

definition pipewrite :: "nat \<Rightarrow> uint \<Rightarrow> uchar list \<Rightarrow> 'a file_state_scheme \<Rightarrow> (int \<times> 'a file_state_scheme) res" where
  "pipewrite c p bs s =
     bindr (acquire c (L_pipe p) s) (\<lambda>s.
     bindr (pipewrite_loop c p bs s) (\<lambda>(r, s).
       case r of
         P_wrote \<Rightarrow> bindr (release c (L_pipe p) s) (\<lambda>s. Ok (int (length bs), s))
       | P_failed \<Rightarrow> bindr (release c (L_pipe p) s) (\<lambda>s. Ok (-1, s))
       | P_full rest \<Rightarrow> Asleep))"

primrec pipe_take :: "nat \<Rightarrow> pipe \<Rightarrow> uchar list \<times> pipe" where
  "pipe_take 0 q = ([], q)"
| "pipe_take (Suc n) q =
     (if nread q = nwrite q then ([], q)
      else let b = p_data q ! unat (nread q mod PIPESIZE);
               (bs, q) = pipe_take n (q\<lparr>nread := nread q + 1\<rparr>)
           in (b # bs, q))"

datatype pread_out = P_read "uchar list" | P_killed | P_empty

definition piperead_loop :: "nat \<Rightarrow> uint \<Rightarrow> nat \<Rightarrow> 'a file_state_scheme \<Rightarrow> (pread_out \<times> 'a file_state_scheme) res"
  where
  "piperead_loop c p n s =
     (if nread (pipes s p) = nwrite (pipes s p) \<and> writeopen (pipes s p)
      then with_cur c (\<lambda>i s.
             if p_killed (the_proc i s) then Ok (P_killed, s)
             else bindr (sleep c (Chan_pipe_read p) (Some (L_pipe p)) s) (\<lambda>s. Ok (P_empty, s))) s
      else let (bs, q) = pipe_take n (pipes s p); s = upd_pipe p (\<lambda>_. q) s
           in bindr (wakeup c (Some (Chan_pipe_write p)) s) (\<lambda>s. Ok (P_read bs, s)))"

definition piperead :: "nat \<Rightarrow> uint \<Rightarrow> nat \<Rightarrow> 'a file_state_scheme
    \<Rightarrow> (int \<times> uchar list \<times> 'a file_state_scheme) res" where
  "piperead c p n s =
     bindr (acquire c (L_pipe p) s) (\<lambda>s.
     bindr (piperead_loop c p n s) (\<lambda>(r, s).
       case r of
         P_read bs \<Rightarrow> bindr (release c (L_pipe p) s) (\<lambda>s. Ok (int (length bs), bs, s))
       | P_killed \<Rightarrow> bindr (release c (L_pipe p) s) (\<lambda>s. Ok (-1, [], s))
       | P_empty \<Rightarrow> Asleep))"

section \<open>Open files\<close>

definition fileinit :: "'a file_state_scheme \<Rightarrow> 'a file_state_scheme" where
  "fileinit s = initlock L_ftable ''ftable'' s"

definition filealloc :: "nat \<Rightarrow> 'a file_state_scheme \<Rightarrow> (nat option \<times> 'a file_state_scheme) res" where
  "filealloc c s =
     bindr (acquire c L_ftable s) (\<lambda>s.
       case first_idx (\<lambda>f. f_ref f = 0) (ftable s) of
         Some f \<Rightarrow> bindr (release c L_ftable (upd_file f (\<lambda>k. k\<lparr>f_ref := 1\<rparr>) s)) (\<lambda>s. Ok (Some f, s))
       | None \<Rightarrow> bindr (release c L_ftable s) (\<lambda>s. Ok (None, s)))"

definition filedup :: "nat \<Rightarrow> nat \<Rightarrow> 'a file_state_scheme \<Rightarrow> 'a file_state_scheme res" where
  "filedup c f s =
     bindr (acquire c L_ftable s) (\<lambda>s.
       if f_ref (the_file f s) < 1 then Panic ''filedup''
       else release c L_ftable (upd_file f (\<lambda>k. k\<lparr>f_ref := f_ref k + 1\<rparr>) s))"

definition fileclose :: "nat \<Rightarrow> nat \<Rightarrow> 'a file_state_scheme \<Rightarrow> 'a file_state_scheme res" where
  "fileclose c f s =
     bindr (acquire c L_ftable s) (\<lambda>s.
       if f_ref (the_file f s) < 1 then Panic ''fileclose''
       else let s = upd_file f (\<lambda>k. k\<lparr>f_ref := f_ref k - 1\<rparr>) s
            in if f_ref (the_file f s) > 0 then release c L_ftable s
               else let ff = the_file f s;
                        s = upd_file f (\<lambda>k. k\<lparr>f_ref := 0, f_type := FD_NONE\<rparr>) s
                    in bindr (release c L_ftable s) (\<lambda>s.
                       case f_type ff of
                         FD_PIPE \<Rightarrow> pipeclose c (f_pipe ff) (f_writable ff) s
                       | FD_INODE \<Rightarrow>
                           bindr (begin_op c s) (\<lambda>s.
                           bindr (iput c (f_ip ff) s) (\<lambda>s.
                           end_op c s))
                       | FD_NONE \<Rightarrow> Ok s))"

definition filestat :: "nat \<Rightarrow> nat \<Rightarrow> 'a file_state_scheme \<Rightarrow> (stat option \<times> 'a file_state_scheme) res" where
  "filestat c f s =
     (if f_type (the_file f s) = FD_INODE
      then let ip = f_ip (the_file f s)
           in bindr (ilock c ip s) (\<lambda>s.
              let st = stati ip s
              in bindr (iunlock c ip s) (\<lambda>s. Ok (Some st, s)))
      else Ok (None, s))"

definition fileread :: "nat \<Rightarrow> nat \<Rightarrow> int \<Rightarrow> 'a file_state_scheme
    \<Rightarrow> (int \<times> uchar list \<times> 'a file_state_scheme) res" where
  "fileread c f n s =
     (if \<not> f_readable (the_file f s) then Ok (-1, [], s)
      else case f_type (the_file f s) of
        FD_PIPE \<Rightarrow> piperead c (f_pipe (the_file f s)) (nat n) s
      | FD_INODE \<Rightarrow>
          let ip = f_ip (the_file f s)
          in bindr (ilock c ip s) (\<lambda>s.
             bindr (readi c ip (f_off (the_file f s)) (of_int n) s) (\<lambda>(r, bs, s).
               let s = (if r > 0 then upd_file f (\<lambda>k. k\<lparr>f_off := f_off k + of_int r\<rparr>) s else s)
               in bindr (iunlock c ip s) (\<lambda>s. Ok (r, bs, s))))
      | FD_NONE \<Rightarrow> Panic ''fileread'')"

definition write_max :: nat where
  "write_max = nat ((MAXOPBLOCKS - 1 - 1 - 2) div 2) * 512"

text \<open>The chunks of a write to a file, each a transaction; the result says whether all of it was
  written.\<close>

function filewrite_loop :: "nat \<Rightarrow> nat \<Rightarrow> uchar list \<Rightarrow> 'a file_state_scheme \<Rightarrow> (bool \<times> 'a file_state_scheme) res"
  where
  "filewrite_loop c f bs s =
     (if length bs = 0 then Ok (True, s)
      else let n1 = min (length bs) write_max; ip = f_ip (the_file f s)
           in bindr (begin_op c s) (\<lambda>s.
              bindr (ilock c ip s) (\<lambda>s.
              bindr (writei c ip (take n1 bs) (f_off (the_file f s)) s) (\<lambda>(r, s).
                let s = (if r > 0 then upd_file f (\<lambda>k. k\<lparr>f_off := f_off k + of_int r\<rparr>) s else s)
                in bindr (iunlock c ip s) (\<lambda>s.
                   bindr (end_op c s) (\<lambda>s.
                     if r < 0 then Ok (False, s)
                     else if r \<noteq> int n1 then Panic ''short filewrite''
                     else filewrite_loop c f (drop n1 bs) s))))))"
  by pat_completeness auto
termination
  by (relation "measure (\<lambda>(c, f, bs, s). length bs)") (auto simp: write_max_def MAXOPBLOCKS_def)

declare filewrite_loop.simps [simp del]

definition filewrite :: "nat \<Rightarrow> nat \<Rightarrow> uchar list \<Rightarrow> 'a file_state_scheme \<Rightarrow> (int \<times> 'a file_state_scheme) res" where
  "filewrite c f bs s =
     (if \<not> f_writable (the_file f s) then Ok (-1, s)
      else case f_type (the_file f s) of
        FD_PIPE \<Rightarrow> pipewrite c (f_pipe (the_file f s)) bs s
      | FD_INODE \<Rightarrow> bindr (filewrite_loop c f bs s) (\<lambda>(done, s). Ok (if done then int (length bs) else -1, s))
      | FD_NONE \<Rightarrow> Panic ''filewrite'')"

section \<open>Making a pipe\<close>

definition close_some :: "nat \<Rightarrow> nat option \<Rightarrow> 'a file_state_scheme \<Rightarrow> 'a file_state_scheme res" where
  "close_some c f s = (case f of None \<Rightarrow> Ok s | Some f \<Rightarrow> fileclose c f s)"

definition pipealloc :: "nat \<Rightarrow> 'a file_state_scheme \<Rightarrow> ((nat \<times> nat) option \<times> 'a file_state_scheme) res" where
  "pipealloc c s =
     bindr (filealloc c s) (\<lambda>(f0, s).
     bindr (if f0 = None then Ok (None, s) else filealloc c s) (\<lambda>(f1, s).
     bindr (if f0 = None \<or> f1 = None then Ok (0, s) else kalloc c s) (\<lambda>(p, s).
       case (f0, f1) of
         (Some r, Some w) \<Rightarrow>
           if p \<noteq> 0
           then let s = upd_pipe p (\<lambda>q. q\<lparr>readopen := True, writeopen := True, nwrite := 0, nread := 0\<rparr>) s;
                    s = initlock (L_pipe p) ''pipe'' s;
                    s = upd_file r (\<lambda>k. k\<lparr>f_type := FD_PIPE, f_readable := True, f_writable := False, f_pipe := p\<rparr>) s;
                    s = upd_file w (\<lambda>k. k\<lparr>f_type := FD_PIPE, f_readable := False, f_writable := True, f_pipe := p\<rparr>) s
                in Ok (Some (r, w), s)
           else bindr (fileclose c r s) (\<lambda>s. bindr (fileclose c w s) (\<lambda>s. Ok (None, s)))
       | _ \<Rightarrow> bindr (close_some c f0 s) (\<lambda>s. bindr (close_some c f1 s) (\<lambda>s. Ok (None, s))))))"

end
