(* ===== verification/Sysfile.thy ===== *)
theory Sysfile
  imports File
begin

text \<open>
  The system calls on files, \<^verbatim>\<open>sysfile.c\<close>, and \<^verbatim>\<open>exec.c\<close> with \<^verbatim>\<open>loaduvm\<close> of \<^verbatim>\<open>vm.c\<close>. Each call returns the value
  that goes into the \<^verbatim>\<open>eax\<close> of the caller.
\<close>

section \<open>Descriptors\<close>

definition argfd :: "nat \<Rightarrow> nat \<Rightarrow> 'a file_state_scheme \<Rightarrow> ((nat \<times> nat) option \<times> 'a file_state_scheme) res" where
  "argfd c n s =
     bindr (argint c n s) (\<lambda>(r, s).
       case r of None \<Rightarrow> Ok (None, s)
       | Some a \<Rightarrow>
           let fd = sint a
           in if fd < 0 \<or> fd \<ge> int NOFILE then Ok (None, s)
              else with_cur c (\<lambda>i s.
                     case p_ofile (the_proc i s) ! nat fd of
                       None \<Rightarrow> Ok (None, s)
                     | Some f \<Rightarrow> Ok (Some (nat fd, f), s)) s)"

definition set_ofile :: "nat \<Rightarrow> nat \<Rightarrow> nat option \<Rightarrow> 'a proc_state_scheme \<Rightarrow> 'a proc_state_scheme" where
  "set_ofile i fd f s = upd_proc i (\<lambda>p. p\<lparr>p_ofile := (p_ofile p)[fd := f]\<rparr>) s"

definition fdalloc :: "nat \<Rightarrow> nat \<Rightarrow> 'a file_state_scheme \<Rightarrow> (int \<times> 'a file_state_scheme) res" where
  "fdalloc c f =
     with_cur c (\<lambda>i s.
       case first_idx (\<lambda>x. x = None) (take NOFILE (p_ofile (the_proc i s))) of
         None \<Rightarrow> Ok (-1, s)
       | Some fd \<Rightarrow> Ok (int fd, set_ofile i fd (Some f) s))"

definition sys_dup :: "nat \<Rightarrow> 'a file_state_scheme \<Rightarrow> (int \<times> 'a file_state_scheme) res" where
  "sys_dup c s =
     bindr (argfd c 0 s) (\<lambda>(r, s).
       case r of None \<Rightarrow> Ok (-1, s)
       | Some (_, f) \<Rightarrow>
           bindr (fdalloc c f s) (\<lambda>(fd, s).
             if fd < 0 then Ok (-1, s)
             else bindr (filedup c f s) (\<lambda>s. Ok (fd, s))))"

text \<open>The three arguments of \<^verbatim>\<open>read\<close> and \<^verbatim>\<open>write\<close>: file, address, count.\<close>

definition rw_args :: "nat \<Rightarrow> 'a file_state_scheme \<Rightarrow> ((nat \<times> uint \<times> int) option \<times> 'a file_state_scheme) res" where
  "rw_args c s =
     bindr (argfd c 0 s) (\<lambda>(r, s).
       case r of None \<Rightarrow> Ok (None, s)
       | Some (_, f) \<Rightarrow>
           bindr (argint c 2 s) (\<lambda>(n, s).
             case n of None \<Rightarrow> Ok (None, s)
             | Some n \<Rightarrow>
                 bindr (argptr c 1 (sint n) s) (\<lambda>(p, s).
                   case p of None \<Rightarrow> Ok (None, s) | Some p \<Rightarrow> Ok (Some (f, p, sint n), s))))"

definition sys_read :: "nat \<Rightarrow> 'a file_state_scheme \<Rightarrow> (int \<times> 'a file_state_scheme) res" where
  "sys_read c s =
     bindr (rw_args c s) (\<lambda>(a, s).
       case a of None \<Rightarrow> Ok (-1, s)
       | Some (f, p, n) \<Rightarrow>
           bindr (fileread c f n s) (\<lambda>(r, bs, s).
           bindr (copy_out c p bs s) (\<lambda>s. Ok (r, s))))"

definition sys_write :: "nat \<Rightarrow> 'a file_state_scheme \<Rightarrow> (int \<times> 'a file_state_scheme) res" where
  "sys_write c s =
     bindr (rw_args c s) (\<lambda>(a, s).
       case a of None \<Rightarrow> Ok (-1, s)
       | Some (f, p, n) \<Rightarrow>
           bindr (copy_in c p (nat n) s) (\<lambda>bs. filewrite c f bs s))"

definition sys_close :: "nat \<Rightarrow> 'a file_state_scheme \<Rightarrow> (int \<times> 'a file_state_scheme) res" where
  "sys_close c s =
     bindr (argfd c 0 s) (\<lambda>(r, s).
       case r of None \<Rightarrow> Ok (-1, s)
       | Some (fd, f) \<Rightarrow>
           with_cur c (\<lambda>i s.
             bindr (fileclose c f (set_ofile i fd None s)) (\<lambda>s. Ok (0, s))) s)"

text \<open>The fields of \<^verbatim>\<open>struct stat\<close> at their offsets; the padding between them is not written.\<close>

definition put_stat :: "nat \<Rightarrow> uint \<Rightarrow> stat \<Rightarrow> 'a kmem_state_scheme \<Rightarrow> 'a kmem_state_scheme res" where
  "put_stat c p st s =
     bindr (copy_out c (p + 4) (bytes32 (st_dev st)) s) (\<lambda>s.
     bindr (copy_out c (p + 8) (bytes32 (st_ino st)) s) (\<lambda>s.
     bindr (copy_out c p (bytes16 (st_type st)) s) (\<lambda>s.
     bindr (copy_out c (p + 12) (bytes16 (st_nlink st)) s) (\<lambda>s.
     copy_out c (p + 16) (bytes32 (st_size st)) s))))"

definition sys_fstat :: "nat \<Rightarrow> 'a file_state_scheme \<Rightarrow> (int \<times> 'a file_state_scheme) res" where
  "sys_fstat c s =
     bindr (argfd c 0 s) (\<lambda>(r, s).
       case r of None \<Rightarrow> Ok (-1, s)
       | Some (_, f) \<Rightarrow>
           bindr (argptr c 1 20 s) (\<lambda>(p, s).
             case p of None \<Rightarrow> Ok (-1, s)
             | Some p \<Rightarrow>
                 bindr (filestat c f s) (\<lambda>(st, s).
                   case st of None \<Rightarrow> Ok (-1, s)
                   | Some st \<Rightarrow> bindr (put_stat c p st s) (\<lambda>s. Ok (0, s)))))"

section \<open>Links\<close>

text \<open>Ending a call that fails inside its transaction.\<close>

definition fail_op :: "nat \<Rightarrow> 'a file_state_scheme \<Rightarrow> (int \<times> 'a file_state_scheme) res" where
  "fail_op c s = bindr (end_op c s) (\<lambda>s. Ok (-1, s))"

definition link_bad :: "nat \<Rightarrow> nat \<Rightarrow> 'a file_state_scheme \<Rightarrow> (int \<times> 'a file_state_scheme) res" where
  "link_bad c ip s =
     bindr (ilock c ip s) (\<lambda>s.
     bindr (iupdate c ip (upd_inode ip (\<lambda>k. k\<lparr>i_nlink := i_nlink k - 1\<rparr>) s)) (\<lambda>s.
     bindr (iunlockput c ip s) (\<lambda>s. fail_op c s)))"

definition sys_link :: "nat \<Rightarrow> 'a file_state_scheme \<Rightarrow> (int \<times> 'a file_state_scheme) res" where
  "sys_link c s =
     bindr (argstr c 0 s) (\<lambda>(old, s).
       case old of None \<Rightarrow> Ok (-1, s)
       | Some old \<Rightarrow>
     bindr (argstr c 1 s) (\<lambda>(new, s).
       case new of None \<Rightarrow> Ok (-1, s)
       | Some new \<Rightarrow>
     bindr (begin_op c s) (\<lambda>s.
     bindr (namei c old s) (\<lambda>(r, s).
       case r of None \<Rightarrow> fail_op c s
       | Some ip \<Rightarrow>
     bindr (ilock c ip s) (\<lambda>s.
       if i_type (the_inode ip s) = T_DIR then bindr (iunlockput c ip s) (\<lambda>s. fail_op c s)
       else
     bindr (iupdate c ip (upd_inode ip (\<lambda>k. k\<lparr>i_nlink := i_nlink k + 1\<rparr>) s)) (\<lambda>s.
     bindr (iunlock c ip s) (\<lambda>s.
     bindr (nameiparent c new s) (\<lambda>(r, s).
       case r of None \<Rightarrow> link_bad c ip s
       | Some (dp, name) \<Rightarrow>
     bindr (ilock c dp s) (\<lambda>s.
     bindr (if i_dev (the_inode dp s) \<noteq> i_dev (the_inode ip s) then Ok (-1, s)
            else dirlink c dp name (i_inum (the_inode ip s)) s) (\<lambda>(r, s).
       if r < 0 then bindr (iunlockput c dp s) (\<lambda>s. link_bad c ip s)
       else bindr (iunlockput c dp s) (\<lambda>s.
            bindr (iput c ip s) (\<lambda>s.
            bindr (end_op c s) (\<lambda>s. Ok (0, s))))))))))))))"

primrec isdirempty_loop :: "nat \<Rightarrow> nat \<Rightarrow> nat \<Rightarrow> uint \<Rightarrow> 'a file_state_scheme \<Rightarrow> (bool \<times> 'a file_state_scheme) res"
  where
  "isdirempty_loop 0 c dp off s = Spin"
| "isdirempty_loop (Suc k) c dp off s =
     (if off < i_size (the_inode dp s)
      then bindr (readi c dp off DIRENT s) (\<lambda>(r, de, s).
        if r \<noteq> 16 then Panic ''isdirempty: readi''
        else if de_inum de \<noteq> 0 then Ok (False, s)
        else isdirempty_loop k c dp (off + DIRENT) s)
      else Ok (True, s))"

definition isdirempty :: "nat \<Rightarrow> nat \<Rightarrow> 'a file_state_scheme \<Rightarrow> (bool \<times> 'a file_state_scheme) res" where
  "isdirempty c dp s = isdirempty_loop (unat (i_size (the_inode dp s)) div 16 + 2) c dp (2 * DIRENT) s"

abbreviation dot :: "uchar list" where "dot \<equiv> [0x2E]"
abbreviation dotdot :: "uchar list" where "dotdot \<equiv> [0x2E, 0x2E]"

definition unlink_bad :: "nat \<Rightarrow> nat \<Rightarrow> 'a file_state_scheme \<Rightarrow> (int \<times> 'a file_state_scheme) res" where
  "unlink_bad c dp s = bindr (iunlockput c dp s) (\<lambda>s. fail_op c s)"

definition sys_unlink :: "nat \<Rightarrow> 'a file_state_scheme \<Rightarrow> (int \<times> 'a file_state_scheme) res" where
  "sys_unlink c s =
     bindr (argstr c 0 s) (\<lambda>(path, s).
       case path of None \<Rightarrow> Ok (-1, s)
       | Some path \<Rightarrow>
     bindr (begin_op c s) (\<lambda>s.
     bindr (nameiparent c path s) (\<lambda>(r, s).
       case r of None \<Rightarrow> fail_op c s
       | Some (dp, name) \<Rightarrow>
     bindr (ilock c dp s) (\<lambda>s.
       if namecmp name dot = 0 \<or> namecmp name dotdot = 0 then unlink_bad c dp s
       else
     bindr (dirlookup c dp name s) (\<lambda>(r, s).
       case r of None \<Rightarrow> unlink_bad c dp s
       | Some (ip, off) \<Rightarrow>
     bindr (ilock c ip s) (\<lambda>s.
       if sint (i_nlink (the_inode ip s)) < 1 then Panic ''unlink: nlink < 1''
       else
     bindr (if i_type (the_inode ip s) = T_DIR then isdirempty c ip s else Ok (True, s)) (\<lambda>(empty, s).
       if \<not> empty then bindr (iunlockput c ip s) (\<lambda>s. unlink_bad c dp s)
       else
     bindr (writei c dp (replicate 16 0) off s) (\<lambda>(r, s).
       if r \<noteq> 16 then Panic ''unlink: writei''
       else
     bindr (if i_type (the_inode ip s) = T_DIR
            then iupdate c dp (upd_inode dp (\<lambda>k. k\<lparr>i_nlink := i_nlink k - 1\<rparr>) s) else Ok s) (\<lambda>s.
     bindr (iunlockput c dp s) (\<lambda>s.
     bindr (iupdate c ip (upd_inode ip (\<lambda>k. k\<lparr>i_nlink := i_nlink k - 1\<rparr>) s)) (\<lambda>s.
     bindr (iunlockput c ip s) (\<lambda>s.
     bindr (end_op c s) (\<lambda>s. Ok (0, s))))))))))))))"

section \<open>Creating and opening\<close>

definition create :: "nat \<Rightarrow> uchar list \<Rightarrow> ushort \<Rightarrow> ushort \<Rightarrow> ushort \<Rightarrow> 'a file_state_scheme
    \<Rightarrow> (nat option \<times> 'a file_state_scheme) res" where
  "create c path ty major minor s =
     bindr (nameiparent c path s) (\<lambda>(r, s).
       case r of None \<Rightarrow> Ok (None, s)
       | Some (dp, name) \<Rightarrow>
     bindr (ilock c dp s) (\<lambda>s.
     bindr (dirlookup c dp name s) (\<lambda>(r, s).
       case r of
         Some (ip, _) \<Rightarrow>
           bindr (iunlockput c dp s) (\<lambda>s.
           bindr (ilock c ip s) (\<lambda>s.
             if ty = T_FILE \<and> i_type (the_inode ip s) = T_FILE then Ok (Some ip, s)
             else bindr (iunlockput c ip s) (\<lambda>s. Ok (None, s))))
       | None \<Rightarrow>
     bindr (ialloc c (i_dev (the_inode dp s)) ty s) (\<lambda>(ip, s).
     bindr (ilock c ip s) (\<lambda>s.
     bindr (iupdate c ip (upd_inode ip (\<lambda>k. k\<lparr>i_major := major, i_minor := minor, i_nlink := 1\<rparr>) s)) (\<lambda>s.
     bindr (if ty = T_DIR
            then bindr (iupdate c dp (upd_inode dp (\<lambda>k. k\<lparr>i_nlink := i_nlink k + 1\<rparr>) s)) (\<lambda>s.
                 bindr (dirlink c ip dot (i_inum (the_inode ip s)) s) (\<lambda>(r, s).
                   if r < 0 then Panic ''create dots''
                   else bindr (dirlink c ip dotdot (i_inum (the_inode dp s)) s) (\<lambda>(r, s).
                        if r < 0 then Panic ''create dots'' else Ok s)))
            else Ok s) (\<lambda>s.
     bindr (dirlink c dp name (i_inum (the_inode ip s)) s) (\<lambda>(r, s).
       if r < 0 then Panic ''create: dirlink''
       else bindr (iunlockput c dp s) (\<lambda>s. Ok (Some ip, s))))))))))"

definition O_WRONLY :: uint where "O_WRONLY = 1"
definition O_RDWR :: uint where "O_RDWR = 2"
definition O_CREATE :: uint where "O_CREATE = 0x200"

definition open_fd :: "nat \<Rightarrow> nat \<Rightarrow> uint \<Rightarrow> 'a file_state_scheme \<Rightarrow> (int \<times> 'a file_state_scheme) res" where
  "open_fd c ip omode s =
     bindr (filealloc c s) (\<lambda>(f, s).
     bindr (case f of None \<Rightarrow> Ok (-1, s) | Some f \<Rightarrow> fdalloc c f s) (\<lambda>(fd, s).
       case f of
         None \<Rightarrow> bindr (iunlockput c ip s) (\<lambda>s. fail_op c s)
       | Some f \<Rightarrow>
           if fd < 0
           then bindr (fileclose c f s) (\<lambda>s. bindr (iunlockput c ip s) (\<lambda>s. fail_op c s))
           else bindr (iunlock c ip s) (\<lambda>s.
                bindr (end_op c s) (\<lambda>s.
                let s = upd_file f (\<lambda>k. k\<lparr>f_type := FD_INODE, f_ip := ip, f_off := 0,
                          f_readable := omode AND O_WRONLY = 0,
                          f_writable := omode AND O_WRONLY \<noteq> 0 \<or> omode AND O_RDWR \<noteq> 0\<rparr>) s
                in Ok (fd, s)))))"

definition sys_open :: "nat \<Rightarrow> 'a file_state_scheme \<Rightarrow> (int \<times> 'a file_state_scheme) res" where
  "sys_open c s =
     bindr (argstr c 0 s) (\<lambda>(path, s).
       case path of None \<Rightarrow> Ok (-1, s)
       | Some path \<Rightarrow>
     bindr (argint c 1 s) (\<lambda>(omode, s).
       case omode of None \<Rightarrow> Ok (-1, s)
       | Some omode \<Rightarrow>
     bindr (begin_op c s) (\<lambda>s.
       if omode AND O_CREATE \<noteq> 0
       then bindr (create c path T_FILE 0 0 s) (\<lambda>(r, s).
              case r of None \<Rightarrow> fail_op c s | Some ip \<Rightarrow> open_fd c ip omode s)
       else bindr (namei c path s) (\<lambda>(r, s).
              case r of None \<Rightarrow> fail_op c s
              | Some ip \<Rightarrow>
                  bindr (ilock c ip s) (\<lambda>s.
                    if i_type (the_inode ip s) = T_DIR \<and> omode \<noteq> 0
                    then bindr (iunlockput c ip s) (\<lambda>s. fail_op c s)
                    else open_fd c ip omode s)))))"

text \<open>The end of \<^verbatim>\<open>mkdir\<close> and \<^verbatim>\<open>mknod\<close>.\<close>

definition made :: "nat \<Rightarrow> nat option \<times> 'a file_state_scheme \<Rightarrow> (int \<times> 'a file_state_scheme) res" where
  "made c r =
     (case r of (None, s) \<Rightarrow> fail_op c s
      | (Some ip, s) \<Rightarrow> bindr (iunlockput c ip s) (\<lambda>s. bindr (end_op c s) (\<lambda>s. Ok (0, s))))"

definition sys_mkdir :: "nat \<Rightarrow> 'a file_state_scheme \<Rightarrow> (int \<times> 'a file_state_scheme) res" where
  "sys_mkdir c s =
     bindr (begin_op c s) (\<lambda>s.
     bindr (argstr c 0 s) (\<lambda>(path, s).
       case path of None \<Rightarrow> fail_op c s
       | Some path \<Rightarrow> bindr (create c path T_DIR 0 0 s) (made c)))"

definition sys_mknod :: "nat \<Rightarrow> 'a file_state_scheme \<Rightarrow> (int \<times> 'a file_state_scheme) res" where
  "sys_mknod c s =
     bindr (begin_op c s) (\<lambda>s.
     bindr (argstr c 0 s) (\<lambda>(path, s).
       case path of None \<Rightarrow> fail_op c s
       | Some path \<Rightarrow>
     bindr (argint c 1 s) (\<lambda>(major, s).
       case major of None \<Rightarrow> fail_op c s
       | Some major \<Rightarrow>
     bindr (argint c 2 s) (\<lambda>(minor, s).
       case minor of None \<Rightarrow> fail_op c s
       | Some minor \<Rightarrow> bindr (create c path T_DEV (ucast major) (ucast minor) s) (made c)))))"

definition sys_chdir :: "nat \<Rightarrow> 'a file_state_scheme \<Rightarrow> (int \<times> 'a file_state_scheme) res" where
  "sys_chdir c =
     with_cur c (\<lambda>i s.
       bindr (begin_op c s) (\<lambda>s.
       bindr (argstr c 0 s) (\<lambda>(path, s).
         case path of None \<Rightarrow> fail_op c s
         | Some path \<Rightarrow>
       bindr (namei c path s) (\<lambda>(r, s).
         case r of None \<Rightarrow> fail_op c s
         | Some ip \<Rightarrow>
       bindr (ilock c ip s) (\<lambda>s.
         if i_type (the_inode ip s) \<noteq> T_DIR then bindr (iunlockput c ip s) (\<lambda>s. fail_op c s)
         else
       bindr (iunlock c ip s) (\<lambda>s.
         case p_cwd (the_proc i s) of None \<Rightarrow> Fault
         | Some old \<Rightarrow>
       bindr (iput c old s) (\<lambda>s.
       bindr (end_op c s) (\<lambda>s.
       Ok (0, upd_proc i (\<lambda>p. p\<lparr>p_cwd := Some ip\<rparr>) s)))))))))"

definition sys_pipe :: "nat \<Rightarrow> 'a file_state_scheme \<Rightarrow> (int \<times> 'a file_state_scheme) res" where
  "sys_pipe c s =
     bindr (argptr c 0 8 s) (\<lambda>(fd, s).
       case fd of None \<Rightarrow> Ok (-1, s)
       | Some fd \<Rightarrow>
     bindr (pipealloc c s) (\<lambda>(r, s).
       case r of None \<Rightarrow> Ok (-1, s)
       | Some (rfile, wfile) \<Rightarrow>
     bindr (fdalloc c rfile s) (\<lambda>(fd0, s).
     bindr (if fd0 < 0 then Ok (-1, s) else fdalloc c wfile s) (\<lambda>(fd1, s).
       if fd0 < 0 \<or> fd1 < 0
       then bindr (if fd0 \<ge> 0 then with_cur c (\<lambda>i s. Ok (set_ofile i (nat fd0) None s)) s else Ok s) (\<lambda>s.
            bindr (fileclose c rfile s) (\<lambda>s.
            bindr (fileclose c wfile s) (\<lambda>s. Ok (-1, s))))
       else bindr (copy_out c fd (bytes32 (of_int fd0)) s) (\<lambda>s.
            bindr (copy_out c (fd + 4) (bytes32 (of_int fd1)) s) (\<lambda>s. Ok (0, s)))))))"

end
