(* ===== verification/Exec.thy ===== *)
theory Exec
  imports Sysfile
begin

text \<open>
  \<^verbatim>\<open>exec.c\<close>, with \<^verbatim>\<open>loaduvm\<close> of \<^verbatim>\<open>vm.c\<close>. The headers of an executable are read as bytes and taken apart at
  their offsets. The arguments are the strings the caller has fetched from the old address space.
\<close>

definition MAXARG :: nat where "MAXARG = 32"

text \<open>The loop over the pages of a segment; \<open>PAGES\<close> iterations reach any size.\<close>

primrec load_loop :: "nat \<Rightarrow> nat \<Rightarrow> uint \<Rightarrow> uint \<Rightarrow> nat \<Rightarrow> uint \<Rightarrow> uint \<Rightarrow> uint \<Rightarrow> 'a file_state_scheme
    \<Rightarrow> (int \<times> 'a file_state_scheme) res" where
  "load_loop 0 c pgdir addr ip offset sz i s = Spin"
| "load_loop (Suc k) c pgdir addr ip offset sz i s =
     (if i < sz
      then bindr (walkpgdir c pgdir (addr + i) False s) (\<lambda>(pte, s).
        if pte = 0 then Panic ''loaduvm: address should exist''
        else let pa = PTE_ADDR (peek s pte); n = (if sz - i < PGSIZE then sz - i else PGSIZE)
             in bindr (readi c ip (offset + i) n s) (\<lambda>(r, bs, s).
                let s = s\<lparr>ram := put_bytes (ram s) (P2V pa) bs\<rparr>
                in if of_int r \<noteq> n then Ok (-1, s)
                   else load_loop k c pgdir addr ip offset sz (i + PGSIZE) s))
      else Ok (0, s))"

definition loaduvm :: "nat \<Rightarrow> uint \<Rightarrow> uint \<Rightarrow> nat \<Rightarrow> uint \<Rightarrow> uint \<Rightarrow> 'a file_state_scheme
    \<Rightarrow> (int \<times> 'a file_state_scheme) res" where
  "loaduvm c pgdir addr ip offset sz s =
     (if addr mod PGSIZE \<noteq> 0 then Panic ''loaduvm: addr must be page aligned''
      else load_loop (PAGES + 1) c pgdir addr ip offset sz 0 s)"

definition ELF_MAGIC :: uint where "ELF_MAGIC = 0x464C457F"

record proghdr =
  ph_type :: uint
  ph_off :: uint
  ph_vaddr :: uint
  ph_filesz :: uint
  ph_memsz :: uint

definition proghdr_of :: "uchar list \<Rightarrow> proghdr" where
  "proghdr_of bs = \<lparr>ph_type = get32 bs 0, ph_off = get32 bs 4, ph_vaddr = get32 bs 8,
     ph_filesz = get32 bs 16, ph_memsz = get32 bs 20\<rparr>"

text \<open>The loop over the program headers; \<open>None\<close> is \<^verbatim>\<open>goto bad\<close>.\<close>

primrec load_segments :: "nat \<Rightarrow> nat \<Rightarrow> nat \<Rightarrow> uint \<Rightarrow> uint \<Rightarrow> uint \<Rightarrow> 'a file_state_scheme
    \<Rightarrow> (uint option \<times> 'a file_state_scheme) res" where
  "load_segments 0 c ip pgdir off sz s = Ok (Some sz, s)"
| "load_segments (Suc k) c ip pgdir off sz s =
     bindr (readi c ip off 32 s) (\<lambda>(r, bs, s).
       if r \<noteq> 32 then Ok (None, s)
       else let ph = proghdr_of bs
            in if ph_type ph \<noteq> 1 then load_segments k c ip pgdir (off + 32) sz s
               else if ph_memsz ph < ph_filesz ph then Ok (None, s)
               else if ph_vaddr ph + ph_memsz ph < ph_vaddr ph then Ok (None, s)
               else bindr (allocuvm c pgdir sz (ph_vaddr ph + ph_memsz ph) s) (\<lambda>(sz, s).
                 if sz = 0 then Ok (None, s)
                 else if ph_vaddr ph mod PGSIZE \<noteq> 0 then Ok (None, s)
                 else bindr (loaduvm c pgdir (ph_vaddr ph) ip (ph_off ph) (ph_filesz ph) s) (\<lambda>(r, s).
                   if r < 0 then Ok (None, s)
                   else load_segments k c ip pgdir (off + 32) sz s)))"

text \<open>The loop over the arguments: the stack pointer and the addresses pushed so far.\<close>

primrec push_args :: "nat \<Rightarrow> uint \<Rightarrow> uchar list list \<Rightarrow> uint \<Rightarrow> uint list \<Rightarrow> 'a file_state_scheme
    \<Rightarrow> ((uint \<times> uint list) option \<times> 'a file_state_scheme) res" where
  "push_args c pgdir [] sp us s = Ok (Some (sp, us), s)"
| "push_args c pgdir (arg # args) sp us s =
     (if length us \<ge> MAXARG then Ok (None, s)
      else let sp = (sp - (of_nat (length arg) + 1)) AND NOT 3
           in bindr (copyout c pgdir sp (arg @ [0]) s) (\<lambda>(r, s).
              if r < 0 then Ok (None, s) else push_args c pgdir args sp (us @ [sp]) s))"

definition exec_bad :: "nat \<Rightarrow> uint \<Rightarrow> nat option \<Rightarrow> 'a file_state_scheme \<Rightarrow> (int \<times> 'a file_state_scheme) res" where
  "exec_bad c pgdir ip s =
     bindr (if pgdir \<noteq> 0 then freevm c pgdir s else Ok s) (\<lambda>s.
     bindr (case ip of None \<Rightarrow> Ok s
            | Some i \<Rightarrow> bindr (iunlockput c i s) (\<lambda>s. end_op c s)) (\<lambda>s.
     Ok (-1, s)))"

text \<open>The characters after the last slash, and at most 15 of them, name the process.\<close>

definition last_elem :: "uchar list \<Rightarrow> uchar list" where
  "last_elem path = rev (takeWhile (\<lambda>ch. ch \<noteq> slash) (rev path))"

definition proc_name :: "uchar list \<Rightarrow> string" where
  "proc_name path = map (\<lambda>b. char_of (unat b)) (take 15 (last_elem path))"

text \<open>The part after the program has been read: stack, arguments, and the switch to the new image.\<close>

definition exec_image :: "nat \<Rightarrow> nat \<Rightarrow> uchar list \<Rightarrow> uchar list list \<Rightarrow> uint \<Rightarrow> uint \<Rightarrow> uint \<Rightarrow> 'a file_state_scheme
    \<Rightarrow> (int \<times> 'a file_state_scheme) res" where
  "exec_image c cur path argv pgdir entry sz s =
     (let sz = PGROUNDUP sz
      in bindr (allocuvm c pgdir sz (sz + 2 * PGSIZE) s) (\<lambda>(sz, s).
           if sz = 0 then exec_bad c pgdir None s
           else
         bindr (clearpteu c pgdir (sz - 2 * PGSIZE) s) (\<lambda>s.
         bindr (push_args c pgdir argv sz [] s) (\<lambda>(r, s).
           case r of None \<Rightarrow> exec_bad c pgdir None s
           | Some (sp, us) \<Rightarrow>
               let argc = of_nat (length us) :: uint;
                   ustack = [0xFFFFFFFF, argc, sp - (argc + 1) * 4] @ us @ [0];
                   sp = sp - (3 + argc + 1) * 4
               in bindr (copyout c pgdir sp (concat (map bytes32 ustack)) s) (\<lambda>(r, s).
                    if r < 0 then exec_bad c pgdir None s
                    else let oldpgdir = p_pgdir (the_proc cur s);
                             s = upd_proc cur (\<lambda>p. p\<lparr>p_name := proc_name path, p_pgdir := pgdir, p_sz := sz,
                                   p_tf := (p_tf p)\<lparr>tf_eip := entry, tf_esp := sp\<rparr>\<rparr>) s
                         in bindr (switchuvm c (Some cur) s) (\<lambda>s.
                            bindr (freevm c oldpgdir s) (\<lambda>s.
                            Ok (0, s))))))))"

definition exec :: "nat \<Rightarrow> uchar list \<Rightarrow> uchar list list \<Rightarrow> 'a file_state_scheme \<Rightarrow> (int \<times> 'a file_state_scheme) res"
  where
  "exec c path argv =
     with_cur c (\<lambda>cur s.
       bindr (begin_op c s) (\<lambda>s.
       bindr (namei c path s) (\<lambda>(r, s).
         case r of
           None \<Rightarrow> bindr (end_op c s) (\<lambda>s.
                   bindr (cprintf c (''exec: fail'' @ [CHR 0x0A]) [] s) (\<lambda>s. Ok (-1, s)))
         | Some ip \<Rightarrow>
       bindr (ilock c ip s) (\<lambda>s.
       bindr (readi c ip 0 52 s) (\<lambda>(r, elf, s).
         if r \<noteq> 52 then exec_bad c 0 (Some ip) s
         else if get32 elf 0 \<noteq> ELF_MAGIC then exec_bad c 0 (Some ip) s
         else
       bindr (setupkvm c s) (\<lambda>(pgdir, s).
         if pgdir = 0 then exec_bad c 0 (Some ip) s
         else
       bindr (load_segments (unat (get16 elf 44)) c ip pgdir (get32 elf 28) 0 s) (\<lambda>(sz, s).
         case sz of None \<Rightarrow> exec_bad c pgdir (Some ip) s
         | Some sz \<Rightarrow>
       bindr (iunlockput c ip s) (\<lambda>s.
       bindr (end_op c s) (\<lambda>s.
       exec_image c cur path argv pgdir (get32 elf 24) sz s)))))))))"

primrec fetch_argv :: "nat \<Rightarrow> nat \<Rightarrow> uint \<Rightarrow> uchar list list \<Rightarrow> 'a file_state_scheme
    \<Rightarrow> (uchar list list option \<times> 'a file_state_scheme) res" where
  "fetch_argv 0 c uargv argv s = Ok (None, s)"
| "fetch_argv (Suc k) c uargv argv s =
     bindr (fetchint c (uargv + 4 * of_nat (length argv)) s) (\<lambda>(r, s).
       case r of None \<Rightarrow> Ok (None, s)
       | Some uarg \<Rightarrow>
           if uarg = 0 then Ok (Some argv, s)
           else bindr (fetchstr c uarg s) (\<lambda>(r, s).
                  case r of None \<Rightarrow> Ok (None, s)
                  | Some arg \<Rightarrow> fetch_argv k c uargv (argv @ [arg]) s))"

definition sys_exec :: "nat \<Rightarrow> 'a file_state_scheme \<Rightarrow> (int \<times> 'a file_state_scheme) res" where
  "sys_exec c s =
     bindr (argstr c 0 s) (\<lambda>(path, s).
       case path of None \<Rightarrow> Ok (-1, s)
       | Some path \<Rightarrow>
     bindr (argint c 1 s) (\<lambda>(uargv, s).
       case uargv of None \<Rightarrow> Ok (-1, s)
       | Some uargv \<Rightarrow>
     bindr (fetch_argv MAXARG c uargv [] s) (\<lambda>(argv, s).
       case argv of None \<Rightarrow> Ok (-1, s)
       | Some argv \<Rightarrow> exec c path argv s)))"

end
