(* ===== verification/Life.thy ===== *)
theory Life
  imports Exec
begin

text \<open>
  The routines of \<^verbatim>\<open>proc.c\<close> that reach into memory and files: the first process, \<^verbatim>\<open>growproc\<close>, \<^verbatim>\<open>fork\<close>, \<^verbatim>\<open>exit\<close>, the
  first return of a process (\<^verbatim>\<open>forkret\<close>), and the process listing. \<^verbatim>\<open>exit\<close> does not return: its result is
  the state in which the CPU is back at the scheduler. The image of \<^verbatim>\<open>initcode.S\<close>, which the linker
  embeds, is given to \<^verbatim>\<open>userinit\<close> by its address and size. The return addresses that \<^verbatim>\<open>procdump\<close> finds on the
  kernel stack of a sleeping process are an argument.
\<close>

definition ascii :: "string \<Rightarrow> uchar list" where
  "ascii xs = map of_char xs"

definition zero_frame :: trapframe where
  "zero_frame = \<lparr>tf_edi = 0, tf_esi = 0, tf_ebp = 0, tf_ebx = 0, tf_edx = 0, tf_ecx = 0, tf_eax = 0,
     tf_gs = 0, tf_fs = 0, tf_es = 0, tf_ds = 0, tf_trapno = 0, tf_err = 0, tf_eip = 0, tf_cs = 0,
     tf_eflags = 0, tf_esp = 0, tf_ss = 0\<rparr>"

definition userinit :: "nat \<Rightarrow> uint \<Rightarrow> uint \<Rightarrow> 'a file_state_scheme \<Rightarrow> 'a file_state_scheme res" where
  "userinit c init initsize s =
     bindr (allocproc c s) (\<lambda>(p, s).
       let s = s\<lparr>initproc := p\<rparr>
       in bindr (setupkvm c s) (\<lambda>(pgdir, s).
          case p of None \<Rightarrow> Fault
          | Some i \<Rightarrow>
              let s = upd_proc i (\<lambda>q. q\<lparr>p_pgdir := pgdir\<rparr>) s
              in if pgdir = 0 then Panic ''userinit: out of memory?''
                 else bindr (inituvm c pgdir init initsize s) (\<lambda>s.
                   let s = upd_proc i (\<lambda>q. q\<lparr>p_sz := PGSIZE,
                             p_tf := zero_frame\<lparr>tf_cs := 27, tf_ds := 35, tf_es := 35, tf_ss := 35,
                               tf_eflags := 0x200, tf_esp := PGSIZE, tf_eip := 0\<rparr>,
                             p_name := ''initcode''\<rparr>) s
                   in bindr (namei c [slash] s) (\<lambda>(cwd, s).
                      make_runnable c i (upd_proc i (\<lambda>q. q\<lparr>p_cwd := cwd\<rparr>) s)))))"

definition growproc :: "nat \<Rightarrow> int \<Rightarrow> 'a proc_state_scheme \<Rightarrow> (int \<times> 'a proc_state_scheme) res" where
  "growproc c n =
     with_cur c (\<lambda>i s.
       let sz = p_sz (the_proc i s)
       in bindr (if n > 0 then
                   bindr (allocuvm c (p_pgdir (the_proc i s)) sz (sz + of_int n) s) (\<lambda>(sz, s).
                   Ok (if sz = 0 then None else Some sz, s))
                 else if n < 0 then
                   bindr (deallocuvm c (p_pgdir (the_proc i s)) sz (sz + of_int n) s) (\<lambda>(sz, s).
                   Ok (if sz = 0 then None else Some sz, s))
                 else Ok (Some sz, s)) (\<lambda>(r, s).
          case r of None \<Rightarrow> Ok (-1, s)
          | Some sz \<Rightarrow>
              bindr (switchuvm c (Some i) (upd_proc i (\<lambda>p. p\<lparr>p_sz := sz\<rparr>) s)) (\<lambda>s. Ok (0, s))))"

text \<open>The loop of \<^verbatim>\<open>fork\<close> over the descriptors.\<close>

primrec dup_files :: "nat \<Rightarrow> nat \<Rightarrow> nat \<Rightarrow> nat list \<Rightarrow> 'a file_state_scheme \<Rightarrow> 'a file_state_scheme res" where
  "dup_files c cur np [] s = Ok s"
| "dup_files c cur np (fd # fds) s =
     (case p_ofile (the_proc cur s) ! fd of
        None \<Rightarrow> dup_files c cur np fds s
      | Some f \<Rightarrow>
          bindr (filedup c f s) (\<lambda>s. dup_files c cur np fds (set_ofile np fd (Some f) s)))"

definition fork :: "nat \<Rightarrow> 'a file_state_scheme \<Rightarrow> (int \<times> 'a file_state_scheme) res" where
  "fork c =
     with_cur c (\<lambda>cur s.
       bindr (allocproc c s) (\<lambda>(np, s).
         case np of None \<Rightarrow> Ok (-1, s)
         | Some np \<Rightarrow>
       bindr (copyuvm c (p_pgdir (the_proc cur s)) (p_sz (the_proc cur s)) s) (\<lambda>(pgdir, s).
         let s = upd_proc np (\<lambda>p. p\<lparr>p_pgdir := pgdir\<rparr>) s
         in if pgdir = 0
            then bindr (kfree c (p_kstack (the_proc np s)) s) (\<lambda>s.
                 Ok (-1, upd_proc np (\<lambda>p. p\<lparr>p_kstack := 0, p_state := UNUSED\<rparr>) s))
            else
       let s = upd_proc np (\<lambda>p. p\<lparr>p_sz := p_sz (the_proc cur s), p_parent := Some cur,
                 p_tf := (p_tf (the_proc cur s))\<lparr>tf_eax := 0\<rparr>\<rparr>) s
       in bindr (dup_files c cur np [0..<NOFILE] s) (\<lambda>s.
       bindr (idup c (p_cwd (the_proc cur s)) s) (\<lambda>(cwd, s).
       let s = upd_proc np (\<lambda>p. p\<lparr>p_cwd := Some cwd, p_name := p_name (the_proc cur s)\<rparr>) s;
           pid = p_pid (the_proc np s)
       in bindr (make_runnable c np s) (\<lambda>s. Ok (pid, s)))))))"

primrec close_files :: "nat \<Rightarrow> nat \<Rightarrow> nat list \<Rightarrow> 'a file_state_scheme \<Rightarrow> 'a file_state_scheme res" where
  "close_files c cur [] s = Ok s"
| "close_files c cur (fd # fds) s =
     (case p_ofile (the_proc cur s) ! fd of
        None \<Rightarrow> close_files c cur fds s
      | Some f \<Rightarrow> bindr (fileclose c f s) (\<lambda>s. close_files c cur fds (set_ofile cur fd None s)))"

definition exit :: "nat \<Rightarrow> 'a file_state_scheme \<Rightarrow> 'a file_state_scheme res" where
  "exit c =
     with_cur c (\<lambda>cur s.
       if Some cur = initproc s then Panic ''init exiting''
       else
       bindr (close_files c cur [0..<NOFILE] s) (\<lambda>s.
       bindr (begin_op c s) (\<lambda>s.
         case p_cwd (the_proc cur s) of None \<Rightarrow> Fault
         | Some cwd \<Rightarrow>
       bindr (iput c cwd s) (\<lambda>s.
       bindr (end_op c s) (\<lambda>s.
       exit_final c cur (upd_proc cur (\<lambda>p. p\<lparr>p_cwd := None\<rparr>) s))))))"

text \<open>What \<^verbatim>\<open>forkret\<close> does after it has released the table.\<close>

definition forkret :: "nat \<Rightarrow> 'a file_state_scheme \<Rightarrow> 'a file_state_scheme res" where
  "forkret c s =
     (if forkret_first s
      then let s = s\<lparr>forkret_first := False\<rparr>
           in bindr (iinit c 1 s) (\<lambda>s. initlog c 1 s)
      else Ok s)"

section \<open>The process listing\<close>

primrec state_name :: "procstate \<Rightarrow> string" where
  "state_name UNUSED = ''unused''"
| "state_name EMBRYO = ''embryo''"
| "state_name SLEEPING = ''sleep ''"
| "state_name RUNNABLE = ''runble''"
| "state_name RUNNING = ''run   ''"
| "state_name ZOMBIE = ''zombie''"

primrec print_pcs :: "nat \<Rightarrow> uint list \<Rightarrow> 'a con_state_scheme \<Rightarrow> 'a con_state_scheme res" where
  "print_pcs c [] s = Ok s"
| "print_pcs c (pc # pcs) s =
     (if pc = 0 then Ok s
      else bindr (cprintf c '' %p'' [A_int (sint pc)] s) (\<lambda>s. print_pcs c pcs s))"

primrec procdump_loop :: "nat \<Rightarrow> (nat \<Rightarrow> uint list) \<Rightarrow> nat list \<Rightarrow> 'a proc_state_scheme \<Rightarrow> 'a proc_state_scheme res"
  where
  "procdump_loop c callers [] s = Ok s"
| "procdump_loop c callers (i # is) s =
     (let p = the_proc i s
      in if p_state p = UNUSED then procdump_loop c callers is s
         else bindr (cprintf c ''%d %s %s''
                      [A_int (p_pid p), A_str (Some (state_name (p_state p))), A_str (Some (p_name p))] s) (\<lambda>s.
              bindr (if p_state p = SLEEPING then print_pcs c (take 10 (callers i)) s else Ok s) (\<lambda>s.
              bindr (cprintf c [CHR 0x0A] [] s) (\<lambda>s.
              procdump_loop c callers is s))))"

definition procdump :: "nat \<Rightarrow> (nat \<Rightarrow> uint list) \<Rightarrow> 'a proc_state_scheme \<Rightarrow> 'a proc_state_scheme res" where
  "procdump c callers s = procdump_loop c callers [0..<length (ptable s)] s"

end
