(* ===== verification/Sysproc.thy ===== *)
theory Sysproc
  imports Life
begin

text \<open>
  The system calls on processes, \<^verbatim>\<open>sysproc.c\<close>, among them the three that come with the lottery
  scheduler: \<^verbatim>\<open>proc_info\<close>, \<^verbatim>\<open>assign_tickets\<close> and \<^verbatim>\<open>change_schedorder_flag\<close>.
\<close>

section \<open>The calls of the original system\<close>

definition sys_kill :: "nat \<Rightarrow> 'a proc_state_scheme \<Rightarrow> (int \<times> 'a proc_state_scheme) res" where
  "sys_kill c s =
     bindr (argint c 0 s) (\<lambda>(r, s).
       case r of None \<Rightarrow> Ok (-1, s) | Some pid \<Rightarrow> kill c (sint pid) s)"

definition sys_getpid :: "nat \<Rightarrow> 'a proc_state_scheme \<Rightarrow> (int \<times> 'a proc_state_scheme) res" where
  "sys_getpid c = with_cur c (\<lambda>i s. Ok (p_pid (the_proc i s), s))"

definition sys_sbrk :: "nat \<Rightarrow> 'a proc_state_scheme \<Rightarrow> (int \<times> 'a proc_state_scheme) res" where
  "sys_sbrk c s =
     bindr (argint c 0 s) (\<lambda>(r, s).
       case r of None \<Rightarrow> Ok (-1, s)
       | Some n \<Rightarrow>
           with_cur c (\<lambda>i s.
             let addr = sint (p_sz (the_proc i s))
             in bindr (growproc c (sint n) s) (\<lambda>(r, s). Ok (if r < 0 then -1 else addr, s))) s)"

text \<open>The loop of \<^verbatim>\<open>sleep\<close>, with \<^verbatim>\<open>tickslock\<close> held; the comparison of the elapsed ticks is unsigned.\<close>

definition sys_sleep_loop :: "nat \<Rightarrow> uint \<Rightarrow> uint \<Rightarrow> 'a proc_state_scheme \<Rightarrow> (wait_out \<times> 'a proc_state_scheme) res"
  where
  "sys_sleep_loop c n ticks0 s =
     (if ticks s - ticks0 < n
      then with_cur c (\<lambda>i s.
             if p_killed (the_proc i s)
             then bindr (release c L_tickslock s) (\<lambda>s. Ok (W_return (-1), s))
             else bindr (sleep c Chan_ticks (Some L_tickslock) s) (\<lambda>s. Ok (W_asleep, s))) s
      else bindr (release c L_tickslock s) (\<lambda>s. Ok (W_return 0, s)))"

definition sys_sleep :: "nat \<Rightarrow> 'a proc_state_scheme \<Rightarrow> (wait_out \<times> 'a proc_state_scheme) res" where
  "sys_sleep c s =
     bindr (argint c 0 s) (\<lambda>(r, s).
       case r of None \<Rightarrow> Ok (W_return (-1), s)
       | Some n \<Rightarrow> bindr (acquire c L_tickslock s) (\<lambda>s. sys_sleep_loop c n (ticks s) s))"

definition sys_uptime :: "nat \<Rightarrow> 'a proc_state_scheme \<Rightarrow> (int \<times> 'a proc_state_scheme) res" where
  "sys_uptime c s =
     bindr (acquire c L_tickslock s) (\<lambda>s.
       let xticks = ticks s
       in bindr (release c L_tickslock s) (\<lambda>s. Ok (sint xticks, s)))"

section \<open>The calls of the lottery scheduler\<close>

text \<open>The loop of \<^verbatim>\<open>proc_info\<close> fills the arrays of the caller's structure: pids from byte 4, ticks from
  byte 260, tickets from byte 516.\<close>

primrec proc_info_loop :: "nat \<Rightarrow> uint \<Rightarrow> nat list \<Rightarrow> uint \<Rightarrow> 'a proc_state_scheme \<Rightarrow> 'a proc_state_scheme res" where
  "proc_info_loop c info [] n s = Ok s"
| "proc_info_loop c info (i # is) n s =
     (let p = the_proc i s
      in if p_state p = UNUSED then proc_info_loop c info is n s
         else bindr (copy_out c (info + 4 + 4 * n) (bytes32 (of_int (p_pid p))) s) (\<lambda>s.
              bindr (copy_out c (info + 260 + 4 * n) (bytes32 (of_int (p_ticks p))) s) (\<lambda>s.
              bindr (copy_out c (info + 516 + 4 * n) (bytes32 (of_int (p_tickets p))) s) (\<lambda>s.
              bindr (copy_out c info (bytes32 (n + 1)) s) (\<lambda>s.
              proc_info_loop c info is (n + 1) s)))))"

definition sys_proc_info :: "nat \<Rightarrow> 'a proc_state_scheme \<Rightarrow> (int \<times> 'a proc_state_scheme) res" where
  "sys_proc_info c s =
     bindr (argptr c 0 4 s) (\<lambda>(r, s).
       case r of None \<Rightarrow> Ok (-1, s)
       | Some info \<Rightarrow>
     bindr (copy_out c info (bytes32 0) s) (\<lambda>s.
     bindr (acquire c L_ptable s) (\<lambda>s.
     bindr (proc_info_loop c info [0..<length (ptable s)] 0 s) (\<lambda>s.
     bindr (release c L_ptable s) (\<lambda>s. Ok (0, s))))))"

text \<open>The part of \<^verbatim>\<open>assign_tickets\<close> after the arguments have been fetched.\<close>

definition assign_tickets :: "nat \<Rightarrow> int \<Rightarrow> int \<Rightarrow> 'a proc_state_scheme \<Rightarrow> (int \<times> 'a proc_state_scheme) res" where
  "assign_tickets c pid tks s =
     (if pid < 1 \<or> tks < 1 then Ok (-1, s)
      else bindr (acquire c L_ptable s) (\<lambda>s.
        case first_idx (\<lambda>p. p_pid p = pid) (ptable s) of
          Some i \<Rightarrow> bindr (release c L_ptable (upd_proc i (\<lambda>p. p\<lparr>p_tickets := tks\<rparr>) s)) (\<lambda>s. Ok (0, s))
        | None \<Rightarrow> bindr (release c L_ptable s) (\<lambda>s. Ok (-2, s))))"

definition sys_assign_tickets :: "nat \<Rightarrow> 'a proc_state_scheme \<Rightarrow> (int \<times> 'a proc_state_scheme) res" where
  "sys_assign_tickets c s =
     bindr (argint c 0 s) (\<lambda>(pid, s).
       case pid of None \<Rightarrow> Ok (-1, s)
       | Some pid \<Rightarrow>
     bindr (argint c 1 s) (\<lambda>(tks, s).
       case tks of None \<Rightarrow> Ok (-1, s)
       | Some tks \<Rightarrow> assign_tickets c (sint pid) (sint tks) s))"

definition sys_change_schedorder_flag :: "nat \<Rightarrow> 'a proc_state_scheme \<Rightarrow> (int \<times> 'a proc_state_scheme) res" where
  "sys_change_schedorder_flag c s =
     bindr (argint c 0 s) (\<lambda>(flag, s).
       case flag of None \<Rightarrow> Ok (-1, s)
       | Some flag \<Rightarrow>
           if flag \<noteq> 0 \<and> flag \<noteq> 1 then Ok (-1, s)
           else if sched_test s
           then bindr (acquire c L_proc_sched s) (\<lambda>s.
                bindr (release c L_proc_sched (s\<lparr>ps_startflag := sint flag\<rparr>)) (\<lambda>s. Ok (0, s)))
           else bindr (cprintf c (''Scheduler Testing is OFF'' @ [CHR 0x0A]) [] s) (\<lambda>s. Ok (-1, s)))"

end
