(* ===== verification/Trap.thy ===== *)
theory Trap
  imports Sysproc
begin

text \<open>
  The dispatcher of \<^verbatim>\<open>syscall.c\<close> and the trap handler of \<^verbatim>\<open>trap.c\<close>. A system call ends in one of three ways:
  it returns a value, it leaves the process asleep (the outcome \<open>Asleep\<close>), or the process is gone.
  What a device hands to its interrupt handler is an argument of \<open>trap\<close>; acknowledging an interrupt
  (\<^verbatim>\<open>lapiceoi\<close>) leaves no trace in the state.
\<close>

section \<open>System calls\<close>

datatype sysret = Ret int | Gone

definition woken :: "(wait_out \<times> 'a) res \<Rightarrow> (sysret \<times> 'a) res" where
  "woken r = bindr r (\<lambda>(w, s). case w of W_return v \<Rightarrow> Ok (Ret v, s) | W_asleep \<Rightarrow> Asleep)"

definition ret :: "(int \<times> 'a) res \<Rightarrow> (sysret \<times> 'a) res" where
  "ret r = bindr r (\<lambda>(v, s). Ok (Ret v, s))"

definition syscalls :: "nat \<Rightarrow> (nat \<Rightarrow> 'a file_state_scheme \<Rightarrow> (sysret \<times> 'a file_state_scheme) res) option" where
  "syscalls num =
     (if num = 1 then Some (\<lambda>c s. ret (fork c s))
      else if num = 2 then Some (\<lambda>c s. bindr (exit c s) (\<lambda>s. Ok (Gone, s)))
      else if num = 3 then Some (\<lambda>c s. woken (wait c s))
      else if num = 4 then Some (\<lambda>c s. ret (sys_pipe c s))
      else if num = 5 then Some (\<lambda>c s. ret (sys_read c s))
      else if num = 6 then Some (\<lambda>c s. ret (sys_kill c s))
      else if num = 7 then Some (\<lambda>c s. ret (sys_exec c s))
      else if num = 8 then Some (\<lambda>c s. ret (sys_fstat c s))
      else if num = 9 then Some (\<lambda>c s. ret (sys_chdir c s))
      else if num = 10 then Some (\<lambda>c s. ret (sys_dup c s))
      else if num = 11 then Some (\<lambda>c s. ret (sys_getpid c s))
      else if num = 12 then Some (\<lambda>c s. ret (sys_sbrk c s))
      else if num = 13 then Some (\<lambda>c s. woken (sys_sleep c s))
      else if num = 14 then Some (\<lambda>c s. ret (sys_uptime c s))
      else if num = 15 then Some (\<lambda>c s. ret (sys_open c s))
      else if num = 16 then Some (\<lambda>c s. ret (sys_write c s))
      else if num = 17 then Some (\<lambda>c s. ret (sys_mknod c s))
      else if num = 18 then Some (\<lambda>c s. ret (sys_unlink c s))
      else if num = 19 then Some (\<lambda>c s. ret (sys_link c s))
      else if num = 20 then Some (\<lambda>c s. ret (sys_mkdir c s))
      else if num = 21 then Some (\<lambda>c s. ret (sys_close c s))
      else if num = 22 then Some (\<lambda>c s. ret (sys_proc_info c s))
      else if num = 23 then Some (\<lambda>c s. ret (sys_assign_tickets c s))
      else if num = 24 then Some (\<lambda>c s. ret (sys_change_schedorder_flag c s))
      else None)"

definition set_eax :: "nat \<Rightarrow> int \<Rightarrow> 'a proc_state_scheme \<Rightarrow> 'a proc_state_scheme" where
  "set_eax i v s = upd_proc i (\<lambda>p. p\<lparr>p_tf := (p_tf p)\<lparr>tf_eax := of_int v\<rparr>\<rparr>) s"

definition syscall :: "nat \<Rightarrow> 'a file_state_scheme \<Rightarrow> (sysret \<times> 'a file_state_scheme) res" where
  "syscall c =
     with_cur c (\<lambda>i s.
       let num = sint (tf_eax (p_tf (the_proc i s)))
       in case (if num > 0 \<and> num < 25 then syscalls (nat num) else None) of
            Some f \<Rightarrow>
              bindr (f c s) (\<lambda>(r, s).
                case r of Gone \<Rightarrow> Ok (Gone, s) | Ret v \<Rightarrow> Ok (Ret v, set_eax i v s))
          | None \<Rightarrow>
              bindr (cprintf c (''%d %s: unknown sys call %d'' @ [CHR 0x0A])
                      [A_int (p_pid (the_proc i s)), A_str (Some (p_name (the_proc i s))), A_int num] s) (\<lambda>s.
              Ok (Ret (-1), set_eax i (-1) s)))"

section \<open>Traps\<close>

definition T_SYSCALL :: uint where "T_SYSCALL = 64"
definition T_IRQ0 :: uint where "T_IRQ0 = 32"

datatype trap_out = T_return | T_gone | T_yielded

definition exit_if_killed :: "nat \<Rightarrow> bool \<Rightarrow> 'a file_state_scheme \<Rightarrow> (trap_out \<times> 'a file_state_scheme) res" where
  "exit_if_killed c user s =
     bindr (myproc c s) (\<lambda>(p, s).
       case p of None \<Rightarrow> Ok (T_return, s)
       | Some i \<Rightarrow>
           if p_killed (the_proc i s) \<and> user then bindr (exit c s) (\<lambda>s. Ok (T_gone, s))
           else Ok (T_return, s))"

definition timer_tick :: "nat \<Rightarrow> 'a proc_state_scheme \<Rightarrow> 'a proc_state_scheme res" where
  "timer_tick c s =
     (if c = 0
      then bindr (acquire c L_tickslock s) (\<lambda>s.
           bindr (wakeup c (Some Chan_ticks) (s\<lparr>ticks := ticks s + 1\<rparr>)) (\<lambda>s.
           release c L_tickslock s))
      else Ok s)"

text \<open>The cases of the switch on the trap number; \<open>chars\<close> is what the keyboard or the serial port has,
  \<open>cr2\<close> the address of a page fault, and \<open>intr\<close> is \<^verbatim>\<open>ideintr\<close> of the disk driver that the kernel is linked with:
  \<open>Bio.ideintr\<close> for the disk in memory, the handler of \<open>Ide\<close> for a real one.\<close>

definition trap_device :: "nat \<Rightarrow> trapframe \<Rightarrow> uchar list \<Rightarrow> (nat \<Rightarrow> uint list) \<Rightarrow> uint
    \<Rightarrow> ('a file_state_scheme \<Rightarrow> 'a file_state_scheme res) \<Rightarrow> 'a file_state_scheme \<Rightarrow> 'a file_state_scheme res" where
  "trap_device c tf chars callers cr2 intr s =
     (if tf_trapno tf = T_IRQ0 then timer_tick c s
      else if tf_trapno tf = T_IRQ0 + 14 then intr s
      else if tf_trapno tf = T_IRQ0 + 15 then Ok s
      else if tf_trapno tf = T_IRQ0 + 1 \<or> tf_trapno tf = T_IRQ0 + 4
      then bindr (consoleintr c chars s) (\<lambda>(dump, s). if dump then procdump c callers s else Ok s)
      else if tf_trapno tf = T_IRQ0 + 7 \<or> tf_trapno tf = T_IRQ0 + 31
      then cprintf c (''cpu%d: spurious interrupt at %x:%x'' @ [CHR 0x0A])
             [A_int (int c), A_int (uint (tf_cs tf)), A_int (sint (tf_eip tf))] s
      else bindr (myproc c s) (\<lambda>(p, s).
        case p of
          None \<Rightarrow> Panic ''trap''
        | Some i \<Rightarrow>
            if tf_cs tf AND 3 = 0 then Panic ''trap''
            else bindr (cprintf c (''pid %d %s: trap %d err %d on cpu %d eip 0x%x addr 0x%x--kill proc'' @ [CHR 0x0A])
                   [A_int (p_pid (the_proc i s)), A_str (Some (p_name (the_proc i s))),
                    A_int (sint (tf_trapno tf)), A_int (sint (tf_err tf)), A_int (int c),
                    A_int (sint (tf_eip tf)), A_int (sint cr2)] s) (\<lambda>s.
                 Ok (upd_proc i (\<lambda>p. p\<lparr>p_killed := True\<rparr>) s))))"

text \<open>\<^verbatim>\<open>trap\<close>, up to the point where it gives up the CPU; the check after \<^verbatim>\<open>yield\<close> is \<open>exit_if_killed\<close>.\<close>

definition trap :: "nat \<Rightarrow> trapframe \<Rightarrow> uchar list \<Rightarrow> (nat \<Rightarrow> uint list) \<Rightarrow> uint
    \<Rightarrow> ('a file_state_scheme \<Rightarrow> 'a file_state_scheme res) \<Rightarrow> 'a file_state_scheme
    \<Rightarrow> (trap_out \<times> 'a file_state_scheme) res" where
  "trap c tf chars callers cr2 intr s =
     (if tf_trapno tf = T_SYSCALL
      then with_cur c (\<lambda>i s.
             if p_killed (the_proc i s) then bindr (exit c s) (\<lambda>s. Ok (T_gone, s))
             else bindr (syscall c (upd_proc i (\<lambda>p. p\<lparr>p_tf := tf\<rparr>) s)) (\<lambda>(r, s).
               case r of Gone \<Rightarrow> Ok (T_gone, s) | Ret _ \<Rightarrow> exit_if_killed c True s)) s
      else bindr (trap_device c tf chars callers cr2 intr s) (\<lambda>s.
           bindr (exit_if_killed c (tf_cs tf AND 3 = 3) s) (\<lambda>(r, s).
             if r = T_gone then Ok (T_gone, s)
             else bindr (myproc c s) (\<lambda>(p, s).
               case p of
                 None \<Rightarrow> Ok (T_return, s)
               | Some i \<Rightarrow>
                   if p_state (the_proc i s) = RUNNING \<and> tf_trapno tf = T_IRQ0
                   then bindr (yield c s) (\<lambda>s. Ok (T_yielded, s))
                   else exit_if_killed c (tf_cs tf AND 3 = 3) s))))"

end
