(* ===== verification/ProcSteps.thy ===== *)
theory ProcSteps
  imports ProcSched Trap
begin

text \<open>
  The kernel as a transition system: CPUs take turns executing the routines of \<^verbatim>\<open>proc.c\<close>, each up to the
  point where it gives \<^verbatim>\<open>ptable.lock\<close> back, with the lock operations, the clock and the ticket calls
  around them. The invariant of \<open>ProcInv\<close> holds in every state that is reached from a fresh table, its part on pids as
  long as \<^verbatim>\<open>nextpid\<close> has not come to the largest \<^verbatim>\<open>int\<close>.
\<close>

section \<open>Steps\<close>

text \<open>What a process does to its own slot, and its parent to the slot of a process it is building,
  without the lock: memory, files, name, trap frame. State, pid, tickets and context stay.\<close>

definition private_update :: "(proc \<Rightarrow> proc) \<Rightarrow> proc \<Rightarrow> bool" where
  "private_update f p \<longleftrightarrow> p_state (f p) = p_state p \<and> p_pid (f p) = p_pid p \<and> p_context (f p) = p_context p
     \<and> p_chan (f p) = p_chan p \<and> p_tickets (f p) = p_tickets p \<and> p_kstack (f p) = p_kstack p
     \<and> (p_state p = RUNNING \<longrightarrow> p_pgdir (f p) \<noteq> 0)"

text \<open>A process ready to be let loose by \<open>make_runnable\<close>.\<close>

definition built :: "proc \<Rightarrow> bool" where
  "built p \<longleftrightarrow> p_state p = EMBRYO \<and> p_context p = Some Ctx_forkret \<and> p_kstack p \<noteq> 0 \<and> p_pgdir p \<noteq> 0"

inductive kstep :: "'a proc_state_scheme \<Rightarrow> 'a proc_state_scheme \<Rightarrow> bool" where
  K_scheduler: "c < length (cpus s) \<Longrightarrow> cpu_proc (the_cpu c s) = None \<Longrightarrow> scheduler c s = Ok (r, t) \<Longrightarrow> kstep s t"
| K_yield: "c < length (cpus s) \<Longrightarrow> yield c s = Ok t \<Longrightarrow> kstep s t"
| K_sleep: "c < length (cpus s) \<Longrightarrow> lk \<noteq> L_ptable \<Longrightarrow> sleep c ch (Some lk) s = Ok t \<Longrightarrow> kstep s t"
| K_reacquire: "c < length (cpus s) \<Longrightarrow> cpu_proc (the_cpu c s) = Some i \<Longrightarrow> reacquire c i s = Ok t \<Longrightarrow> kstep s t"
| K_wakeup: "c < length (cpus s) \<Longrightarrow> wakeup c ch s = Ok t \<Longrightarrow> kstep s t"
| K_tick: "c < length (cpus s) \<Longrightarrow> timer_tick c s = Ok t \<Longrightarrow> kstep s t"
| K_kill: "c < length (cpus s) \<Longrightarrow> kill c pid s = Ok (v, t) \<Longrightarrow> kstep s t"
| K_assign: "c < length (cpus s) \<Longrightarrow> assign_tickets c pid tks s = Ok (v, t) \<Longrightarrow> kstep s t"
| K_wait: "c < length (cpus s) \<Longrightarrow> wait c s = Ok (w, t) \<Longrightarrow> kstep s t"
| K_exit: "c < length (cpus s) \<Longrightarrow> cpu_proc (the_cpu c s) = Some i \<Longrightarrow> exit_final c i s = Ok t \<Longrightarrow> kstep s t"
| K_alloc: "c < length (cpus s) \<Longrightarrow> allocproc c s = Ok (p, t) \<Longrightarrow> kstep s t"
| K_private: "i < length (ptable s) \<Longrightarrow> p_state (the_proc i s) \<in> {RUNNING, EMBRYO} \<Longrightarrow>
    private_update f (the_proc i s) \<Longrightarrow> kstep s (upd_proc i f s)"
| K_drop: "i < length (ptable s) \<Longrightarrow> p_state (the_proc i s) = EMBRYO \<Longrightarrow>
    kstep s (upd_proc i (\<lambda>p. p\<lparr>p_kstack := 0, p_state := UNUSED\<rparr>) s)"
| K_runnable: "c < length (cpus s) \<Longrightarrow> i < length (ptable s) \<Longrightarrow> built (the_proc i s) \<Longrightarrow>
    make_runnable c i s = Ok t \<Longrightarrow> kstep s t"
| K_acquire: "c < length (cpus s) \<Longrightarrow> cpu_proc (the_cpu c s) = Some i \<Longrightarrow> l \<noteq> L_ptable \<Longrightarrow>
    acquire c l s = Ok t \<Longrightarrow> kstep s t"
| K_release: "c < length (cpus s) \<Longrightarrow> cpu_proc (the_cpu c s) = Some i \<Longrightarrow> l \<noteq> L_ptable \<Longrightarrow>
    0 < ncli (the_cpu c s) \<Longrightarrow> release c l s = Ok t \<Longrightarrow> kstep s t"
| K_elsewhere: "same_procs s t \<Longrightarrow> kstep s t"

section \<open>The steps that are left\<close>

lemma assign_tickets_inv:
  assumes "kinv nw s" "c < length (cpus s)" "assign_tickets c pid tks s = Ok (v, t)"
  shows "kinv nw t"
proof (cases "pid < 1 \<or> tks < 1")
  case True
  then show ?thesis
    using assms by (simp add: assign_tickets_def)
next
  case False
  then obtain u where u: "acquire c L_ptable s = Ok u"
    using assms(3) by (auto simp: assign_tickets_def outcome_simps)
  note held = kheld_acquire [OF assms(1,2) u]
  have p: "ptable u = ptable s"
    by (simp add: held(2))
  show ?thesis
  proof (cases "first_idx (\<lambda>p. p_pid p = pid) (ptable u)")
    case None
    then have "release c L_ptable u = Ok t"
      using assms(3) False by (auto simp: assign_tickets_def u outcome_simps)
    then show ?thesis
      by (rule kinv_section [OF assms(1,2) u refl held(1)])
  next
    case (Some i)
    then have i: "i < length (ptable s)"
      using first_idx_SomeD [OF Some] by (simp add: p)
    have ok: "proc_ok (the_proc i s)"
      using kheld_proc_ok [OF held(1), of i] i by (simp add: p)
    have "release c L_ptable (upd_proc i (\<lambda>p. p\<lparr>p_tickets := tks\<rparr>) u) = Ok t"
      using assms(3) False by (auto simp: assign_tickets_def u Some outcome_simps)
    from locked_update_inv [OF assms(1,2) u i this] show ?thesis
      using False ok by (simp add: proc_ok_def)
  qed
qed

lemma make_runnable_inv:
  assumes "kinv nw s" "c < length (cpus s)" "i < length (ptable s)" "built (the_proc i s)" "make_runnable c i s = Ok t"
  shows "kinv nw t"
proof -
  obtain u where u: "acquire c L_ptable s = Ok u"
    "release c L_ptable (upd_proc i (\<lambda>p. p\<lparr>p_state := RUNNABLE\<rparr>) u) = Ok t"
    using assms(5) by (auto simp: make_runnable_def outcome_simps)
  have "proc_ok (the_proc i s)"
    using assms(1,3) tab_invD(4) by (auto simp: kinv_def)
  then show ?thesis
    using assms(4) by (intro locked_update_inv [OF assms(1,2) u(1) assms(3) u(2)]) (auto simp: proc_ok_def built_def)
qed

lemma private_inv:
  assumes "kinv nw s" "i < length (ptable s)" "p_state (the_proc i s) \<in> {RUNNING, EMBRYO}" "private_update f (the_proc i s)"
  shows "kinv nw (upd_proc i f s)"
proof -
  have "proc_ok (the_proc i s)"
    using assms(1,2) tab_invD(4) by (auto simp: kinv_def)
  then have "proc_ok (f (the_proc i s))"
    using assms(3,4) by (cases "p_state (the_proc i s)") (simp_all add: proc_ok_def private_update_def)
  then show ?thesis
    using assms(3,4) kinv_upd [OF assms(1,2), of f] by (auto simp: private_update_def)
qed

lemma tab_inv_wake: "tab_inv nw cs ps n \<Longrightarrow> tab_inv nw cs (map (wake_entry ch) ps) n"
  by (rule tab_inv_table [of nw cs ps n]) (simp_all add: proc_ok_wake tab_invD(4))

lemma timer_tick_inv:
  assumes "kinv nw s" "c < length (cpus s)" "timer_tick c s = Ok t"
  shows "kinv nw t"
proof (cases "c = 0")
  case True
  let ?g = "(grabbed c L_tickslock s)\<lparr>ticks := ticks s + 1\<rparr>"
  note at = kinv_at [OF assms(1,2)]
  have at': "c < length (cpus ?g)" "cpu_ok (the_cpu c ?g)" "ncli (the_cpu c ?g) \<noteq> 0"
    using at by (auto simp: cpu_at_def grabbed_def cpu_ok_def)
  have idle: "lock_idle L_ptable ?g"
    using assms(1) by (simp add: kinv_def lock_idle_def grabbed_def)
  obtain u v where a: "acquire c L_tickslock s = Ok u"
    and v: "wakeup c (Some Chan_ticks) (u\<lparr>ticks := ticks u + 1\<rparr>) = Ok v" and t: "release c L_tickslock v = Ok t"
    using assms(3) True by (auto simp: timer_tick_def outcome_simps)
  have u: "u = grabbed c L_tickslock s"
    using acquire_OkD(1) [OF a] at by (simp add: cpu_at_def)
  have "wakeup c (Some Chan_ticks) ?g
      = release c L_ptable (wakeup1 (Some Chan_ticks) (grabbed c L_ptable ?g))"
    by (simp add: wakeup_eq_section acquire_grabbed [OF at'(1,2) idle])
  also have "\<dots> = Ok ((wakeup1 (Some Chan_ticks) (grabbed c L_ptable ?g))\<lparr>cpus := cpus ?g, locks := locks ?g\<rparr>)"
    using at' idle by (intro release_nested) (simp_all add: wakeup1_def)
  finally have v': "v = (wakeup1 (Some Chan_ticks) (grabbed c L_ptable ?g))\<lparr>cpus := cpus ?g, locks := locks ?g\<rparr>"
    using v by (simp add: u)
  have t': "t = v\<lparr>cpus := upd c settled (cpus s), locks := (locks s)(L_tickslock := (locks s L_tickslock)\<lparr>lk_cpu := None, locked := False\<rparr>)\<rparr>"
    using at by (intro section_Ok [OF _ _ a _ _ t]) (simp_all add: cpu_at_def v' u)
  have "kinv nw (wakeup1 (Some Chan_ticks) s)"
    using assms(1) tab_inv_wake [of nw "cps s" "ptable s"] by (simp add: kinv_def wakeup1_def lock_idle_def)
  then show ?thesis
    using cpus_inv_settled by (auto simp: t' v' kinv_def lock_idle_def wakeup1_def)
next
  case False
  then show ?thesis
    using assms by (simp add: timer_tick_def)
qed

lemma drop_inv:
  assumes "kinv nw s" "i < length (ptable s)" "p_state (the_proc i s) = EMBRYO"
  shows "kinv nw (upd_proc i (\<lambda>p. p\<lparr>p_kstack := 0, p_state := UNUSED\<rparr>) s)"
  using assms(3) by (intro kinv_upd [OF assms(1,2)]) (simp_all add: proc_ok_def)

lemma elsewhere_inv: "same_procs s t \<Longrightarrow> kinv nw s \<Longrightarrow> kinv nw t"
  by (simp add: same_procs_def kinv_def lock_idle_def)

lemmas step_invs = scheduler_inv yield_inv sleep_inv reacquire_inv wakeup_inv timer_tick_inv kill_inv
  assign_tickets_inv wait_inv exit_final_inv allocproc_inv private_inv drop_inv make_runnable_inv
  acquire_other_inv release_other_inv elsewhere_inv

text \<open>A step that hands out a pid below the largest \<^verbatim>\<open>int\<close> keeps all of the invariant; any step keeps the part
  that does not speak of pids.\<close>

lemma kstep_inv: "kstep s t \<Longrightarrow> kinv nw s \<Longrightarrow> (nw \<Longrightarrow> nextpid s < 2 ^ 31 - 1) \<Longrightarrow> kinv nw t"
  by (cases rule: kstep.cases) (blast intro: step_invs)+

lemma ksteps_inv: "kstep\<^sup>*\<^sup>* s t \<Longrightarrow> kinv False s \<Longrightarrow> kinv False t"
  by (induction rule: rtranclp_induct) (auto intro: kstep_inv)

lemma ksteps_pids_inv: "(\<lambda>s t. kstep s t \<and> nextpid s < 2 ^ 31 - 1)\<^sup>*\<^sup>* s t \<Longrightarrow> kinv True s \<Longrightarrow> kinv True t"
  by (induction rule: rtranclp_induct) (auto intro: kstep_inv)

section \<open>The start\<close>

text \<open>The table and the CPUs before the first process is made: what \<^verbatim>\<open>main\<close> has set up when it calls
  \<^verbatim>\<open>userinit\<close>, and what the other CPUs look like when they enter \<^verbatim>\<open>scheduler\<close>.\<close>

definition fresh :: "'a proc_state_scheme \<Rightarrow> bool" where
  "fresh s \<longleftrightarrow> (\<forall>k \<in> set (cpus s). cpu_proc k = None \<and> ncli k = 0) \<and> lock_idle L_ptable s
     \<and> (\<forall>p \<in> set (ptable s). p_state p = UNUSED) \<and> nextpid s = 1"

lemma fresh_inv: "fresh s \<Longrightarrow> kinv nw s"
  by (simp add: fresh_def kinv_def cpus_inv_def idle_cpu_def cpu_ok_def tab_inv_def proc_ok_def)

lemmas reachable_inv = ksteps_inv [OF _ fresh_inv]
lemmas reachable_pids_inv = ksteps_pids_inv [OF _ fresh_inv]

section \<open>A run\<close>

text \<open>A machine with one CPU boots: a process is allocated, given its memory, let loose and dispatched.\<close>

definition boot0 :: proc_state where
  "boot0 = (small_machine [])\<lparr>nextpid := 1, initproc := None, freelist := 0x8DFFF000, use_lock := False,
     sched_test := False, ptable := [no_proc, no_proc]\<rparr>"

definition proc0 :: proc where
  "proc0 = no_proc\<lparr>p_state := EMBRYO, p_pid := 1, p_tickets := 100, p_kstack := 0x8DFFF000, p_context := Some Ctx_forkret\<rparr>"

definition boot1 :: proc_state where
  "boot1 = boot0\<lparr>ptable := [proc0, no_proc], nextpid := 2, freelist := 0\<rparr>"

definition boot2 :: proc_state where
  "boot2 = upd_proc 0 (\<lambda>p. p\<lparr>p_pgdir := 0x8DFFE000\<rparr>) boot1"

definition boot3 :: proc_state where
  "boot3 = upd_proc 0 (\<lambda>p. p\<lparr>p_state := RUNNABLE\<rparr>) boot2"

lemmas boot_defs = boot0_def boot1_def boot2_def boot3_def proc0_def small_machine_def idle_cpu0_def no_proc_def free_lock_def
  upd_proc_def upd_def

lemma boot_lock: "lock_idle l boot0" "lock_idle l boot2" "cpu_at 0 boot0" "cpu_at 0 boot2"
  by (simp_all add: boot_defs lock_idle_def cpu_at_def cpu_ok_def)

lemma boot_settle: "settle 0 boot3 = boot3" "upd 0 settled (cpus boot0) = cpus boot0" "upd 0 settled (cpus boot2) = cpus boot2"
  by (simp_all add: settle_def upd_cpu_def boot_defs settled_def)

lemma boot_alloc: "allocproc 0 boot0 = Ok (Some 0, boot1)"
proof -
  have r: "release 0 L_ptable t = Ok (t\<lparr>cpus := cpus boot0, locks := locks boot0\<rparr>)"
    if "cpus t = cpus (grabbed 0 L_ptable boot0)" "locks t = locks (grabbed 0 L_ptable boot0)" for t :: proc_state
    using release_grabbed [of 0 boot0 L_ptable t] that boot_lock boot_settle by (simp add: cpu_at_def)
  have p: "ptable boot0 = [no_proc, no_proc]" "nextpid boot0 = 1" "p_state no_proc = UNUSED" "use_lock boot0 = False" "freelist boot0 = 0x8DFFF000"
    by (simp_all add: boot0_def no_proc_def)
  have "acquire 0 L_ptable boot0 = Ok (grabbed 0 L_ptable boot0)"
    using boot_lock by (simp add: acquire_grabbed cpu_at_def)
  then show ?thesis
    by (simp add: allocproc_def r p Let_def kalloc_def)
      (simp add: boot_defs grabbed_def set_lock_def upd_cpu_def load32_def)
qed

lemma boot_runnable: "make_runnable 0 0 boot2 = Ok boot3"
proof -
  let ?t = "upd_proc 0 (\<lambda>p. p\<lparr>p_state := RUNNABLE\<rparr>) (grabbed 0 L_ptable boot2)"
  have "release 0 L_ptable ?t = Ok (?t\<lparr>cpus := cpus boot2, locks := locks boot2\<rparr>)"
    using release_grabbed [of 0 boot2 L_ptable ?t] boot_lock boot_settle by (simp add: cpu_at_def)
  moreover have "?t\<lparr>cpus := cpus boot2, locks := locks boot2\<rparr> = boot3"
    by (simp add: boot3_def upd_proc_def grabbed_def set_lock_def upd_cpu_def)
  ultimately show ?thesis
    using boot_lock by (simp add: make_runnable_def acquire_grabbed cpu_at_def)
qed

definition booted :: "proc_state \<Rightarrow> bool" where
  "booted t \<longleftrightarrow> scheduler 0 boot3 = Ok (Some R_forkret, t) \<and> length (cpus t) = 1 \<and> length (ptable t) = 2
     \<and> cpu_proc (the_cpu 0 t) = Some 0 \<and> p_state (the_proc 0 t) = RUNNING
     \<and> ncli (the_cpu 0 t) = 0 \<and> lock_idle L_tickslock t"

lemma boot_scheduler: "\<exists>t. booted t"
proof -
  let ?q = "proc0\<lparr>p_pgdir := 0x8DFFE000, p_state := RUNNABLE\<rparr>"
  have ps: "ptable boot3 = [?q, no_proc]" "length (cpus boot3) = 1"
    by (simp_all add: boot3_def boot2_def boot1_def upd_proc_def upd_def boot0_def small_machine_def)
  have tot: "total_of (ptable boot3) = 100"
    by (simp add: ps proc0_def no_proc_def)
  obtain r st where r: "generate_random_number (start_state boot3) (of_int (total_of (ptable boot3))) = Ok (r, st)"
    using generate_random_number_eq [of "of_int (total_of (ptable boot3))"] by (auto simp: tot)
  have ready: "sched_ready 0 boot3"
    by (simp add: sched_ready_def boot_defs cpu_ok_def lock_idle_def)
  obtain t where t: "scheduler_round 0 boot3 = Ok (Some (winner (uint r) (ptable boot3)), t)"
    "chosen 0 (winner (uint r) (ptable boot3)) boot3 t"
    using scheduler_round_pick [OF ready _ _ _ _ r] tot
    by (auto simp: tickets_ok_def ps proc0_def no_proc_def int_ok_def)
  have "uint r < 100"
    using random_below_total [OF r] by (simp add: tot)
  then have w: "winner (uint r) (ptable boot3) = 0"
    by (simp add: winner_def ps proc0_def no_proc_def)
  note ch = chosenD [OF t(2) [unfolded w]]
  let ?u = "upd_proc 0 (\<lambda>p. p\<lparr>p_context := None\<rparr>) t"
  obtain passed where cp: "cpus t = upd 0 (chosen_cpu 0 (the_proc 0 boot3) 100 passed) (cpus boot3)"
    using ch(3) tot by auto
  have "release 0 L_ptable ?u = Ok (set_lock L_ptable ((locks ?u L_ptable)\<lparr>lk_cpu := None, locked := False\<rparr>)
      (upd_cpu 0 popped ?u))"
    using ps(2) by (simp add: release_eq cp nth_upd chosen_cpu_def cpu_ok_def holds_def ch(2) locked_by_def)
  moreover have "p_context (the_proc 0 t) = Some Ctx_forkret"
    by (simp add: ch(1) ps chosen_proc_def proc0_def)
  ultimately have "resume 0 0 t = Ok (R_forkret, set_lock L_ptable ((locks ?u L_ptable)\<lparr>lk_cpu := None, locked := False\<rparr>)
      (upd_cpu 0 popped ?u))" (is "_ = Ok (_, ?v)")
    by (simp add: resume_def)
  then have "scheduler 0 boot3 = Ok (Some R_forkret, ?v)"
    by (simp add: scheduler_def t(1) w)
  moreover have "cpu_proc (the_cpu 0 ?v) = Some 0" "length (cpus ?v) = 1" "length (ptable ?v) = 2" "p_state (the_proc 0 ?v) = RUNNING"
    "ncli (the_cpu 0 ?v) = 0" "lock_idle L_tickslock ?v"
    using ps
    by (simp_all add: cp nth_upd chosen_cpu_def ch(1,2) chosen_proc_def lock_idle_def locked_by_def boot_defs)
  ultimately show ?thesis
    unfolding booted_def by blast
qed

lemma boot_fresh: "fresh boot0"
  by (simp add: fresh_def boot_defs lock_idle_def)

lemma boot_steps_pids:
  assumes "booted t"
  shows "(\<lambda>s t. kstep s t \<and> nextpid s < 2 ^ 31 - 1)\<^sup>*\<^sup>* boot0 t"
proof -
  have "kstep boot0 boot1"
    by (rule K_alloc [OF _ boot_alloc]) (simp_all add: boot_defs)
  moreover have "kstep boot1 boot2"
    unfolding boot2_def by (rule K_private) (simp_all add: boot_defs private_update_def)
  moreover have "kstep boot2 boot3"
    by (rule K_runnable [OF _ _ _ boot_runnable]) (simp_all add: boot_defs built_def)
  moreover have "kstep boot3 t"
    using assms unfolding booted_def by (intro K_scheduler [of 0]) (auto simp: boot_defs)
  moreover have "nextpid boot0 = 1" "nextpid boot1 = 2" "nextpid boot2 = 2" "nextpid boot3 = 2"
    by (simp_all add: boot_defs)
  ultimately show ?thesis
    by (intro converse_rtranclp_into_rtranclp [of _ boot0 boot1] converse_rtranclp_into_rtranclp [of _ boot1 boot2]
        converse_rtranclp_into_rtranclp [of _ boot2 boot3] converse_rtranclp_into_rtranclp [of _ boot3 t]
        rtranclp.rtrancl_refl) simp_all
qed

lemma boot_steps: "booted t \<Longrightarrow> kstep\<^sup>*\<^sup>* boot0 t"
  by (drule boot_steps_pids, erule rtranclp_mono [THEN predicate2D, rotated]) blast

end
