(* ===== verification/ProcProps.thy ===== *)
theory ProcProps
  imports ProcSteps
begin

text \<open>
  What the routines of \<^verbatim>\<open>proc.c\<close> do, as equations for a CPU that finds \<^verbatim>\<open>ptable.lock\<close> free, and the
  properties of the process system: over all reachable states, and of waking, killing, exiting, assigning
  tickets.
\<close>

section \<open>Equations\<close>

lemma release_table:
  assumes "cpu_at c s" "lock_idle L_ptable s"
  shows "release c L_ptable (upd_proc i f (grabbed c L_ptable s)) = Ok (settle c (upd_proc i f s))"
    "release c L_ptable (wakeup1 ch (grabbed c L_ptable s)) = Ok (settle c (wakeup1 ch s))"
    "release c L_ptable (grabbed c L_ptable s) = Ok (settle c s)"
  using assms
  by (simp_all add: cpu_at_def wakeup1_def release_grabbed [of c s L_ptable])
    (simp_all add: settle_def grabbed_def set_lock_def upd_cpu_def upd_proc_def)

lemma acquire_table: "cpu_at c s \<Longrightarrow> lock_idle L_ptable s \<Longrightarrow> acquire c L_ptable s = Ok (grabbed c L_ptable s)"
  by (simp add: acquire_grabbed cpu_at_def)

lemma wakeup_eq:
  "cpu_at c s \<Longrightarrow> lock_idle L_ptable s \<Longrightarrow> wakeup c ch s = Ok (settle c (wakeup1 ch s))"
  by (simp add: wakeup_eq_section acquire_table release_table)

definition kill_entry :: "proc \<Rightarrow> proc" where
  "kill_entry p = p\<lparr>p_killed := True, p_state := (if p_state p = SLEEPING then RUNNABLE else p_state p)\<rparr>"

lemma kill_eq:
  assumes "cpu_at c s" "lock_idle L_ptable s"
  shows "kill c pid s =
    (case first_idx (\<lambda>p. p_pid p = pid) (ptable s) of
       None \<Rightarrow> Ok (-1, settle c s)
     | Some i \<Rightarrow> Ok (0, settle c (upd_proc i kill_entry s)))"
proof (cases "first_idx (\<lambda>p. p_pid p = pid) (ptable s)")
  case (Some i)
  have "p_state (the_proc i s) \<noteq> SLEEPING \<Longrightarrow>
      upd_proc i (\<lambda>p. p\<lparr>p_killed := True\<rparr>) s = upd_proc i kill_entry s"
    by (simp add: upd_proc_def upd_def kill_entry_def)
  moreover have "p_state (the_proc i s) = SLEEPING \<Longrightarrow>
      upd_proc i (\<lambda>p. p\<lparr>p_killed := True, p_state := RUNNABLE\<rparr>) s = upd_proc i kill_entry s"
    by (simp add: upd_proc_def upd_def kill_entry_def)
  ultimately show ?thesis
    using Some first_idx_SomeD [OF Some] assms
    by (simp add: kill_def acquire_table Let_def release_table)
qed (use assms in \<open>simp add: kill_def acquire_table release_table\<close>)

lemma assign_tickets_eq:
  assumes "cpu_at c s" "lock_idle L_ptable s"
  shows "assign_tickets c pid tks s =
    (if pid < 1 \<or> tks < 1 then Ok (-1, s)
     else case first_idx (\<lambda>p. p_pid p = pid) (ptable s) of
       None \<Rightarrow> Ok (-2, settle c s)
     | Some i \<Rightarrow> Ok (0, settle c (upd_proc i (\<lambda>p. p\<lparr>p_tickets := tks\<rparr>) s)))"
  using assms by (auto simp: assign_tickets_def acquire_table release_table split: option.splits)

lemma settle_fields [simp]:
  "ptable (settle c s) = ptable s" "nextpid (settle c s) = nextpid s" "initproc (settle c s) = initproc s"
  "cpus (settle c s) = upd c settled (cpus s)"
  by (simp_all add: settle_def)

section \<open>Reachable states\<close>

text \<open>C4: The table and the CPUs agree. In every state that the kernel reaches from its start, by any
  interleaving of its routines on any number of CPUs, a process is RUNNING exactly if one CPU has it as
  its current process, and then no other CPU has.\<close>

theorem running_on_one_cpu:
  assumes "fresh s0" "kstep\<^sup>*\<^sup>* s0 s" "i < length (ptable s)"
  shows "p_state (the_proc i s) = RUNNING \<longleftrightarrow> (\<exists>!c. c < length (cpus s) \<and> cpu_proc (the_cpu c s) = Some i)"
proof -
  have inv: "tab_inv False (cps s) (ptable s) (nextpid s)"
    using reachable_inv [OF assms(2,1)] by (simp add: kinv_def)
  show ?thesis
    using tab_invD(1-3) [OF inv] assms(3) by (auto simp: nth_map) (metis (no_types, lifting) length_map nth_map)+
qed

theorem running_on_one_cpu_witness:
  "\<exists>t. kstep\<^sup>*\<^sup>* boot0 t \<and> p_state (the_proc 0 t) = RUNNING
     \<and> (\<exists>!c. c < length (cpus t) \<and> cpu_proc (the_cpu c t) = Some 0)"
proof -
  obtain t where t: "booted t"
    using boot_scheduler by blast
  then show ?thesis
    using running_on_one_cpu [OF boot_fresh boot_steps [OF t], of 0] boot_steps [OF t] by (auto simp: booted_def)
qed

text \<open>C8: As long as the counter \<^verbatim>\<open>nextpid\<close> has not reached the largest \<^verbatim>\<open>int\<close> in any state of the run but the last,
  no two processes that are alive have the same pid, every pid is positive and has been handed
  out before, and every process in the table holds at least one ticket. Beyond that \<^verbatim>\<open>nextpid++\<close> in \<^verbatim>\<open>allocproc\<close>
  overflows, and nothing in the code keeps the pids positive or different.\<close>

theorem live_pids_distinct:
  assumes "fresh s0" "(\<lambda>s t. kstep s t \<and> nextpid s < 2 ^ 31 - 1)\<^sup>*\<^sup>* s0 s"
  shows "(\<forall>i < length (ptable s). p_state (the_proc i s) \<noteq> UNUSED \<longrightarrow>
      0 < p_pid (the_proc i s) \<and> p_pid (the_proc i s) < nextpid s \<and> 1 \<le> p_tickets (the_proc i s))
    \<and> (\<forall>i < length (ptable s). \<forall>j < length (ptable s).
        p_state (the_proc i s) \<noteq> UNUSED \<and> p_state (the_proc j s) \<noteq> UNUSED
        \<and> p_pid (the_proc i s) = p_pid (the_proc j s) \<longrightarrow> i = j)"
proof -
  have inv: "tab_inv True (cps s) (ptable s) (nextpid s)"
    using reachable_pids_inv [OF assms(2,1)] by (simp add: kinv_def)
  have "1 \<le> p_tickets (the_proc i s)" if "i < length (ptable s)" "p_state (the_proc i s) \<noteq> UNUSED" for i
    using tab_invD(4) [OF inv that(1)] that(2) by (simp add: proc_ok_def)
  then show ?thesis
    using tab_invD(5,6) [OF inv TrueI] by blast
qed

theorem live_pids_distinct_witness:
  "\<exists>t. booted t \<and> 0 < p_pid (the_proc 0 t) \<and> p_pid (the_proc 0 t) < nextpid t
     \<and> 1 \<le> p_tickets (the_proc 0 t)"
proof -
  obtain t where t: "booted t"
    using boot_scheduler by blast
  then show ?thesis
    using live_pids_distinct [OF boot_fresh boot_steps_pids [OF t]] by (auto simp: booted_def)
qed

section \<open>Sleeping and waking\<close>

text \<open>C13: \<^verbatim>\<open>wakeup\<close> on a channel makes exactly the processes that sleep on it RUNNABLE, changes nothing else
  of the table, and always comes back when the table is not locked.\<close>

theorem wakeup_exact:
  assumes "cpu_at c s" "lock_idle L_ptable s"
  shows "\<exists>t. wakeup c (Some ch) s = Ok t \<and> length (ptable t) = length (ptable s)
    \<and> (\<forall>i < length (ptable s). the_proc i t =
        (if p_state (the_proc i s) = SLEEPING \<and> p_chan (the_proc i s) = Some ch
         then (the_proc i s)\<lparr>p_state := RUNNABLE\<rparr> else the_proc i s))"
  using assms by (simp add: wakeup_eq wakeup1_def wake_entry_def)

theorem wakeup_exact_witness:
  "\<exists>t. wakeup 0 (Some Chan_ticks) (boot0\<lparr>ptable := [no_proc\<lparr>p_state := SLEEPING, p_chan := Some Chan_ticks\<rparr>, no_proc]\<rparr>)
     = Ok t \<and> p_state (the_proc 0 t) = RUNNABLE \<and> the_proc 1 t = no_proc"
proof -
  let ?s = "boot0\<lparr>ptable := [no_proc\<lparr>p_state := SLEEPING, p_chan := Some Chan_ticks\<rparr>, no_proc]\<rparr>"
  have "cpu_at 0 ?s" "lock_idle L_ptable ?s"
    using boot_lock by (simp_all add: cpu_at_def lock_idle_def)
  from wakeup_exact [OF this, of Chan_ticks] show ?thesis
    by (fastforce simp: no_proc_def less_Suc_eq_0_disj)
qed

text \<open>A process that holds just its own lock can go to sleep.\<close>

lemma sched_Ok:
  assumes "cpu_at c s" "cpu_proc (the_cpu c s) = Some i" "ncli (the_cpu c s) = 1" "holds c L_ptable s"
    "p_state (the_proc i s) \<noteq> RUNNING"
  shows "sched c by s = Ok (gone c i by s)"
proof -
  have c: "c < length (cpus s)" "cpu_ok (the_cpu c s)" "\<not> eflags_IF (the_cpu c s)"
    using assms(1,3) by (auto simp: cpu_at_def cpu_ok_def)
  let ?t = "upd_proc i (\<lambda>p. p\<lparr>p_context := Some (Ctx_sched (intena (the_cpu c s)) by)\<rparr>) s"
  have "scheduler_back c ?t = Ok (gone c i by s)"
    using scheduler_back_eq [of c ?t] assms by (simp add: gone_def cpu_at_def holds_def)
  then show ?thesis
    using assms c by (simp add: sched_def myproc_eq holding_eq upd_settled_id Let_def)
qed

definition slept :: "nat \<Rightarrow> nat \<Rightarrow> chan \<Rightarrow> lockid \<Rightarrow> 'a proc_state_scheme \<Rightarrow> 'a proc_state_scheme" where
  "slept c i ch lk v = gone c i (By_sleep lk) (upd_proc i (\<lambda>p. p\<lparr>p_chan := Some ch, p_state := SLEEPING\<rparr>) v)"

lemma sleep_at:
  assumes at: "cpu_at c s" and idle: "lock_idle L_ptable s" and i: "i < length (ptable s)"
    and run: "cpu_proc (the_cpu c s) = Some i" "lk \<noteq> L_ptable" "holds c lk s" "ncli (the_cpu c s) = 1"
  shows "\<exists>u v. acquire c L_ptable s = Ok u \<and> release c lk u = Ok v \<and> sleep c ch (Some lk) s = Ok (slept c i ch lk v)
    \<and> holds c L_ptable v \<and> cpus v = cpus s \<and> ptable v = ptable s \<and> locks v lk = (locks s lk)\<lparr>lk_cpu := None, locked := False\<rparr>"
proof -
  let ?u = "grabbed c L_ptable s"
  let ?v = "set_lock lk ((locks ?u lk)\<lparr>lk_cpu := None, locked := False\<rparr>) (upd_cpu c popped ?u)"
  have a: "acquire c L_ptable s = Ok ?u"
    using idle at by (simp add: acquire_grabbed cpu_at_def)
  have r: "release c lk ?u = Ok ?v"
    using at run by (simp add: release_eq cpu_at_def grabbed_def holds_def nth_upd)
  have "popped (pushed k) = settled k" if "cpu_ok k" for k
    using that by simp
  then have cv: "cpus ?v = cpus s"
    using at run(4) by (simp add: grabbed_def upd_def cpu_at_def)
  have hv: "holds c L_ptable ?v"
    using run(2) by (simp add: holds_def grabbed_def)
  let ?w = "upd_proc i (\<lambda>p. p\<lparr>p_chan := Some ch, p_state := SLEEPING\<rparr>) ?v"
  have "sched c (By_sleep lk) ?w = Ok (slept c i ch lk ?v)"
    unfolding slept_def
    using at run(1,4) hv cv i by (intro sched_Ok) (simp_all add: cpu_at_def holds_def)
  then have "sleep c ch (Some lk) s = Ok (slept c i ch lk ?v)"
    using a r run at by (simp add: sleep_eq myproc_eq upd_settled_id Let_def)
  then show ?thesis
    using a r hv cv run(2) by (intro exI [of _ ?u] exI [of _ ?v]) (simp add: grabbed_def)
qed

section \<open>Killing and tickets\<close>

text \<open>C14: \<^verbatim>\<open>kill\<close> marks the first slot with the pid as killed and, exactly if its process sleeps, makes it RUNNABLE;
  nothing else of that slot changes, and no other slot. It fails exactly when no slot has the pid.\<close>

theorem kill_marks_first:
  assumes "cpu_at c s" "lock_idle L_ptable s"
  shows "\<exists>t. (if \<exists>p \<in> set (ptable s). p_pid p = pid
      then kill c pid s = Ok (0, t) \<and> (\<exists>i < length (ptable s). p_pid (the_proc i s) = pid
        \<and> (\<forall>j < i. p_pid (the_proc j s) \<noteq> pid)
        \<and> ptable t = (ptable s)[i := (the_proc i s)\<lparr>p_killed := True,
            p_state := (if p_state (the_proc i s) = SLEEPING then RUNNABLE else p_state (the_proc i s))\<rparr>])
      else kill c pid s = Ok (-1, t) \<and> ptable t = ptable s)"
proof (cases "first_idx (\<lambda>p. p_pid p = pid) (ptable s)")
  case None
  then show ?thesis
    using kill_eq [OF assms, of pid] first_idx_None [of "\<lambda>p. p_pid p = pid" "ptable s"] by auto
next
  case (Some i)
  then have i: "i < length (ptable s)" "p_pid (the_proc i s) = pid" "\<forall>j < i. p_pid (the_proc j s) \<noteq> pid"
    by (auto simp: first_idx_Some)
  then show ?thesis
    using kill_eq [OF assms, of pid] Some nth_mem [OF i(1)]
    by (intro exI [of _ "settle c (upd_proc i kill_entry s)"])
      (auto simp: upd_def kill_entry_def intro!: exI [of _ i])
qed

theorem kill_marks_first_witness:
  "\<exists>t. kill 0 1 boot1 = Ok (0, t) \<and> p_killed (the_proc 0 t)"
proof -
  have "cpu_at 0 boot1" "lock_idle L_ptable boot1" "\<exists>p \<in> set (ptable boot1). p_pid p = 1" "the_proc 0 boot1 = proc0"
    "length (ptable boot1) = 2" "p_pid (the_proc 1 boot1) = 0"
    by (simp_all add: boot_defs cpu_at_def cpu_ok_def lock_idle_def)
  then show ?thesis
    using kill_marks_first [of 0 boot1 1] by (auto simp: less_2_cases_iff)
qed

lemma allocproc_slot:
  fixes s :: "'a proc_state_scheme"
  assumes "cpu_at c s" "allocproc c s = Ok (Some np, t)"
  shows "first_idx (\<lambda>p. p_state p = UNUSED) (ptable s) = Some np"
    "p_killed (the_proc np t) = p_killed (the_proc np s)"
proof -
  obtain u where u: "acquire c L_ptable s = Ok u"
    using assms(2) by (auto simp: allocproc_def outcome_simps)
  then have u': "u = grabbed c L_ptable s"
    using acquire_OkD(1) [OF u] assms(1) by (simp add: cpu_at_def)
  obtain i where i: "first_idx (\<lambda>p. p_state p = UNUSED) (ptable u) = Some i"
    using assms(2) by (auto simp: allocproc_def u outcome_simps split: option.splits)
  let ?v = "upd_proc i (\<lambda>p. p\<lparr>p_tickets := 100, p_ticks := 0\<rparr>)
    ((upd_proc i (\<lambda>p. p\<lparr>p_state := EMBRYO, p_pid := nextpid u\<rparr>) u)\<lparr>nextpid := i32 (nextpid u + 1)\<rparr>)"
  obtain w k x where w: "release c L_ptable ?v = Ok w" "kalloc c w = Ok (k, x)" "np = i"
    and t: "t = upd_proc i (\<lambda>p. p\<lparr>p_kstack := k, p_context := Some Ctx_forkret\<rparr>) x"
    using assms(2) i by (auto simp: allocproc_def u Let_def outcome_simps split: if_splits)
  show s: "first_idx (\<lambda>p. p_state p = UNUSED) (ptable s) = Some np"
    using i w(3) by (simp add: u')
  have w': "w = set_lock L_ptable ((locks ?v L_ptable)\<lparr>lk_cpu := None, locked := False\<rparr>) (upd_cpu c popped ?v)"
    using release_eq [of c ?v L_ptable] w(1) assms(1)
    by (simp add: u' cpu_at_def grabbed_def holds_def cpu_ok_def upd_proc_def nth_upd split: if_splits)
  have "cpu_at c w"
    using assms(1) by (simp add: w' u' cpu_at_def grabbed_def nth_upd upd_proc_def cpu_ok_popped)
  then have "mem_frame c w x"
    using kalloc_frame [OF w(2)] by simp
  then have "kmem_state.more x = kmem_state.more w"
    by (simp add: mem_frame_def)
  then have "ptable x = ptable w"
    by (cases x; cases w; simp)
  then show "p_killed (the_proc np t) = p_killed (the_proc np s)"
    using first_idx_SomeD [OF s] w(3) by (simp add: t w' u' upd_proc_def)
qed

text \<open>C15: A free slot has pid 0, and \<^verbatim>\<open>kill\<close> does not look at the state: \<^verbatim>\<open>kill(0)\<close> succeeds and marks a slot
  that no process uses. The mark stays when \<^verbatim>\<open>allocproc\<close> hands the slot out, so the new process is killed
  before it has run.\<close>

theorem kill_zero_marks_free_slot:
  assumes "cpu_at c s" "lock_idle L_ptable s" "i < length (ptable s)"
    "p_state (the_proc i s) = UNUSED" "p_pid (the_proc i s) = 0"
    "\<forall>j < i. p_pid (the_proc j s) \<noteq> 0 \<and> p_state (the_proc j s) \<noteq> UNUSED"
  shows "\<exists>t. kill c 0 s = Ok (0, t) \<and> p_state (the_proc i t) = UNUSED
    \<and> (\<forall>np u. allocproc c t = Ok (Some np, u) \<longrightarrow> np = i \<and> p_killed (the_proc np u))"
proof -
  have "first_idx (\<lambda>p. p_pid p = 0) (ptable s) = Some i"
    using assms(3,5,6) by (simp add: first_idx_Some)
  then have k: "kill c 0 s = Ok (0, settle c (upd_proc i kill_entry s))" (is "_ = Ok (0, ?t)")
    using kill_eq [OF assms(1,2)] by simp
  have at: "cpu_at c ?t"
    using assms(1) by (simp add: cpu_at_def)
  have "np = i \<and> p_killed (the_proc np u)" if "allocproc c ?t = Ok (Some np, u)" for np u
  proof -
    have "first_idx (\<lambda>p. p_state p = UNUSED) (ptable ?t) = Some i"
      using assms(3,4,6) by (simp add: first_idx_Some kill_entry_def)
    then show ?thesis
      using allocproc_slot [OF at that] assms(3) by (simp add: kill_entry_def)
  qed
  then show ?thesis
    using k assms(3,4) by (intro exI [of _ ?t]) (simp add: kill_entry_def)
qed

text \<open>The table of the boot after \<^verbatim>\<open>kill(0)\<close>: a page is free, and the first process gets the marked slot.\<close>

definition boot0_killed :: proc_state where
  "boot0_killed = settle 0 (upd_proc 0 kill_entry boot0)"

lemma boot_killed_alloc: "\<exists>u. allocproc 0 boot0_killed = Ok (Some 0, u)"
proof -
  have b: "boot0_killed = boot0\<lparr>ptable := [no_proc\<lparr>p_killed := True\<rparr>, no_proc]\<rparr>"
    by (simp add: boot0_killed_def settle_def upd_cpu_def boot_defs kill_entry_def settled_def)
  have at: "cpu_at 0 boot0_killed" "lock_idle L_ptable boot0_killed"
    using boot_lock by (simp_all add: b cpu_at_def lock_idle_def)
  have a: "acquire 0 L_ptable boot0_killed = Ok (grabbed 0 L_ptable boot0_killed)"
    using at by (simp add: acquire_table)
  have r: "release 0 L_ptable t = Ok (t\<lparr>cpus := upd 0 settled (cpus boot0_killed), locks := locks boot0_killed\<rparr>)"
    if "cpus t = cpus (grabbed 0 L_ptable boot0_killed)" "locks t = locks (grabbed 0 L_ptable boot0_killed)" for t :: proc_state
    using release_grabbed [of 0 boot0_killed L_ptable t] that at by (simp add: cpu_at_def)
  have p: "ptable boot0_killed = [no_proc\<lparr>p_killed := True\<rparr>, no_proc]" "use_lock boot0_killed = False"
    "freelist boot0_killed = 0x8DFFF000" "p_state no_proc = UNUSED"
    by (simp_all add: b boot0_def no_proc_def)
  show ?thesis
    using a by (simp add: allocproc_def r p Let_def kalloc_def)
qed

theorem kill_zero_marks_free_slot_witness:
  "\<exists>t u. kill 0 0 boot0 = Ok (0, t) \<and> allocproc 0 t = Ok (Some 0, u) \<and> p_killed (the_proc 0 u)"
proof -
  have "\<exists>t. kill 0 0 boot0 = Ok (0, t) \<and> p_state (the_proc 0 t) = UNUSED
      \<and> (\<forall>np u. allocproc 0 t = Ok (Some np, u) \<longrightarrow> np = 0 \<and> p_killed (the_proc np u))"
    by (rule kill_zero_marks_free_slot) (use boot_lock in \<open>simp_all add: boot0_def no_proc_def\<close>)
  moreover have "kill 0 0 boot0 = Ok (0, boot0_killed)"
    using kill_eq [OF boot_lock(3,1), of 0] by (simp add: boot0_killed_def boot0_def no_proc_def)
  ultimately show ?thesis
    using boot_killed_alloc by auto
qed

text \<open>C12: \<^verbatim>\<open>assign_tickets\<close> refuses pids and counts below 1 without touching anything, reports \<open>-2\<close> when no slot
  has the pid, and otherwise gives the first slot with the pid exactly the tickets asked for, however
  many.\<close>

theorem assign_tickets_exact:
  assumes "cpu_at c s" "lock_idle L_ptable s"
  shows "if pid < 1 \<or> tks < 1 then assign_tickets c pid tks s = Ok (-1, s)
    else \<exists>t. if \<exists>p \<in> set (ptable s). p_pid p = pid
      then assign_tickets c pid tks s = Ok (0, t) \<and> (\<exists>i < length (ptable s). p_pid (the_proc i s) = pid
        \<and> (\<forall>j < i. p_pid (the_proc j s) \<noteq> pid)
        \<and> ptable t = (ptable s)[i := (the_proc i s)\<lparr>p_tickets := tks\<rparr>])
      else assign_tickets c pid tks s = Ok (-2, t) \<and> ptable t = ptable s"
proof (cases "first_idx (\<lambda>p. p_pid p = pid) (ptable s)")
  case None
  then show ?thesis
    using assign_tickets_eq [OF assms, of pid tks] first_idx_None [of "\<lambda>p. p_pid p = pid" "ptable s"] by auto
next
  case (Some i)
  then have i: "i < length (ptable s)" "p_pid (the_proc i s) = pid" "\<forall>j < i. p_pid (the_proc j s) \<noteq> pid"
    by (auto simp: first_idx_Some)
  then show ?thesis
    using assign_tickets_eq [OF assms, of pid tks] Some nth_mem [OF i(1)] by (auto simp: upd_def)
qed

theorem assign_tickets_exact_witness:
  "\<exists>t. assign_tickets 0 1 65536 boot1 = Ok (0, t) \<and> p_tickets (the_proc 0 t) = 65536"
proof -
  have "cpu_at 0 boot1" "lock_idle L_ptable boot1" "\<exists>p \<in> set (ptable boot1). p_pid p = 1" "the_proc 0 boot1 = proc0"
    "length (ptable boot1) = 2" "p_pid (the_proc 1 boot1) = 0"
    by (simp_all add: boot_defs cpu_at_def cpu_ok_def lock_idle_def)
  then show ?thesis
    using assign_tickets_exact [of 0 boot1 1 65536] by (auto simp: less_2_cases_iff)
qed

section \<open>Exit and wait\<close>

lemma reparent_fields [simp]:
  "cpus (reparent cur js s) = cpus s" "locks (reparent cur js s) = locks s" "initproc (reparent cur js s) = initproc s"
  "length (ptable (reparent cur js s)) = length (ptable s)"
  by (induction js arbitrary: s) (simp_all add: Let_def wakeup1_def)

definition may_wake :: "procstate \<Rightarrow> procstate \<Rightarrow> bool" where
  "may_wake a b \<longleftrightarrow> b = a \<or> a = SLEEPING \<and> b = RUNNABLE"

lemma may_wake_trans: "may_wake a b \<Longrightarrow> may_wake b c \<Longrightarrow> may_wake a c"
  by (auto simp: may_wake_def)

lemma wake_entry_same [simp]:
  "p_parent (wake_entry ch p) = p_parent p" "may_wake (p_state p) (p_state (wake_entry ch p))"
  by (simp_all add: wake_entry_def may_wake_def)

lemma reparent_entry:
  assumes "distinct js" "\<forall>j \<in> set js. j < length (ptable s)" "i < length (ptable s)"
  shows "p_parent (the_proc i (reparent cur js s)) =
      (if i \<in> set js \<and> p_parent (the_proc i s) = Some cur then initproc s else p_parent (the_proc i s))
    \<and> may_wake (p_state (the_proc i s)) (p_state (the_proc i (reparent cur js s)))"
  using assms
proof (induction js arbitrary: s)
  case (Cons j js)
  define r where "r = (if p_parent (the_proc j s) = Some cur
    then let s = upd_proc j (\<lambda>p. p\<lparr>p_parent := initproc s\<rparr>) s
         in if p_state (the_proc j s) = ZOMBIE then wakeup1 (proc_chan (initproc s)) s else s
    else s)"
  have r: "length (ptable r) = length (ptable s)" "initproc r = initproc s"
    by (simp_all add: r_def Let_def wakeup1_def)
  have e: "p_parent (the_proc i r) =
      (if i = j \<and> p_parent (the_proc i s) = Some cur then initproc s else p_parent (the_proc i s))
    \<and> may_wake (p_state (the_proc i s)) (p_state (the_proc i r))"
    using Cons.prems by (auto simp: r_def Let_def wakeup1_def nth_upd may_wake_def wake_entry_def)
  have "reparent cur (j # js) s = reparent cur js r"
    by (simp add: r_def)
  then show ?case
    using Cons.IH [of r] Cons.prems e r may_wake_trans by auto
qed (simp add: may_wake_def)

text \<open>C9: When a process exits, its children are handed to the first process, a parent that waits for it is
  woken, and it ends up as a ZOMBIE that no CPU runs; nobody else goes to sleep, dies or changes
  parent.\<close>

theorem exit_hands_over:
  assumes "fresh s0" "kstep\<^sup>*\<^sup>* s0 s" "c < length (cpus s)" "cpu_proc (the_cpu c s) = Some cur" "ncli (the_cpu c s) = 0"
  shows "\<exists>t. exit_final c cur s = Ok t \<and> p_state (the_proc cur t) = ZOMBIE \<and> cpu_proc (the_cpu c t) = None
    \<and> (\<forall>i < length (ptable s). p_parent (the_proc i t) =
         (if p_parent (the_proc i s) = Some cur then initproc s else p_parent (the_proc i s)))
    \<and> (\<forall>i < length (ptable s). i \<noteq> cur \<longrightarrow> may_wake (p_state (the_proc i s)) (p_state (the_proc i t)))
    \<and> (\<forall>q < length (ptable s). p_parent (the_proc cur s) = Some q \<and> p_state (the_proc q s) = SLEEPING
         \<and> p_chan (the_proc q s) = Some (Chan_proc q) \<longrightarrow> p_state (the_proc q t) = RUNNABLE)"
proof -
  have inv: "kinv False s"
    by (rule reachable_inv [OF assms(2,1)])
  note at = kinv_at [OF inv assms(3)]
  have cur: "cur < length (ptable s)" "p_state (the_proc cur s) = RUNNING"
    using inv assms(3,4) tab_invD(1) [of False "cps s" "ptable s" "nextpid s"] by (auto simp: kinv_def)
  let ?u = "grabbed c L_ptable s"
  have a: "acquire c L_ptable s = Ok ?u"
    using inv at by (simp add: acquire_table kinv_def)
  define w where "w = wakeup1 (proc_chan (p_parent (the_proc cur s))) ?u"
  define v where "v = reparent cur [0..<length (ptable s)] w"
  have w: "cpus w = cpus ?u" "locks w = locks ?u" "initproc w = initproc s" "length (ptable w) = length (ptable s)"
    "\<And>i. i < length (ptable s) \<Longrightarrow> the_proc i w = wake_entry (proc_chan (p_parent (the_proc cur s))) (the_proc i s)"
    by (simp_all add: w_def wakeup1_def)
  have v: "cpus v = cpus ?u" "locks v = locks ?u" "length (ptable v) = length (ptable s)"
    by (simp_all add: v_def w)
  have ve: "p_parent (the_proc i v) = (if p_parent (the_proc i s) = Some cur then initproc s else p_parent (the_proc i s))
    \<and> may_wake (p_state (the_proc i w)) (p_state (the_proc i v))" if "i < length (ptable s)" for i
    using reparent_entry [of "[0..<length (ptable s)]" w i cur] that by (simp add: v_def w)
  let ?z = "upd_proc cur (\<lambda>p. p\<lparr>p_state := ZOMBIE\<rparr>) v"
  have "sched c By_exit ?z = Ok (gone c cur By_exit ?z)"
    using at assms(3-5) cur(1)
    by (intro sched_Ok) (simp_all add: v cpu_at_def grabbed_def holds_def nth_upd)
  then have ex: "exit_final c cur s = Ok (gone c cur By_exit ?z)"
    by (simp add: exit_final_def a Let_def w_def v_def wakeup1_def)
  have mw: "may_wake (p_state (the_proc i s)) (p_state (the_proc i v))" if "i < length (ptable s)" for i
    using ve [OF that] w(5) [OF that] wake_entry_same(2) may_wake_trans by metis
  have wk: "p_state (the_proc q v) = RUNNABLE"
    if "q < length (ptable s)" "p_parent (the_proc cur s) = Some q" "p_state (the_proc q s) = SLEEPING"
      "p_chan (the_proc q s) = Some (Chan_proc q)" for q
    using ve [OF that(1)] w(5) [OF that(1)] that by (simp add: wake_entry_def may_wake_def)
  show ?thesis
    using ex ve mw wk cur assms(3)
    by (intro exI [of _ "gone c cur By_exit ?z"]) (auto simp: gone_def v nth_upd popped_def vacated_def grabbed_def)
qed

theorem exit_hands_over_witness:
  "\<exists>s t. kstep\<^sup>*\<^sup>* boot0 s \<and> exit_final 0 0 s = Ok t \<and> p_state (the_proc 0 t) = ZOMBIE"
proof -
  obtain s where s: "booted s"
    using boot_scheduler by blast
  then show ?thesis
    using exit_hands_over [OF boot_fresh boot_steps [OF s], of 0 0] boot_steps [OF s] by (auto simp: booted_def)
qed

section \<open>A scheduler that starts late\<close>

text \<open>C16: With the scheduler trace compiled in, a CPU that enters \<open>scheduler\<close> late resets the lock of the trace:
  when another CPU is inside the lock at that moment, its \<open>release\<close>, which would have succeeded, panics.\<close>

theorem late_scheduler_start:
  assumes "c < length (cpus s)" "cpu_ok (the_cpu c s)" "b \<noteq> c" "sched_test s" "acquire c L_proc_sched s = Ok t"
  shows "(\<exists>u. release c L_proc_sched t = Ok u) \<and> release c L_proc_sched (scheduler_start b t) = Panic ''release''"
proof -
  let ?k = "(locks s L_proc_sched)\<lparr>locked := True, lk_cpu := Some c\<rparr>"
  have t: "t = set_lock L_proc_sched ?k (upd_cpu c pushed s)"
    using assms(5) acquire_eq [OF assms(1,2), of L_proc_sched] by (simp split: if_splits)
  have c: "c < length (cpus t)" "cpu_ok (the_cpu c t)" "0 < ncli (the_cpu c t)" "holds c L_proc_sched t" "sched_test t"
    using assms(1,2,4) by (simp_all add: t holds_def cpu_ok_def pushed_def upd_def set_lock_def upd_cpu_def)
  moreover have "c < length (cpus (scheduler_start b t))" "the_cpu c (scheduler_start b t) = the_cpu c t"
    "\<not> holds c L_proc_sched (scheduler_start b t)"
    using c(1,5) assms(3) by (simp_all add: scheduler_start_def Let_def initlock_def holds_def upd_cpu_def set_lock_def upd_def)
  ultimately show ?thesis
    using release_eq [of c t L_proc_sched] release_eq [of c "scheduler_start b t" L_proc_sched] by simp
qed

theorem late_scheduler_start_witness:
  "\<exists>t. acquire 0 L_proc_sched (small_machine []\<lparr>cpus := [idle_cpu0, idle_cpu0]\<rparr>) = Ok t
    \<and> release 0 L_proc_sched (scheduler_start 1 t) = Panic ''release''"
proof -
  let ?s = "small_machine []\<lparr>cpus := [idle_cpu0, idle_cpu0]\<rparr>"
  have s: "0 < length (cpus ?s)" "cpu_ok (the_cpu 0 ?s)" "sched_test ?s"
    by (simp_all add: small_machine_def idle_cpu0_def cpu_ok_def)
  obtain t where t: "acquire 0 L_proc_sched ?s = Ok t"
    using acquire_eq [OF s(1,2), of L_proc_sched] by (simp add: small_machine_def free_lock_def holds_def)
  show ?thesis
    using late_scheduler_start [OF s(1,2) _ s(3) t, of 1] t by auto
qed

end
