(* ===== verification/PipeSpec.thy ===== *)
theory PipeSpec
  imports ProcProps
begin

text \<open>
  Pipes as queues of bytes. The bytes between the two counters of the ring buffer are the contents of the
  pipe; \<open>pipewrite\<close> and \<open>piperead\<close> refine a bounded queue, over the wrap-around of the counters as well. The locale
  \<open>byte_stream\<close> is the contract of a channel that neither loses nor reorders bytes.
\<close>

section \<open>The ring buffer\<close>

definition pipe_slot :: "uint \<Rightarrow> nat \<Rightarrow> nat" where
  "pipe_slot a k = (unat a + k) mod 512"

definition pipe_len :: "pipe \<Rightarrow> nat" where
  "pipe_len q = unat (nwrite q - nread q)"

definition pipe_ok :: "pipe \<Rightarrow> bool" where
  "pipe_ok q \<longleftrightarrow> length (p_data q) = 512 \<and> pipe_len q \<le> 512"

definition contents :: "pipe \<Rightarrow> uchar list" where
  "contents q = map (\<lambda>k. p_data q ! pipe_slot (nread q) k) [0..<pipe_len q]"

lemma length_contents [simp]: "length (contents q) = pipe_len q"
  by (simp add: contents_def)

lemma slot_mod: "unat (a mod PIPESIZE) = pipe_slot a 0"
  by (simp add: pipe_slot_def PIPESIZE_def unat_mod)

lemma unat_add_mod_512: "unat (a + of_nat k :: uint) mod 512 = (unat a + k) mod 512"
proof -
  have "unat (a + of_nat k) = (unat a + k) mod 2 ^ 32"
    by (simp add: unat_word_ariths unat_of_nat mod_simps)
  moreover have "(512 :: nat) dvd 2 ^ 32"
    by simp
  ultimately show ?thesis
    by (simp add: mod_mod_cancel)
qed

lemma slot_shift: "pipe_slot (a + of_nat j) k = pipe_slot a (j + k)"
proof -
  have "(unat (a + of_nat j) + k) mod 512 = (unat (a + of_nat j) mod 512 + k) mod 512"
    by (simp only: mod_add_left_eq)
  also have "\<dots> = (unat a + (j + k)) mod 512"
    by (simp only: unat_add_mod_512 mod_add_left_eq add.assoc)
  finally show ?thesis
    by (simp only: pipe_slot_def)
qed

lemma slot_inj:
  assumes "j < 512" "k < 512" "pipe_slot a j = pipe_slot a k"
  shows "j = k"
proof -
  have "(unat a + j) mod 512 = (unat a + k) mod 512"
    using assms(3) by (simp add: pipe_slot_def)
  then have "j mod 512 = k mod 512"
    by (simp add: nat_mod_eq_iff)
  then show ?thesis
    using assms(1,2) by simp
qed

lemma nwrite_eq: "nwrite q = nread q + of_nat (pipe_len q)"
  by (simp add: pipe_len_def)

lemma pipe_full_iff: "nwrite q = nread q + PIPESIZE \<longleftrightarrow> pipe_len q = 512"
proof -
  have "nwrite q = nread q + PIPESIZE \<longleftrightarrow> nwrite q - nread q = 512"
    by (auto simp: PIPESIZE_def algebra_simps)
  then show ?thesis
    by (simp add: pipe_len_def word_unat_eq_iff)
qed

lemma pipe_empty_iff: "nread q = nwrite q \<longleftrightarrow> pipe_len q = 0"
  by (auto simp: pipe_len_def unat_eq_zero)

lemma unat_plus_one: "unat (x :: uint) < 512 \<Longrightarrow> unat (x + 1) = Suc (unat x)"
  by (simp add: unat_word_ariths(1))

lemma pipe_put_contents:
  assumes "pipe_ok q" "pipe_len q < 512"
  shows "pipe_ok (pipe_put b q)" "contents (pipe_put b q) = contents q @ [b]"
proof -
  let ?n = "pipe_len q"
  have slot: "unat (nwrite q mod PIPESIZE) = pipe_slot (nread q) ?n"
    using slot_shift [of "nread q" ?n 0] by (simp add: slot_mod nwrite_eq [of q, symmetric])
  have eq: "nwrite q + 1 - nread q = (nwrite q - nread q) + 1"
    by simp
  have len: "pipe_len (pipe_put b q) = Suc ?n"
    using unat_plus_one [of "nwrite q - nread q"] assms(2) by (simp add: pipe_len_def pipe_put_def eq)
  have data: "p_data (pipe_put b q) = (p_data q)[pipe_slot (nread q) ?n := b]" "nread (pipe_put b q) = nread q"
    by (simp_all add: pipe_put_def slot)
  show "pipe_ok (pipe_put b q)"
    using assms len by (simp add: pipe_ok_def data)
  show "contents (pipe_put b q) = contents q @ [b]"
  proof (rule nth_equalityI)
    fix k
    assume "k < length (contents (pipe_put b q))"
    then have k: "k \<le> ?n" 
      by (simp add: len)
    show "contents (pipe_put b q) ! k = (contents q @ [b]) ! k"
      using k assms slot_inj [of k ?n "nread q"]
      by (cases "k = ?n") (auto simp: contents_def len data nth_append nth_list_update pipe_ok_def pipe_slot_def simp del: upt_Suc)
  qed (simp add: len)
qed

lemma contents_Cons:
  assumes "pipe_ok q" "pipe_len q \<noteq> 0"
  shows "contents q = p_data q ! pipe_slot (nread q) 0 # contents (q\<lparr>nread := nread q + 1\<rparr>)"
    "pipe_ok (q\<lparr>nread := nread q + 1\<rparr>)"
proof -
  let ?q = "q\<lparr>nread := nread q + 1\<rparr>"
  have eq: "nwrite q - (nread q + 1) = (nwrite q - nread q) - 1"
    by simp
  have "nwrite q - nread q \<noteq> 0"
    using assms(2) by (auto simp: pipe_len_def)
  then have len: "pipe_len q = Suc (pipe_len ?q)"
    using unat_minus_one [of "nwrite q - nread q"] assms(2) by (simp add: pipe_len_def eq)
  have "pipe_slot (nread q + 1) k = pipe_slot (nread q) (Suc k)" for k
    using slot_shift [of "nread q" 1 k] by simp
  then show "contents q = p_data q ! pipe_slot (nread q) 0 # contents ?q"
    unfolding contents_def len upt_conv_Cons [OF zero_less_Suc] map_Suc_upt [symmetric] by simp
  show "pipe_ok ?q"
    using assms(1) len by (simp add: pipe_ok_def)
qed

lemma pipe_take_contents:
  "pipe_ok q \<Longrightarrow> fst (pipe_take n q) = take n (contents q) \<and> contents (snd (pipe_take n q)) = drop n (contents q)
    \<and> pipe_ok (snd (pipe_take n q)) \<and> readopen (snd (pipe_take n q)) = readopen q \<and> writeopen (snd (pipe_take n q)) = writeopen q"
proof (induction n arbitrary: q)
  case (Suc n)
  let ?q = "q\<lparr>nread := nread q + 1\<rparr>"
  show ?case
  proof (cases "pipe_len q = 0")
    case True
    then show ?thesis
      using Suc.prems by (simp add: pipe_empty_iff contents_def)
  next
    case False
    then show ?thesis
      using Suc.IH [OF contents_Cons(2) [OF Suc.prems False]] contents_Cons(1) [OF Suc.prems False]
      by (simp add: pipe_empty_iff split_beta Let_def slot_mod)
  qed
qed simp

lemma fold_put:
  assumes "pipe_ok q" "pipe_len q + length bs \<le> 512"
  shows "pipe_ok (fold pipe_put bs q) \<and> contents (fold pipe_put bs q) = contents q @ bs"
  using assms
proof (induction bs arbitrary: q)
  case (Cons b bs)
  have "pipe_ok (pipe_put b q)" "contents (pipe_put b q) = contents q @ [b]"
    using pipe_put_contents [of q b] Cons.prems by simp_all
  then show ?case
    using Cons.IH [of "pipe_put b q"] Cons.prems length_contents [of "pipe_put b q"] by simp
qed simp

lemma pipe_put_open [simp]: "readopen (pipe_put b q) = readopen q" "writeopen (pipe_put b q) = writeopen q"
  by (simp_all add: pipe_put_def)

lemma fold_put_open [simp]: "readopen (fold pipe_put bs q) = readopen q" "writeopen (fold pipe_put bs q) = writeopen q"
  by (induction bs arbitrary: q) simp_all

section \<open>The abstract queue\<close>

text \<open>A write that does not fit waits, or, when nobody can read any more or the writer is killed (\<open>stop\<close>), fails after
  it has filled the queue. A read waits for an empty queue that is still written to.\<close>

definition q_write :: "bool \<Rightarrow> uchar list \<Rightarrow> uchar list \<Rightarrow> (int \<times> uchar list) res" where
  "q_write stop q bs =
     (if length q + length bs \<le> 512 then Ok (int (length bs), q @ bs)
      else if stop then Ok (-1, q @ take (512 - length q) bs)
      else Asleep)"

definition q_read :: "bool \<Rightarrow> bool \<Rightarrow> nat \<Rightarrow> uchar list \<Rightarrow> (int \<times> uchar list \<times> uchar list) res" where
  "q_read stop wopen n q =
     (if q = [] \<and> wopen then if stop then Ok (-1, [], []) else Asleep
      else Ok (int (length (take n q)), take n q, drop n q))"

section \<open>Inside the lock of a pipe\<close>

definition in_pipe :: "nat \<Rightarrow> nat \<Rightarrow> uint \<Rightarrow> 'a file_state_scheme \<Rightarrow> 'a file_state_scheme \<Rightarrow> bool" where
  "in_pipe c i p s t \<longleftrightarrow> quiet c i s \<and> cpus t = cpus (grabbed c (L_pipe p) s) \<and> locks t = locks (grabbed c (L_pipe p) s)
     \<and> length (ptable t) = length (ptable s)"

lemma in_pipe_at:
  assumes "in_pipe c i p s t"
  shows "cpu_at c t" "ncli (the_cpu c t) = 1" "cpu_proc (the_cpu c t) = Some i" "i < length (ptable t)"
    "lock_idle L_ptable t" "holds c (L_pipe p) t"
  using assms quietD [of c i s] grabbed_at [of c i s "L_pipe p"]
  by (auto simp: in_pipe_def cpu_at_def grabbed_def holds_def lock_idle_def)

lemma in_pipe_wakeup:
  assumes "in_pipe c i p s t"
  shows "wakeup c ch t = Ok (wakeup1 ch t)"
proof -
  note at = in_pipe_at [OF assms]
  have "upd c settled (cpus t) = cpus t"
    using at(1,2) by (simp add: upd_def)
  then have "settle c (wakeup1 ch t) = wakeup1 ch t"
    by (simp add: settle_def upd_cpu_def wakeup1_def)
  then show ?thesis
    using wakeup_eq [OF at(1,5)] by simp
qed

lemma in_pipe_with_cur: "in_pipe c i p s t \<Longrightarrow> with_cur c f t = f i t"
  by (rule section_with_cur) (auto simp: in_pipe_def)

lemma pipes_mach [simp]: "pipes (set_lock l k s) = pipes s" "pipes (upd_cpu c f s) = pipes s" "pipes (upd_proc i g s) = pipes s"
  by (simp_all add: set_lock_def upd_cpu_def upd_proc_def)

lemma pipes_grabbed [simp]: "pipes (grabbed c l s) = pipes s"
  by (simp add: grabbed_def)

lemma in_pipe_sleep:
  assumes "in_pipe c i p s t"
  shows "\<exists>u. sleep c ch (Some (L_pipe p)) t = Ok u \<and> pipes u = pipes t"
proof -
  note at = in_pipe_at [OF assms]
  obtain u v where uv: "acquire c L_ptable t = Ok u" "release c (L_pipe p) u = Ok v"
    "sleep c ch (Some (L_pipe p)) t = Ok (slept c i ch (L_pipe p) v)"
    using sleep_at [OF at(1,5,4,3) _ at(6,2), of ch] by auto
  have u: "u = grabbed c L_ptable t"
    using acquire_table [OF at(1,5)] uv(1) by simp
  then have "c < length (cpus u)" "cpu_ok (the_cpu c u)" "0 < ncli (the_cpu c u)"
    using at(1,2) by (simp_all add: grabbed_def cpu_at_def)
  then have "pipes v = pipes u"
    using release_eq [of c u "L_pipe p"] uv(2) by (auto split: if_splits)
  then show ?thesis
    using uv(3) u by (simp add: slept_def gone_def)
qed

lemma in_pipe_upd [simp]: "in_pipe c i p s (upd_pipe p' f t) = in_pipe c i p s t"
  by (simp add: in_pipe_def upd_pipe_def)

lemma in_pipe_wakeup1 [simp]: "in_pipe c i p s (wakeup1 ch t) = in_pipe c i p s t"
  by (simp add: in_pipe_def wakeup1_def)

lemma in_pipe_release:
  assumes "in_pipe c i p s t"
  shows "release c (L_pipe p) t = Ok (t\<lparr>cpus := cpus s, locks := locks s\<rparr>)"
  using assms by (intro quiet_release) (auto simp: in_pipe_def)

lemma quiet_woken:
  assumes "quiet c i s" "cpus t = cpus s" "locks t = locks s"
    "ptable t = ptable s \<or> ptable t = map (wake_entry ch) (ptable s)"
  shows "quiet c i t"
  using assms by (auto simp: quiet_def lock_idle_def wake_entry_def split: if_splits)

lemma pipes_upd_pipe [simp]: "pipes (upd_pipe p f s) = (pipes s)(p := f (pipes s p))"
  by (simp add: upd_pipe_def)

lemma upd_pipe_upd_pipe: "upd_pipe p f (upd_pipe p g s) = upd_pipe p (\<lambda>q. f (g q)) s"
  by (simp add: upd_pipe_def)

lemma pipes_wakeup1 [simp]: "pipes (wakeup1 ch s) = pipes s"
  by (simp add: wakeup1_def)

lemma ptable_upd_pipe [simp]: "ptable (upd_pipe p f s) = ptable s"
  by (simp add: upd_pipe_def)

section \<open>The loops\<close>

abbreviation the_pipe :: "uint \<Rightarrow> 'a file_state_scheme \<Rightarrow> pipe" where
  "the_pipe p s \<equiv> pipes s p"

lemma pipewrite_loop_fits:
  assumes "in_pipe c i p s t" "pipe_ok (the_pipe p t)" "pipe_len (the_pipe p t) + length bs \<le> 512"
  shows "pipewrite_loop c p bs t = Ok (P_wrote, wakeup1 (Some (Chan_pipe_read p)) (upd_pipe p (fold pipe_put bs) t))"
  using assms
proof (induction bs arbitrary: t)
  case Nil
  then show ?case
    by (simp add: in_pipe_wakeup) (simp add: upd_pipe_def)
next
  case (Cons b bs)
  have "pipe_ok (pipe_put b (the_pipe p t))" "contents (pipe_put b (the_pipe p t)) = contents (the_pipe p t) @ [b]"
    using pipe_put_contents [of "the_pipe p t" b] Cons.prems by simp_all
  then have "pipe_ok (the_pipe p (upd_pipe p (pipe_put b) t))" "pipe_len (the_pipe p (upd_pipe p (pipe_put b) t)) + length bs \<le> 512"
    using Cons.prems length_contents [of "pipe_put b (the_pipe p t)"] by simp_all
  then show ?case
    using Cons.IH [of "upd_pipe p (pipe_put b) t"] Cons.prems by (simp add: pipe_full_iff upd_pipe_upd_pipe)
qed

lemma pipewrite_loop_full:
  assumes "in_pipe c i p s t" "pipe_ok (the_pipe p t)" "pipe_len (the_pipe p t) + length bs > 512"
  defines "u \<equiv> upd_pipe p (fold pipe_put (take (512 - pipe_len (the_pipe p t)) bs)) t"
  shows "if \<not> readopen (the_pipe p t) \<or> p_killed (the_proc i t) then pipewrite_loop c p bs t = Ok (P_failed, u)
    else \<exists>v. pipewrite_loop c p bs t = Ok (P_full (drop (512 - pipe_len (the_pipe p t)) bs), v) \<and> pipes v = pipes u"
  using assms(1-3) unfolding u_def
proof (induction bs arbitrary: t)
  case Nil
  then show ?case
    by (simp add: pipe_ok_def)
next
  case (Cons b bs)
  show ?case
  proof (cases "pipe_len (the_pipe p t) = 512")
    case True
    obtain v where "sleep c (Chan_pipe_write p) (Some (L_pipe p)) (wakeup1 (Some (Chan_pipe_read p)) t) = Ok v" "pipes v = pipes t"
      using in_pipe_sleep [of c i p s "wakeup1 (Some (Chan_pipe_read p)) t"] Cons.prems(1) by auto
    then show ?thesis
      using True Cons.prems(1) by (simp add: pipe_full_iff in_pipe_with_cur in_pipe_wakeup upd_pipe_def)
  next
    case False
    let ?t = "upd_pipe p (pipe_put b) t"
    have lt: "pipe_len (the_pipe p t) < 512"
      using False Cons.prems(2) by (simp add: pipe_ok_def)
    then have "pipe_ok (pipe_put b (the_pipe p t))" "contents (pipe_put b (the_pipe p t)) = contents (the_pipe p t) @ [b]"
      using pipe_put_contents [of "the_pipe p t" b] Cons.prems by simp_all
    then have t: "pipe_ok (the_pipe p ?t)" "pipe_len (the_pipe p ?t) = Suc (pipe_len (the_pipe p t))"
      using length_contents [of "pipe_put b (the_pipe p t)"] by simp_all
    have "take (512 - pipe_len (the_pipe p t)) (b # bs) = b # take (512 - Suc (pipe_len (the_pipe p t))) bs"
      "drop (512 - pipe_len (the_pipe p t)) (b # bs) = drop (512 - Suc (pipe_len (the_pipe p t))) bs"
      using lt by (simp_all add: take_Cons' drop_Cons')
    then show ?thesis
      using Cons.IH [of ?t] Cons.prems t False
      by (simp add: pipe_full_iff upd_pipe_upd_pipe fun_upd_def [symmetric] cong: if_cong)
  qed
qed

section \<open>Pipes refine queues\<close>

lemma in_pipe_grabbed: "quiet c i s \<Longrightarrow> in_pipe c i p s (grabbed c (L_pipe p) s)"
  by (simp add: in_pipe_def)

lemma ptable_wakeup1: "ptable (wakeup1 ch s) = map (wake_entry ch) (ptable s)"
  by (simp add: wakeup1_def)

definition blocked :: "nat \<Rightarrow> uint \<Rightarrow> 'a file_state_scheme \<Rightarrow> bool" where
  "blocked i p s \<longleftrightarrow> \<not> readopen (the_pipe p s) \<or> p_killed (the_proc i s)"

text \<open>What a call leaves behind: the caller goes on in a quiet state, and only this pipe has changed.\<close>

definition pipe_after :: "nat \<Rightarrow> nat \<Rightarrow> uint \<Rightarrow> 'a file_state_scheme \<Rightarrow> 'a file_state_scheme \<Rightarrow> bool" where
  "pipe_after c i p s t \<longleftrightarrow> quiet c i t \<and> pipe_ok (the_pipe p t) \<and> (\<forall>p'. p' \<noteq> p \<longrightarrow> the_pipe p' t = the_pipe p' s)
     \<and> readopen (the_pipe p t) = readopen (the_pipe p s) \<and> writeopen (the_pipe p t) = writeopen (the_pipe p s)"

lemma pipewrite_queue:
  assumes "quiet c i s" "pipe_ok (the_pipe p s)"
  shows "bindr (pipewrite c p bs s) (\<lambda>(r, t). if pipe_after c i p s t then Ok (r, contents (the_pipe p t)) else Fault)
    = q_write (blocked i p s) (contents (the_pipe p s)) bs"
proof -
  let ?g = "grabbed c (L_pipe p) s" and ?k = "512 - pipe_len (the_pipe p s)"
  have g: "in_pipe c i p s ?g" "acquire c (L_pipe p) s = Ok ?g"
    using assms(1) by (simp_all add: in_pipe_grabbed quiet_acquire)
  show ?thesis
  proof (cases "pipe_len (the_pipe p s) + length bs \<le> 512")
    case True
    let ?u = "wakeup1 (Some (Chan_pipe_read p)) (upd_pipe p (fold pipe_put bs) ?g)"
    let ?t = "?u\<lparr>cpus := cpus s, locks := locks s\<rparr>"
    have "pipewrite c p bs s = Ok (int (length bs), ?t)"
      using g pipewrite_loop_fits [OF g(1), of bs] in_pipe_release [of c i p s ?u] assms(2) True by (simp add: pipewrite_def)
    moreover have "pipe_after c i p s ?t"
      using fold_put [OF assms(2) True] quiet_woken [OF assms(1), of ?t "Some (Chan_pipe_read p)"]
      by (simp add: pipe_after_def ptable_wakeup1)
    ultimately show ?thesis
      using fold_put [OF assms(2) True] True by (simp add: q_write_def)
  next
    case False
    let ?u = "upd_pipe p (fold pipe_put (take ?k bs)) ?g"
    let ?t = "?u\<lparr>cpus := cpus s, locks := locks s\<rparr>"
    have fit: "pipe_len (the_pipe p s) + length (take ?k bs) \<le> 512"
      using assms(2) by (auto simp: pipe_ok_def)
    show ?thesis
    proof (cases "blocked i p s")
      case True
      then have "pipewrite c p bs s = Ok (-1, ?t)"
        using g pipewrite_loop_full [OF g(1), of bs] in_pipe_release [of c i p s ?u] assms(2) False
        by (simp add: pipewrite_def blocked_def)
      moreover have "pipe_after c i p s ?t"
        using fold_put [OF assms(2) fit] quiet_woken [OF assms(1), of ?t]
        by (simp add: pipe_after_def)
      ultimately show ?thesis
        using fold_put [OF assms(2) fit] True False by (simp add: q_write_def)
    next
      case nb: False
      then obtain v where "pipewrite_loop c p bs ?g = Ok (P_full (drop ?k bs), v)"
        using pipewrite_loop_full [OF g(1), of bs] assms(2) False by (auto simp: blocked_def)
      then show ?thesis
        using g nb False by (simp add: pipewrite_def q_write_def)
    qed
  qed
qed

lemma piperead_queue:
  assumes "quiet c i s" "pipe_ok (the_pipe p s)"
  shows "bindr (piperead c p n s) (\<lambda>(r, bs, t). if pipe_after c i p s t then Ok (r, bs, contents (the_pipe p t)) else Fault)
    = q_read (p_killed (the_proc i s)) (writeopen (the_pipe p s)) n (contents (the_pipe p s))"
proof -
  let ?g = "grabbed c (L_pipe p) s"
  have g: "in_pipe c i p s ?g" "acquire c (L_pipe p) s = Ok ?g"
    using assms(1) by (simp_all add: in_pipe_grabbed quiet_acquire)
  have empty: "nread (the_pipe p s) = nwrite (the_pipe p s) \<longleftrightarrow> contents (the_pipe p s) = []"
    using length_contents [of "the_pipe p s"] by (auto simp: pipe_empty_iff simp flip: length_0_conv)
  show ?thesis
  proof (cases "contents (the_pipe p s) = [] \<and> writeopen (the_pipe p s)")
    case True
    obtain v where v: "sleep c (Chan_pipe_read p) (Some (L_pipe p)) ?g = Ok v"
      using in_pipe_sleep [OF g(1)] by blast
    have "pipe_after c i p s (?g\<lparr>cpus := cpus s, locks := locks s\<rparr>)"
      using assms by (simp add: pipe_after_def)
    then show ?thesis
      using True g in_pipe_release [OF g(1)] assms v empty
      by (simp add: piperead_def piperead_loop_def in_pipe_with_cur q_read_def)
  next
    case False
    then have go: "\<not> (nread (the_pipe p s) = nwrite (the_pipe p s) \<and> writeopen (the_pipe p s))"
      using empty by simp
    let ?q = "snd (pipe_take n (the_pipe p s))"
    let ?u = "wakeup1 (Some (Chan_pipe_write p)) (upd_pipe p (\<lambda>_. ?q) ?g)"
    let ?t = "?u\<lparr>cpus := cpus s, locks := locks s\<rparr>"
    have "piperead c p n s = Ok (int (length (take n (contents (the_pipe p s)))), take n (contents (the_pipe p s)), ?t)"
      using g in_pipe_release [of c i p s ?u] go in_pipe_wakeup [of c i p s "upd_pipe p (\<lambda>_. ?q) ?g"]
        pipe_take_contents [OF assms(2), of n]
      by (auto simp: piperead_def piperead_loop_def split_beta Let_def)
    moreover have "pipe_after c i p s ?t"
      using pipe_take_contents [OF assms(2), of n] quiet_woken [OF assms(1), of ?t "Some (Chan_pipe_write p)"]
      by (simp add: pipe_after_def ptable_wakeup1)
    ultimately show ?thesis
      using pipe_take_contents [OF assms(2), of n] False by (auto simp: q_read_def)
  qed
qed

section \<open>Bytes in order\<close>

text \<open>A history of a channel: bytes go in, bytes come out, and other things happen in between.\<close>

inductive stream_run :: "('s \<Rightarrow> 'b list \<Rightarrow> 's \<Rightarrow> bool) \<Rightarrow> ('s \<Rightarrow> 'b list \<Rightarrow> 's \<Rightarrow> bool) \<Rightarrow> ('s \<Rightarrow> 's \<Rightarrow> bool)
    \<Rightarrow> 's \<Rightarrow> 'b list \<Rightarrow> 'b list \<Rightarrow> 's \<Rightarrow> bool" for ins outs idle s0 where
  run_start: "stream_run ins outs idle s0 [] [] s0"
| run_in: "stream_run ins outs idle s0 x y s \<Longrightarrow> ins s bs t \<Longrightarrow> stream_run ins outs idle s0 (x @ bs) y t"
| run_out: "stream_run ins outs idle s0 x y s \<Longrightarrow> outs s bs t \<Longrightarrow> stream_run ins outs idle s0 x (y @ bs) t"
| run_idle: "stream_run ins outs idle s0 x y s \<Longrightarrow> idle s t \<Longrightarrow> stream_run ins outs idle s0 x y t"

locale byte_stream =
  fixes ins outs :: "'s \<Rightarrow> 'b list \<Rightarrow> 's \<Rightarrow> bool"
    and idle :: "'s \<Rightarrow> 's \<Rightarrow> bool"
    and good :: "'s \<Rightarrow> bool"
    and inside :: "'s \<Rightarrow> 'b list"
  assumes ins_law: "good s \<Longrightarrow> ins s bs t \<Longrightarrow> good t \<and> inside t = inside s @ bs"
    and outs_law: "good s \<Longrightarrow> outs s bs t \<Longrightarrow> good t \<and> inside s = bs @ inside t"
    and idle_law: "good s \<Longrightarrow> idle s t \<Longrightarrow> good t \<and> inside t = inside s"
begin

lemma in_order: "stream_run ins outs idle s0 x y t \<Longrightarrow> good s0 \<Longrightarrow> good t \<and> inside s0 @ x = y @ inside t"
proof (induction rule: stream_run.induct)
  case (run_in x y s bs t)
  then show ?case
    using ins_law [of s bs t] by (metis append.assoc)
next
  case (run_out x y s bs t)
  then show ?case
    using outs_law [of s bs t] by auto
next
  case (run_idle x y s t)
  then show ?case
    using idle_law [of s t] by simp
qed simp

end

text \<open>The steps of a pipe: a turn of the loop of \<^verbatim>\<open>pipewrite\<close> or \<^verbatim>\<open>piperead\<close>, begun by any process on any CPU or resumed
  after a sleep, up to its end or the next sleep; and whatever leaves the pipe alone.\<close>

definition pipe_ins :: "uint \<Rightarrow> 'a file_state_scheme \<Rightarrow> uchar list \<Rightarrow> 'a file_state_scheme \<Rightarrow> bool" where
  "pipe_ins p s bs t \<longleftrightarrow> (\<exists>c i s0 rest out. in_pipe c i p s0 s \<and> pipewrite_loop c p (bs @ rest) s = Ok (out, t)
     \<and> (case out of P_wrote \<Rightarrow> rest = [] | P_full r \<Rightarrow> r = rest
        | P_failed \<Rightarrow> pipe_len (the_pipe p s) + length bs = 512))"

definition pipe_outs :: "uint \<Rightarrow> 'a file_state_scheme \<Rightarrow> uchar list \<Rightarrow> 'a file_state_scheme \<Rightarrow> bool" where
  "pipe_outs p s bs t \<longleftrightarrow> (\<exists>c i s0 n. in_pipe c i p s0 s \<and> piperead_loop c p n s = Ok (P_read bs, t))"

definition pipe_idle :: "uint \<Rightarrow> 'a file_state_scheme \<Rightarrow> 'a file_state_scheme \<Rightarrow> bool" where
  "pipe_idle p s t \<longleftrightarrow> the_pipe p t = the_pipe p s"

lemma pipe_ins_law:
  assumes "pipe_ok (the_pipe p s)" "pipe_ins p s bs t"
  shows "pipe_ok (the_pipe p t) \<and> contents (the_pipe p t) = contents (the_pipe p s) @ bs"
proof -
  obtain c i s0 rest out where *: "in_pipe c i p s0 s" "pipewrite_loop c p (bs @ rest) s = Ok (out, t)"
    "case out of P_wrote \<Rightarrow> rest = [] | P_full r \<Rightarrow> r = rest | P_failed \<Rightarrow> pipe_len (the_pipe p s) + length bs = 512"
    using assms(2) by (auto simp: pipe_ins_def)
  let ?k = "512 - pipe_len (the_pipe p s)"
  show ?thesis
  proof (cases "pipe_len (the_pipe p s) + length (bs @ rest) \<le> 512")
    case True
    then have "out = P_wrote" "t = wakeup1 (Some (Chan_pipe_read p)) (upd_pipe p (fold pipe_put (bs @ rest)) s)"
      using pipewrite_loop_fits [OF *(1) assms(1) True] *(2) by auto
    then show ?thesis
      using fold_put [OF assms(1), of bs] True *(3) by simp
  next
    case False
    then have out: "out = P_failed \<or> out = P_full (drop ?k (bs @ rest))"
      and t: "pipes t = pipes (upd_pipe p (fold pipe_put (take ?k (bs @ rest))) s)"
      using pipewrite_loop_full [OF *(1) assms(1), of "bs @ rest"] *(2) by (auto split: if_splits)
    have k: "length bs = ?k"
      using out *(3) False assms(1) by (auto simp: pipe_ok_def dest!: arg_cong [of _ _ length])
    then show ?thesis
      using fold_put [OF assms(1), of bs] t assms(1) by (simp add: pipe_ok_def)
  qed
qed

lemma pipe_outs_law:
  assumes "pipe_ok (the_pipe p s)" "pipe_outs p s bs t"
  shows "pipe_ok (the_pipe p t) \<and> contents (the_pipe p s) = bs @ contents (the_pipe p t)"
proof -
  obtain c i s0 n where *: "in_pipe c i p s0 s" "piperead_loop c p n s = Ok (P_read bs, t)"
    using assms(2) by (auto simp: pipe_outs_def)
  have "bs = fst (pipe_take n (the_pipe p s))" "the_pipe p t = snd (pipe_take n (the_pipe p s))"
    using *(2) in_pipe_wakeup [of c i p s0 "upd_pipe p (\<lambda>_. snd (pipe_take n (the_pipe p s))) s"] *(1)
    by (auto simp: piperead_loop_def in_pipe_with_cur [OF *(1)] split_beta Let_def outcome_simps split: if_splits)
  then show ?thesis
    using pipe_take_contents [OF assms(1), of n] by simp
qed

interpretation pp: byte_stream "pipe_ins p" "pipe_outs p" "pipe_idle p" "\<lambda>s. pipe_ok (the_pipe p s)" "\<lambda>s. contents (the_pipe p s)" for p
proof unfold_locales
  show "pipe_ok (the_pipe p s) \<Longrightarrow> pipe_outs p s bs t \<Longrightarrow> pipe_ok (the_pipe p t) \<and> contents (the_pipe p s) = bs @ contents (the_pipe p t)"
    for s bs and t :: "'a file_state_scheme"
    by (rule pipe_outs_law)
qed (auto simp: pipe_idle_def dest: pipe_ins_law)

section \<open>Properties\<close>

text \<open>C23: \<^verbatim>\<open>pipewrite\<close> and \<^verbatim>\<open>piperead\<close> refine a queue of at most 512 bytes, whatever the values of the two counters, which may
  wrap around: in a state where the locks are free, their result and the contents they leave are those of
  the operations on the queue, the write that waits or fails half-way and the read from a closed pipe included, and
  they leave every other pipe alone.\<close>

theorem pipe_refines_queue:
  assumes "quiet c i s" "pipe_ok (the_pipe p s)"
  shows "bindr (pipewrite c p bs s) (\<lambda>(r, t). if pipe_after c i p s t then Ok (r, contents (the_pipe p t)) else Fault)
      = q_write (blocked i p s) (contents (the_pipe p s)) bs
    \<and> bindr (piperead c p n s) (\<lambda>(r, got, t). if pipe_after c i p s t then Ok (r, got, contents (the_pipe p t)) else Fault)
      = q_read (p_killed (the_proc i s)) (writeopen (the_pipe p s)) n (contents (the_pipe p s))"
  using pipewrite_queue [OF assms] piperead_queue [OF assms] by simp

text \<open>A machine with a pipe whose counters are about to wrap around.\<close>

definition pipe_machine :: file_state where
  "pipe_machine =
     \<lparr>cpus = [idle_cpu0\<lparr>cpu_proc := Some 0\<rparr>], locks = (\<lambda>_. free_lock), kout = [], cons_locking = True,
      ram = (\<lambda>_. 0), freelist = 0, use_lock = True, kend = 0x80200000, kpgdir = 0x80300000,
      kdata = 0x80108000, ptable = [no_proc\<lparr>p_state := RUNNING, p_pid := 1\<rparr>], nextpid = 2,
      initproc = Some 0, start_state = START_STATE, ps_pid = 0, ps_ticks = 0, ps_startflag = 0,
      sched_test = False, ticks = 0, sleeplocks = (\<lambda>_. \<lparr>sl_locked = False, sl_name = [], sl_pid = 0\<rparr>),
      bufs = [], bcache_list = [], memdisk = (\<lambda>_. []), disksize = 0, dwrites = [],
      log_start = 0, log_size = 0, outstanding = 0, committing = False, log_dev = 1, lh = \<lparr>lh_n = 0, lh_block = []\<rparr>,
      sb = \<lparr>sb_size = 0, sb_nblocks = 0, sb_ninodes = 0, sb_nlog = 0, sb_logstart = 0, sb_inodestart = 0, sb_bmapstart = 0\<rparr>,
      inodes = [], input = \<lparr>in_buf = [], in_r = 0, in_w = 0, in_e = 0\<rparr>, devsw = [], ftable = [],
      pipes = (\<lambda>_. \<lparr>p_data = replicate 512 0, nread = 0xFFFFFFFF, nwrite = 0xFFFFFFFF, readopen = True, writeopen = True\<rparr>),
      forkret_first = False\<rparr>"

lemma pipe_machine_ok: "quiet 0 0 pipe_machine" "pipe_ok (the_pipe p pipe_machine)" "contents (the_pipe p pipe_machine) = []"
  "\<not> blocked 0 p pipe_machine" "writeopen (the_pipe p pipe_machine)"
  by (simp_all add: pipe_machine_def quiet_def idle_cpu0_def lock_idle_def free_lock_def pipe_ok_def pipe_len_def contents_def
    blocked_def no_proc_def)

theorem pipe_refines_queue_witness:
  "bindr (pipewrite 0 0 [1, 2] pipe_machine)
     (\<lambda>(r, t). if pipe_after 0 0 0 pipe_machine t then Ok (r, contents (the_pipe 0 t)) else Fault) = Ok (2, [1, 2])"
  using pipe_refines_queue [OF pipe_machine_ok(1,2), of 0 "[1, 2]"] pipe_machine_ok(3) [of 0] by (simp add: q_write_def)

text \<open>C24: A pipe neither loses, nor repeats, nor reorders bytes. In every history of a pipe, in which any processes on any
  CPUs run through the loops of \<^verbatim>\<open>pipewrite\<close> and \<^verbatim>\<open>piperead\<close>, sleep in the middle of them and go on later, and other things
  happen in between that do not touch the pipe, what was in it at the beginning followed by what has been written is
  what has been read followed by what is in it at the end.\<close>

theorem pipe_in_order:
  assumes "pipe_ok (the_pipe p s)" "stream_run (pipe_ins p) (pipe_outs p) (pipe_idle p) s sent got t"
  shows "contents (the_pipe p s) @ sent = got @ contents (the_pipe p t)"
  using pp.in_order [OF assms(2,1)] by simp

theorem pipe_in_order_witness:
  "\<exists>t. stream_run (pipe_ins 0) (pipe_outs 0) (pipe_idle 0) pipe_machine [1, 2] [] t \<and> contents (the_pipe 0 t) = [1, 2]"
proof -
  let ?g = "grabbed 0 (L_pipe 0) pipe_machine"
  have g: "in_pipe 0 0 0 pipe_machine ?g"
    using in_pipe_grabbed [OF pipe_machine_ok(1)] .
  have len: "pipe_len (the_pipe 0 pipe_machine) = 0"
    using length_contents [of "the_pipe 0 pipe_machine"] pipe_machine_ok(3) by simp
  obtain t where "pipewrite_loop 0 0 [1, 2] ?g = Ok (P_wrote, t)"
    using pipewrite_loop_fits [OF g, of "[1, 2]"] pipe_machine_ok(2) [of 0] len by simp
  then have ins: "pipe_ins 0 ?g [1, 2] t"
    unfolding pipe_ins_def using g by (intro exI [of _ 0] exI [of _ pipe_machine] exI [of _ "[]"] exI [of _ P_wrote]) simp
  have "stream_run (pipe_ins 0) (pipe_outs 0) (pipe_idle 0) pipe_machine [] [] ?g"
    by (rule run_idle [OF run_start]) (simp add: pipe_idle_def)
  from run_in [OF this ins] have run: "stream_run (pipe_ins 0) (pipe_outs 0) (pipe_idle 0) pipe_machine [1, 2] [] t"
    by simp
  then show ?thesis
    using pipe_in_order [OF pipe_machine_ok(2) run] pipe_machine_ok(3) [of 0] by (intro exI [of _ t]) simp
qed

end
