(* ===== verification/BioSpec.thy ===== *)
theory BioSpec
  imports Bio
begin

text \<open>
  The buffer cache as an array of blocks. \<open>bio_ok c i H s\<close> describes the cache while process \<open>i\<close> on CPU
  \<open>c\<close> has the buffers \<open>H\<close> locked and nobody else has any; \<open>blk s n\<close> is the block a reader of block \<open>n\<close>
  gets. \<open>bread\<close>, \<open>bwrite\<close> and \<open>brelse\<close> are specified in these terms, and a sequence of reads and writes
  through the cache behaves like an array.
\<close>

section \<open>Flags\<close>

definition valid :: "buf \<Rightarrow> bool" where
  "valid b \<longleftrightarrow> b_flags b AND B_VALID \<noteq> 0"

definition dirty :: "buf \<Rightarrow> bool" where
  "dirty b \<longleftrightarrow> b_flags b AND B_DIRTY \<noteq> 0"

lemma and_two: "(f :: uint) AND 2 \<noteq> 0 \<longleftrightarrow> bit f 1"
  by (metis (no_types) and_exp_eq_0_iff_not_bit power_one_right)

lemma and_four: "(f :: uint) AND 4 \<noteq> 0 \<longleftrightarrow> bit f 2"
  using and_exp_eq_0_iff_not_bit [of f 2] by simp

lemma flag_bits:
  "valid b \<longleftrightarrow> bit (b_flags b) 1" "dirty b \<longleftrightarrow> bit (b_flags b) 2"
  by (simp_all only: valid_def dirty_def B_VALID_def B_DIRTY_def and_two and_four)

lemma flags_or:
  "valid (b\<lparr>b_flags := f OR B_VALID\<rparr>)" "dirty (b\<lparr>b_flags := f OR B_VALID\<rparr>) \<longleftrightarrow> bit f 2"
  "valid (b\<lparr>b_flags := f OR B_DIRTY\<rparr>) \<longleftrightarrow> bit f 1" "dirty (b\<lparr>b_flags := f OR B_DIRTY\<rparr>)"
  "valid (b\<lparr>b_flags := f AND NOT B_DIRTY OR B_VALID\<rparr>)" "\<not> dirty (b\<lparr>b_flags := f AND NOT B_DIRTY OR B_VALID\<rparr>)"
  by (simp_all add: flag_bits B_VALID_def B_DIRTY_def bit_simps)

lemma bit_two: "bit (2 :: uint) n \<longleftrightarrow> n = 1"
  using bit_exp_iff [of 1 n, where 'a = uint] by (auto simp: possible_bit_def)

lemma bit_four: "bit (4 :: uint) n \<longleftrightarrow> n = 2"
  using bit_exp_iff [of 2 n, where 'a = uint] by (auto simp: possible_bit_def)

lemma flags_clean: "b_flags b AND (B_VALID OR B_DIRTY) = B_VALID \<longleftrightarrow> valid b \<and> \<not> dirty b"
proof
  assume eq: "b_flags b AND (B_VALID OR B_DIRTY) = B_VALID"
  have "bit (b_flags b AND (B_VALID OR B_DIRTY)) n = bit B_VALID n" for n
    by (simp only: eq)
  from this [of 1] this [of 2] show "valid b \<and> \<not> dirty b"
    by (simp only: flag_bits B_VALID_def B_DIRTY_def bit_and_iff bit_or_iff bit_two bit_four) simp
next
  assume "valid b \<and> \<not> dirty b"
  then show "b_flags b AND (B_VALID OR B_DIRTY) = B_VALID"
    unfolding flag_bits B_VALID_def B_DIRTY_def
    by (intro bit_word_eqI) (auto simp only: bit_and_iff bit_or_iff bit_two bit_four)
qed

lemma flags_zero [simp]: "\<not> valid (b\<lparr>b_flags := 0\<rparr>)" "\<not> dirty (b\<lparr>b_flags := 0\<rparr>)"
  by (simp_all add: valid_def dirty_def)

lemma flags_other [simp]:
  "valid (b\<lparr>b_refcnt := r\<rparr>) = valid b" "dirty (b\<lparr>b_refcnt := r\<rparr>) = dirty b"
  "valid (b\<lparr>b_data := d\<rparr>) = valid b" "dirty (b\<lparr>b_data := d\<rparr>) = dirty b"
  by (simp_all add: valid_def dirty_def)

section \<open>The state of the cache\<close>

abbreviation buf_for :: "uint \<Rightarrow> 'a bio_state_scheme \<Rightarrow> nat \<Rightarrow> bool" where
  "buf_for n s b \<equiv> b_dev (the_buf b s) = 1 \<and> b_blockno (the_buf b s) = n"

definition cached :: "uint \<Rightarrow> 'a bio_state_scheme \<Rightarrow> nat option" where
  "cached n s = List.find (buf_for n s) (bcache_list s)"

definition blk :: "'a bio_state_scheme \<Rightarrow> uint \<Rightarrow> block" where
  "blk s n = (case cached n s of
     Some b \<Rightarrow> b_data (the_buf b s)
   | None \<Rightarrow> memdisk s n)"

text \<open>The blocks that must not leave the cache.\<close>

definition pinned :: "'a bio_state_scheme \<Rightarrow> uint set" where
  "pinned s = {n. \<exists>b < NBUF. buf_for n s b \<and> dirty (the_buf b s)}"

definition cache_shape :: "'a bio_state_scheme \<Rightarrow> bool" where
  "cache_shape s \<longleftrightarrow> length (bufs s) = NBUF \<and> distinct (bcache_list s) \<and> set (bcache_list s) = {..<NBUF}
     \<and> (\<forall>b < NBUF. \<forall>d < NBUF. b_dev (the_buf b s) = 1 \<and> b_dev (the_buf d s) = 1
          \<and> b_blockno (the_buf b s) = b_blockno (the_buf d s) \<longrightarrow> b = d)
     \<and> (\<forall>b < NBUF. dirty (the_buf b s) \<longrightarrow> b_dev (the_buf b s) = 1)
     \<and> (\<forall>b < NBUF. b_dev (the_buf b s) = 1 \<longrightarrow> valid (the_buf b s))"

definition coherent :: "nat \<Rightarrow> 'a bio_state_scheme \<Rightarrow> bool" where
  "coherent b s \<longleftrightarrow> (b_dev (the_buf b s) = 1 \<and> \<not> dirty (the_buf b s) \<longrightarrow>
     b_data (the_buf b s) = memdisk s (b_blockno (the_buf b s)))"

definition bio_ok :: "nat \<Rightarrow> nat \<Rightarrow> nat set \<Rightarrow> 'a bio_state_scheme \<Rightarrow> bool" where
  "bio_ok c i H s \<longleftrightarrow> quiet c i s \<and> cache_shape s \<and> H \<subseteq> {..<NBUF}
     \<and> (\<forall>b < NBUF. b \<notin> H \<longrightarrow> coherent b s \<and> b_refcnt (the_buf b s) = 0 \<and> sl_free (L_sleep_buf b) s)
     \<and> (\<forall>b \<in> H. b_refcnt (the_buf b s) = 1 \<and> sl_held i (L_sleep_buf b) s \<and> b_dev (the_buf b s) = 1)"

text \<open>What the cache leaves alone.\<close>

definition bio_frame :: "'a bio_state_scheme \<Rightarrow> 'a bio_state_scheme \<Rightarrow> bool" where
  "bio_frame s t \<longleftrightarrow> t\<lparr>sleeplocks := sleeplocks s, bufs := bufs s, bcache_list := bcache_list s, memdisk := memdisk s,
       dwrites := dwrites s\<rparr> = s
     \<and> (\<forall>k. (\<forall>b. k \<noteq> L_sleep_buf b) \<longrightarrow> sleeplocks t k = sleeplocks s k)"

lemma bio_frame_refl [simp]: "bio_frame s s"
  by (simp add: bio_frame_def)

lemma bio_frame_trans [trans]:
  assumes "bio_frame s t" "bio_frame t u" shows "bio_frame s u"
proof -
  have "u\<lparr>sleeplocks := sleeplocks s, bufs := bufs s, bcache_list := bcache_list s, memdisk := memdisk s, dwrites := dwrites s\<rparr>
      = (u\<lparr>sleeplocks := sleeplocks t, bufs := bufs t, bcache_list := bcache_list t, memdisk := memdisk t, dwrites := dwrites t\<rparr>)
        \<lparr>sleeplocks := sleeplocks s, bufs := bufs s, bcache_list := bcache_list s, memdisk := memdisk s, dwrites := dwrites s\<rparr>"
    by simp
  then show ?thesis
    using assms unfolding bio_frame_def by simp
qed

lemma bio_frame_eq:
  assumes "bio_frame s t"
  shows "s\<lparr>sleeplocks := sleeplocks t, bufs := bufs t, bcache_list := bcache_list t, memdisk := memdisk t,
    dwrites := dwrites t\<rparr> = t" (is "?f s = t")
proof -
  have "?f (t\<lparr>sleeplocks := sleeplocks s, bufs := bufs s, bcache_list := bcache_list s, memdisk := memdisk s,
      dwrites := dwrites s\<rparr>) = t"
    by simp
  then show ?thesis
    using assms by (simp only: bio_frame_def)
qed

lemma bio_frame_fields:
  assumes "bio_frame s t"
  shows "cpus t = cpus s" "locks t = locks s" "ptable t = ptable s" "disksize t = disksize s"
    "bio_state.more t = bio_state.more s" "(\<And>b. k \<noteq> L_sleep_buf b) \<Longrightarrow> sleeplocks t k = sleeplocks s k"
  using arg_cong [OF bio_frame_eq [OF assms], of cpus] arg_cong [OF bio_frame_eq [OF assms], of locks]
    arg_cong [OF bio_frame_eq [OF assms], of ptable] arg_cong [OF bio_frame_eq [OF assms], of disksize]
    arg_cong [OF bio_frame_eq [OF assms], of bio_state.more]
  by simp_all (use assms in \<open>simp add: bio_frame_def\<close>)

lemma bio_frame_updates [simp]:
  "bio_frame s (upd_buf b f s)" "bio_frame s (s\<lparr>bcache_list := l\<rparr>)" "bio_frame s (upd_sleeplock (L_sleep_buf b) g s)"
  "bio_frame s (s\<lparr>memdisk := d, dwrites := w\<rparr>)"
  by (simp_all add: bio_frame_def upd_buf_def upd_sleeplock_def)

lemma quiet_frame: "bio_frame s t \<Longrightarrow> quiet c i t = quiet c i s"
  by (rule quiet_cong) (simp_all add: bio_frame_fields)

section \<open>Equations in quiet states\<close>

lemma upd_buf_fields [simp]:
  "cpus (upd_buf b f s) = cpus s" "locks (upd_buf b f s) = locks s" "ptable (upd_buf b f s) = ptable s"
  "sleeplocks (upd_buf b f s) = sleeplocks s" "bufs (upd_buf b f s) = upd b f (bufs s)"
  "bcache_list (upd_buf b f s) = bcache_list s" "memdisk (upd_buf b f s) = memdisk s"
  "disksize (upd_buf b f s) = disksize s" "dwrites (upd_buf b f s) = dwrites s"
  "bio_state.more (upd_buf b f s) = bio_state.more s"
  by (simp_all add: upd_buf_def)

lemma upd_buf_twice [simp]: "upd_buf b f (upd_buf b g s) = upd_buf b (\<lambda>k. f (g k)) s"
  by (simp add: upd_buf_def)

lemma bio_fields_lock [simp]:
  "bufs (upd_sleeplock l g s) = bufs s" "bcache_list (upd_sleeplock l g s) = bcache_list s"
  "memdisk (upd_sleeplock l g s) = memdisk s" "disksize (upd_sleeplock l g s) = disksize s"
  "dwrites (upd_sleeplock l g s) = dwrites s"
  "bufs (grabbed c k s) = bufs s" "bcache_list (grabbed c k s) = bcache_list s" "memdisk (grabbed c k s) = memdisk s"
  "disksize (grabbed c k s) = disksize s" "dwrites (grabbed c k s) = dwrites s"
  by (simp_all add: upd_sleeplock_def grabbed_def set_lock_def upd_cpu_def)

lemma quiet_bio [simp]:
  "quiet c i (upd_buf b f s) = quiet c i s" "quiet c i (s\<lparr>bcache_list := l\<rparr>) = quiet c i s"
  "quiet c i (s\<lparr>memdisk := d, dwrites := w\<rparr>) = quiet c i s"
  by (simp_all add: quiet_frame [OF bio_frame_updates(1)] quiet_frame [OF bio_frame_updates(2)]
      quiet_frame [OF bio_frame_updates(4)])

lemma ungrab_bio [simp]:
  "(upd_buf b f (grabbed c l s))\<lparr>cpus := cpus s, locks := locks s\<rparr> = upd_buf b f s"
  "((upd_buf b f (grabbed c l s))\<lparr>bcache_list := x\<rparr>)\<lparr>cpus := cpus s, locks := locks s\<rparr> = (upd_buf b f s)\<lparr>bcache_list := x\<rparr>"
  by (simp_all add: upd_buf_def grabbed_def set_lock_def upd_cpu_def)

lemma sl_upd_buf [simp]:
  "sl_free l (upd_buf b f s) = sl_free l s" "sl_held i l (upd_buf b f s) = sl_held i l s"
  "sl_free l (s\<lparr>bcache_list := x\<rparr>) = sl_free l s" "sl_held i l (s\<lparr>bcache_list := x\<rparr>) = sl_held i l s"
  "sl_free l (s\<lparr>memdisk := d, dwrites := w\<rparr>) = sl_free l s" "sl_held i l (s\<lparr>memdisk := d, dwrites := w\<rparr>) = sl_held i l s"
  by (simp_all add: sl_free_def sl_held_def)

lemma bget_hit:
  assumes "quiet c i s" "cached n s = Some b" "sl_free (L_sleep_buf b) s"
  shows "bget c 1 n s = Ok (b, sl_take i (L_sleep_buf b) (upd_buf b (\<lambda>k. k\<lparr>b_refcnt := b_refcnt k + 1\<rparr>) s))"
  using assms quiet_release [OF assms(1), of "upd_buf b (\<lambda>k. k\<lparr>b_refcnt := b_refcnt k + 1\<rparr>) (grabbed c L_bcache s)" L_bcache]
  by (simp add: bget_def quiet_acquire cached_def acquiresleep_quiet)

definition victim :: "'a bio_state_scheme \<Rightarrow> nat option" where
  "victim s = List.find (\<lambda>b. b_refcnt (the_buf b s) = 0 \<and> \<not> dirty (the_buf b s)) (rev (bcache_list s))"

abbreviation recycled :: "uint \<Rightarrow> buf \<Rightarrow> buf" where
  "recycled n k \<equiv> k\<lparr>b_dev := 1, b_blockno := n, b_flags := 0, b_refcnt := 1\<rparr>"

lemma bget_miss:
  assumes "quiet c i s" "cached n s = None" "victim s = Some b" "sl_free (L_sleep_buf b) s"
  shows "bget c 1 n s = Ok (b, sl_take i (L_sleep_buf b) (upd_buf b (recycled n) s))"
  using assms quiet_release [OF assms(1), of "upd_buf b (recycled n) (grabbed c L_bcache s)" L_bcache]
  by (simp add: bget_def quiet_acquire cached_def victim_def dirty_def acquiresleep_quiet)

lemma iderw_read:
  assumes "quiet c i s" "sl_held i (L_sleep_buf b) s" "b < length (bufs s)" "b_flags (the_buf b s) = 0"
    "b_dev (the_buf b s) = 1" "b_blockno (the_buf b s) < disksize s"
  shows "iderw c b s = Ok (upd_buf b (\<lambda>k. k\<lparr>b_data := memdisk s (b_blockno (the_buf b s)), b_flags := B_VALID\<rparr>) s)"
  using assms by (simp add: iderw_def holdingsleep_quiet Let_def B_VALID_def linorder_not_le upd_buf_def upd_def)

lemma iderw_write:
  assumes "quiet c i s" "sl_held i (L_sleep_buf b) s" "b < length (bufs s)" "dirty (the_buf b s)"
    "b_dev (the_buf b s) = 1" "b_blockno (the_buf b s) < disksize s"
  shows "iderw c b s = Ok ((upd_buf b (\<lambda>k. k\<lparr>b_flags := b_flags k AND NOT B_DIRTY OR B_VALID\<rparr>) s)
    \<lparr>memdisk := (memdisk s)(b_blockno (the_buf b s) := b_data (the_buf b s)),
     dwrites := dwrites s @ [(b_blockno (the_buf b s), b_data (the_buf b s))]\<rparr>)"
proof -
  have "b_flags (the_buf b s) AND (B_VALID OR B_DIRTY) \<noteq> B_VALID" "b_flags (the_buf b s) AND B_DIRTY \<noteq> 0"
    using assms(4) flags_clean by (auto simp: dirty_def)
  then show ?thesis
    using assms by (simp add: iderw_def holdingsleep_quiet Let_def linorder_not_le upd_buf_def upd_def)
qed

section \<open>Specifications\<close>

lemma find_Some_set: "List.find P xs = Some x \<Longrightarrow> x \<in> set xs \<and> P x"
  by (metis find_Some_iff nth_mem)

lemma option_eqI: "(\<And>b. x = Some b \<longleftrightarrow> y = Some b) \<Longrightarrow> x = y"
  by (cases x; cases y) auto

lemma cached_sound: "cache_shape s \<Longrightarrow> cached n s = Some b \<Longrightarrow> b < NBUF \<and> buf_for n s b"
  using find_Some_set [of "buf_for n s" "bcache_list s" b] by (simp add: cached_def cache_shape_def)

lemma cached_Some:
  assumes "cache_shape s"
  shows "cached n s = Some b \<longleftrightarrow> b < NBUF \<and> buf_for n s b"
proof
  assume "cached n s = Some b"
  then show "b < NBUF \<and> buf_for n s b"
    by (rule cached_sound [OF assms])
next
  assume b: "b < NBUF \<and> buf_for n s b"
  then obtain d where d: "cached n s = Some d"
    using assms by (cases "cached n s") (auto simp: cached_def find_None_iff cache_shape_def)
  then have "d < NBUF" "buf_for n s d"
    using cached_sound [OF assms] by blast+
  moreover have "b < NBUF" "buf_for n s b"
    using b by blast+
  ultimately have "d = b"
    using assms unfolding cache_shape_def by auto
  then show "cached n s = Some b"
    using d by simp
qed

lemma cached_None: "cache_shape s \<Longrightarrow> cached n s = None \<longleftrightarrow> (\<forall>b < NBUF. \<not> buf_for n s b)"
  using cached_Some [of s n] by (cases "cached n s") auto

lemma blk_cached: "cache_shape s \<Longrightarrow> b < NBUF \<Longrightarrow> b_dev (the_buf b s) = 1 \<Longrightarrow> blk s (b_blockno (the_buf b s)) = b_data (the_buf b s)"
  using cached_Some [of s "b_blockno (the_buf b s)" b] by (simp add: blk_def)

lemma blk_uncached: "cached n s = None \<Longrightarrow> blk s n = memdisk s n"
  by (simp add: blk_def)

text \<open>Two caches with the same blocks in them, and the same disk behind.\<close>

lemma blk_cong:
  assumes "cache_shape s" "cache_shape t" "memdisk t = memdisk s"
    and "\<And>b. b < NBUF \<Longrightarrow> b_dev (the_buf b t) = b_dev (the_buf b s) \<and> b_blockno (the_buf b t) = b_blockno (the_buf b s)
      \<and> b_data (the_buf b t) = b_data (the_buf b s)"
  shows "blk t = blk s"
proof
  fix n
  have "cached n t = Some b \<longleftrightarrow> cached n s = Some b" for b
    using cached_Some [OF assms(1), of n b] cached_Some [OF assms(2), of n b] assms(4) [of b] by auto
  then have "cached n t = cached n s"
    by (rule option_eqI)
  moreover have "b_data (the_buf b t) = b_data (the_buf b s)" if "cached n s = Some b" for b
    using assms(4) [of b] cached_sound [OF assms(1) that] by simp
  ultimately show "blk t n = blk s n"
    using assms(3) by (simp add: blk_def split: option.splits)
qed

lemma cache_shape_cong:
  assumes "cache_shape s" "length (bufs t) = NBUF" "distinct (bcache_list t)" "set (bcache_list t) = {..<NBUF}"
    and eq: "\<And>b. b < NBUF \<Longrightarrow> b_dev (the_buf b t) = b_dev (the_buf b s) \<and> b_blockno (the_buf b t) = b_blockno (the_buf b s)
      \<and> b_flags (the_buf b t) = b_flags (the_buf b s)"
  shows "cache_shape t"
proof -
  have "valid (the_buf b t) = valid (the_buf b s)" "dirty (the_buf b t) = dirty (the_buf b s)" if "b < NBUF" for b
    using eq [OF that] by (simp_all add: valid_def dirty_def)
  then show ?thesis
    using assms by (simp add: cache_shape_def)
qed

text \<open>What a call of \<open>bread\<close> for block \<open>n\<close> leads to.\<close>

definition read_to :: "nat \<Rightarrow> nat \<Rightarrow> nat set \<Rightarrow> uint \<Rightarrow> 'a bio_state_scheme \<Rightarrow> nat \<Rightarrow> 'a bio_state_scheme \<Rightarrow> bool" where
  "read_to c i H n s b t \<longleftrightarrow> b < NBUF \<and> b \<notin> H \<and> bio_ok c i (insert b H) t \<and> coherent b t
     \<and> b_blockno (the_buf b t) = n \<and> b_data (the_buf b t) = blk s n \<and> blk t = blk s \<and> memdisk t = memdisk s
     \<and> dwrites t = dwrites s \<and> pinned t = pinned s \<and> (\<forall>h \<in> H. the_buf h t = the_buf h s) \<and> bio_frame s t"

lemma bread_hit:
  assumes ok: "bio_ok c i H s" and b: "cached n s = Some b" "b \<notin> H"
  shows "\<exists>t. bread c 1 n s = Ok (b, t) \<and> read_to c i H n s b t"
proof -
  have shape: "cache_shape s" and q: "quiet c i s"
    using ok by (simp_all add: bio_ok_def)
  have b': "b < NBUF" "buf_for n s b"
    using b(1) cached_Some [OF shape] by auto
  have r: "b_refcnt (the_buf b s) = 0" "sl_free (L_sleep_buf b) s" "coherent b s" "b < length (bufs s)" "valid (the_buf b s)"
    using ok b(2) b' by (auto simp: bio_ok_def cache_shape_def)
  let ?u = "upd_buf b (\<lambda>k. k\<lparr>b_refcnt := b_refcnt k + 1\<rparr>) s"
  let ?t = "sl_take i (L_sleep_buf b) ?u"
  have "bread c 1 n s = Ok (b, ?t)"
    using bget_hit [OF q b(1) r(2)] r(4,5) by (simp add: bread_def valid_def)
  moreover have bt: "the_buf d ?t = (if d = b then (the_buf b s)\<lparr>b_refcnt := 1\<rparr> else the_buf d s)" if "d < NBUF" for d
    using that r(1) shape by (auto simp: cache_shape_def nth_upd)
  moreover have shape': "cache_shape ?t"
    using shape bt by (intro cache_shape_cong [OF shape]) (simp_all add: cache_shape_def)
  moreover have "blk ?t = blk s"
    using bt by (intro blk_cong [OF shape shape']) auto
  moreover have "b_data (the_buf b s) = blk s n"
    using blk_cached [OF shape b'(1)] b'(2) by simp
  moreover have "pinned ?t = pinned s"
    unfolding pinned_def using bt by (auto split: if_splits)
  moreover have "bio_frame s ?t"
    by (rule bio_frame_trans [OF bio_frame_updates(1) bio_frame_updates(3)])
  moreover have HN: "H \<subseteq> {..<NBUF}"
    using ok by (simp add: bio_ok_def)
  moreover have "the_buf h ?t = the_buf h s" if "h \<in> H" for h
    using bt [of h] that HN b(2) by auto
  ultimately show ?thesis
    using ok r b' b(2)
    by (intro exI [of _ ?t]) (auto simp: read_to_def bio_ok_def coherent_def sl_free_def sl_held_def)
qed

lemma victim_Some:
  assumes "bio_ok c i H s" "victim s = Some b"
  shows "b < NBUF" "b \<notin> H" "\<not> dirty (the_buf b s)" "coherent b s" "sl_free (L_sleep_buf b) s"
proof -
  have b: "b < NBUF" "b_refcnt (the_buf b s) = 0" "\<not> dirty (the_buf b s)"
    using find_Some_set [OF assms(2) [unfolded victim_def]] assms(1) by (simp_all add: bio_ok_def cache_shape_def)
  moreover have "b \<notin> H"
    using b(2) assms(1) by (auto simp: bio_ok_def)
  ultimately show "b < NBUF" "b \<notin> H" "\<not> dirty (the_buf b s)" "coherent b s" "sl_free (L_sleep_buf b) s"
    using assms(1) by (simp_all add: bio_ok_def)
qed

lemma cache_shape_recycle:
  assumes s: "cache_shape s" and b: "b < NBUF" "cached n s = None"
    and t: "length (bufs t) = NBUF" "bcache_list t = bcache_list s"
    and bt: "\<And>d. d < NBUF \<Longrightarrow> d \<noteq> b \<Longrightarrow> the_buf d t = the_buf d s"
    and btb: "buf_for n t b" "valid (the_buf b t)" "\<not> dirty (the_buf b t)"
  shows "cache_shape t"
proof -
  have "d = e" if "d < NBUF" "e < NBUF" "b_dev (the_buf d t) = 1" "b_dev (the_buf e t) = 1"
    "b_blockno (the_buf d t) = b_blockno (the_buf e t)" for d e
    using that bt [of d] bt [of e] b(2) cached_None [OF s, of n] s btb(1)
    by (cases "d = b"; cases "e = b") (auto simp: cache_shape_def)
  moreover have "dirty (the_buf d t) \<longrightarrow> b_dev (the_buf d t) = 1" "b_dev (the_buf d t) = 1 \<longrightarrow> valid (the_buf d t)"
    if "d < NBUF" for d
    using that bt [of d] btb s by (cases "d = b"; simp add: cache_shape_def)+
  ultimately show ?thesis
    using t s by (simp add: cache_shape_def)
qed

lemma pinned_recycle:
  assumes "\<And>d. d < NBUF \<Longrightarrow> d \<noteq> b \<Longrightarrow> the_buf d t = the_buf d s" "\<not> dirty (the_buf b t)" "\<not> dirty (the_buf b s)"
  shows "pinned t = pinned s"
proof -
  have "d < NBUF \<and> buf_for n t d \<and> dirty (the_buf d t) \<longleftrightarrow> d < NBUF \<and> buf_for n s d \<and> dirty (the_buf d s)" for d n
    using assms by (cases "d = b") auto
  then show ?thesis
    by (simp add: pinned_def)
qed

text \<open>Giving a clean buffer another block does not change what the blocks hold.\<close>

lemma blk_recycle:
  assumes s: "cache_shape s" and t: "cache_shape t" and mem: "memdisk t = memdisk s"
    and b: "b < NBUF" "coherent b s" "\<not> dirty (the_buf b s)" "cached n s = None"
    and bt: "\<And>d. d < NBUF \<Longrightarrow> d \<noteq> b \<Longrightarrow> the_buf d t = the_buf d s"
    and btb: "buf_for n t b" "b_data (the_buf b t) = memdisk s n"
  shows "blk t = blk s"
proof
  fix m
  show "blk t m = blk s m"
  proof (cases "cached m t")
    case None
    show ?thesis
    proof (cases "cached m s")
      case (Some d)
      then have "d < NBUF" "buf_for m s d"
        using cached_sound [OF s] by blast+
      then have "d = b"
        using None cached_None [OF t, of m] bt [of d] by (cases "d = b") auto
      then show ?thesis
        using None Some b(2,3) \<open>buf_for m s d\<close> mem by (simp add: blk_def coherent_def)
    qed (simp add: blk_def None mem)
  next
    case (Some d)
    then have d: "d < NBUF" "buf_for m t d"
      using cached_sound [OF t] by blast+
    show ?thesis
    proof (cases "d = b")
      case True
      then show ?thesis
        using Some d btb b(4) by (simp add: blk_def)
    next
      case False
      then have "cached m s = Some d"
        using d bt [of d] cached_Some [OF s] by simp
      then show ?thesis
        using Some bt [of d] d(1) False by (simp add: blk_def)
    qed
  qed
qed

lemma bread_miss:
  assumes ok: "bio_ok c i H s" and n: "n < disksize s" and b: "cached n s = None" "victim s = Some b"
  shows "\<exists>t. bread c 1 n s = Ok (b, t) \<and> read_to c i H n s b t"
proof -
  have shape: "cache_shape s" and q: "quiet c i s" and HN: "H \<subseteq> {..<NBUF}"
    using ok by (simp_all add: bio_ok_def)
  note v = victim_Some [OF ok b(2)]
  have len: "length (bufs s) = NBUF"
    using shape by (simp add: cache_shape_def)
  let ?u = "sl_take i (L_sleep_buf b) (upd_buf b (recycled n) s)"
  let ?t = "upd_buf b (\<lambda>k. k\<lparr>b_data := memdisk s n, b_flags := B_VALID\<rparr>) ?u"
  have u: "the_buf b ?u = recycled n (the_buf b s)" "quiet c i ?u" "sl_held i (L_sleep_buf b) ?u" "b < length (bufs ?u)"
    using v(1) len q by (simp_all add: nth_upd sl_held_def)
  have "iderw c b ?u = Ok ?t"
    using iderw_read [OF u(2-4)] u(1) n by simp
  then have "bread c 1 n s = Ok (b, ?t)"
    using bget_miss [OF q b v(5)] u(1) by (simp add: bread_def)
  moreover have btb: "the_buf b ?t = (recycled n (the_buf b s))\<lparr>b_data := memdisk s n, b_flags := B_VALID\<rparr>"
    using v(1) len by (simp add: nth_upd)
  moreover have bt: "the_buf d ?t = the_buf d s" if "d < NBUF" "d \<noteq> b" for d
    using that len by (simp add: nth_upd)
  moreover have clean: "valid (the_buf b ?t)" "\<not> dirty (the_buf b ?t)"
    using btb by (simp_all add: valid_def dirty_def B_VALID_def B_DIRTY_def)
  moreover have shape': "cache_shape ?t"
    using len btb clean by (intro cache_shape_recycle [OF shape v(1) b(1) _ _ bt]) auto
  moreover have "blk ?t = blk s"
    using btb by (intro blk_recycle [OF shape shape' _ v(1,4,3) b(1) bt]) auto
  moreover have "pinned ?t = pinned s"
    by (rule pinned_recycle [OF bt clean(2) v(3)])
  moreover have "bio_frame s ?t"
    using bio_frame_trans [OF bio_frame_trans [OF bio_frame_updates(1) bio_frame_updates(3)] bio_frame_updates(1)] .
  moreover have "the_buf h ?t = the_buf h s" if "h \<in> H" for h
    using bt [of h] that HN v(2) by blast
  ultimately show ?thesis
    using ok v u(2) HN
    by (intro exI [of _ ?t]) (auto simp: read_to_def bio_ok_def coherent_def sl_free_def sl_held_def blk_uncached [OF b(1)])
qed

text \<open>A free buffer: one that no one holds and the log has not pinned.\<close>

definition spare :: "nat set \<Rightarrow> 'a bio_state_scheme \<Rightarrow> bool" where
  "spare H s \<longleftrightarrow> (\<exists>b < NBUF. b \<notin> H \<and> \<not> dirty (the_buf b s))"

lemma spare_card:
  assumes ok: "bio_ok c i H s" and "card (pinned s) + card H < NBUF"
  shows "spare H s"
proof (rule ccontr)
  assume "\<not> spare H s"
  then have dirty: "b \<in> H \<or> dirty (the_buf b s)" if "b < NBUF" for b
    using that by (auto simp: spare_def)
  let ?D = "{b. b < NBUF \<and> dirty (the_buf b s)}"
  have fin: "finite H" "finite ?D"
    using ok finite_subset [of H "{..<NBUF}"] by (auto simp: bio_ok_def)
  have "inj_on (\<lambda>b. b_blockno (the_buf b s)) ?D" "(\<lambda>b. b_blockno (the_buf b s)) ` ?D = pinned s"
    using ok by (auto simp: bio_ok_def cache_shape_def inj_on_def pinned_def)
  then have "card ?D = card (pinned s)"
    by (metis card_image)
  moreover have "NBUF \<le> card (H \<union> ?D)"
    using card_mono [of "H \<union> ?D" "{..<NBUF}"] fin dirty by auto
  ultimately show False
    using assms(2) card_Un_le [of H ?D] by linarith
qed

lemma bread_spec:
  assumes ok: "bio_ok c i H s" and n: "n < disksize s" "\<forall>h \<in> H. b_blockno (the_buf h s) \<noteq> n"
    and room: "n \<in> pinned s \<or> spare H s"
  obtains b t where "bread c 1 n s = Ok (b, t)" "read_to c i H n s b t"
proof (cases "cached n s")
  case (Some b)
  then have "b \<notin> H"
    using n(2) ok cached_sound [of s n b] by (auto simp: bio_ok_def)
  then show ?thesis
    using bread_hit [OF ok Some] that by blast
next
  case None
  then have "n \<notin> pinned s"
    using ok cached_None [of s n] by (auto simp: bio_ok_def pinned_def)
  then obtain d where d: "d < NBUF" "d \<notin> H" "\<not> dirty (the_buf d s)"
    using room by (auto simp: spare_def)
  then have "d \<in> set (bcache_list s)" "b_refcnt (the_buf d s) = 0"
    using ok by (auto simp: bio_ok_def cache_shape_def)
  then obtain b where "victim s = Some b"
    using d(3) by (cases "victim s") (auto simp: victim_def find_None_iff)
  then show ?thesis
    using bread_miss [OF ok n(1) None] that by blast
qed

text \<open>Changing a buffer that is held.\<close>

lemma held_upd:
  assumes ok: "bio_ok c i H s" and b: "b \<in> H" and f: "\<And>k. b_dev (f k) = b_dev k" "\<And>k. b_blockno (f k) = b_blockno k"
    "\<And>k. b_refcnt (f k) = b_refcnt k" "valid (f (the_buf b s))"
  shows "bio_ok c i H (upd_buf b f s)"
    and "blk (upd_buf b f s) = (blk s)(b_blockno (the_buf b s) := b_data (f (the_buf b s)))"
proof -
  let ?t = "upd_buf b f s"
  have shape: "cache_shape s" and len: "length (bufs s) = NBUF" and bN: "b < NBUF" and dev: "b_dev (the_buf b s) = 1"
    using ok b by (auto simp: bio_ok_def cache_shape_def)
  have bt: "the_buf d ?t = (if d = b then f (the_buf b s) else the_buf d s)" if "d < NBUF" for d
    using that len by (simp add: nth_upd)
  have id: "b_dev (the_buf d ?t) = b_dev (the_buf d s)" "b_blockno (the_buf d ?t) = b_blockno (the_buf d s)"
    "b_refcnt (the_buf d ?t) = b_refcnt (the_buf d s)" if "d < NBUF" for d
    using bt [OF that] f(1-3) by simp_all
  have flags: "dirty (the_buf d ?t) \<longrightarrow> b_dev (the_buf d ?t) = 1" "b_dev (the_buf d ?t) = 1 \<longrightarrow> valid (the_buf d ?t)"
    if "d < NBUF" for d
    unfolding bt [OF that] using f(1,4) dev shape that by (simp_all add: cache_shape_def)
  have "d = e" if "d < NBUF" "e < NBUF" "b_dev (the_buf d ?t) = 1" "b_dev (the_buf e ?t) = 1"
    "b_blockno (the_buf d ?t) = b_blockno (the_buf e ?t)" for d e
    using that(1,2) that(3-5) [unfolded id [OF that(1)] id [OF that(2)]] shape unfolding cache_shape_def by blast
  then have shape': "cache_shape ?t"
    using flags shape unfolding cache_shape_def by simp
  have "coherent d ?t = coherent d s" if "d < NBUF" "d \<notin> H" for d
    using bt [OF that(1)] that b by (auto simp: coherent_def)
  moreover have "H \<subseteq> {..<NBUF}" "quiet c i ?t"
    using ok by (simp_all add: bio_ok_def)
  ultimately show "bio_ok c i H ?t"
    using ok shape' id unfolding bio_ok_def by (auto simp: subset_iff sl_held_def sl_free_def)
  show "blk ?t = (blk s)(b_blockno (the_buf b s) := b_data (f (the_buf b s)))"
  proof
    fix m
    have "cached m ?t = Some d \<longleftrightarrow> cached m s = Some d" for d
      using cached_Some [OF shape, of m d] cached_Some [OF shape', of m d] id [of d] by auto
    then have eq: "cached m ?t = cached m s"
      by (rule option_eqI)
    have "d < NBUF \<and> (d = b \<longleftrightarrow> m = b_blockno (the_buf b s))" if "cached m s = Some d" for d
      using that cached_Some [OF shape, of m d] cached_Some [OF shape, of m b] dev bN by auto
    moreover have "m \<noteq> b_blockno (the_buf b s)" if "cached m s = None"
      using that cached_None [OF shape, of m] dev bN by auto
    ultimately show "blk ?t m = ((blk s)(b_blockno (the_buf b s) := b_data (f (the_buf b s)))) m"
      using eq bt by (auto simp: blk_def split: option.splits)
  qed
qed

lemma held_disk:
  assumes ok: "bio_ok c i H s" and b: "b \<in> H" "b_blockno (the_buf b s) = n"
  shows "bio_ok c i H (s\<lparr>memdisk := (memdisk s)(n := d), dwrites := w\<rparr>)"
    and "blk (s\<lparr>memdisk := (memdisk s)(n := d), dwrites := w\<rparr>) = blk s"
proof -
  let ?t = "s\<lparr>memdisk := (memdisk s)(n := d), dwrites := w\<rparr>"
  have shape: "cache_shape s" and bN: "b < NBUF" "b_dev (the_buf b s) = 1"
    using ok b by (auto simp: bio_ok_def)
  have "coherent e ?t" if "e < NBUF" "e \<notin> H" for e
    using that ok b bN unfolding bio_ok_def cache_shape_def coherent_def by (auto simp: fun_upd_def)
  moreover have "cache_shape ?t" "quiet c i ?t"
    using ok by (simp_all add: cache_shape_def bio_ok_def)
  ultimately show "bio_ok c i H ?t"
    using ok by (simp add: bio_ok_def sl_free_def sl_held_def)
  have "cached n s \<noteq> None"
    using cached_None [OF shape] bN b(2) by auto
  then show "blk ?t = blk s"
    by (auto simp: fun_eq_iff blk_def cached_def split: option.splits)
qed

lemma set_data_spec:
  assumes "bio_ok c i H s" "b \<in> H"
  shows "bio_ok c i H (set_data b d s)" "blk (set_data b d s) = (blk s)(b_blockno (the_buf b s) := d)"
proof -
  have "valid (the_buf b s)"
    using assms by (auto simp: bio_ok_def cache_shape_def)
  then show "bio_ok c i H (set_data b d s)" "blk (set_data b d s) = (blk s)(b_blockno (the_buf b s) := d)"
    using held_upd [OF assms, of "\<lambda>k. k\<lparr>b_data := d\<rparr>"] by simp_all
qed

lemma bwrite_spec:
  assumes ok: "bio_ok c i H s" "b \<in> H" and n: "b_blockno (the_buf b s) < disksize s"
  obtains t where "bwrite c b s = Ok t" "bio_ok c i H t" "blk t = blk s"
    "the_buf b t = (the_buf b s)\<lparr>b_flags := b_flags (the_buf b s) AND NOT B_DIRTY OR B_VALID\<rparr>"
    "\<forall>d. d \<noteq> b \<longrightarrow> the_buf d t = the_buf d s"
    "memdisk t = (memdisk s)(b_blockno (the_buf b s) := b_data (the_buf b s))"
    "dwrites t = dwrites s @ [(b_blockno (the_buf b s), b_data (the_buf b s))]" "bio_frame s t"
proof -
  let ?n = "b_blockno (the_buf b s)"
  let ?d = "upd_buf b (\<lambda>k. k\<lparr>b_flags := b_flags k OR B_DIRTY\<rparr>) s"
  let ?u = "upd_buf b (\<lambda>k. k\<lparr>b_flags := b_flags k AND NOT B_DIRTY OR B_VALID\<rparr>) s"
  let ?t = "?u\<lparr>memdisk := (memdisk s)(?n := b_data (the_buf b s)), dwrites := dwrites s @ [(?n, b_data (the_buf b s))]\<rparr>"
  have q: "quiet c i s" "sl_held i (L_sleep_buf b) s" "b < length (bufs s)" "b_dev (the_buf b s) = 1"
    using ok by (auto simp: bio_ok_def cache_shape_def)
  have idem: "(f OR B_DIRTY) AND NOT B_DIRTY OR B_VALID = f AND NOT B_DIRTY OR B_VALID" for f :: uint
    by (intro bit_word_eqI) (auto simp: bit_simps)
  have "iderw c b ?d = Ok ?t"
    using iderw_write [of c i ?d b] q n by (simp add: nth_upd flags_or sl_held_def idem)
  then have "bwrite c b s = Ok ?t"
    using q by (simp add: bwrite_def holdingsleep_quiet)
  moreover have "bio_ok c i H ?u" "blk ?u = blk s"
    using held_upd [OF ok, of "\<lambda>k. k\<lparr>b_flags := b_flags k AND NOT B_DIRTY OR B_VALID\<rparr>"]
      blk_cached [of s b] ok q(4) by (auto simp: flags_or bio_ok_def fun_upd_idem)
  moreover from held_disk [OF this(1) ok(2)] this(2) have "bio_ok c i H ?t" "blk ?t = blk s"
    using q(3) by (simp_all add: nth_upd)
  moreover have "bio_frame s ?t"
    by (simp add: bio_frame_def upd_buf_def)
  ultimately show ?thesis
    using that [of ?t] q(3) by (simp add: nth_upd)
qed

lemma brelse_eq:
  assumes "bio_ok c i H s" "b \<in> H"
  shows "brelse c b s = Ok ((upd_buf b (\<lambda>k. k\<lparr>b_refcnt := 0\<rparr>) (sl_give (L_sleep_buf b) s))
    \<lparr>bcache_list := b # remove1 b (bcache_list s)\<rparr>)"
proof -
  have q: "quiet c i s" "sl_held i (L_sleep_buf b) s" "b < length (bufs s)" "b_refcnt (the_buf b s) = 1"
    using assms by (auto simp: bio_ok_def cache_shape_def)
  let ?g = "sl_give (L_sleep_buf b) s"
  let ?r = "upd_buf b (\<lambda>k. k\<lparr>b_refcnt := b_refcnt k - 1\<rparr>) (grabbed c L_bcache ?g)"
  let ?f = "?r\<lparr>bcache_list := b # remove1 b (bcache_list s)\<rparr>"
  have g: "quiet c i ?g"
    using q(1) by simp
  have r: "b_refcnt (the_buf b ?r) = 0"
    using q(3,4) by (simp add: nth_upd)
  have "release c L_bcache ?f = Ok ((upd_buf b (\<lambda>k. k\<lparr>b_refcnt := b_refcnt k - 1\<rparr>) ?g)
      \<lparr>bcache_list := b # remove1 b (bcache_list s)\<rparr>)"
    using quiet_release [OF g, of ?f L_bcache] unfolding ungrab_bio by simp
  moreover have "upd b (\<lambda>k. k\<lparr>b_refcnt := b_refcnt k - 1\<rparr>) (bufs s) = upd b (\<lambda>k. k\<lparr>b_refcnt := 0\<rparr>) (bufs s)"
    using q(4) by (simp add: upd_def)
  ultimately show ?thesis
    using q(1,2) r releasesleep_quiet [OF q(1), of "L_sleep_buf b"] quiet_acquire [OF g, of L_bcache]
    by (simp add: brelse_def holdingsleep_quiet Let_def upd_buf_def)
qed

lemma brelse_spec:
  assumes ok: "bio_ok c i H s" "b \<in> H" and coh: "coherent b s"
  obtains t where "brelse c b s = Ok t" "bio_ok c i (H - {b}) t" "blk t = blk s" "memdisk t = memdisk s"
    "dwrites t = dwrites s" "pinned t = pinned s" "\<forall>d. d \<noteq> b \<longrightarrow> the_buf d t = the_buf d s" 
    "the_buf b t = (the_buf b s)\<lparr>b_refcnt := 0\<rparr>" "bio_frame s t"
proof -
  let ?t = "(upd_buf b (\<lambda>k. k\<lparr>b_refcnt := 0\<rparr>) (sl_give (L_sleep_buf b) s))
    \<lparr>bcache_list := b # remove1 b (bcache_list s)\<rparr>"
  have shape: "cache_shape s" and len: "length (bufs s) = NBUF" and bN: "b < NBUF" and HN: "H \<subseteq> {..<NBUF}"
    using ok by (auto simp: bio_ok_def cache_shape_def)
  have bt: "the_buf d ?t = (if d = b then (the_buf b s)\<lparr>b_refcnt := 0\<rparr> else the_buf d s)" for d
    using len bN by (simp add: nth_upd)
  have shape': "cache_shape ?t"
    using shape bN by (intro cache_shape_cong [OF shape]) (auto simp: cache_shape_def nth_upd)
  moreover have "blk ?t = blk s"
    using len by (intro blk_cong [OF shape shape']) (auto simp: nth_upd)
  moreover have "pinned ?t = pinned s"
    unfolding pinned_def bt by (auto split: if_splits)
  moreover have "bio_frame s ?t"
    by (simp add: bio_frame_def upd_buf_def upd_sleeplock_def)
  moreover have "bio_ok c i (H - {b}) ?t"
  proof -
    have coh_eq: "coherent d ?t = coherent d s" for d
      unfolding coherent_def bt by simp
    have free: "coherent d ?t \<and> b_refcnt (the_buf d ?t) = 0 \<and> sl_free (L_sleep_buf d) ?t" if "d < NBUF" "d \<notin> H - {b}" for d
      unfolding coh_eq bt using that ok(1) coh by (cases "d = b") (simp_all add: bio_ok_def sl_free_def)
    have held: "b_refcnt (the_buf d ?t) = 1 \<and> sl_held i (L_sleep_buf d) ?t \<and> b_dev (the_buf d ?t) = 1" if "d \<in> H - {b}" for d
      unfolding bt using that ok(1) by (simp add: bio_ok_def sl_held_def)
    have "quiet c i ?t"
      using ok(1) by (simp add: bio_ok_def)
    then show ?thesis
      using shape' HN free held unfolding bio_ok_def by blast
  qed
  ultimately show ?thesis
    using that [of ?t] brelse_eq [OF ok] bt by simp
qed

lemma pin_spec:
  assumes "bio_ok c i H s" "b \<in> H" "t = upd_buf b (\<lambda>k. k\<lparr>b_flags := b_flags k OR B_DIRTY\<rparr>) s"
  shows "bio_ok c i H t" "blk t = blk s" "coherent b t" "pinned t = insert (b_blockno (the_buf b s)) (pinned s)"
proof -
  have b: "b < length (bufs s)" "b < NBUF" "b_dev (the_buf b s) = 1" "valid (the_buf b s)" "cache_shape s"
    using assms by (auto simp: bio_ok_def cache_shape_def)
  have "valid ((the_buf b s)\<lparr>b_flags := b_flags (the_buf b s) OR B_DIRTY\<rparr>)"
    using b(4) flag_bits(1) [of "the_buf b s"] by (simp add: flags_or)
  then show "bio_ok c i H t" "blk t = blk s"
    using held_upd [OF assms(1,2), of "\<lambda>k. k\<lparr>b_flags := b_flags k OR B_DIRTY\<rparr>"] assms(3)
      blk_cached [OF b(5,2,3)] by (simp_all add: fun_upd_idem)
  have bt: "the_buf d t = (if d = b then (the_buf b s)\<lparr>b_flags := b_flags (the_buf b s) OR B_DIRTY\<rparr> else the_buf d s)" for d
    using b(1) assms(3) by (simp add: nth_upd)
  show "coherent b t"
    using bt by (simp add: coherent_def flags_or)
  show "pinned t = insert (b_blockno (the_buf b s)) (pinned s)"
    unfolding pinned_def bt using b by (auto simp: flags_or split: if_splits)
qed

section \<open>Writes that reach the disk\<close>

definition apply_writes :: "(uint \<times> block) list \<Rightarrow> (uint \<Rightarrow> block) \<Rightarrow> uint \<Rightarrow> block" where
  "apply_writes W d = foldl (\<lambda>d (n, x). d(n := x)) d W"

lemma apply_writes_simps [simp]:
  "apply_writes [] d = d" "apply_writes (w # W) d = apply_writes W (d(fst w := snd w))"
  "apply_writes (V @ W) d = apply_writes W (apply_writes V d)"
  by (simp_all add: apply_writes_def split_beta)

text \<open>From \<open>s\<close> to \<open>t\<close> the blocks \<open>W\<close> went to the disk, in this order, and no other change was made.\<close>

definition emits :: "nat \<Rightarrow> nat \<Rightarrow> nat set \<Rightarrow> (uint \<times> block) list \<Rightarrow> 'a bio_state_scheme \<Rightarrow> 'a bio_state_scheme \<Rightarrow> bool" where
  "emits c i H W s t \<longleftrightarrow> bio_ok c i H t \<and> dwrites t = dwrites s @ W \<and> memdisk t = apply_writes W (memdisk s)
     \<and> blk t = apply_writes W (blk s) \<and> pinned t = pinned s - fst ` set W \<and> bio_frame s t"

lemma emits_trans: "emits c i H V s t \<Longrightarrow> emits c i J W t u \<Longrightarrow> emits c i J (V @ W) s u"
  by (auto simp: emits_def elim: bio_frame_trans)

lemma emits_refl: "bio_ok c i H s \<Longrightarrow> emits c i H [] s s"
  by (simp add: emits_def)

lemma read_emits: "read_to c i H n s b t \<Longrightarrow> emits c i (insert b H) [] s t"
  by (simp add: read_to_def emits_def)

lemma brelse_emits:
  assumes "bio_ok c i H s" "b \<in> H" "coherent b s"
  obtains t where "brelse c b s = Ok t" "emits c i (H - {b}) [] s t" "\<forall>d. d \<noteq> b \<longrightarrow> the_buf d t = the_buf d s"
    "\<forall>d. d \<noteq> b \<longrightarrow> coherent d t = coherent d s"
proof -
  obtain t where t: "brelse c b s = Ok t" "bio_ok c i (H - {b}) t" "blk t = blk s" "memdisk t = memdisk s"
    "dwrites t = dwrites s" "pinned t = pinned s" "\<forall>d. d \<noteq> b \<longrightarrow> the_buf d t = the_buf d s"
    "the_buf b t = (the_buf b s)\<lparr>b_refcnt := 0\<rparr>" "bio_frame s t"
    by (rule brelse_spec [OF assms])
  then show ?thesis
    using that [of t] by (simp add: emits_def coherent_def)
qed

lemma put_block:
  assumes ok: "bio_ok c i H s" "b \<in> H" and n: "b_blockno (the_buf b s) = n" "n < disksize s"
  obtains t where "bwrite c b (set_data b d s) = Ok t" "emits c i H [(n, d)] s t" "coherent b t"
    "\<forall>e. e \<noteq> b \<longrightarrow> the_buf e t = the_buf e s"
    "\<forall>e < NBUF. e \<noteq> b \<longrightarrow> coherent e t = coherent e s"
proof -
  have b: "b < length (bufs s)" "b < NBUF" "b_dev (the_buf b s) = 1" "cache_shape s"
    using ok by (auto simp: bio_ok_def cache_shape_def)
  note u = set_data_spec [OF ok, of d]
  obtain t where t: "bwrite c b (set_data b d s) = Ok t" "bio_ok c i H t" "blk t = blk (set_data b d s)"
    "the_buf b t = (the_buf b (set_data b d s))
      \<lparr>b_flags := b_flags (the_buf b (set_data b d s)) AND NOT B_DIRTY OR B_VALID\<rparr>"
    "\<forall>e. e \<noteq> b \<longrightarrow> the_buf e t = the_buf e (set_data b d s)" "memdisk t = (memdisk s)(n := d)"
    "dwrites t = dwrites s @ [(n, d)]" "bio_frame (set_data b d s) t"
    by (rule bwrite_spec [OF u(1) ok(2)]) (use b(1) n in \<open>simp_all add: nth_upd\<close>)
  have tb: "the_buf b t = (the_buf b s)\<lparr>b_data := d, b_flags := b_flags (the_buf b s) AND NOT B_DIRTY OR B_VALID\<rparr>"
    "\<And>e. e \<noteq> b \<Longrightarrow> the_buf e t = the_buf e s"
    using t(4,5) b(1) by (simp_all add: nth_upd)
  have other: "b_blockno (the_buf e s) \<noteq> n" if "e < NBUF" "e \<noteq> b" "b_dev (the_buf e s) = 1" for e
    using that b n(1) by (auto simp: cache_shape_def)
  have "dirty (the_buf e t) \<and> buf_for m t e \<longleftrightarrow> dirty (the_buf e s) \<and> buf_for m s e \<and> m \<noteq> n" if "e < NBUF" for e m
    using tb other [OF that] n(1) by (cases "e = b") (auto simp: flags_or(6))
  then have "pinned t = pinned s - {n}"
    unfolding pinned_def by blast
  moreover have "bio_frame s t"
    using bio_frame_trans [OF bio_frame_updates(1) t(8)] .
  ultimately have "emits c i H [(n, d)] s t"
    using t u(2) n(1) by (simp add: emits_def)
  moreover have "coherent b t"
    using tb(1) t(6) n(1) by (simp add: coherent_def)
  moreover have "coherent e t = coherent e s" if "e < NBUF" "e \<noteq> b" for e
    using tb(2) [OF that(2)] t(6) other [OF that] by (auto simp: coherent_def)
  ultimately show ?thesis
    using that t(1) tb(2) by blast
qed

lemma clean_on_disk: "bio_ok c i {} s \<Longrightarrow> n \<notin> pinned s \<Longrightarrow> memdisk s n = blk s n"
  using cached_sound [of s n] by (auto simp: blk_def bio_ok_def coherent_def pinned_def split: option.splits)

section \<open>The cache is an array\<close>

datatype bop = Rd uint | Wr uint block

primrec bop_block :: "bop \<Rightarrow> uint" where
  "bop_block (Rd n) = n"
| "bop_block (Wr n d) = n"

text \<open>The specification: reads and writes of an array of blocks, with the blocks read.\<close>

primrec array_run :: "bop list \<Rightarrow> (uint \<Rightarrow> block) \<Rightarrow> block list \<times> (uint \<Rightarrow> block)" where
  "array_run [] a = ([], a)"
| "array_run (p # ps) a =
     (case p of Rd n \<Rightarrow> (let (os, a') = array_run ps a in (a n # os, a')) | Wr n d \<Rightarrow> array_run ps (a(n := d)))"

text \<open>The same operations by a provider of reads and writes.\<close>

primrec block_run :: "(uint \<Rightarrow> 's \<Rightarrow> (block \<times> 's) res) \<Rightarrow> (uint \<Rightarrow> block \<Rightarrow> 's \<Rightarrow> 's res) \<Rightarrow> bop list \<Rightarrow> 's
    \<Rightarrow> (block list \<times> 's) res" where
  "block_run rd wr [] s = Ok ([], s)"
| "block_run rd wr (p # ps) s =
     (case p of
        Rd n \<Rightarrow> bindr (rd n s) (\<lambda>(d, s). bindr (block_run rd wr ps s) (\<lambda>(os, s). Ok (d # os, s)))
      | Wr n d \<Rightarrow> bindr (wr n d s) (\<lambda>s. block_run rd wr ps s))"

locale block_array =
  fixes rd :: "uint \<Rightarrow> 's \<Rightarrow> (block \<times> 's) res" and wr :: "uint \<Rightarrow> block \<Rightarrow> 's \<Rightarrow> 's res"
    and ok :: "'s \<Rightarrow> bool" and arr :: "'s \<Rightarrow> uint \<Rightarrow> block" and may :: "bop \<Rightarrow> 's \<Rightarrow> bool"
  assumes rd_ok: "ok s \<Longrightarrow> may (Rd n) s \<Longrightarrow> \<exists>t. rd n s = Ok (arr s n, t) \<and> ok t \<and> arr t = arr s \<and> (\<forall>p. may p s \<longrightarrow> may p t)"
    and wr_ok: "ok s \<Longrightarrow> may (Wr n d) s \<Longrightarrow> \<exists>t. wr n d s = Ok t \<and> ok t \<and> arr t = (arr s)(n := d) \<and> (\<forall>p. may p s \<longrightarrow> may p t)"
begin

lemma run_refines:
  "ok s \<Longrightarrow> \<forall>p \<in> set ps. may p s \<Longrightarrow>
   \<exists>os t. block_run rd wr ps s = Ok (os, t) \<and> ok t \<and> array_run ps (arr s) = (os, arr t)"
proof (induction ps arbitrary: s)
  case (Cons p ps)
  show ?case
  proof (cases p)
    case (Rd n)
    then obtain u where u: "rd n s = Ok (arr s n, u)" "ok u" "arr u = arr s" "\<forall>p. may p s \<longrightarrow> may p u"
      using rd_ok [of s n] Cons.prems by auto
    then show ?thesis
      using Cons.IH [of u] Cons.prems Rd by auto
  next
    case (Wr n d)
    then obtain u where u: "wr n d s = Ok u" "ok u" "arr u = (arr s)(n := d)" "\<forall>p. may p s \<longrightarrow> may p u"
      using wr_ok [of s n d] Cons.prems by auto
    then show ?thesis
      using Cons.IH [of u] Cons.prems Wr by (auto simp del: fun_upd_apply)
  qed
qed simp

end

definition read_block :: "nat \<Rightarrow> uint \<Rightarrow> 'a bio_state_scheme \<Rightarrow> (block \<times> 'a bio_state_scheme) res" where
  "read_block c n s =
     bindr (bread c 1 n s) (\<lambda>(b, s).
       let d = b_data (the_buf b s) in bindr (brelse c b s) (\<lambda>s. Ok (d, s)))"

definition write_block :: "nat \<Rightarrow> uint \<Rightarrow> block \<Rightarrow> 'a bio_state_scheme \<Rightarrow> 'a bio_state_scheme res" where
  "write_block c n d s =
     bindr (bread c 1 n s) (\<lambda>(b, s). bindr (bwrite c b (set_data b d s)) (\<lambda>s. brelse c b s))"

lemma read_block_emits:
  assumes "bio_ok c i {} s" "n < disksize s" "n \<in> pinned s \<or> spare {} s"
  obtains t where "read_block c n s = Ok (blk s n, t)" "emits c i {} [] s t"
proof -
  obtain b u where u: "bread c 1 n s = Ok (b, u)" "read_to c i {} n s b u"
    using bread_spec [OF assms(1,2) _ assms(3)] by auto
  then have "bio_ok c i {b} u" "coherent b u" "b_data (the_buf b u) = blk s n"
    by (simp_all add: read_to_def)
  moreover obtain t where "brelse c b u = Ok t" "emits c i ({b} - {b}) [] u t"
    using brelse_emits [OF calculation(1) _ calculation(2)] by blast
  ultimately show ?thesis
    using that [of t] u emits_trans [OF read_emits [OF u(2)], of "{}" "[]" t] by (simp add: read_block_def)
qed

lemma write_block_emits:
  assumes "bio_ok c i {} s" "n < disksize s" "n \<in> pinned s \<or> spare {} s"
  obtains t where "write_block c n d s = Ok t" "emits c i {} [(n, d)] s t"
proof -
  obtain b u where u: "bread c 1 n s = Ok (b, u)" "read_to c i {} n s b u"
    using bread_spec [OF assms(1,2) _ assms(3)] by auto
  then have b: "bio_ok c i {b} u" "b_blockno (the_buf b u) = n" "n < disksize u"
    using assms(2) by (auto simp: read_to_def bio_frame_fields)
  obtain v where v: "bwrite c b (set_data b d u) = Ok v" "emits c i {b} [(n, d)] u v" "coherent b v"
    using put_block [OF b(1) _ b(2,3)] by blast
  moreover obtain t where "brelse c b v = Ok t" "emits c i ({b} - {b}) [] v t"
    by (rule brelse_emits [of c i "{b}" v b]) (use v(2,3) in \<open>simp_all add: emits_def\<close>)
  ultimately show ?thesis
    using that [of t] u emits_trans [OF read_emits [OF u(2)], of "{}" "[(n, d)]" t]
      emits_trans [OF v(2), of "{}" "[]" t] by (simp add: write_block_def)
qed

interpretation bc: block_array "read_block c" "write_block c" "\<lambda>s. bio_ok c i {} s \<and> card (pinned s) < NBUF" blk
  "\<lambda>p s. bop_block p < disksize s"
proof unfold_locales
  fix s :: "'a bio_state_scheme" and n
  assume s: "bio_ok c i {} s \<and> card (pinned s) < NBUF" and n: "bop_block (Rd n) < disksize s"
  then have "n \<in> pinned s \<or> spare {} s"
    using spare_card [of c i "{}" s] by simp
  then obtain t where t: "read_block c n s = Ok (blk s n, t)" "emits c i {} [] s t"
    using read_block_emits [of c i s n] s n unfolding bop_block.simps by blast
  then show "\<exists>t. read_block c n s = Ok (blk s n, t) \<and> (bio_ok c i {} t \<and> card (pinned t) < NBUF) \<and> blk t = blk s
      \<and> (\<forall>p. bop_block p < disksize s \<longrightarrow> bop_block p < disksize t)"
    using s by (auto simp: emits_def bio_frame_fields)
next
  fix s :: "'a bio_state_scheme" and n d
  assume s: "bio_ok c i {} s \<and> card (pinned s) < NBUF" and n: "bop_block (Wr n d) < disksize s"
  then have "n \<in> pinned s \<or> spare {} s"
    using spare_card [of c i "{}" s] by simp
  then obtain t where t: "write_block c n d s = Ok t" "emits c i {} [(n, d)] s t"
    using write_block_emits [of c i s n] s n unfolding bop_block.simps by blast
  have "pinned t = pinned s - {n}" "disksize t = disksize s"
    using t(2) bio_frame_fields(4) [of s t] by (simp_all add: emits_def)
  moreover have "card (pinned s - {n}) < NBUF"
    using s by (intro le_less_trans [OF card_Diff1_le]) simp
  ultimately show "\<exists>t. write_block c n d s = Ok t \<and> (bio_ok c i {} t \<and> card (pinned t) < NBUF) \<and> blk t = (blk s)(n := d)
      \<and> (\<forall>p. bop_block p < disksize s \<longrightarrow> bop_block p < disksize t)"
    using t by (intro exI [of _ t]) (simp add: emits_def)
qed

text \<open>A machine whose only process runs on its only CPU, with a cold cache over the disk \<open>d\<close>.\<close>

definition empty_buf :: buf where
  "empty_buf = \<lparr>b_flags = 0, b_dev = 0, b_blockno = 0, b_refcnt = 0, b_data = replicate BSIZE 0\<rparr>"

definition cold_machine :: "(uint \<Rightarrow> block) \<Rightarrow> 'x \<Rightarrow> 'x bio_state_scheme" where
  "cold_machine d x =
     \<lparr>cpus = [idle_cpu0\<lparr>cpu_proc := Some 0\<rparr>], locks = (\<lambda>_. free_lock), kout = [], cons_locking = True,
      ram = (\<lambda>_. 0), freelist = 0, use_lock = True, kend = 0x80200000, kpgdir = 0x80300000,
      kdata = 0x80108000, ptable = [no_proc\<lparr>p_state := RUNNING, p_pid := 1\<rparr>], nextpid = 2,
      initproc = Some 0, start_state = START_STATE, ps_pid = 0, ps_ticks = 0, ps_startflag = 0,
      sched_test = False, ticks = 0, sleeplocks = (\<lambda>_. \<lparr>sl_locked = False, sl_name = [], sl_pid = 0\<rparr>),
      bufs = replicate NBUF empty_buf, bcache_list = rev [0..<NBUF], memdisk = d, disksize = 1000, dwrites = [], \<dots> = x\<rparr>"

lemma cold_ok: "bio_ok 0 0 {} (cold_machine d x)" "pinned (cold_machine d x) = {}" "blk (cold_machine d x) = d"
proof -
  have b: "the_buf b (cold_machine d x) = empty_buf" if "b < NBUF" for b
    using that by (simp add: cold_machine_def)
  have e: "\<not> dirty empty_buf" "b_dev empty_buf = 0" "b_refcnt empty_buf = 0"
    by (simp_all add: dirty_def empty_buf_def)
  have f: "length (bufs (cold_machine d x)) = NBUF" "bcache_list (cold_machine d x) = rev [0..<NBUF]" "memdisk (cold_machine d x) = d"
    "sl_free l (cold_machine d x)" for l
    by (simp_all add: cold_machine_def sl_free_def)
  have shape: "cache_shape (cold_machine d x)"
    unfolding cache_shape_def using b e f(1,2) by (auto simp: atLeast0LessThan)
  have "quiet 0 0 (cold_machine d x)"
    by (simp add: quiet_def cold_machine_def idle_cpu0_def free_lock_def lock_idle_def)
  then show "bio_ok 0 0 {} (cold_machine d x)"
    unfolding bio_ok_def coherent_def using shape b e f(4) by simp
  show "pinned (cold_machine d x) = {}"
    unfolding pinned_def using b e by auto
  show "blk (cold_machine d x) = d"
    using cached_None [OF shape] b e f(3) by (auto simp: blk_def)
qed

text \<open>C18: Reads and writes of blocks through the cache (\<open>bread\<close>, a change of the data, \<open>bwrite\<close>, \<open>brelse\<close>) return
  what the same reads and writes of an array of blocks return, whatever buffers they recycle, and leave on
  the disk what the array holds, as long as the log has not pinned every buffer; none of them fails.\<close>

theorem cache_refines_array:
  assumes "bio_ok c i {} s" "card (pinned s) < NBUF" "\<forall>p \<in> set ps. bop_block p < disksize s"
  shows "\<exists>os t. block_run (read_block c) (write_block c) ps s = Ok (os, t) \<and> array_run ps (blk s) = (os, blk t)
    \<and> bio_ok c i {} t \<and> (\<forall>n. n \<notin> pinned t \<longrightarrow> memdisk t n = blk t n)"
  using bc.run_refines [of c i s ps] assms clean_on_disk by blast

theorem cache_refines_array_witness:
  "\<exists>os t. block_run (read_block 0) (write_block 0) [Wr 7 [1], Rd 7, Rd 8] (cold_machine (\<lambda>_. [0]) ()) = Ok (os, t)
     \<and> os = [[1], [0]]"
  using cache_refines_array [of 0 0 "cold_machine (\<lambda>_. [0]) ()" "[Wr 7 [1], Rd 7, Rd 8]"] cold_ok [of "\<lambda>_. [0]" "()"]
  by (auto simp: NBUF_def cold_machine_def)

end
