(* ===== verification/LogSpec.thy ===== *)
theory LogSpec
  imports BioSpec Log
begin

text \<open>
  What the routines of \<^verbatim>\<open>log.c\<close> send to the disk. Each of \<open>write_log\<close>, \<open>write_head\<close>, \<open>install_trans\<close>, \<open>commit\<close> and
  \<open>recover_from_log\<close> is specified by the list of the blocks it writes, in order (\<open>emits\<close>); the header block
  is read back as it was written.
\<close>

section \<open>Layout\<close>

abbreviation log_block :: "'a log_state_scheme \<Rightarrow> nat \<Rightarrow> uint" where
  "log_block s k \<equiv> log_start s + of_nat k + 1"

definition log_area :: "uint \<Rightarrow> uint set" where
  "log_area st = {b. unat st \<le> unat b \<and> unat b < unat st + 30}"

text \<open>The log lies on the disk, and the header in memory has its array.\<close>

definition log_geom :: "'a log_state_scheme \<Rightarrow> bool" where
  "log_geom s \<longleftrightarrow> log_dev s = 1 \<and> length (lh_block (lh s)) = nat LOGSIZE \<and> unat (log_start s) + 30 \<le> unat (disksize s)"

text \<open>The transaction in memory consists of the blocks \<open>bs\<close>.\<close>

definition tx :: "uint list \<Rightarrow> 'a log_state_scheme \<Rightarrow> bool" where
  "tx bs s \<longleftrightarrow> lh_n (lh s) = int (length bs) \<and> take (length bs) (lh_block (lh s)) = bs \<and> length bs < 30
     \<and> (\<forall>b \<in> set bs. b < disksize s \<and> b \<notin> log_area (log_start s))"

lemma log_block_unat:
  assumes "log_geom s" "k < 29"
  shows "unat (log_block s k) = unat (log_start s) + k + 1"
proof -
  have "unat (disksize s) < 2 ^ 32"
    using unsigned_less [of "disksize s"] by simp
  then have "unat (log_start s) + k + 1 < 2 ^ 32"
    using assms by (simp add: log_geom_def)
  moreover have "log_block s k = word_of_nat (unat (log_start s) + k + 1)"
    by simp
  ultimately show ?thesis
    by (simp only: unat_of_nat) simp
qed

lemma log_block_lt:
  assumes "log_geom s" "k < 29"
  shows "log_block s k < disksize s" "log_block s k \<in> log_area (log_start s)" "log_start s < disksize s"
    "log_start s \<in> log_area (log_start s)" "log_start s \<noteq> log_block s k"
proof -
  note u = log_block_unat [OF assms]
  show "log_block s k < disksize s" "log_block s k \<in> log_area (log_start s)" "log_start s < disksize s"
    "log_start s \<in> log_area (log_start s)"
    using u assms by (simp_all add: word_less_nat_alt log_area_def log_geom_def)
  show "log_start s \<noteq> log_block s k"
  proof
    assume "log_start s = log_block s k"
    then have "unat (log_start s) = unat (log_block s k)"
      by (rule arg_cong)
    then show False
      using u by linarith
  qed
qed

lemma log_block_inj:
  assumes "log_geom s" "j < 29" "k < 29" "log_block s j = log_block s k"
  shows "j = k"
proof -
  have "unat (log_block s j) = unat (log_block s k)"
    by (rule arg_cong [OF assms(4)])
  then show ?thesis
    using log_block_unat [OF assms(1,2)] log_block_unat [OF assms(1,3)] by linarith
qed

lemma bio_frame_log:
  fixes s t :: "'a log_state_scheme"
  assumes "bio_frame s t"
  shows "log_start t = log_start s" "log_dev t = log_dev s" "lh t = lh s" "disksize t = disksize s" "log_size t = log_size s"
    "outstanding t = outstanding s" "committing t = committing s"
  using arg_cong [OF bio_frame_eq [OF assms], of log_start] arg_cong [OF bio_frame_eq [OF assms], of log_dev]
    arg_cong [OF bio_frame_eq [OF assms], of lh] arg_cong [OF bio_frame_eq [OF assms], of disksize]
    arg_cong [OF bio_frame_eq [OF assms], of log_size] arg_cong [OF bio_frame_eq [OF assms], of outstanding]
    arg_cong [OF bio_frame_eq [OF assms], of committing]
  by simp_all

lemma log_frame:
  assumes "bio_frame s t"
  shows "log_geom t = log_geom s" "tx bs t = tx bs s"
  by (simp_all add: log_geom_def tx_def bio_frame_log [OF assms])

section \<open>Copying blocks\<close>

lemma read_two:
  assumes ok: "bio_ok c i {} s" and n: "m < disksize s" "n < disksize s" "m \<noteq> n"
    and room: "m \<in> pinned s \<or> card (pinned s) < NBUF" "n \<in> pinned s \<or> card (pinned s) + 1 < NBUF"
  obtains x s1 y s2 where "bread c 1 m s = Ok (x, s1)" "bio_frame s s1" "bread c 1 n s1 = Ok (y, s2)" "x \<noteq> y"
    "emits c i {x, y} [] s s2" "b_blockno (the_buf x s2) = m" "b_blockno (the_buf y s2) = n"
    "b_data (the_buf x s2) = blk s m" "b_data (the_buf y s2) = blk s n" "coherent x s2" "coherent y s2"
proof -
  have "m \<in> pinned s \<or> spare {} s"
    using room(1) spare_card [OF ok] by auto
  then obtain x s1 where x: "bread c 1 m s = Ok (x, s1)" "read_to c i {} m s x s1"
    using bread_spec [OF ok n(1)] by blast
  then have s1: "bio_ok c i {x} s1" "pinned s1 = pinned s" "b_blockno (the_buf x s1) = m" "n < disksize s1" "bio_frame s s1"
    using n(2) by (auto simp: read_to_def bio_frame_log bio_frame_fields)
  then have "n \<in> pinned s1 \<or> spare {x} s1"
    using room(2) spare_card [OF s1(1)] by auto
  then obtain y s2 where y: "bread c 1 n s1 = Ok (y, s2)" "read_to c i {x} n s1 y s2"
    using bread_spec [OF s1(1,4)] s1(3) n(3) by blast
  have "emits c i {x, y} [] s s2"
    using emits_trans [OF read_emits [OF x(2)] read_emits [OF y(2)]] by (simp add: insert_commute)
  moreover have "the_buf x s2 = the_buf x s1" "memdisk s2 = memdisk s1" "x \<noteq> y"
    using y(2) by (auto simp: read_to_def)
  moreover from this have "coherent x s2"
    using x(2) by (auto simp: read_to_def coherent_def)
  ultimately show ?thesis
    using that [OF x(1) s1(5) y(1)] x(2) y(2) by (simp add: read_to_def)
qed

lemma copy_block:
  assumes ok: "bio_ok c i {a, b} s" "a \<noteq> b" and a: "b_blockno (the_buf a s) = n" "n < disksize s" and coh: "coherent b s"
  obtains u v t where "bwrite c a (set_data a (b_data (the_buf b s)) s) = Ok u" "brelse c b u = Ok v" "brelse c a v = Ok t"
    "emits c i {} [(n, b_data (the_buf b s))] s t"
proof -
  have bN: "b < NBUF"
    using ok(1) by (simp add: bio_ok_def)
  obtain u where u: "bwrite c a (set_data a (b_data (the_buf b s)) s) = Ok u"
    "emits c i {a, b} [(n, b_data (the_buf b s))] s u" "coherent a u"
    "\<forall>e. e \<noteq> a \<longrightarrow> the_buf e u = the_buf e s" "\<forall>e < NBUF. e \<noteq> a \<longrightarrow> coherent e u = coherent e s"
    by (rule put_block [OF ok(1) _ a]) auto
  have bu: "bio_ok c i {a, b} u" "coherent b u"
    using u(2,5) coh bN ok(2) by (simp_all add: emits_def)
  obtain v where v: "brelse c b u = Ok v" "emits c i ({a, b} - {b}) [] u v" "\<forall>d. d \<noteq> b \<longrightarrow> the_buf d v = the_buf d u"
    "\<forall>d. d \<noteq> b \<longrightarrow> coherent d v = coherent d u"
    by (rule brelse_emits [OF bu(1) _ bu(2)]) auto
  have av: "bio_ok c i {a} v" "coherent a v"
    using v u(3) ok(2) by (simp_all add: emits_def insert_Diff_if)
  obtain t where t: "brelse c a v = Ok t" "emits c i ({a} - {a}) [] v t"
    by (rule brelse_emits [OF av(1) _ av(2)]) auto
  have "emits c i {} [(n, b_data (the_buf b s))] s t"
    using emits_trans [OF emits_trans [OF u(2) v(2)] t(2)] by simp
  then show ?thesis
    using that u(1) v(1) t(1) by blast
qed

text \<open>Block \<open>n\<close> copied to block \<open>m\<close>, with the target read first as in \<open>write_log\<close>, or the source first as in
  \<open>install_trans\<close>.\<close>

lemma copy_target_first:
  assumes ok: "bio_ok c i {} s" and n: "m < disksize s" "n < disksize s" "m \<noteq> n"
    and room: "card (pinned s) < NBUF" "n \<in> pinned s \<or> card (pinned s) + 1 < NBUF"
  obtains x s1 y s2 u v t where "bread c 1 m s = Ok (x, s1)" "bio_frame s s1" "bread c 1 n s1 = Ok (y, s2)"
    "bwrite c x (set_data x (b_data (the_buf y s2)) s2) = Ok u" "brelse c y u = Ok v" "brelse c x v = Ok t"
    "emits c i {} [(m, blk s n)] s t"
proof -
  obtain x s1 y s2 where r: "bread c 1 m s = Ok (x, s1)" "bio_frame s s1" "bread c 1 n s1 = Ok (y, s2)"
    "x \<noteq> y" "emits c i {x, y} [] s s2" "b_blockno (the_buf x s2) = m" "b_blockno (the_buf y s2) = n"
    "b_data (the_buf x s2) = blk s m" "b_data (the_buf y s2) = blk s n" "coherent x s2" "coherent y s2"
    by (rule read_two [OF ok n disjI2 [OF room(1)] room(2)])
  have s2: "bio_ok c i {x, y} s2" "bio_frame s s2"
    using r(5) by (simp_all add: emits_def)
  obtain u v t where w: "bwrite c x (set_data x (b_data (the_buf y s2)) s2) = Ok u" "brelse c y u = Ok v" "brelse c x v = Ok t"
    "emits c i {} [(m, b_data (the_buf y s2))] s2 t"
    by (rule copy_block [OF s2(1) r(4,6) _ r(11)]) (use n(1) bio_frame_fields(4) [OF s2(2)] in auto)
  have "emits c i {} [(m, blk s n)] s t"
    using emits_trans [OF r(5) w(4)] r(9) by simp
  then show ?thesis
    by (rule that [OF r(1-3) w(1-3)])
qed

lemma copy_source_first:
  assumes ok: "bio_ok c i {} s" and n: "n < disksize s" "m < disksize s" "n \<noteq> m"
    and room: "card (pinned s) < NBUF" "m \<in> pinned s \<or> card (pinned s) + 1 < NBUF"
  obtains x s1 y s2 u v t where "bread c 1 n s = Ok (x, s1)" "bio_frame s s1" "bread c 1 m s1 = Ok (y, s2)"
    "bwrite c y (set_data y (b_data (the_buf x s2)) s2) = Ok u" "brelse c x u = Ok v" "brelse c y v = Ok t"
    "emits c i {} [(m, blk s n)] s t"
proof -
  obtain x s1 y s2 where r: "bread c 1 n s = Ok (x, s1)" "bio_frame s s1" "bread c 1 m s1 = Ok (y, s2)"
    "x \<noteq> y" "emits c i {x, y} [] s s2" "b_blockno (the_buf x s2) = n" "b_blockno (the_buf y s2) = m"
    "b_data (the_buf x s2) = blk s n" "b_data (the_buf y s2) = blk s m" "coherent x s2" "coherent y s2"
    by (rule read_two [OF ok n disjI2 [OF room(1)] room(2)])
  have s2: "bio_ok c i {y, x} s2" "bio_frame s s2"
    using r(5) by (simp_all add: emits_def insert_commute)
  obtain u v t where w: "bwrite c y (set_data y (b_data (the_buf x s2)) s2) = Ok u" "brelse c x u = Ok v" "brelse c y v = Ok t"
    "emits c i {} [(m, b_data (the_buf x s2))] s2 t"
    by (rule copy_block [OF s2(1) r(4) [symmetric] r(7) _ r(10)]) (use n(2) bio_frame_fields(4) [OF s2(2)] in auto)
  have "emits c i {} [(m, blk s n)] s t"
    using emits_trans [OF r(5) w(4)] r(8) by simp
  then show ?thesis
    by (rule that [OF r(1-3) w(1-3)])
qed

lemma emits_log:
  fixes s t :: "'a log_state_scheme"
  assumes "emits c i {} W s t" "log_geom s" "tx bs s"
  shows "bio_ok c i {} t" "log_geom t" "tx bs t" "log_start t = log_start s" "blk t = apply_writes W (blk s)"
    "pinned t = pinned s - fst ` set W"
  using assms log_frame [of s t] bio_frame_log(1) [of s t] by (auto simp: emits_def)

lemma tx_nth:
  assumes "tx bs s" "log_geom s" "j < length bs"
  shows "lh_block (lh s) ! j = bs ! j" "j < length (lh_block (lh s))" "j < 29" "bs ! j < disksize s" "bs ! j \<notin> log_area (log_start s)"
proof -
  show "lh_block (lh s) ! j = bs ! j"
    using assms nth_take [of j "length bs" "lh_block (lh s)"] by (simp add: tx_def)
  show "j < length (lh_block (lh s))" "j < 29" "bs ! j < disksize s" "bs ! j \<notin> log_area (log_start s)"
    using assms nth_mem [OF assms(3)] by (auto simp: tx_def log_geom_def LOGSIZE_def)
qed

section \<open>The loops\<close>

lemma write_log_loop_emits:
  "bio_ok c i {} s \<Longrightarrow> log_geom s \<Longrightarrow> tx bs s \<Longrightarrow> set bs \<subseteq> pinned s \<Longrightarrow> card (pinned s) < NBUF \<Longrightarrow> \<forall>j \<in> set js. j < length bs \<Longrightarrow>
   \<exists>t. write_log_loop c js s = Ok t \<and> emits c i {} (map (\<lambda>j. (log_block s j, blk s (bs ! j))) js) s t"
proof (induction js arbitrary: s)
  case Nil
  then show ?case
    by (simp add: emits_refl)
next
  case (Cons j js)
  then have j: "j < length bs" "bs ! j \<in> pinned s"
    by auto
  note b = tx_nth [OF Cons.prems(3,2) j(1)]
  note l = log_block_lt [OF Cons.prems(2) b(3)]
  have same: "log_block s j \<noteq> bs ! k" if "k < length bs" for k
    using tx_nth(5) [OF Cons.prems(3,2) that] l(2) by metis
  obtain x s1 y s2 u v t where r: "bread c 1 (log_block s j) s = Ok (x, s1)" "bio_frame s s1" "bread c 1 (bs ! j) s1 = Ok (y, s2)"
    "bwrite c x (set_data x (b_data (the_buf y s2)) s2) = Ok u" "brelse c y u = Ok v" "brelse c x v = Ok t"
    "emits c i {} [(log_block s j, blk s (bs ! j))] s t"
    by (rule copy_target_first [OF Cons.prems(1) l(1) b(4) same [OF j(1)] Cons.prems(5) disjI1 [OF j(2)]])
  note t = emits_log [OF r(7) Cons.prems(2,3)]
  have "log_block s j \<notin> set bs"
    using same by (metis in_set_conv_nth)
  then have "set bs \<subseteq> pinned t" "card (pinned t) < NBUF"
    using t(6) Cons.prems(4,5) le_less_trans [OF card_Diff1_le] by auto
  then obtain z where z: "write_log_loop c js t = Ok z" "emits c i {} (map (\<lambda>k. (log_block t k, blk t (bs ! k))) js) t z"
    using Cons.IH [OF t(1-3)] Cons.prems(6) by auto
  have m: "map (\<lambda>k. (log_block t k, blk t (bs ! k))) js = map (\<lambda>k. (log_block s k, blk s (bs ! k))) js"
    using Cons.prems(6) same [symmetric] t(4,5) by (intro map_cong) auto
  have "emits c i {} (map (\<lambda>k. (log_block s k, blk s (bs ! k))) (j # js)) s z"
    using emits_trans [OF r(7) z(2)] unfolding m by simp
  moreover have "write_log_loop c (j # js) s = Ok z"
    using r(1,3-6) z(1) b(1,2) Cons.prems(2) bio_frame_log [OF r(2)] by (simp add: log_geom_def Let_def)
  ultimately show ?case
    by blast
qed

lemma room_left:
  assumes "bio_ok c i {} s" "card (pinned s) < NBUF" "m \<in> pinned s \<or> card (pinned s) + 1 < NBUF"
  shows "card (pinned s - {m}) + 1 < NBUF"
proof -
  have "finite (pinned s)"
    unfolding pinned_def by (rule finite_subset [of _ "(\<lambda>b. b_blockno (the_buf b s)) ` {..<NBUF}"]) auto
  then have "m \<in> pinned s \<Longrightarrow> card (pinned s - {m}) + 1 = card (pinned s)"
    using card_Suc_Diff1 [of "pinned s" m] by simp
  then show ?thesis
    using assms(2,3) by (cases "m \<in> pinned s") simp_all
qed

lemma install_loop_emits:
  "bio_ok c i {} s \<Longrightarrow> log_geom s \<Longrightarrow> tx bs s \<Longrightarrow> card (pinned s) < NBUF \<Longrightarrow>
   \<forall>j \<in> set js. j < length bs \<and> (bs ! j \<in> pinned s \<or> card (pinned s) + 1 < NBUF) \<Longrightarrow>
   \<exists>t. install_loop c js s = Ok t \<and> emits c i {} (map (\<lambda>j. (bs ! j, blk s (log_block s j))) js) s t"
proof (induction js arbitrary: s)
  case Nil
  then show ?case
    by (simp add: emits_refl)
next
  case (Cons j js)
  then have j: "j < length bs" "bs ! j \<in> pinned s \<or> card (pinned s) + 1 < NBUF"
    by auto
  note b = tx_nth [OF Cons.prems(3,2) j(1)]
  note l = log_block_lt [OF Cons.prems(2) b(3)]
  have same: "log_block s k \<noteq> bs ! j" if "k < length bs" for k
    using log_block_lt(2) [OF Cons.prems(2) tx_nth(3) [OF Cons.prems(3,2) that]] b(5) by metis
  obtain x s1 y s2 u v t where r: "bread c 1 (log_block s j) s = Ok (x, s1)" "bio_frame s s1" "bread c 1 (bs ! j) s1 = Ok (y, s2)"
    "bwrite c y (set_data y (b_data (the_buf x s2)) s2) = Ok u" "brelse c x u = Ok v" "brelse c y v = Ok t"
    "emits c i {} [(bs ! j, blk s (log_block s j))] s t"
    by (rule copy_source_first [OF Cons.prems(1) l(1) b(4) same [OF j(1)] Cons.prems(4) j(2)])
  note t = emits_log [OF r(7) Cons.prems(2,3)]
  have "card (pinned t) + 1 < NBUF"
    using t(6) room_left [OF Cons.prems(1,4) j(2)] by simp
  then obtain z where z: "install_loop c js t = Ok z" "emits c i {} (map (\<lambda>k. (bs ! k, blk t (log_block t k))) js) t z"
    using Cons.IH [OF t(1-3)] Cons.prems(5) by auto
  have m: "map (\<lambda>k. (bs ! k, blk t (log_block t k))) js = map (\<lambda>k. (bs ! k, blk s (log_block s k))) js"
    using Cons.prems(5) same t(4,5) by (intro map_cong) auto
  have "emits c i {} (map (\<lambda>k. (bs ! k, blk s (log_block s k))) (j # js)) s z"
    using emits_trans [OF r(7) z(2)] unfolding m by simp
  moreover have "install_loop c (j # js) s = Ok z"
    using r(1,3-6) z(1) b(1,2) Cons.prems(2) bio_frame_log [OF r(2)] by (simp add: log_geom_def Let_def)
  ultimately show ?case
    by blast
qed

section \<open>The header block\<close>

definition put_entries :: "uint list \<Rightarrow> nat list \<Rightarrow> block \<Rightarrow> block" where
  "put_entries bs js d = fold (\<lambda>j d. splice (4 + 4 * j) (bytes32 (bs ! j)) d) js d"

definition head_of :: "uint list \<Rightarrow> block \<Rightarrow> block" where
  "head_of bs d = put_entries bs [0..<length bs] (splice 0 (bytes32 (of_nat (length bs))) d)"

definition head_blocks :: "block \<Rightarrow> uint list" where
  "head_blocks d = map (\<lambda>j. get32 d (4 + 4 * j)) [0..<nat (sint (get32 d 0))]"

lemma length_bytes32 [simp]: "length (bytes32 v) = 4"
  by (simp add: bytes32_def)

lemma length_put_entries: "\<forall>j \<in> set js. 8 + 4 * j \<le> length d \<Longrightarrow> length (put_entries bs js d) = length d"
  by (induction js arbitrary: d) (simp_all add: put_entries_def)

lemma get32_put_entries:
  "\<forall>j \<in> set js. 8 + 4 * j \<le> length d \<Longrightarrow> distinct js \<Longrightarrow> k \<in> set js \<Longrightarrow> get32 (put_entries bs js d) (4 + 4 * k) = bs ! k"
  "\<forall>j \<in> set js. 8 + 4 * j \<le> length d \<Longrightarrow> get32 (put_entries bs js d) 0 = get32 d 0"
proof -
  have apart: "4 + 4 * x \<le> 4 * y \<or> 4 + 4 * y \<le> 4 * x" if "x \<noteq> y" for x y :: nat
    using that by linarith
  have other: "get32 (put_entries bs js d) i = get32 d i"
    if "\<forall>j \<in> set js. 8 + 4 * j \<le> length d \<and> (i + 4 \<le> 4 + 4 * j \<or> 8 + 4 * j \<le> i)" for i js d
    using that by (induction js arbitrary: d) (simp_all add: put_entries_def get32_splice_other)
  then show "get32 (put_entries bs js d) 0 = get32 d 0" if "\<forall>j \<in> set js. 8 + 4 * j \<le> length d"
    using that by simp
  show "get32 (put_entries bs js d) (4 + 4 * k) = bs ! k"
    if "\<forall>j \<in> set js. 8 + 4 * j \<le> length d" "distinct js" "k \<in> set js"
    using that
  proof (induction js arbitrary: d)
    case (Cons j js)
    let ?d = "splice (4 + 4 * j) (bytes32 (bs ! j)) d"
    have step: "put_entries bs (j # js) d = put_entries bs js ?d" "\<forall>j \<in> set js. 8 + 4 * j \<le> length ?d"
      using Cons.prems(1) by (simp_all add: put_entries_def)
    show ?case
    proof (cases "k = j")
      case True
      have "4 + 4 * x \<le> 4 * j \<or> 4 + 4 * j \<le> 4 * x" if "x \<in> set js" for x
        using that Cons.prems(2) by (intro apart) auto
      then have "get32 (put_entries bs js ?d) (4 + 4 * k) = get32 ?d (4 + 4 * k)"
        using True Cons.prems step(2) by (intro other) auto
      then show ?thesis
        using True step(1) Cons.prems(1) get32_bytes32 [of "4 + 4 * j" d] by simp
    next
      case False
      then show ?thesis
        using Cons.IH [OF step(2)] Cons.prems step(1) by simp
    qed
  qed simp
qed

lemma head_roundtrip:
  assumes "length bs < 30" "length d = BSIZE"
  shows "head_blocks (head_of bs d) = bs" "length (head_of bs d) = BSIZE" "sint (get32 (head_of bs d) 0) = int (length bs)"
proof -
  let ?d = "splice 0 (bytes32 (of_nat (length bs))) d"
  have d: "length ?d = BSIZE" "\<forall>j \<in> set [0..<length bs]. 8 + 4 * j \<le> length ?d"
    using assms by (auto simp: BSIZE_def)
  then show "length (head_of bs d) = BSIZE"
    by (simp add: head_of_def length_put_entries)
  have "get32 (head_of bs d) 0 = of_nat (length bs)"
    using get32_put_entries(2) [OF d(2)] get32_bytes32 [of 0 d "of_nat (length bs)"] assms(2) by (simp add: head_of_def BSIZE_def)
  moreover have "sint (of_nat (length bs) :: uint) = int (length bs)"
    using assms(1) by (simp add: signed_of_nat signed_take_bit_int_eq_self)
  moreover have "get32 (head_of bs d) (4 + 4 * k) = bs ! k" if "k < length bs" for k
    using get32_put_entries(1) [OF d(2)] that by (simp add: head_of_def)
  ultimately show "sint (get32 (head_of bs d) 0) = int (length bs)" "head_blocks (head_of bs d) = bs"
    by (simp, intro nth_equalityI) (simp_all add: head_blocks_def)
qed

lemma log_upd_buf [simp]:
  "lh (upd_buf b f s) = lh s" "log_start (upd_buf b f s) = log_start s" "log_dev (upd_buf b f s) = log_dev s"
  by (simp_all add: upd_buf_def)

lemma write_entries_eq:
  "\<forall>j \<in> set js. j < length (lh_block (lh s)) \<Longrightarrow>
   write_entries b js s = Ok (upd_buf b (\<lambda>k. k\<lparr>b_data := put_entries (lh_block (lh s)) js (b_data k)\<rparr>) s)"
proof (induction js arbitrary: s)
  case Nil
  then show ?case
    by (simp add: put_entries_def upd_buf_def upd_def)
next
  case (Cons j js)
  then show ?case
    using Cons.IH [of "upd_buf b (\<lambda>k. k\<lparr>b_data := splice (4 + 4 * j) (bytes32 (lh_block (lh s) ! j)) (b_data k)\<rparr>) s"]
    by (simp add: put_entries_def upd_buf_def)
qed

lemma lh_update [simp]:
  fixes s :: "'a log_state_scheme"
  shows "bio_ok c i H (s\<lparr>lh := h\<rparr>) = bio_ok c i H s" "blk (s\<lparr>lh := h\<rparr>) = blk s" "pinned (s\<lparr>lh := h\<rparr>) = pinned s"
    "coherent b (s\<lparr>lh := h\<rparr>) = coherent b s"
proof -
  have "quiet c i (s\<lparr>lh := h\<rparr>) = quiet c i s"
    by (rule quiet_cong) simp_all
  then show "bio_ok c i H (s\<lparr>lh := h\<rparr>) = bio_ok c i H s"
    by (simp add: bio_ok_def cache_shape_def coherent_def sl_free_def sl_held_def)
  show "blk (s\<lparr>lh := h\<rparr>) = blk s"
    by (rule ext) (simp add: blk_def cached_def cong: option.case_cong)
  show "pinned (s\<lparr>lh := h\<rparr>) = pinned s" "coherent b (s\<lparr>lh := h\<rparr>) = coherent b s"
    by (simp_all add: pinned_def coherent_def)
qed

lemma emits_lh: "emits c i H W s t \<Longrightarrow> emits c i H W (s\<lparr>lh := h\<rparr>) (t\<lparr>lh := h\<rparr>)"
  for s t :: "'a log_state_scheme"
proof -
  assume e: "emits c i H W s t"
  have "t\<lparr>lh := h, sleeplocks := sleeplocks s, bufs := bufs s, bcache_list := bcache_list s, memdisk := memdisk s,
       dwrites := dwrites s\<rparr> = (t\<lparr>sleeplocks := sleeplocks s, bufs := bufs s, bcache_list := bcache_list s,
       memdisk := memdisk s, dwrites := dwrites s\<rparr>)\<lparr>lh := h\<rparr>"
    by simp
  also have "\<dots> = s\<lparr>lh := h\<rparr>"
    using e by (simp only: emits_def bio_frame_def)
  finally have "bio_frame (s\<lparr>lh := h\<rparr>) (t\<lparr>lh := h\<rparr>)"
    using e by (simp add: emits_def bio_frame_def)
  then show ?thesis
    using e by (simp add: emits_def)
qed

text \<open>Writing the header: the one write that makes a transaction last.\<close>

lemma write_head_emits:
  assumes ok: "bio_ok c i {} s" "log_geom s" "card (pinned s) < NBUF" and tx: "tx bs s"
  obtains t where "write_head c s = Ok t" "emits c i {} [(log_start s, head_of bs (blk s (log_start s)))] s t"
proof -
  have st: "log_start s < disksize s"
    using log_block_lt(3) [OF ok(2), of 0] by simp
  have "log_start s \<in> pinned s \<or> spare {} s"
    using spare_card [OF ok(1)] ok(3) by simp
  then obtain b u where u: "bread c 1 (log_start s) s = Ok (b, u)" "read_to c i {} (log_start s) s b u"
    using bread_spec [OF ok(1) st] by blast
  have b: "bio_ok c i {b} u" "b_blockno (the_buf b u) = log_start s" "log_start s < disksize u" "b < length (bufs u)"
      "b_data (the_buf b u) = blk s (log_start s)" "bio_frame s u"
    using u(2) st by (auto simp: read_to_def bio_frame_fields bio_ok_def cache_shape_def)
  have n: "nat (lh_n (lh s)) = length bs" "lh_n (lh s) = int (length bs)" "length bs \<le> length (lh_block (lh s))"
    using tx ok(2) by (simp_all add: tx_def log_geom_def LOGSIZE_def)
  have "put_entries (lh_block (lh s)) [0..<length bs] d = put_entries bs [0..<length bs] d" for d
    using tx_nth(1) [OF tx ok(2)] by (auto simp: put_entries_def intro!: fold_cong)
  then have "write_entries b [0..<length bs] (upd_buf b (\<lambda>k. k\<lparr>b_data := splice 0 (bytes32 (of_nat (length bs))) (b_data k)\<rparr>) u)
      = Ok (set_data b (head_of bs (blk s (log_start s))) u)"
    using n(3) b(4,5) bio_frame_log(3) [OF b(6)] by (simp add: write_entries_eq head_of_def upd_buf_def upd_def)
  moreover obtain v where v: "bwrite c b (set_data b (head_of bs (blk s (log_start s))) u) = Ok v"
    "emits c i {b} [(log_start s, head_of bs (blk s (log_start s)))] u v" "coherent b v"
    by (rule put_block [OF b(1) _ b(2,3)]) auto
  moreover obtain t where t: "brelse c b v = Ok t" "emits c i ({b} - {b}) [] v t"
    by (rule brelse_emits [of c i "{b}" v b]) (use v(2,3) in \<open>simp_all add: emits_def\<close>)
  ultimately have "write_head c s = Ok t"
    using u(1) ok(2) n bio_frame_log(3) [OF b(6)] by (simp add: write_head_def log_geom_def Let_def)
  then show ?thesis
    using that emits_trans [OF emits_trans [OF read_emits [OF u(2)] v(2)] t(2)] by simp
qed

definition head_ok :: "uint \<Rightarrow> uint \<Rightarrow> block \<Rightarrow> bool" where
  "head_ok st sz d \<longleftrightarrow> 0 \<le> sint (get32 d 0) \<and> length (head_blocks d) < 30
     \<and> (\<forall>b \<in> set (head_blocks d). b < sz \<and> b \<notin> log_area st)"

definition get_entries :: "block \<Rightarrow> nat list \<Rightarrow> uint list \<Rightarrow> uint list" where
  "get_entries d js l = fold (\<lambda>j l. l[j := get32 d (4 + 4 * j)]) js l"

lemma read_entries_eq:
  "\<forall>j \<in> set js. j < length (lh_block (lh s)) \<Longrightarrow>
   read_entries d js s = Ok (s\<lparr>lh := (lh s)\<lparr>lh_block := get_entries d js (lh_block (lh s))\<rparr>\<rparr>)"
proof (induction js arbitrary: s)
  case Nil
  then show ?case
    by (simp add: get_entries_def)
next
  case (Cons j js)
  then show ?case
    using Cons.IH [of "s\<lparr>lh := (lh s)\<lparr>lh_block := (lh_block (lh s))[j := get32 d (4 + 4 * j)]\<rparr>\<rparr>"]
    by (simp add: get_entries_def)
qed

lemma length_get_entries [simp]: "length (get_entries d js l) = length l"
  by (induction js arbitrary: l) (simp_all add: get_entries_def)

lemma take_get_entries: "n \<le> length l \<Longrightarrow> take n (get_entries d [0..<n] l) = map (\<lambda>j. get32 d (4 + 4 * j)) [0..<n]"
proof (induction n)
  case (Suc n)
  have "get_entries d [0..<Suc n] l = (get_entries d [0..<n] l)[n := get32 d (4 + 4 * n)]"
    by (simp add: get_entries_def)
  then show ?case
    using Suc by (simp add: take_Suc_conv_app_nth)
qed simp

lemma read_head_emits:
  assumes ok: "bio_ok c i {} s" "log_geom s" "card (pinned s) < NBUF"
    and head: "head_ok (log_start s) (disksize s) (blk s (log_start s))"
  obtains h t where "read_head c s = Ok t" "emits c i {} [] (s\<lparr>lh := h\<rparr>) t" "log_geom t"
    "tx (head_blocks (blk s (log_start s))) t"
proof -
  let ?d = "blk s (log_start s)"
  let ?n = "sint (get32 ?d 0)"
  let ?h = "\<lparr>lh_n = ?n, lh_block = get_entries ?d [0..<nat ?n] (lh_block (lh s)), \<dots> = logheader.more (lh s)\<rparr>"
  have st: "log_start s < disksize s"
    using log_block_lt(3) [OF ok(2), of 0] by simp
  have "log_start s \<in> pinned s \<or> spare {} s"
    using spare_card [OF ok(1)] ok(3) by simp
  then obtain b u where u: "bread c 1 (log_start s) s = Ok (b, u)" "read_to c i {} (log_start s) s b u"
    using bread_spec [OF ok(1) st] by blast
  have b: "bio_ok c i {b} u" "coherent b u" "b_data (the_buf b u) = ?d" "bio_frame s u"
    using u(2) by (auto simp: read_to_def)
  have n: "nat ?n \<le> length (lh_block (lh u))" "length (head_blocks ?d) = nat ?n" "int (nat ?n) = ?n" "nat ?n \<le> 30"
    using head ok(2) bio_frame_log(3) [OF b(4)] by (simp_all add: head_ok_def head_blocks_def log_geom_def LOGSIZE_def)
  have "read_entries ?d [0..<nat ?n] (u\<lparr>lh := (lh u)\<lparr>lh_n := ?n\<rparr>\<rparr>) = Ok (u\<lparr>lh := ?h\<rparr>)"
    using n(1) bio_frame_log(3) [OF b(4)] by (simp add: read_entries_eq)
  moreover obtain t where t: "brelse c b (u\<lparr>lh := ?h\<rparr>) = Ok t" "emits c i ({b} - {b}) [] (u\<lparr>lh := ?h\<rparr>) t"
    by (rule brelse_emits [of c i "{b}" "u\<lparr>lh := ?h\<rparr>" b]) (use b in simp_all)
  ultimately have r: "read_head c s = Ok t"
    using u(1) ok(2) b(3) by (simp add: read_head_def log_geom_def Let_def)
  have e: "emits c i {} [] (s\<lparr>lh := ?h\<rparr>) t"
    using emits_trans [OF emits_lh [OF read_emits [OF u(2)], of ?h] t(2)] by simp
  have "log_geom (s\<lparr>lh := ?h\<rparr>)" "tx (head_blocks ?d) (s\<lparr>lh := ?h\<rparr>)"
    using ok(2) head n take_get_entries [of "nat ?n" "lh_block (lh s)" ?d] bio_frame_log(3) [OF b(4)]
    by (simp_all add: log_geom_def tx_def head_ok_def head_blocks_def)
  then show ?thesis
    using that [OF r e] emits_log(2,3) [OF e] by blast
qed

section \<open>Commit and recovery\<close>

lemma apply_writes_other: "n \<notin> fst ` set W \<Longrightarrow> apply_writes W d n = d n"
  by (induction W arbitrary: d) auto

lemma apply_writes_hit:
  "inj_on f (set js) \<Longrightarrow> k \<in> set js \<Longrightarrow> apply_writes (map (\<lambda>j. (f j, g j)) js) d (f k) = g k"
proof (induction js arbitrary: d)
  case (Cons j js)
  show ?case
  proof (cases "k \<in> set js")
    case True
    then show ?thesis
      using Cons by (simp add: inj_on_def)
  next
    case False
    then have "k = j" "f k \<notin> fst ` set (map (\<lambda>j. (f j, g j)) js)"
      using Cons.prems by (auto simp: inj_on_def)
    then show ?thesis
      by (simp add: apply_writes_other)
  qed
qed simp

lemma fst_writes: "fst ` set (map (\<lambda>j. (bs ! j, g j)) [0..<length bs]) = set bs"
proof -
  have "fst ` set (map (\<lambda>j. (bs ! j, g j)) [0..<length bs]) = set (map (nth bs) [0..<length bs])"
    by (simp only: set_map image_image fst_conv)
  then show ?thesis
    by (simp only: map_nth)
qed

abbreviation log_writes :: "uint \<Rightarrow> uint list \<Rightarrow> (uint \<Rightarrow> block) \<Rightarrow> (uint \<times> block) list" where
  "log_writes st bs a \<equiv> map (\<lambda>j. (st + of_nat j + 1, a (bs ! j))) [0..<length bs]"

definition commit_writes :: "uint \<Rightarrow> uint list \<Rightarrow> (uint \<Rightarrow> block) \<Rightarrow> (uint \<times> block) list" where
  "commit_writes st bs a =
     log_writes st bs a @ [(st, head_of bs (a st))] @ map (\<lambda>j. (bs ! j, a (bs ! j))) [0..<length bs]
       @ [(st, head_of [] (head_of bs (a st)))]"

definition recover_writes :: "uint \<Rightarrow> (uint \<Rightarrow> block) \<Rightarrow> (uint \<times> block) list" where
  "recover_writes st a =
     map (\<lambda>j. (head_blocks (a st) ! j, a (st + of_nat j + 1))) [0..<length (head_blocks (a st))] @ [(st, head_of [] (a st))]"

lemma off_log:
  assumes "log_geom s" "tx bs s" "m \<notin> log_area (log_start s) \<or> m = log_start s"
  shows "m \<notin> fst ` set (log_writes (log_start s) bs a)"
proof
  assume "m \<in> fst ` set (log_writes (log_start s) bs a)"
  then obtain j where j: "j < length bs" "m = log_block s j"
    by auto
  then show False
    using log_block_lt(2,5) [OF assms(1) tx_nth(3) [OF assms(2,1) j(1)]] assms(3) by metis
qed

lemma on_log:
  assumes "log_geom s" "tx bs s" "j < length bs"
  shows "apply_writes (log_writes (log_start s) bs a) d (log_block s j) = a (bs ! j)"
proof -
  have "inj_on (log_block s) (set [0..<length bs])"
    using log_block_inj [OF assms(1)] tx_nth(3) [OF assms(2,1)] by (auto simp: inj_on_def)
  then show ?thesis
    using apply_writes_hit [of "log_block s" "[0..<length bs]" j "\<lambda>j. a (bs ! j)" d] assms(3) by simp
qed

lemma commit_emits:
  assumes ok: "bio_ok c i {} s" "log_geom s" and tx: "tx bs s" "bs \<noteq> []" "pinned s = set bs"
  obtains t where "commit c s = Ok t" "emits c i {} (commit_writes (log_start s) bs (blk s)) (s\<lparr>lh := (lh s)\<lparr>lh_n := 0\<rparr>\<rparr>) t"
proof -
  let ?js = "[0..<length bs]" and ?a = "blk s" and ?st = "log_start s"
  have n: "lh_n (lh s) = int (length bs)" "length bs < 30" "card (pinned s) < NBUF"
    using tx card_length [of bs] by (simp_all add: tx_def NBUF_def)
  obtain s1 where s1: "write_log_loop c ?js s = Ok s1" "emits c i {} (log_writes ?st bs ?a) s s1"
    using write_log_loop_emits [OF ok tx(1) _ n(3), of ?js] tx(3) by auto
  note e1 = emits_log [OF s1(2) ok(2) tx(1)]
  have bs: "b \<notin> log_area ?st" if "b \<in> set bs" for b
    using that tx(1) by (simp add: tx_def)
  have "pinned s1 = set bs"
    using e1(6) off_log [OF ok(2) tx(1), of _ ?a] bs tx(3) by blast
  then have p1: "pinned s1 = set bs" "blk s1 ?st = ?a ?st" "card (pinned s1) < NBUF"
    using e1(5) apply_writes_other [OF off_log [OF ok(2) tx(1)], of ?st ?a] tx(3) n(3) by auto
  obtain s2 where s2: "write_head c s1 = Ok s2" "emits c i {} [(?st, head_of bs (?a ?st))] s1 s2"
    using write_head_emits [OF e1(1,2) p1(3) e1(3)] e1(4) p1(2) by metis
  note e2 = emits_log [OF s2(2) e1(2,3)]
  have st: "?st \<notin> set bs"
    using bs log_block_lt(4) [OF ok(2), of 0] by auto
  then have "pinned s2 = set bs"
    using e2(6) p1(1) by auto
  then have p2: "pinned s2 = set bs" "card (pinned s2) < NBUF" "log_start s2 = ?st"
    using e2(4) e1(4) p1(1,3) by simp_all
  have p3: "blk s2 (log_block s2 j) = ?a (bs ! j)" if "j < length bs" for j
    using e2(5) e1(5) p2(3) on_log [OF ok(2) tx(1) that] log_block_lt(5) [OF ok(2) tx_nth(3) [OF tx(1) ok(2) that]] by simp
  then have m3: "map (\<lambda>j. (bs ! j, blk s2 (log_block s2 j))) ?js = map (\<lambda>j. (bs ! j, ?a (bs ! j))) ?js"
    by (intro map_cong) auto
  obtain s3 where s3: "install_loop c ?js s2 = Ok s3" "emits c i {} (map (\<lambda>j. (bs ! j, ?a (bs ! j))) ?js) s2 s3"
    using install_loop_emits [OF e2(1-3) p2(2), of ?js] p2(1) unfolding m3 by auto
  note e3 = emits_log [OF s3(2) e2(2,3)]
  let ?s4 = "s3\<lparr>lh := (lh s)\<lparr>lh_n := 0\<rparr>\<rparr>"
  have s4: "bio_ok c i {} ?s4" "log_geom ?s4" "tx [] ?s4" "card (pinned ?s4) < NBUF" "log_start ?s4 = ?st"
    using e3(1,2,4,6) p2 ok(2) card_mono [of "set bs" "pinned s3"] by (simp_all add: log_geom_def tx_def)
  have "blk s3 ?st = blk s2 ?st"
    unfolding e3(5) using st by (intro apply_writes_other) (simp only: fst_writes not_False_eq_True)
  then have "blk ?s4 ?st = head_of bs (?a ?st)"
    using e2(5) by simp
  then obtain t where t: "write_head c ?s4 = Ok t" "emits c i {} [(?st, head_of [] (head_of bs (?a ?st)))] ?s4 t"
    using write_head_emits [OF s4(1,2,4,3)] s4(5) by metis
  have l: "lh s1 = lh s" "lh s2 = lh s" "lh s3 = lh s"
    using s1(2) s2(2) s3(2) bio_frame_log(3) [of s s1] bio_frame_log(3) [of s1 s2] bio_frame_log(3) [of s2 s3]
    by (simp_all add: emits_def)
  have "commit c s = Ok t"
    using s1(1) s2(1) s3(1) t(1) n(1) tx(2) l by (simp add: commit_def write_log_def install_trans_def)
  moreover have "emits c i {} (commit_writes ?st bs ?a) (s\<lparr>lh := (lh s)\<lparr>lh_n := 0\<rparr>\<rparr>) t"
    using emits_trans [OF emits_lh [OF emits_trans [OF emits_trans [OF s1(2) s2(2)] s3(2)]] t(2)] by (simp add: commit_writes_def)
  ultimately show ?thesis
    using that by blast
qed

lemma recover_emits:
  assumes ok: "bio_ok c i {} s" "log_geom s" "pinned s = {}"
    and head: "head_ok (log_start s) (disksize s) (blk s (log_start s))"
  obtains h t where "recover_from_log c s = Ok t" "emits c i {} (recover_writes (log_start s) (blk s)) (s\<lparr>lh := h\<rparr>) t" "lh_n h = 0"
proof -
  let ?st = "log_start s" and ?a = "blk s"
  let ?bs = "head_blocks (?a ?st)"
  let ?js = "[0..<length ?bs]"
  have room: "card (pinned s) < NBUF" "card (pinned s) + 1 < NBUF"
    using ok(3) by (simp_all add: NBUF_def)
  obtain h s1 where s1: "read_head c s = Ok s1" "emits c i {} [] (s\<lparr>lh := h\<rparr>) s1" "log_geom s1" "tx ?bs s1"
    by (rule read_head_emits [OF ok(1,2) room(1) head])
  have p1: "bio_ok c i {} s1" "blk s1 = ?a" "pinned s1 = {}" "log_start s1 = ?st" "lh_n (lh s1) = int (length ?bs)"
    using s1(2,4) ok(3) bio_frame_log(1) [of "s\<lparr>lh := h\<rparr>" s1] by (simp_all add: emits_def tx_def)
  obtain s2 where s2: "install_loop c ?js s1 = Ok s2" "emits c i {} (map (\<lambda>j. (?bs ! j, ?a (?st + of_nat j + 1))) ?js) s1 s2"
    using install_loop_emits [OF p1(1) s1(3,4), of ?js] p1 room by (auto simp: ok(3))
  note e2 = emits_log [OF s2(2) s1(3,4)]
  let ?h = "(lh s2)\<lparr>lh_n := 0\<rparr>"
  let ?s3 = "s2\<lparr>lh := ?h\<rparr>"
  have s3: "bio_ok c i {} ?s3" "log_geom ?s3" "tx [] ?s3" "card (pinned ?s3) < NBUF" "log_start ?s3 = ?st"
    using e2(1,2,4,6) p1(3,4) by (simp_all add: log_geom_def tx_def NBUF_def)
  have "?st \<notin> set ?bs"
    using head log_block_lt(4) [OF ok(2), of 0] by (auto simp: head_ok_def)
  then have "blk s2 ?st = ?a ?st"
    unfolding e2(5) p1(2) by (intro apply_writes_other) (simp only: fst_writes not_False_eq_True)
  then obtain t where t: "write_head c ?s3 = Ok t" "emits c i {} [(?st, head_of [] (?a ?st))] ?s3 t"
    using write_head_emits [OF s3(1,2,4,3)] s3(5) by (metis lh_update(2))
  have "recover_from_log c s = Ok t"
    using s1(1) s2(1) t(1) p1(5) by (simp add: recover_from_log_def install_trans_def)
  moreover have "emits c i {} (recover_writes ?st ?a) (s\<lparr>lh := ?h\<rparr>) t"
    using emits_trans [OF emits_trans [OF emits_lh [OF s1(2)] emits_lh [OF s2(2)]] t(2)] by (simp add: recover_writes_def)
  ultimately show ?thesis
    using that by simp
qed

end
