(* ===== verification/LogTx.thy ===== *)
theory LogTx
  imports LogSpec
begin

text \<open>
  The log makes a transaction atomic. The writes of \<open>commit\<close> are a list; whatever prefix of it a crash
  leaves behind, \<open>recover_from_log\<close> after the restart installs either none or all of the transaction's
  blocks. Reads and logged writes of a transaction are an instance of the interface \<open>block_array\<close>, like
  the reads and writes of the cache.
\<close>

section \<open>Crashes\<close>

lemma empty_head: "sint (get32 d 0) = 0 \<Longrightarrow> head_blocks d = [] \<and> head_ok st sz d"
  by (simp add: head_blocks_def head_ok_def)

lemma recover_empty:
  assumes "sint (get32 (e st) 0) = 0" "m \<noteq> st"
  shows "apply_writes (recover_writes st e) e m = e m"
  using assms empty_head [OF assms(1)] by (simp add: recover_writes_def)

text \<open>The three stages a crash may interrupt: before the header is written, before it is erased, and after.\<close>

lemma apply_writes_home: "apply_writes (map (\<lambda>b. (b, a b)) xs) d m = (if m \<in> set xs then a m else d m)"
  by (induction xs arbitrary: d) auto

lemma home_writes: "map (\<lambda>j. (bs ! j, a (bs ! j))) [0..<length bs] = map (\<lambda>b. (b, a b)) bs"
  using map_map [of "\<lambda>b. (b, a b)" "nth bs" "[0..<length bs]"] by (simp only: map_nth comp_def)

lemma crash_before:
  assumes g: "log_geom s" "tx bs s" and k: "k \<le> length bs" and m: "m \<notin> log_area (log_start s) \<or> m = log_start s"
  shows "apply_writes (take k (commit_writes (log_start s) bs a)) d m = d m"
proof (rule apply_writes_other)
  have "take k (commit_writes (log_start s) bs a) = take k (log_writes (log_start s) bs a)"
    using k by (simp add: commit_writes_def)
  then show "m \<notin> fst ` set (take k (commit_writes (log_start s) bs a))"
    using off_log [OF g m, of a] set_take_subset [of k "log_writes (log_start s) bs a"] by auto
qed

lemma crash_between:
  assumes g: "log_geom s" "tx bs s" and k: "length bs < k" "k < 2 * length bs + 2"
    and e: "e = apply_writes (take k (commit_writes (log_start s) bs a)) d"
  shows "e (log_start s) = head_of bs (a (log_start s))" "j < length bs \<Longrightarrow> e (log_block s j) = a (bs ! j)"
    "m \<notin> log_area (log_start s) \<Longrightarrow> m \<notin> set bs \<Longrightarrow> e m = d m"
proof -
  let ?st = "log_start s"
  let ?xs = "take (k - length bs - 1) bs"
  have "take k (commit_writes ?st bs a) = log_writes ?st bs a @ [(?st, head_of bs (a ?st))] @ map (\<lambda>b. (b, a b)) ?xs"
    using k by (simp add: commit_writes_def home_writes take_Cons' take_map)
  then have em: "e m = (if m \<in> set ?xs then a m else
      if m = ?st then head_of bs (a ?st) else apply_writes (log_writes ?st bs a) d m)" for m
    using e by (simp add: apply_writes_home)
  have out: "m \<notin> set ?xs" if "m \<in> log_area ?st" for m
    using that g(2) set_take_subset [of "k - length bs - 1" bs] by (auto simp: tx_def)
  show "e ?st = head_of bs (a ?st)"
    using em [of ?st] out log_block_lt(4) [OF g(1), of 0] by simp
  show "e (log_block s j) = a (bs ! j)" if "j < length bs"
    using em [of "log_block s j"] on_log [OF g that] out log_block_lt(2,5) [OF g(1) tx_nth(3) [OF g(2,1) that]] by auto
  show "e m = d m" if "m \<notin> log_area ?st" "m \<notin> set bs"
    using em [of m] that set_take_subset [of "k - length bs - 1" bs] log_block_lt(4) [OF g(1), of 0]
      apply_writes_other [OF off_log [OF g], of m a d] by auto
qed

lemma crash_after:
  assumes g: "log_geom s" "tx bs s" and k: "2 * length bs + 2 \<le> k"
    and e: "e = apply_writes (take k (commit_writes (log_start s) bs a)) d"
  shows "e (log_start s) = head_of [] (head_of bs (a (log_start s)))"
    "m \<notin> log_area (log_start s) \<Longrightarrow> e m = (if m \<in> set bs then a m else d m)"
proof -
  let ?st = "log_start s"
  have "take k (commit_writes ?st bs a) = log_writes ?st bs a @ [(?st, head_of bs (a ?st))] @ map (\<lambda>b. (b, a b)) bs
      @ [(?st, head_of [] (head_of bs (a ?st)))]"
    using k by (simp add: commit_writes_def home_writes)
  then have em: "e m = (if m = ?st then head_of [] (head_of bs (a ?st)) else if m \<in> set bs then a m
      else apply_writes (log_writes ?st bs a) d m)" for m
    using e by (simp add: apply_writes_home)
  then show "e ?st = head_of [] (head_of bs (a ?st))"
    by simp
  show "e m = (if m \<in> set bs then a m else d m)" if "m \<notin> log_area ?st"
    using em [of m] that log_block_lt(4) [OF g(1), of 0] apply_writes_other [OF off_log [OF g], of m a d] by auto
qed

lemma crash_recovers:
  assumes g: "log_geom s" "tx bs s" and same: "\<And>m. m \<notin> set bs \<Longrightarrow> d m = a m"
    and head: "length (a (log_start s)) = BSIZE" "sint (get32 (a (log_start s)) 0) = 0"
    and e: "e = apply_writes (take k (commit_writes (log_start s) bs a)) d"
  shows "head_ok (log_start s) (disksize s) (e (log_start s))
    \<and> (\<forall>m. m \<notin> log_area (log_start s) \<longrightarrow>
         apply_writes (recover_writes (log_start s) e) e m = (if k \<le> length bs then d m else a m))"
proof -
  let ?st = "log_start s"
  have st: "?st \<in> log_area ?st" "\<And>b. b \<in> set bs \<Longrightarrow> b < disksize s \<and> b \<notin> log_area ?st" "length bs < 30" "d ?st = a ?st"
    using log_block_lt(4) [OF g(1), of 0] g(2) same [of ?st] by (auto simp: tx_def)
  consider "k \<le> length bs" | "length bs < k" "k < 2 * length bs + 2" | "2 * length bs + 2 \<le> k"
    by linarith
  then show ?thesis
  proof cases
    case 1
    note c = crash_before [OF g 1, of _ a d]
    have z: "sint (get32 (e ?st) 0) = 0"
      using c [of ?st] e st(4) head(2) by simp
    have "apply_writes (recover_writes ?st e) e m = d m" if "m \<notin> log_area ?st" for m
      using recover_empty [of e ?st m, OF z] c [of m] that e st(1) by auto
    then show ?thesis
      using 1 empty_head [OF z] by simp
  next
    case 2
    note c = crash_between [OF g 2 e]
    note h = head_roundtrip [OF st(3) head(1)]
    have "recover_writes ?st e = map (\<lambda>j. (bs ! j, a (bs ! j))) [0..<length bs] @ [(?st, head_of [] (e ?st))]"
      using c(1,2) h(1) by (simp add: recover_writes_def)
    then have "apply_writes (recover_writes ?st e) e m = a m" if "m \<notin> log_area ?st" for m
      using that st(1) c(3) [of m] same [of m] by (auto simp: home_writes apply_writes_home)
    then show ?thesis
      using 2 c(1) h st by (simp add: head_ok_def)
  next
    case 3
    note c = crash_after [OF g 3 e]
    have z: "sint (get32 (e ?st) 0) = 0"
      using c(1) head_roundtrip(3) [of "[]" "head_of bs (a ?st)"] head_roundtrip(2) [OF st(3) head(1)] by simp
    have "apply_writes (recover_writes ?st e) e m = a m" if "m \<notin> log_area ?st" for m
    proof -
      have "m \<noteq> ?st"
        using that st(1) by blast
      then show ?thesis
        using recover_empty [of e ?st m, OF z] c(2) [OF that] same [of m] by simp
    qed
    then show ?thesis
      using 3 empty_head [OF z] by simp
  qed
qed

section \<open>Transactions\<close>

text \<open>Between \<open>begin_op\<close> and \<open>end_op\<close>: the blocks \<open>bs\<close> have been logged, and they are the pinned ones.\<close>

definition in_tx :: "nat \<Rightarrow> nat \<Rightarrow> uint list \<Rightarrow> 'a log_state_scheme \<Rightarrow> bool" where
  "in_tx c i bs s \<longleftrightarrow> bio_ok c i {} s \<and> log_geom s \<and> tx bs s \<and> distinct bs \<and> pinned s = set bs
     \<and> 1 \<le> outstanding s \<and> log_size s = LOGSIZE"

text \<open>The use of a block that the comment at \<open>log_write\<close> describes.\<close>

definition log_put :: "nat \<Rightarrow> uint \<Rightarrow> block \<Rightarrow> 'a log_state_scheme \<Rightarrow> 'a log_state_scheme res" where
  "log_put c n d s =
     bindr (bread c 1 n s) (\<lambda>(b, s). bindr (log_write c b (set_data b d s)) (\<lambda>s. brelse c b s))"

definition absorb :: "uint \<Rightarrow> uint list \<Rightarrow> uint list" where
  "absorb n bs = (if n \<in> set bs then bs else bs @ [n])"

lemma log_write_eq:
  assumes q: "quiet c i s" and g: "log_geom s" "tx bs s" "distinct bs" "1 \<le> outstanding s" "log_size s = LOGSIZE"
    and n: "n = b_blockno (the_buf b s)" "length bs < 29"
  shows "\<exists>h. log_write c b s = Ok (upd_buf b (\<lambda>k. k\<lparr>b_flags := b_flags k OR B_DIRTY\<rparr>) (s\<lparr>lh := h\<rparr>))
    \<and> lh_n h = int (length (absorb n bs)) \<and> take (length (absorb n bs)) (lh_block h) = absorb n bs
    \<and> length (lh_block h) = nat LOGSIZE"
proof -
  have l: "nat (lh_n (lh s)) = length bs" "lh_n (lh s) = int (length bs)" "take (length bs) (lh_block (lh s)) = bs"
    "length (lh_block (lh s)) = 30"
    using g(1,2) by (simp_all add: tx_def log_geom_def LOGSIZE_def)
  have w: "log_write c b s = (let
        i = (case first_idx (\<lambda>x. x = n) bs of Some i \<Rightarrow> i | None \<Rightarrow> length bs);
        h = (lh s)\<lparr>lh_block := (lh_block (lh s))[i := n]\<rparr>;
        h = (if i = length bs then h\<lparr>lh_n := lh_n h + 1\<rparr> else h)
      in Ok (upd_buf b (\<lambda>k. k\<lparr>b_flags := b_flags k OR B_DIRTY\<rparr>) (s\<lparr>lh := h\<rparr>)))"
  proof -
    have "(upd_buf b f ((grabbed c L_log s)\<lparr>lh := h\<rparr>))\<lparr>cpus := cpus s, locks := locks s\<rparr> = upd_buf b f (s\<lparr>lh := h\<rparr>)" for f h
      by (simp add: upd_buf_def grabbed_def set_lock_def upd_cpu_def)
    then have r: "release c L_log (upd_buf b f ((grabbed c L_log s)\<lparr>lh := h\<rparr>)) = Ok (upd_buf b f (s\<lparr>lh := h\<rparr>))" for f h
      using quiet_release [OF q, of "upd_buf b f ((grabbed c L_log s)\<lparr>lh := h\<rparr>)" L_log] by simp
    have f: "lh (grabbed c L_log s) = lh s" "bufs (grabbed c L_log s) = bufs s"
      by (simp_all add: grabbed_def set_lock_def upd_cpu_def)
    show ?thesis
      using l g(4,5) n quiet_acquire [OF q, of L_log] by (simp add: log_write_def LOGSIZE_def f r Let_def cong: option.case_cong)
  qed
  show ?thesis
  proof (cases "n \<in> set bs")
    case True
    then obtain k where k: "first_idx (\<lambda>x. x = n) bs = Some k" "k < length bs" "bs ! k = n"
      using first_idx_exists [of "\<lambda>x. x = n" bs] first_idx_SomeD [of "\<lambda>x. x = n" bs] by blast
    have "(lh_block (lh s))[k := n] = lh_block (lh s)"
      using tx_nth(1) [OF g(2,1) k(2)] k(3) by (metis list_update_id)
    then show ?thesis
      unfolding w using k True l by (intro exI [of _ "lh s"]) (simp add: absorb_def LOGSIZE_def)
  next
    case False
    then have "first_idx (\<lambda>x. x = n) bs = None"
      by (auto simp: first_idx_None)
    moreover have "take (Suc (length bs)) ((lh_block (lh s))[length bs := n]) = bs @ [n]"
      using l n(2) by (simp add: take_Suc_conv_app_nth)
    ultimately show ?thesis
      unfolding w using False l
      by (intro exI [of _ "(lh s)\<lparr>lh_block := (lh_block (lh s))[length bs := n], lh_n := int (length bs) + 1\<rparr>"])
        (simp add: absorb_def LOGSIZE_def Let_def)
  qed
qed

text \<open>What a transaction leaves alone until it commits.\<close>

definition tx_frame :: "'a log_state_scheme \<Rightarrow> 'a log_state_scheme \<Rightarrow> bool" where
  "tx_frame s t \<longleftrightarrow> memdisk t = memdisk s \<and> dwrites t = dwrites s \<and> log_start t = log_start s \<and> disksize t = disksize s
     \<and> outstanding t = outstanding s \<and> committing t = committing s"

lemma tx_frame_refl [simp]: "tx_frame s s"
  by (simp add: tx_frame_def)

lemma tx_frame_trans: "tx_frame s t \<Longrightarrow> tx_frame t u \<Longrightarrow> tx_frame s u"
  by (simp add: tx_frame_def)

lemma pinned_set_data: "b < length (bufs s) \<Longrightarrow> pinned (set_data b d s) = pinned s"
  unfolding pinned_def by (auto simp: nth_upd upd_buf_def upd_def nth_list_update)

lemma log_fields_upd_buf [simp]:
  "outstanding (upd_buf b f s) = outstanding s" "committing (upd_buf b f s) = committing s" "log_size (upd_buf b f s) = log_size s"
  "disksize (upd_buf b f s) = disksize s"
  by (simp_all add: upd_buf_def)

lemma log_put_spec:
  assumes tx: "in_tx c i bs s" "length bs < 29" and n: "n < disksize s" "n \<notin> log_area (log_start s)"
  obtains t where "log_put c n d s = Ok t" "in_tx c i (absorb n bs) t" "blk t = (blk s)(n := d)" "tx_frame s t"
proof -
  have s: "bio_ok c i {} s" "log_geom s" "tx bs s" "distinct bs" "pinned s = set bs" "1 \<le> outstanding s" "log_size s = LOGSIZE"
    using tx by (simp_all add: in_tx_def)
  have "card (pinned s) < NBUF"
    using s(5) tx(2) card_length [of bs] by (simp add: NBUF_def)
  then obtain b u where u: "bread c 1 n s = Ok (b, u)" "read_to c i {} n s b u"
    using bread_spec [OF s(1) n(1)] spare_card [OF s(1)] by auto
  have b: "bio_ok c i {b} u" "b_blockno (the_buf b u) = n" "blk u = blk s" "memdisk u = memdisk s" "dwrites u = dwrites s"
    "pinned u = set bs" "bio_frame s u" "b < length (bufs u)"
    using u(2) s(5) by (auto simp: read_to_def bio_ok_def cache_shape_def)
  note f = bio_frame_log [OF b(7)]
  note sd = set_data_spec [OF b(1), of b d]
  let ?v = "set_data b d u"
  have v: "quiet c i ?v" "pinned ?v = set bs" "b_blockno (the_buf b ?v) = n" "log_geom ?v" "tx bs ?v" "1 \<le> outstanding ?v" "log_size ?v = LOGSIZE"
    using b s(2,3,6,7) f log_frame [OF b(7)] by (simp_all add: bio_ok_def pinned_set_data log_geom_def tx_def)
  obtain h where h: "log_write c b ?v = Ok (upd_buf b (\<lambda>k. k\<lparr>b_flags := b_flags k OR B_DIRTY\<rparr>) (?v\<lparr>lh := h\<rparr>))"
    "lh_n h = int (length (absorb n bs))" "take (length (absorb n bs)) (lh_block h) = absorb n bs" "length (lh_block h) = nat LOGSIZE"
    using log_write_eq [OF v(1,4,5) s(4) v(6,7) v(3) [symmetric] tx(2)] by blast
  let ?w = "upd_buf b (\<lambda>k. k\<lparr>b_flags := b_flags k OR B_DIRTY\<rparr>) (?v\<lparr>lh := h\<rparr>)"
  have w: "bio_ok c i {b} ?w" "blk ?w = (blk s)(n := d)" "coherent b ?w" "pinned ?w = insert n (set bs)"
    using pin_spec [of c i "{b}" "?v\<lparr>lh := h\<rparr>" b] sd b(2,3) v(2,3) by simp_all
  obtain t where t: "brelse c b ?w = Ok t" "emits c i ({b} - {b}) [] ?w t"
    by (rule brelse_emits [OF w(1) _ w(3)]) auto
  have r: "log_put c n d s = Ok t"
    using u(1) h(1) t(1) by (simp add: log_put_def)
  have ft: "bio_frame ?w t" "bio_ok c i {} t" "blk t = (blk s)(n := d)" "pinned t = insert n (set bs)"
    "memdisk t = memdisk s" "dwrites t = dwrites s"
    using t(2) w b(4,5) by (simp_all add: emits_def)
  have "tx_frame s t"
    using ft(5,6) bio_frame_log [OF ft(1)] f by (simp add: tx_frame_def)
  moreover have "in_tx c i (absorb n bs) t"
    using ft(2,4) bio_frame_log [OF ft(1)] f s(2-4,6,7) h(2-4) n tx(2) by (auto simp: in_tx_def log_geom_def tx_def absorb_def)
  ultimately show ?thesis
    using that [OF r _ ft(3)] by blast
qed

lemma log_counts [simp]:
  fixes s :: "'a log_state_scheme"
  shows "bio_ok c i H (s\<lparr>outstanding := x\<rparr>) = bio_ok c i H s" "blk (s\<lparr>outstanding := x\<rparr>) = blk s" "pinned (s\<lparr>outstanding := x\<rparr>) = pinned s"
    "bio_ok c i H (s\<lparr>committing := y\<rparr>) = bio_ok c i H s" "blk (s\<lparr>committing := y\<rparr>) = blk s" "pinned (s\<lparr>committing := y\<rparr>) = pinned s"
proof -
  have "quiet c i (s\<lparr>outstanding := x\<rparr>) = quiet c i s" "quiet c i (s\<lparr>committing := y\<rparr>) = quiet c i s"
    by (rule quiet_cong; simp)+
  then show "bio_ok c i H (s\<lparr>outstanding := x\<rparr>) = bio_ok c i H s" "bio_ok c i H (s\<lparr>committing := y\<rparr>) = bio_ok c i H s"
    by (simp_all add: bio_ok_def cache_shape_def coherent_def sl_free_def sl_held_def)
  show "blk (s\<lparr>outstanding := x\<rparr>) = blk s" "blk (s\<lparr>committing := y\<rparr>) = blk s"
    by (rule ext, simp add: blk_def cached_def cong: option.case_cong)+
  show "pinned (s\<lparr>outstanding := x\<rparr>) = pinned s" "pinned (s\<lparr>committing := y\<rparr>) = pinned s"
    by (simp_all add: pinned_def)
qed

lemma log_section:
  fixes s :: "'a log_state_scheme"
  assumes "quiet c i s"
  shows "release c L_log ((grabbed c L_log s)\<lparr>outstanding := x\<rparr>) = Ok (s\<lparr>outstanding := x\<rparr>)"
    "release c L_log ((grabbed c L_log s)\<lparr>committing := y\<rparr>) = Ok (s\<lparr>committing := y\<rparr>)"
    "release c L_log ((grabbed c L_log s)\<lparr>outstanding := x, committing := y\<rparr>) = Ok (s\<lparr>outstanding := x, committing := y\<rparr>)"
proof -
  have u: "((grabbed c L_log s)\<lparr>outstanding := x\<rparr>)\<lparr>cpus := cpus s, locks := locks s\<rparr> = s\<lparr>outstanding := x\<rparr>"
    "((grabbed c L_log s)\<lparr>committing := y\<rparr>)\<lparr>cpus := cpus s, locks := locks s\<rparr> = s\<lparr>committing := y\<rparr>"
    "((grabbed c L_log s)\<lparr>outstanding := x, committing := y\<rparr>)\<lparr>cpus := cpus s, locks := locks s\<rparr> = s\<lparr>outstanding := x, committing := y\<rparr>"
    by (simp_all add: grabbed_def set_lock_def upd_cpu_def)
  show "release c L_log ((grabbed c L_log s)\<lparr>outstanding := x\<rparr>) = Ok (s\<lparr>outstanding := x\<rparr>)"
    "release c L_log ((grabbed c L_log s)\<lparr>committing := y\<rparr>) = Ok (s\<lparr>committing := y\<rparr>)"
    "release c L_log ((grabbed c L_log s)\<lparr>outstanding := x, committing := y\<rparr>) = Ok (s\<lparr>outstanding := x, committing := y\<rparr>)"
    using quiet_release [OF assms, of "(grabbed c L_log s)\<lparr>outstanding := x\<rparr>" L_log]
      quiet_release [OF assms, of "(grabbed c L_log s)\<lparr>committing := y\<rparr>" L_log]
      quiet_release [OF assms, of "(grabbed c L_log s)\<lparr>outstanding := x, committing := y\<rparr>" L_log]
    unfolding u by simp_all
qed

lemma log_fields_grabbed [simp]:
  "lh (grabbed c l s) = lh s" "outstanding (grabbed c l s) = outstanding s" "committing (grabbed c l s) = committing s"
  by (simp_all add: grabbed_def set_lock_def upd_cpu_def)

lemma begin_op_quiet:
  assumes "quiet c i s" "\<not> committing s" "lh_n (lh s) + (outstanding s + 1) * MAXOPBLOCKS \<le> LOGSIZE"
  shows "begin_op c s = Ok (s\<lparr>outstanding := outstanding s + 1\<rparr>)"
  using assms by (simp add: begin_op_def quiet_acquire begin_op_loop_def log_section)

lemma end_op_quiet:
  assumes q: "quiet c i s" "\<not> committing s" "outstanding s = 1" and t: "commit c (s\<lparr>outstanding := 0, committing := True\<rparr>) = Ok t" "quiet c i t"
  shows "end_op c s = Ok (t\<lparr>committing := False\<rparr>)"
proof -
  have "wakeup c (Some Chan_log) ((grabbed c L_log t)\<lparr>committing := False\<rparr>) = Ok ((grabbed c L_log t)\<lparr>committing := False\<rparr>)"
    by (rule section_wakeup [OF t(2), where l = L_log]) (simp_all add: fs_chan_def)
  then show ?thesis
    using q t by (simp add: end_op_def quiet_acquire [of c i] log_section [of c i] Let_def)
qed

text \<open>A transaction that writes only blocks of \<open>A\<close>, of which the log can hold all, started in \<open>s0\<close>.\<close>

definition tx_ok :: "nat \<Rightarrow> nat \<Rightarrow> uint set \<Rightarrow> 'a log_state_scheme \<Rightarrow> 'a log_state_scheme \<Rightarrow> bool" where
  "tx_ok c i A s0 s \<longleftrightarrow> finite A \<and> card A < 29 \<and> tx_frame s0 s \<and> (\<exists>bs. set bs \<subseteq> A \<and> in_tx c i bs s)"

fun tx_may :: "uint set \<Rightarrow> bop \<Rightarrow> 'a log_state_scheme \<Rightarrow> bool" where
  "tx_may A (Rd n) s \<longleftrightarrow> n < disksize s"
| "tx_may A (Wr n d) s \<longleftrightarrow> n \<in> A \<and> n < disksize s \<and> n \<notin> log_area (log_start s)"

lemma tx_may_frame: "tx_frame s t \<Longrightarrow> tx_may A p s = tx_may A p t"
  by (cases p) (simp_all add: tx_frame_def)

lemma tx_may_outstanding [simp]: "tx_may A p (s\<lparr>outstanding := x\<rparr>) = tx_may A p s"
  by (cases p) simp_all

lemma in_tx_emits:
  assumes "in_tx c i bs s" "emits c i {} [] s t"
  shows "in_tx c i bs t" "tx_frame s t"
  using assms bio_frame_log [of s t] log_frame [of s t] by (auto simp: in_tx_def emits_def tx_frame_def)

lemma in_tx_room: "in_tx c i bs s \<Longrightarrow> card (pinned s) < NBUF"
  using card_length [of bs] by (auto simp: in_tx_def tx_def NBUF_def)

interpretation lt: block_array "read_block c" "log_put c" "tx_ok c i A s0" blk "tx_may A"
proof unfold_locales
  fix s :: "'a log_state_scheme" and n
  assume s: "tx_ok c i A s0 s" and n: "tx_may A (Rd n) s"
  then obtain bs where bs: "set bs \<subseteq> A" "in_tx c i bs s"
    by (auto simp: tx_ok_def)
  have ok: "bio_ok c i {} s"
    using bs(2) by (simp add: in_tx_def)
  obtain t where t: "read_block c n s = Ok (blk s n, t)" "emits c i {} [] s t"
    by (rule read_block_emits [OF ok, of n]) (use n spare_card [OF ok] in_tx_room [OF bs(2)] in simp_all)
  note e = in_tx_emits [OF bs(2) t(2)]
  have "tx_ok c i A s0 t"
    using s bs(1) e tx_frame_trans [of s0 s t] by (auto simp: tx_ok_def)
  then show "\<exists>t. read_block c n s = Ok (blk s n, t) \<and> tx_ok c i A s0 t \<and> blk t = blk s \<and> (\<forall>p. tx_may A p s \<longrightarrow> tx_may A p t)"
    using t e(2) by (intro exI [of _ t]) (simp add: emits_def tx_may_frame)
next
  fix s :: "'a log_state_scheme" and n d
  assume s: "tx_ok c i A s0 s" and n: "tx_may A (Wr n d) s"
  then obtain bs where bs: "set bs \<subseteq> A" "in_tx c i bs s" and A: "finite A" "card A < 29"
    by (auto simp: tx_ok_def)
  have "length bs \<le> card A"
    using bs A(1) card_mono [OF A(1) bs(1)] distinct_card [of bs] by (simp add: in_tx_def)
  then obtain t where t: "log_put c n d s = Ok t" "in_tx c i (absorb n bs) t" "blk t = (blk s)(n := d)" "tx_frame s t"
    using log_put_spec [OF bs(2), of n d] A(2) n by auto
  have "set (absorb n bs) \<subseteq> A"
    using bs(1) n by (simp add: absorb_def)
  then have "tx_ok c i A s0 t"
    using s t(2,4) tx_frame_trans [of s0 s t] by (auto simp: tx_ok_def)
  then show "\<exists>t. log_put c n d s = Ok t \<and> tx_ok c i A s0 t \<and> blk t = (blk s)(n := d) \<and> (\<forall>p. tx_may A p s \<longrightarrow> tx_may A p t)"
    using t by (intro exI [of _ t]) (simp add: tx_may_frame)
qed

section \<open>Atomicity\<close>

text \<open>Between transactions: nothing is pinned, the log in memory and the one on the disk are empty.\<close>

definition log_idle :: "nat \<Rightarrow> nat \<Rightarrow> 'a log_state_scheme \<Rightarrow> bool" where
  "log_idle c i s \<longleftrightarrow> bio_ok c i {} s \<and> log_geom s \<and> pinned s = {} \<and> lh_n (lh s) = 0 \<and> outstanding s = 0 \<and> \<not> committing s
     \<and> log_size s = LOGSIZE \<and> length (blk s (log_start s)) = BSIZE \<and> sint (get32 (blk s (log_start s)) 0) = 0"

definition tx_writes :: "uint \<Rightarrow> uint list \<Rightarrow> (uint \<Rightarrow> block) \<Rightarrow> (uint \<times> block) list" where
  "tx_writes st bs a = (if bs = [] then [] else commit_writes st bs a)"

lemma fst_commit_writes: "set bs \<subseteq> fst ` set (commit_writes st bs a)"
  using fst_writes [of bs "\<lambda>j. a (bs ! j)"] by (auto simp: commit_writes_def)

lemma emits_committing:
  fixes s t :: "'a log_state_scheme"
  assumes e: "emits c i H W s t"
  shows "emits c i H W (s\<lparr>committing := y\<rparr>) (t\<lparr>committing := y\<rparr>)"
proof -
  have "t\<lparr>committing := y, sleeplocks := sleeplocks s, bufs := bufs s, bcache_list := bcache_list s, memdisk := memdisk s,
       dwrites := dwrites s\<rparr> = (t\<lparr>sleeplocks := sleeplocks s, bufs := bufs s, bcache_list := bcache_list s,
       memdisk := memdisk s, dwrites := dwrites s\<rparr>)\<lparr>committing := y\<rparr>"
    by simp
  also have "\<dots> = s\<lparr>committing := y\<rparr>"
    using e by (simp only: emits_def bio_frame_def)
  finally have "bio_frame (s\<lparr>committing := y\<rparr>) (t\<lparr>committing := y\<rparr>)"
    using e by (simp add: emits_def bio_frame_def)
  then show ?thesis
    using e by (simp add: emits_def)
qed

lemma end_op_emits:
  assumes tx: "in_tx c i bs s" and o: "outstanding s = 1" "\<not> committing s"
  obtains h t where "end_op c s = Ok t" "lh_n h = 0" "pinned t = {}" "length (lh_block h) = length (lh_block (lh s))"
    "emits c i {} (tx_writes (log_start s) bs (blk s)) (s\<lparr>outstanding := 0, lh := h, committing := False\<rparr>) t"
proof -
  have s: "bio_ok c i {} s" "log_geom s" "tx bs s" "pinned s = set bs" "quiet c i s"
    using tx by (simp_all add: in_tx_def bio_ok_def)
  let ?r = "s\<lparr>outstanding := 0, committing := True\<rparr>"
  let ?h = "(lh s)\<lparr>lh_n := 0\<rparr>"
  obtain t where t: "commit c ?r = Ok t" "emits c i {} (tx_writes (log_start s) bs (blk s)) (?r\<lparr>lh := ?h\<rparr>) t"
  proof (cases "bs = []")
    case True
    then have z: "lh_n (lh s) = 0"
      using s(3) by (simp add: tx_def)
    then have "?r\<lparr>lh := ?h\<rparr> = ?r" "commit c ?r = Ok ?r"
      by (simp_all add: commit_def)
    then show ?thesis
      using that [of ?r] True emits_refl [of c i "{}" ?r] s(1) by (simp add: tx_writes_def)
  next
    case False
    have "bio_ok c i {} ?r" "log_geom ?r" "tx bs ?r" "pinned ?r = set bs"
      using s by (simp_all add: log_geom_def tx_def)
    then show ?thesis
      using commit_emits [of c i ?r bs] False that by (auto simp: tx_writes_def)
  qed
  have "quiet c i t" "pinned t = {}"
    using t(2) s(4) fst_commit_writes [of bs "log_start s" "blk s"] by (auto simp: emits_def bio_ok_def tx_writes_def split: if_splits)
  moreover from this have "end_op c s = Ok (t\<lparr>committing := False\<rparr>)"
    by (intro end_op_quiet [OF s(5) o(2,1) t(1)])
  ultimately show ?thesis
    using that [of "t\<lparr>committing := False\<rparr>" ?h] emits_committing [OF t(2), of False] by simp
qed

text \<open>The disk after the writes of a transaction, all of them or those before a crash.\<close>

lemma tx_complete:
  assumes g: "log_geom s" "tx bs s" and head: "length (a (log_start s)) = BSIZE" "sint (get32 (a (log_start s)) 0) = 0"
  shows "m \<notin> log_area (log_start s) \<Longrightarrow> apply_writes (tx_writes (log_start s) bs a) a m = a m"
    "length (apply_writes (tx_writes (log_start s) bs a) a (log_start s)) = BSIZE"
    "sint (get32 (apply_writes (tx_writes (log_start s) bs a) a (log_start s)) 0) = 0"
proof -
  have n: "length bs < 30"
    using g(2) by (simp add: tx_def)
  have "take (2 * length bs + 2) (commit_writes (log_start s) bs a) = commit_writes (log_start s) bs a"
    by (simp add: commit_writes_def)
  note c = crash_after [OF g order_refl, of _ a a, unfolded this, OF refl]
  show "apply_writes (tx_writes (log_start s) bs a) a m = a m" if "m \<notin> log_area (log_start s)"
    using c(2) [OF that] by (simp add: tx_writes_def)
  show "length (apply_writes (tx_writes (log_start s) bs a) a (log_start s)) = BSIZE"
    "sint (get32 (apply_writes (tx_writes (log_start s) bs a) a (log_start s)) 0) = 0"
    using c(1) head head_roundtrip(2,3) [of "[]" "head_of bs (a (log_start s))"] head_roundtrip(2) [OF n head(1)]
    by (simp_all add: tx_writes_def)
qed

lemma tx_crash:
  assumes g: "log_geom s" "tx bs s" and same: "\<And>m. m \<notin> set bs \<Longrightarrow> d m = a m"
    and head: "length (a (log_start s)) = BSIZE" "sint (get32 (a (log_start s)) 0) = 0"
    and e: "e = apply_writes (take k (tx_writes (log_start s) bs a)) d"
  shows "head_ok (log_start s) (disksize s) (e (log_start s))"
    "(\<forall>m. m \<notin> log_area (log_start s) \<longrightarrow> apply_writes (recover_writes (log_start s) e) e m = d m)
     \<or> (\<forall>m. m \<notin> log_area (log_start s) \<longrightarrow> apply_writes (recover_writes (log_start s) e) e m = a m)"
proof -
  have "head_ok (log_start s) (disksize s) (e (log_start s)) \<and>
    (\<forall>m. m \<notin> log_area (log_start s) \<longrightarrow> apply_writes (recover_writes (log_start s) e) e m = (if k \<le> length bs then d m else a m))"
  proof (cases "bs = []")
    case True
    then have a: "e = a" "d = a"
      using e same by (auto simp: tx_writes_def)
    have "m \<noteq> log_start s" if "m \<notin> log_area (log_start s)" for m
      using that log_block_lt(4) [OF g(1), of 0] by auto
    then show ?thesis
      using a empty_head [OF head(2)] recover_empty [of e "log_start s"] head(2) by simp
  next
    case False
    then show ?thesis
      using crash_recovers [of s bs d a e k, OF g same head] e by (simp add: tx_writes_def)
  qed
  then show "head_ok (log_start s) (disksize s) (e (log_start s))"
    "(\<forall>m. m \<notin> log_area (log_start s) \<longrightarrow> apply_writes (recover_writes (log_start s) e) e m = d m)
     \<or> (\<forall>m. m \<notin> log_area (log_start s) \<longrightarrow> apply_writes (recover_writes (log_start s) e) e m = a m)"
    by (cases "k \<le> length bs"; simp)+
qed

definition rebooted :: "nat \<Rightarrow> nat \<Rightarrow> 'a log_state_scheme \<Rightarrow> (uint \<Rightarrow> block) \<Rightarrow> 'a log_state_scheme \<Rightarrow> bool" where
  "rebooted c i s d r \<longleftrightarrow> bio_ok c i {} r \<and> pinned r = {} \<and> log_geom r \<and> log_start r = log_start s \<and> disksize r = disksize s
     \<and> memdisk r = d"

lemma recover_disk:
  assumes r: "rebooted c i s d r" and head: "head_ok (log_start s) (disksize s) (d (log_start s))"
  obtains u where "recover_from_log c r = Ok u" "bio_ok c i {} u" "memdisk u = apply_writes (recover_writes (log_start s) d) d" "lh_n (lh u) = 0"
proof -
  have b: "bio_ok c i {} r" "log_geom r" "pinned r = {}" "log_start r = log_start s" "disksize r = disksize s" "memdisk r = d" "blk r = d"
    using r clean_on_disk [of c i r] by (auto simp: rebooted_def)
  then obtain h u where "recover_from_log c r = Ok u" "emits c i {} (recover_writes (log_start s) d) (r\<lparr>lh := h\<rparr>) u" "lh_n h = 0"
    using recover_emits [OF b(1-3)] head by metis
  then show ?thesis
    using that [of u] b(6) bio_frame_log(3) [of "r\<lparr>lh := h\<rparr>" u] by (simp add: emits_def)
qed

text \<open>A file system operation: a transaction around reads and logged writes.\<close>

definition run_tx :: "nat \<Rightarrow> bop list \<Rightarrow> 'a log_state_scheme \<Rightarrow> (block list \<times> 'a log_state_scheme) res" where
  "run_tx c ps s =
     bindr (begin_op c s) (\<lambda>s.
     bindr (block_run (read_block c) (log_put c) ps s) (\<lambda>(os, s).
     bindr (end_op c s) (\<lambda>s. Ok (os, s))))"

definition written :: "bop list \<Rightarrow> uint set" where
  "written ps = {n. \<exists>d. Wr n d \<in> set ps}"

lemma run_tx_spec:
  assumes idle: "log_idle c i s" and may: "\<forall>p \<in> set ps. tx_may (written ps) p s" and small: "card (written ps) < 29"
  obtains os bs u h t where "array_run ps (blk s) = (os, blk u)" "in_tx c i bs u" "memdisk u = memdisk s" "dwrites u = dwrites s"
    "log_start u = log_start s" "disksize u = disksize s" "run_tx c ps s = Ok (os, t)" "lh_n h = 0" "length (lh_block h) = nat LOGSIZE" "pinned t = {}"
    "emits c i {} (tx_writes (log_start s) bs (blk u)) (u\<lparr>outstanding := 0, lh := h, committing := False\<rparr>) t"
proof -
  let ?A = "written ps"
  let ?s = "s\<lparr>outstanding := 1\<rparr>"
  have s: "quiet c i s" "\<not> committing s" "lh_n (lh s) = 0" "outstanding s = 0"
    using idle by (simp_all add: log_idle_def bio_ok_def)
  have "begin_op c s = Ok ?s"
    using begin_op_quiet [OF s(1,2)] s(3,4) by (simp add: MAXOPBLOCKS_def LOGSIZE_def)
  moreover have "in_tx c i [] ?s"
    using idle by (simp add: log_idle_def in_tx_def log_geom_def tx_def)
  moreover have "finite ?A"
    unfolding written_def by (rule finite_subset [of _ "bop_block ` set ps"]) (auto intro: rev_image_eqI)
  ultimately have "tx_ok c i ?A ?s ?s" "\<forall>p \<in> set ps. tx_may ?A p ?s"
    using small may by (auto simp: tx_ok_def intro: exI [of _ "[]"])
  then obtain os u where u: "block_run (read_block c) (log_put c) ps ?s = Ok (os, u)" "tx_ok c i ?A ?s u" "array_run ps (blk s) = (os, blk u)"
    using lt.run_refines [of c i ?A ?s ?s ps] by auto
  obtain bs where bs: "in_tx c i bs u" "tx_frame ?s u"
    using u(2) by (auto simp: tx_ok_def)
  then have f: "memdisk u = memdisk s" "dwrites u = dwrites s" "log_start u = log_start s" "disksize u = disksize s"
      "outstanding u = 1" "\<not> committing u" "length (lh_block (lh u)) = nat LOGSIZE"
    using s(2) by (simp_all add: tx_frame_def in_tx_def log_geom_def)
  obtain h t where t: "end_op c u = Ok t" "lh_n h = 0" "pinned t = {}" "length (lh_block h) = length (lh_block (lh u))"
    "emits c i {} (tx_writes (log_start u) bs (blk u)) (u\<lparr>outstanding := 0, lh := h, committing := False\<rparr>) t"
    by (rule end_op_emits [OF bs(1) f(5,6)])
  have "run_tx c ps s = Ok (os, t)"
    using \<open>begin_op c s = Ok ?s\<close> u(1) t(1) by (simp add: run_tx_def)
  then show ?thesis
    using that [OF u(3) bs(1) f(1-4)] t f(3,7) by simp
qed

lemma log_puts:
  "in_tx c i bs s \<Longrightarrow> distinct (bs @ ns) \<Longrightarrow> length (bs @ ns) \<le> 29 \<Longrightarrow> \<forall>n \<in> set ns. n < disksize s \<and> n \<notin> log_area (log_start s) \<Longrightarrow>
   \<exists>t. block_run (read_block c) (log_put c) (map (\<lambda>n. Wr n (d n)) ns) s = Ok ([], t) \<and> in_tx c i (bs @ ns) t \<and> tx_frame s t"
proof (induction ns arbitrary: bs s)
  case (Cons n ns)
  obtain u where u: "log_put c n (d n) s = Ok u" "in_tx c i (absorb n bs) u" "blk u = (blk s)(n := d n)" "tx_frame s u"
    by (rule log_put_spec [OF Cons.prems(1), of n "d n"]) (use Cons.prems in simp_all)
  then have "in_tx c i (bs @ [n]) u" "\<forall>m \<in> set ns. m < disksize u \<and> m \<notin> log_area (log_start u)"
    using Cons.prems by (auto simp: absorb_def tx_frame_def)
  then show ?case
    using Cons.IH [of "bs @ [n]" u] Cons.prems u(1,4) tx_frame_trans [of s u] by auto
qed simp

lemma log_put_full:
  assumes "in_tx c i bs s" "length bs = 29" "n < disksize s"
  shows "log_put c n d s = Panic ''too big a transaction''"
proof -
  have ok: "bio_ok c i {} s"
    using assms(1) by (simp add: in_tx_def)
  obtain b u where u: "bread c 1 n s = Ok (b, u)" "read_to c i {} n s b u"
    by (rule bread_spec [OF ok assms(3)]) (use spare_card [OF ok] in_tx_room [OF assms(1)] in auto)
  have "lh u = lh s" "log_size u = log_size s"
    using u(2) bio_frame_log [of s u] by (simp_all add: read_to_def)
  then show ?thesis
    using u(1) assms(1,2) by (simp add: log_put_def log_write_def in_tx_def tx_def LOGSIZE_def)
qed

lemma block_run_append:
  "block_run rd wr (ps @ qs) s = bindr (block_run rd wr ps s) (\<lambda>(os, s). bindr (block_run rd wr qs s) (\<lambda>(os', s). Ok (os @ os', s)))"
proof (induction ps arbitrary: s)
  case Nil
  then show ?case
    by (cases "block_run rd wr qs s") auto
next
  case (Cons p ps)
  then show ?case
    by (auto simp: split_beta bindr_assoc split: bop.splits intro!: bindr_cong)
qed

text \<open>C25: The log can be overcommitted. \<open>begin_op\<close> admits a third operation of up to \<open>MAXOPBLOCKS\<close> blocks each, but when the
  three have logged 29 different blocks, the thirtieth \<open>log_write\<close> panics: \<open>begin_op\<close> counts with \<open>LOGSIZE\<close> blocks,
  \<open>log_write\<close> with one less, because one block of the log on the disk is its header.\<close>

theorem log_overcommits:
  assumes idle: "log_idle c i s" and ns: "distinct ns" "length ns = 30" "\<forall>n \<in> set ns. n < disksize s \<and> n \<notin> log_area (log_start s)"
  shows "begin_op c (s\<lparr>outstanding := 2\<rparr>) = Ok (s\<lparr>outstanding := 3\<rparr>) \<and> 3 * MAXOPBLOCKS = int (length ns)
    \<and> block_run (read_block c) (log_put c) (map (\<lambda>n. Wr n (d n)) ns) (s\<lparr>outstanding := 3\<rparr>) = Panic ''too big a transaction''"
proof -
  have "quiet c i (s\<lparr>outstanding := 2\<rparr>)"
    using idle log_counts(1) [where s = s and x = 2 and c = c and i = i and H = "{}"] by (simp add: log_idle_def bio_ok_def)
  then have "begin_op c (s\<lparr>outstanding := 2\<rparr>) = Ok (s\<lparr>outstanding := 3\<rparr>)"
    using idle by (subst begin_op_quiet) (simp_all add: log_idle_def MAXOPBLOCKS_def LOGSIZE_def)
  moreover obtain ms n where m: "ns = ms @ [n]"
    using ns(2) by (cases ns rule: rev_cases) auto
  have "in_tx c i [] (s\<lparr>outstanding := 3\<rparr>)"
    using idle by (simp add: log_idle_def in_tx_def log_geom_def tx_def)
  then obtain t where t: "block_run (read_block c) (log_put c) (map (\<lambda>n. Wr n (d n)) ms) (s\<lparr>outstanding := 3\<rparr>) = Ok ([], t)"
    "in_tx c i ms t" "tx_frame (s\<lparr>outstanding := 3\<rparr>) t"
    using log_puts [of c i "[]" "s\<lparr>outstanding := 3\<rparr>" ms d] m ns by auto
  then have "log_put c n (d n) t = Panic ''too big a transaction''"
    using log_put_full [of c i ms t n] m ns by (simp add: tx_frame_def)
  ultimately show ?thesis
    using t(1) m ns(2) by (simp add: block_run_append MAXOPBLOCKS_def)
qed

text \<open>C17: A file system operation (\<open>begin_op\<close>, any reads and logged writes of up to 28 different blocks outside the log,
  \<open>end_op\<close>) never fails, reads and writes like an array of blocks, and leaves the log idle again with its result
  on the disk. If the machine stops after any prefix of the writes this sends to the disk, \<open>recover_from_log\<close> after
  the restart returns with either none of the operation's writes on the disk or all of them.\<close>

theorem transaction_atomic:
  assumes idle: "log_idle c i s" and may: "\<forall>p \<in> set ps. tx_may (written ps) p s" and small: "card (written ps) < 29"
  shows "\<exists>os t W a. run_tx c ps s = Ok (os, t) \<and> array_run ps (blk s) = (os, a) \<and> log_idle c i t
    \<and> dwrites t = dwrites s @ W \<and> (\<forall>m. m \<notin> log_area (log_start s) \<longrightarrow> memdisk t m = a m)
    \<and> (\<forall>k c' i' r. rebooted c' i' s (apply_writes (take k W) (memdisk s)) r \<longrightarrow>
         (\<exists>u. recover_from_log c' r = Ok u \<and> lh_n (lh u) = 0
            \<and> ((\<forall>m. m \<notin> log_area (log_start s) \<longrightarrow> memdisk u m = memdisk s m)
             \<or> (\<forall>m. m \<notin> log_area (log_start s) \<longrightarrow> memdisk u m = a m))))"
proof -
  obtain os bs u h t where r: "array_run ps (blk s) = (os, blk u)" "in_tx c i bs u" "memdisk u = memdisk s" "dwrites u = dwrites s"
    "log_start u = log_start s" "disksize u = disksize s" "run_tx c ps s = Ok (os, t)" "lh_n h = 0" "length (lh_block h) = nat LOGSIZE"
    "pinned t = {}" "emits c i {} (tx_writes (log_start s) bs (blk u)) (u\<lparr>outstanding := 0, lh := h, committing := False\<rparr>) t"
    by (rule run_tx_spec [OF assms])
  let ?W = "tx_writes (log_start s) bs (blk u)"
  have u: "log_geom u" "tx bs u" "\<And>m. m \<notin> set bs \<Longrightarrow> memdisk s m = blk u m" "log_size u = LOGSIZE"
    using r(2,3) clean_on_disk [of c i u] by (auto simp: in_tx_def)
  have "blk u (log_start s) = blk s (log_start s)"
    using u(2,3) r(5) idle log_block_lt(4) [OF u(1), of 0] clean_on_disk [of c i s "log_start s"] by (auto simp: log_idle_def tx_def)
  then have head: "length (blk u (log_start u)) = BSIZE" "sint (get32 (blk u (log_start u)) 0) = 0"
    using idle r(5) by (simp_all add: log_idle_def)
  note fin = tx_complete [where a = "blk u", OF u(1,2) head, unfolded r(5)]
  have t: "bio_ok c i {} t" "dwrites t = dwrites s @ ?W" "blk t = apply_writes ?W (blk u)"
    "bio_frame (u\<lparr>outstanding := 0, lh := h, committing := False\<rparr>) t"
    using r(4,11) by (simp_all add: emits_def)
  have "log_idle c i t"
    using t(1,3) r(5,8-10) fin u(1,4) bio_frame_log [OF t(4)] by (simp add: log_idle_def log_geom_def)
  moreover have "\<forall>m. m \<notin> log_area (log_start s) \<longrightarrow> memdisk t m = blk u m"
    using fin(1) clean_on_disk [OF t(1)] r(10) t(3) by simp
  moreover have "\<exists>v. recover_from_log c' r' = Ok v \<and> lh_n (lh v) = 0
      \<and> ((\<forall>m. m \<notin> log_area (log_start s) \<longrightarrow> memdisk v m = memdisk s m) \<or> (\<forall>m. m \<notin> log_area (log_start s) \<longrightarrow> memdisk v m = blk u m))"
    if reb: "rebooted c' i' s (apply_writes (take k ?W) (memdisk s)) r'" for k c' i' r'
  proof -
    note cr = tx_crash [where a = "blk u" and d = "memdisk s", OF u(1-3) head refl, of k, unfolded r(5,6)]
    show ?thesis
      using recover_disk [OF reb cr(1)] cr(2) by metis
  qed
  ultimately show ?thesis
    using r(1,7) t(2) by blast
qed

text \<open>A machine with a cold cache and an empty log on blocks 2 to 31 of the disk \<open>d\<close>.\<close>

definition log_machine :: "(uint \<Rightarrow> block) \<Rightarrow> log_state" where
  "log_machine d = cold_machine d (log_state.fields 2 30 0 False 1 \<lparr>lh_n = 0, lh_block = replicate 30 0\<rparr>)"

lemma log_machine_fields [simp]:
  "log_start (log_machine d) = 2" "log_size (log_machine d) = 30" "outstanding (log_machine d) = 0" "\<not> committing (log_machine d)"
  "log_dev (log_machine d) = 1" "lh (log_machine d) = \<lparr>lh_n = 0, lh_block = replicate 30 0\<rparr>" "disksize (log_machine d) = 1000"
  "memdisk (log_machine d) = d" "blk (log_machine d) = d" "pinned (log_machine d) = {}" "bio_ok 0 0 {} (log_machine d)"
  using cold_ok [of d "log_state.fields 2 30 0 False 1 \<lparr>lh_n = 0, lh_block = replicate 30 0\<rparr>"]
  by (simp_all add: log_machine_def cold_machine_def log_state.defs)

lemma log_machine_idle:
  assumes "d 2 = replicate BSIZE 0"
  shows "log_idle 0 0 (log_machine d)"
  using assms by (simp add: log_idle_def log_geom_def LOGSIZE_def BSIZE_def get32_def byte_at_def)

lemma log_machine_rebooted: "rebooted 0 0 (log_machine e) d (log_machine d)"
  by (simp add: rebooted_def log_geom_def LOGSIZE_def)

theorem transaction_atomic_witness:
  "\<exists>os t W. run_tx 0 [Wr 100 [7], Rd 100] (log_machine (\<lambda>_. replicate BSIZE 0)) = Ok (os, t) \<and> os = [[7]] \<and> memdisk t 100 = [7]
     \<and> (\<forall>k. \<exists>u. recover_from_log 0 (log_machine (apply_writes (take k W) (\<lambda>_. replicate BSIZE 0))) = Ok u
          \<and> (memdisk u 100 = replicate BSIZE 0 \<or> memdisk u 100 = [7]))"
proof -
  let ?ps = "[Wr 100 [7], Rd 100]" and ?d = "\<lambda>_. replicate BSIZE 0"
  have w: "written ?ps = {100}"
    by (auto simp: written_def)
  have "100 \<notin> log_area 2"
    by (simp add: log_area_def)
  then obtain os t W a where r: "run_tx 0 ?ps (log_machine ?d) = Ok (os, t)" "array_run ?ps ?d = (os, a)"
    "\<forall>m. m \<notin> log_area 2 \<longrightarrow> memdisk t m = a m"
    "\<forall>k c' i' r. rebooted c' i' (log_machine ?d) (apply_writes (take k W) ?d) r \<longrightarrow>
         (\<exists>u. recover_from_log c' r = Ok u \<and> lh_n (lh u) = 0
            \<and> ((\<forall>m. m \<notin> log_area 2 \<longrightarrow> memdisk u m = ?d m) \<or> (\<forall>m. m \<notin> log_area 2 \<longrightarrow> memdisk u m = a m)))"
    using transaction_atomic [of 0 0 "log_machine ?d" ?ps] log_machine_idle [of ?d] by (auto simp: w)
  then show ?thesis
    using log_machine_rebooted [of ?d] \<open>100 \<notin> log_area 2\<close> by fastforce
qed

theorem log_overcommits_witness:
  "\<exists>s :: log_state. begin_op 0 s = Ok (s\<lparr>outstanding := 3\<rparr>) \<and> block_run (read_block 0) (log_put 0) (map (\<lambda>n. Wr (word_of_nat n) []) [100..<130])
     (s\<lparr>outstanding := 3\<rparr>) = Panic ''too big a transaction''"
proof -
  let ?d = "\<lambda>_. replicate BSIZE 0" and ?ns = "map word_of_nat [100..<130] :: uint list"
  have "unat (word_of_nat n :: uint) = n" if "n < 130" for n
    using that by (simp add: unat_of_nat)
  then have "distinct ?ns" "\<forall>n \<in> set ?ns. n < 1000 \<and> n \<notin> log_area 2"
    by (auto simp: distinct_map inj_on_def log_area_def word_less_nat_alt dest: arg_cong [where f = unat])
  then show ?thesis
    using log_overcommits [of 0 0 "log_machine ?d" ?ns "\<lambda>_. []"] log_machine_idle [of ?d]
    by (intro exI [of _ "(log_machine ?d)\<lparr>outstanding := 2\<rparr>"]) (simp add: comp_def)
qed

end
