(* ===== verification/Userlib.thy ===== *)
theory Userlib
  imports Inode
begin

text \<open>
  User programs. A program is a tree of system calls: \<open>Call\<close> issues a call and goes on with the kernel's
  reply, \<open>Exit\<close> is \<^verbatim>\<open>exit()\<close>, \<open>Forever\<close> a loop that makes no further call (\<^verbatim>\<open>while (1);\<close>), and \<open>Crash\<close> an access
  that C does not define. \<^verbatim>\<open>fork()\<close> is a call like the others: the child goes on with the reply 0, the
  parent with the pid of the child. Loops that end only when the kernel says so carry fuel, and go to
  \<open>Forever\<close> when it is used up. Then come the library routines of \<^verbatim>\<open>ulib.c\<close> and \<^verbatim>\<open>printf.c\<close>.
\<close>

section \<open>Programs\<close>

datatype scall =
    S_fork | S_wait | S_pipe | S_write int string | S_read int int | S_close int | S_kill int
  | S_exec string "string list" | S_open string int | S_mknod string int int | S_unlink string
  | S_fstat int | S_link string string | S_mkdir string | S_chdir string | S_dup int | S_getpid
  | S_sbrk int | S_sleep int | S_uptime | S_proc_info | S_assign_tickets int int
  | S_change_schedorder_flag int

record processes_info =
  num_processes :: int
  pids :: "int list"
  info_ticks :: "int list"
  info_tickets :: "int list"

text \<open>What comes back: the returned value, and what the call has stored in the caller's memory.\<close>

record reply =
  rv :: int
  r_data :: string
  r_pfd :: "int \<times> int"
  r_stat :: stat
  r_info :: processes_info

datatype 'a uprog = Ret 'a | Call scall "reply \<Rightarrow> 'a uprog" | Exit | Forever | Crash

primrec bindu :: "'a uprog \<Rightarrow> ('a \<Rightarrow> 'b uprog) \<Rightarrow> 'b uprog" where
  "bindu (Ret x) f = f x"
| "bindu (Call q k) f = Call q (\<lambda>r. bindu (k r) f)"
| "bindu Exit f = Exit"
| "bindu Forever f = Forever"
| "bindu Crash f = Crash"

abbreviation thenu :: "'a uprog \<Rightarrow> 'b uprog \<Rightarrow> 'b uprog" where
  "thenu m n \<equiv> bindu m (\<lambda>_. n)"

text \<open>A call for its value, and one whose reply is ignored.\<close>

definition sys :: "scall \<Rightarrow> int uprog" where
  "sys q = Call q (\<lambda>r. Ret (rv r))"

definition call_void :: "scall \<Rightarrow> unit uprog" where
  "call_void q = Call q (\<lambda>r. Ret ())"

text \<open>One path through a program, with the kernel as a function on some state: every call is answered, and
  after \<^verbatim>\<open>fork()\<close> the path follows the process to which the reply belongs.\<close>

datatype 'a path = Returned 'a | Exited | Looping | Crashed

primrec run_path :: "(scall \<Rightarrow> 'e \<Rightarrow> reply \<times> 'e) \<Rightarrow> 'a uprog \<Rightarrow> 'e \<Rightarrow> 'a path \<times> 'e" where
  "run_path h (Ret x) = (\<lambda>e. (Returned x, e))"
| "run_path h (Call q k) = (\<lambda>e. let (r, e) = h q e in run_path h (k r) e)"
| "run_path h Exit = (\<lambda>e. (Exited, e))"
| "run_path h Forever = (\<lambda>e. (Looping, e))"
| "run_path h Crash = (\<lambda>e. (Crashed, e))"

lemma bindu_assoc: "bindu (bindu m f) g = bindu m (\<lambda>x. bindu (f x) g)"
  by (induction m) simp_all

lemma bindu_Ret [simp]: "bindu m Ret = m"
  by (induction m) simp_all

lemma run_bindu:
  "run_path h (bindu m f) e = (case run_path h m e of (Returned x, e) \<Rightarrow> run_path h (f x) e | (Exited, e) \<Rightarrow> (Exited, e)
     | (Looping, e) \<Rightarrow> (Looping, e) | (Crashed, e) \<Rightarrow> (Crashed, e))"
  by (induction m arbitrary: e) (simp_all add: split_beta)

section \<open>ulib.c\<close>

abbreviation NUL :: char where
  "NUL \<equiv> CHR 0x00"

fun ustrcmp :: "string \<Rightarrow> string \<Rightarrow> int" where
  "ustrcmp (a # p) (b # q) = (if a = b then ustrcmp p q else of_char a - of_char b)"
| "ustrcmp (a # p) [] = of_char a"
| "ustrcmp [] (b # q) = - of_char b"
| "ustrcmp [] [] = 0"

primrec strchr :: "string \<Rightarrow> char \<Rightarrow> nat option" where
  "strchr [] c = None"
| "strchr (d # s) c = (if d = c then Some 0 else map_option Suc (strchr s c))"

primrec gets_loop :: "nat \<Rightarrow> string \<Rightarrow> string uprog" where
  "gets_loop 0 buf = Ret buf"
| "gets_loop (Suc room) buf =
     Call (S_read 0 1) (\<lambda>r.
       if rv r < 1 then Ret buf
       else case r_data r of
         [] \<Rightarrow> Crash
       | c # _ \<Rightarrow> if c = CHR 0x0A \<or> c = CHR 0x0D then Ret (buf @ [c]) else gets_loop room (buf @ [c]))"

definition gets :: "int \<Rightarrow> string uprog" where
  "gets n = gets_loop (nat (n - 1)) []"

definition ustat :: "string \<Rightarrow> (int \<times> stat option) uprog" where
  "ustat n =
     bindu (sys (S_open n 0)) (\<lambda>fd.
       if fd < 0 then Ret (-1, None)
       else Call (S_fstat fd) (\<lambda>r.
            thenu (call_void (S_close fd)) (Ret (rv r, if rv r < 0 then None else Some (r_stat r)))))"

fun atoi_loop :: "int \<Rightarrow> string \<Rightarrow> int" where
  "atoi_loop n [] = n"
| "atoi_loop n (c # s) =
     (if of_char (CHR ''0'') \<le> (of_char c :: int) \<and> (of_char c :: int) \<le> of_char (CHR ''9'')
      then atoi_loop (i32 (i32 (n * 10) + of_char c - of_char (CHR ''0''))) s
      else n)"

definition atoi :: "string \<Rightarrow> int" where
  "atoi s = atoi_loop 0 s"

definition umemset :: "mem \<Rightarrow> uint \<Rightarrow> uchar \<Rightarrow> uint \<Rightarrow> mem" where
  "umemset m dst c n = stosb m dst c n"

definition umemmove :: "mem \<Rightarrow> uint \<Rightarrow> uint \<Rightarrow> int \<Rightarrow> mem" where
  "umemmove m dst src n = copy_up m dst src (nat n)"

section \<open>printf.c\<close>

primrec putc :: "int \<Rightarrow> string \<Rightarrow> unit uprog" where
  "putc fd [] = Ret ()"
| "putc fd (c # cs) = Call (S_write fd [c]) (\<lambda>_. putc fd cs)"

definition udigits :: string where
  "udigits = ''0123456789ABCDEF''"

definition uprintint :: "int \<Rightarrow> uint \<Rightarrow> bool \<Rightarrow> string res" where
  "uprintint xx base sign = int_chars udigits xx base sign"

text \<open>The loop over the format; the first argument is the variable \<open>state\<close>.\<close>

fun printf_chars :: "bool \<Rightarrow> string \<Rightarrow> karg list \<Rightarrow> string res" where
  "printf_chars st [] args = Ok []"
| "printf_chars False (c # fmt) args =
     (if c = CHR ''%'' then printf_chars True fmt args
      else bindr (printf_chars False fmt args) (\<lambda>out. Ok (c # out)))"
| "printf_chars True (c # fmt) args =
     (if c = CHR ''d'' then
        (case args of A_int n # rest \<Rightarrow>
            bindr (uprintint n 10 True) (\<lambda>out. bindr (printf_chars False fmt rest) (\<lambda>out'. Ok (out @ out')))
          | _ \<Rightarrow> Fault)
      else if c = CHR ''x'' \<or> c = CHR ''p'' then
        (case args of A_int n # rest \<Rightarrow>
            bindr (uprintint n 16 False) (\<lambda>out. bindr (printf_chars False fmt rest) (\<lambda>out'. Ok (out @ out')))
          | _ \<Rightarrow> Fault)
      else if c = CHR ''s'' then
        (case args of A_str str # rest \<Rightarrow>
            bindr (printf_chars False fmt rest) (\<lambda>out'.
              Ok ((case str of None \<Rightarrow> ''(null)'' | Some t \<Rightarrow> t) @ out'))
          | _ \<Rightarrow> Fault)
      else if c = CHR ''c'' then
        (case args of A_int n # rest \<Rightarrow>
            bindr (printf_chars False fmt rest) (\<lambda>out'. Ok (char_of (nat (n mod 256)) # out'))
          | _ \<Rightarrow> Fault)
      else if c = CHR ''%'' then bindr (printf_chars False fmt args) (\<lambda>out'. Ok (c # out'))
      else bindr (printf_chars False fmt args) (\<lambda>out'. Ok (CHR ''%'' # c # out')))"

definition printf :: "int \<Rightarrow> string \<Rightarrow> karg list \<Rightarrow> unit uprog" where
  "printf fd fmt args = (case printf_chars False fmt args of Ok out \<Rightarrow> putc fd out | _ \<Rightarrow> Crash)"

section \<open>A file to read and an output\<close>

text \<open>A file that delivers its contents in given portions, as far as they were asked for, and the output.\<close>

definition reply0 :: reply where
  "reply0 = \<lparr>rv = 0, r_data = [], r_pfd = (0, 0), r_stat = \<lparr>st_type = 0, st_dev = 0, st_ino = 0, st_nlink = 0, st_size = 0\<rparr>,
     r_info = \<lparr>num_processes = 0, pids = [], info_ticks = [], info_tickets = []\<rparr>\<rparr>"

fun feed :: "scall \<Rightarrow> string list \<times> string \<Rightarrow> reply \<times> string list \<times> string" where
  "feed (S_read fd n) (b # bs, out) =
     (let a = take (nat n) b; b = drop (nat n) b
      in (reply0\<lparr>rv := int (length a), r_data := a\<rparr>, if b = [] then bs else b # bs, out))"
| "feed (S_write fd s) (bs, out) = (reply0\<lparr>rv := int (length s)\<rparr>, bs, out @ s)"
| "feed q e = (reply0, e)"

lemma run_putc: "run_path feed (putc fd s) (bs, out) = (Returned (), bs, out @ s)"
  by (induction s arbitrary: out) simp_all

lemma run_printf: "printf_chars False fmt args = Ok s \<Longrightarrow> run_path feed (printf fd fmt args) (bs, out) = (Returned (), bs, out @ s)"
  by (simp add: printf_def run_putc)

text \<open>All calls a program can make, whatever the kernel answers.\<close>

primrec all_calls :: "(scall \<Rightarrow> bool) \<Rightarrow> 'a uprog \<Rightarrow> bool" where
  "all_calls P (Ret x) = True"
| "all_calls P (Call q k) = (P q \<and> (\<forall>r. all_calls P (k r)))"
| "all_calls P Exit = True"
| "all_calls P Forever = True"
| "all_calls P Crash = True"

lemma all_calls_bindu: "all_calls P m \<Longrightarrow> (\<And>x. all_calls P (f x)) \<Longrightarrow> all_calls P (bindu m f)"
  by (induction m) simp_all

lemma all_calls_putc: "(\<And>s. P (S_write fd s)) \<Longrightarrow> all_calls P (putc fd s)"
  by (induction s) simp_all

lemma all_calls_printf: "(\<And>s. P (S_write fd s)) \<Longrightarrow> all_calls P (printf fd fmt args)"
  by (simp add: printf_def all_calls_putc split: res.splits)

section \<open>Numbers written and read\<close>

lemma of_char_digit: "d < 10 \<Longrightarrow> of_char (udigits ! d) = (48 + int d)"
  by (auto simp: udigits_def nth_Cons' numeral_eq_Suc less_Suc_eq)

lemma place_value_snoc: "place_value b (ds @ [d]) = place_value b ds + b ^ length ds * d"
  by (induction ds) (simp_all add: algebra_simps)

lemma atoi_loop_digits:
  "\<forall>d \<in> set ds. d < 10 \<Longrightarrow> 0 \<le> acc \<Longrightarrow> acc * 10 ^ length ds + int (place_value 10 ds) < 2 ^ 31 \<Longrightarrow>
   atoi_loop acc (map ((!) udigits) (rev ds)) = acc * 10 ^ length ds + int (place_value 10 ds)"
proof (induction ds arbitrary: acc rule: rev_induct)
  case (snoc d ds)
  have d: "d < 10" "of_char (udigits ! d) = (48 + int d)"
    using snoc.prems(1) of_char_digit by auto
  have eq: "acc * 10 ^ length (ds @ [d]) + int (place_value 10 (ds @ [d]))
      = (acc * 10 + int d) * 10 ^ length ds + int (place_value 10 ds)"
    by (simp add: place_value_snoc algebra_simps)
  have "acc * 10 + int d \<le> (acc * 10 + int d) * 10 ^ length ds"
    using snoc.prems(2) by (simp add: mult_le_cancel_left1)
  then have lt: "acc * 10 + int d < 2 ^ 31" "(acc * 10 + int d) * 10 ^ length ds + int (place_value 10 ds) < 2 ^ 31"
    using snoc.prems(3) unfolding eq by linarith+
  then have "i32 (i32 (acc * 10) + of_char (udigits ! d) - 48) = acc * 10 + int d"
    using snoc.prems(2) d(2) by simp
  then have "atoi_loop acc (map ((!) udigits) (rev (ds @ [d]))) = atoi_loop (acc * 10 + int d) (map ((!) udigits) (rev ds))"
    using d by simp
  also have "\<dots> = (acc * 10 + int d) * 10 ^ length ds + int (place_value 10 ds)"
    using snoc.IH [OF _ _ lt(2)] snoc.prems(1,2) by simp
  finally show ?case
    by (simp only: eq)
qed simp

lemma uprintint_atoi:
  assumes "0 \<le> n" "n < 2147483648"
  shows "\<exists>s. uprintint n 10 True = Ok s \<and> atoi s = n"
proof -
  obtain ds where ds: "uprintint n 10 True = Ok (rev (map ((!) udigits) ds))" "numeral_of 10 (nat n) ds"
    using int_chars_digits [of 10 udigits n] assms by (auto simp: uprintint_def udigits_def)
  then have "atoi (rev (map ((!) udigits) ds)) = n"
    using atoi_loop_digits [of ds 0] assms by (simp add: atoi_def numeral_of_def rev_map)
  then show ?thesis
    using ds(1) by simp
qed

text \<open>What \<open>printf\<close> writes for \<^verbatim>\<open>%d\<close> and a non-negative \<open>int\<close>, \<open>atoi\<close> reads back as the same number. \<close>

theorem atoi_reads_printf:
  assumes "0 \<le> n" "n < 2 ^ 31"
  shows "\<exists>s. printf_chars False ''%d'' [A_int n] = Ok s \<and> atoi s = n"
  using uprintint_atoi [of n] assms by auto

theorem atoi_reads_printf_witness: "\<exists>s. printf_chars False ''%d'' [A_int 2147483647] = Ok s \<and> atoi s = 2147483647"
  using atoi_reads_printf [of 2147483647] by simp

end
