(* ===== verification/Utils.thy ===== *)
theory Utils
  imports Userlib
begin

text \<open>
  The utility programs: those that come with the lottery scheduler (\<^verbatim>\<open>ps\<close>, \<^verbatim>\<open>assign-tickets\<close>, \<^verbatim>\<open>sleep\<close>) and those
  of the original system. \<open>argv\<close> is the list of the arguments with the name of the program first, as
  \<^verbatim>\<open>exec\<close> passes it.
\<close>

abbreviation TAB :: string where "TAB \<equiv> [CHR 0x09]"
abbreviation NL :: string where "NL \<equiv> [CHR 0x0A]"
abbreviation QUOTE :: string where "QUOTE \<equiv> [CHR 0x27]"

abbreviation arg :: "string list \<Rightarrow> nat \<Rightarrow> karg" where
  "arg argv i \<equiv> A_str (if i < length argv then Some (argv ! i) else None)"

section \<open>ps, assign-tickets, sleep\<close>

definition MAX_TICKETS_PER_PROCESS :: int where
  "MAX_TICKETS_PER_PROCESS = 1000"

primrec ps_loop :: "processes_info \<Rightarrow> nat list \<Rightarrow> unit uprog" where
  "ps_loop info [] = Ret ()"
| "ps_loop info (i # is) =
     (if i \<ge> length (pids info) \<or> i \<ge> length (info_ticks info) \<or> i \<ge> length (info_tickets info) then Crash
      else thenu (printf 1 (''%d'' @ TAB @ TAB @ ''%d'' @ TAB @ TAB @ ''%d'' @ NL)
             [A_int (pids info ! i), A_int (info_ticks info ! i), A_int (info_tickets info ! i)])
           (ps_loop info is))"

definition ps_main :: "unit uprog" where
  "ps_main =
     Call S_proc_info (\<lambda>r.
       thenu (printf 1 (''PID'' @ TAB @ TAB @ ''TICKS'' @ TAB @ TAB @ ''TICKETS'' @ NL) [])
       (thenu (ps_loop (r_info r) [0..<nat (if rv r < 0 then 0 else num_processes (r_info r))])
       Exit))"

definition assign_tickets_main :: "string list \<Rightarrow> unit uprog" where
  "assign_tickets_main argv =
     (if length argv \<noteq> 3 then thenu (printf 1 (''Usage : %s '' @ QUOTE @ ''pid'' @ QUOTE @ '' '' @ QUOTE @ ''tickets'' @ QUOTE @ NL) [arg argv 0]) Exit
      else let pid = atoi (argv ! 1); tickets = atoi (argv ! 2)
           in if pid < 1 \<or> tickets < 1 then thenu (printf 1 (''Check the parameters!'' @ NL) []) Exit
              else if tickets > MAX_TICKETS_PER_PROCESS
              then thenu (printf 1 (''Maximum tickets allowed for a process = %d'' @ NL) [A_int MAX_TICKETS_PER_PROCESS]) Exit
              else bindu (sys (S_assign_tickets pid tickets)) (\<lambda>retval.
                   thenu (if retval = -1 then printf 1 (''Error encountered!'' @ NL) []
                          else if retval = -2 then printf 1 (''Process not found!'' @ NL) []
                          else printf 1 (''Tickets Updated!'' @ NL) [])
                   Exit))"

definition sleep_main :: "string list \<Rightarrow> unit uprog" where
  "sleep_main argv =
     (if length argv < 2 then thenu (printf 1 (''Usage: sleep ticks'' @ NL) []) Exit
      else let sleep_ticks = atoi (argv ! 1)
           in thenu (if sleep_ticks > 0 then call_void (S_sleep sleep_ticks)
                     else printf 1 (''Invalid input'' @ NL) [])
              Exit)"

section \<open>echo, kill, ln, rm, mkdir, zombie\<close>

primrec echo_loop :: "string list \<Rightarrow> unit uprog" where
  "echo_loop [] = Ret ()"
| "echo_loop (a # as) = thenu (printf 1 ''%s%s'' [A_str (Some a), A_str (Some (if as \<noteq> [] then '' '' else NL))]) (echo_loop as)"

definition echo_main :: "string list \<Rightarrow> unit uprog" where
  "echo_main argv = thenu (echo_loop (drop 1 argv)) Exit"

primrec kill_loop :: "string list \<Rightarrow> unit uprog" where
  "kill_loop [] = Ret ()"
| "kill_loop (a # as) = thenu (call_void (S_kill (atoi a))) (kill_loop as)"

definition kill_main :: "string list \<Rightarrow> unit uprog" where
  "kill_main argv =
     (if length argv < 2 then thenu (printf 2 (''usage: kill pid...'' @ NL) []) Exit
      else thenu (kill_loop (drop 1 argv)) Exit)"

definition ln_main :: "string list \<Rightarrow> unit uprog" where
  "ln_main argv =
     (if length argv \<noteq> 3 then thenu (printf 2 (''Usage: ln old new'' @ NL) []) Exit
      else bindu (sys (S_link (argv ! 1) (argv ! 2))) (\<lambda>r.
           thenu (if r < 0 then printf 2 (''link %s %s: failed'' @ NL) [arg argv 1, arg argv 2] else Ret ()) Exit))"

primrec rm_loop :: "string list \<Rightarrow> unit uprog" where
  "rm_loop [] = Ret ()"
| "rm_loop (a # as) =
     bindu (sys (S_unlink a)) (\<lambda>r.
       if r < 0 then printf 2 (''rm: %s failed to delete'' @ NL) [A_str (Some a)] else rm_loop as)"

definition rm_main :: "string list \<Rightarrow> unit uprog" where
  "rm_main argv =
     (if length argv < 2 then thenu (printf 2 (''Usage: rm files...'' @ NL) []) Exit
      else thenu (rm_loop (drop 1 argv)) Exit)"

primrec mkdir_loop :: "string list \<Rightarrow> unit uprog" where
  "mkdir_loop [] = Ret ()"
| "mkdir_loop (a # as) =
     bindu (sys (S_mkdir a)) (\<lambda>r.
       if r < 0 then printf 2 (''mkdir: %s failed to create'' @ NL) [A_str (Some a)] else mkdir_loop as)"

definition mkdir_main :: "string list \<Rightarrow> unit uprog" where
  "mkdir_main argv =
     (if length argv < 2 then thenu (printf 2 (''Usage: mkdir files...'' @ NL) []) Exit
      else thenu (mkdir_loop (drop 1 argv)) Exit)"

definition zombie_main :: "unit uprog" where
  "zombie_main = bindu (sys S_fork) (\<lambda>pid. thenu (if pid > 0 then call_void (S_sleep 5) else Ret ()) Exit)"

section \<open>cat\<close>

abbreviation got :: "reply \<Rightarrow> string" where
  "got r \<equiv> take (nat (rv r)) (r_data r)"

primrec cat :: "nat \<Rightarrow> int \<Rightarrow> unit uprog" where
  "cat 0 fd = Forever"
| "cat (Suc n) fd =
     Call (S_read fd 512) (\<lambda>r.
       if rv r > 0 then
         bindu (sys (S_write 1 (got r))) (\<lambda>w.
           if w \<noteq> rv r then thenu (printf 1 (''cat: write error'' @ NL) []) Exit else cat n fd)
       else if rv r < 0 then thenu (printf 1 (''cat: read error'' @ NL) []) Exit
       else Ret ())"

primrec cat_files :: "nat \<Rightarrow> string list \<Rightarrow> unit uprog" where
  "cat_files n [] = Ret ()"
| "cat_files n (a # as) =
     bindu (sys (S_open a 0)) (\<lambda>fd.
       if fd < 0 then thenu (printf 1 (''cat: cannot open %s'' @ NL) [A_str (Some a)]) Exit
       else thenu (cat n fd) (thenu (call_void (S_close fd)) (cat_files n as)))"

definition cat_main :: "nat \<Rightarrow> string list \<Rightarrow> unit uprog" where
  "cat_main n argv = (if length argv \<le> 1 then thenu (cat n 0) Exit else thenu (cat_files n (drop 1 argv)) Exit)"

section \<open>wc\<close>

definition wc_space :: "char \<Rightarrow> bool" where
  "wc_space c \<longleftrightarrow> strchr ('' '' @ [CHR 0x0D, CHR 0x09, CHR 0x0A, CHR 0x0B]) c \<noteq> None"

record wc_count =
  wc_l :: int
  wc_w :: int
  wc_c :: int
  wc_inword :: bool

definition wc_char :: "char \<Rightarrow> wc_count \<Rightarrow> wc_count" where
  "wc_char b k =
     (let k = k\<lparr>wc_c := i32 (wc_c k + 1)\<rparr>;
          k = (if b = CHR 0x0A then k\<lparr>wc_l := i32 (wc_l k + 1)\<rparr> else k)
      in if wc_space b then k\<lparr>wc_inword := False\<rparr>
         else if \<not> wc_inword k then k\<lparr>wc_w := i32 (wc_w k + 1), wc_inword := True\<rparr>
         else k)"

primrec wc_loop :: "nat \<Rightarrow> int \<Rightarrow> string \<Rightarrow> wc_count \<Rightarrow> unit uprog" where
  "wc_loop 0 fd name k = Forever"
| "wc_loop (Suc n) fd name k =
     Call (S_read fd 512) (\<lambda>r.
       if rv r > 0 then wc_loop n fd name (fold wc_char (got r) k)
       else if rv r < 0 then thenu (printf 1 (''wc: read error'' @ NL) []) Exit
       else printf 1 (''%d %d %d %s'' @ NL) [A_int (wc_l k), A_int (wc_w k), A_int (wc_c k), A_str (Some name)])"

definition wc :: "nat \<Rightarrow> int \<Rightarrow> string \<Rightarrow> unit uprog" where
  "wc n fd name = wc_loop n fd name \<lparr>wc_l = 0, wc_w = 0, wc_c = 0, wc_inword = False\<rparr>"

primrec wc_files :: "nat \<Rightarrow> string list \<Rightarrow> unit uprog" where
  "wc_files n [] = Ret ()"
| "wc_files n (a # as) =
     bindu (sys (S_open a 0)) (\<lambda>fd.
       if fd < 0 then thenu (printf 1 (''wc: cannot open %s'' @ NL) [A_str (Some a)]) Exit
       else thenu (wc n fd a) (thenu (call_void (S_close fd)) (wc_files n as)))"

definition wc_main :: "nat \<Rightarrow> string list \<Rightarrow> unit uprog" where
  "wc_main n argv = (if length argv \<le> 1 then thenu (wc n 0 []) Exit else thenu (wc_files n (drop 1 argv)) Exit)"

section \<open>ls\<close>

definition fmtname :: "string \<Rightarrow> string" where
  "fmtname path =
     (let p = rev (takeWhile (\<lambda>c. c \<noteq> CHR ''/'') (rev path))
      in if length p \<ge> 14 then p else p @ replicate (14 - length p) CHR '' '')"

abbreviation cstr :: "string \<Rightarrow> string" where
  "cstr s \<equiv> takeWhile (\<lambda>c. c \<noteq> NUL) s"

definition ls_line :: "string \<Rightarrow> stat \<Rightarrow> unit uprog" where
  "ls_line path st =
     printf 1 (''%s %d %d %d'' @ NL)
       [A_str (Some (fmtname path)), A_int (sint (st_type st)), A_int (sint (st_ino st)), A_int (sint (st_size st))]"

primrec ls_entries :: "nat \<Rightarrow> int \<Rightarrow> string \<Rightarrow> unit uprog" where
  "ls_entries 0 fd path = Forever"
| "ls_entries (Suc n) fd path =
     Call (S_read fd 16) (\<lambda>r.
       if rv r \<noteq> 16 then Ret ()
       else case r_data r of
         c0 # c1 # name \<Rightarrow>
           if of_char c0 + 256 * of_char c1 = (0 :: int) then ls_entries n fd path
           else let buf = path @ ''/'' @ cstr (take 14 name)
                in bindu (ustat buf) (\<lambda>(rc, st).
                     case st of
                       None \<Rightarrow> thenu (printf 1 (''ls: cannot stat %s'' @ NL) [A_str (Some buf)]) (ls_entries n fd path)
                     | Some st \<Rightarrow> thenu (ls_line buf st) (ls_entries n fd path))
       | _ \<Rightarrow> Crash)"

definition ls :: "nat \<Rightarrow> string \<Rightarrow> unit uprog" where
  "ls n path =
     bindu (sys (S_open path 0)) (\<lambda>fd.
       if fd < 0 then printf 2 (''ls: cannot open %s'' @ NL) [A_str (Some path)]
       else Call (S_fstat fd) (\<lambda>r.
         if rv r < 0 then thenu (printf 2 (''ls: cannot stat %s'' @ NL) [A_str (Some path)]) (call_void (S_close fd))
         else thenu (if st_type (r_stat r) = 2 then ls_line path (r_stat r)
                     else if st_type (r_stat r) = 1
                     then if length path + 1 + 14 + 1 > 512 then printf 1 (''ls: path too long'' @ NL) []
                          else ls_entries n fd path
                     else Ret ())
              (call_void (S_close fd))))"

primrec ls_all :: "nat \<Rightarrow> string list \<Rightarrow> unit uprog" where
  "ls_all n [] = Ret ()"
| "ls_all n (a # as) = thenu (ls n a) (ls_all n as)"

definition ls_main :: "nat \<Rightarrow> string list \<Rightarrow> unit uprog" where
  "ls_main n argv = (if length argv < 2 then thenu (ls n ''.'') Exit else thenu (ls_all n (drop 1 argv)) Exit)"

section \<open>init, forktest, stressfs\<close>

primrec init_wait :: "bool \<Rightarrow> nat \<Rightarrow> int \<Rightarrow> unit uprog" where
  "init_wait quietly 0 pid = Forever"
| "init_wait quietly (Suc n) pid =
     bindu (sys S_wait) (\<lambda>wpid.
       if wpid \<ge> 0 \<and> wpid \<noteq> pid
       then thenu (if quietly then Ret () else printf 1 (''zombie!'' @ NL) []) (init_wait quietly n pid)
       else Ret ())"

primrec init_loop :: "bool \<Rightarrow> nat \<Rightarrow> nat \<Rightarrow> unit uprog" where
  "init_loop quietly m 0 = Forever"
| "init_loop quietly m (Suc n) =
     thenu (printf 1 (''init: starting sh'' @ NL) [])
     (bindu (sys S_fork) (\<lambda>pid.
       if pid < 0 then thenu (printf 1 (''init: fork failed'' @ NL) []) Exit
       else if pid = 0
       then thenu (call_void (S_exec ''sh'' [''sh'']))
            (thenu (printf 1 (''init: exec sh failed'' @ NL) []) Exit)
       else thenu (init_wait quietly m pid) (init_loop quietly m n)))"

definition init_main :: "bool \<Rightarrow> nat \<Rightarrow> nat \<Rightarrow> unit uprog" where
  "init_main quietly m n =
     bindu (sys (S_open ''console'' 2)) (\<lambda>fd.
       thenu (if fd < 0 then thenu (call_void (S_mknod ''console'' 1 1)) (call_void (S_open ''console'' 2)) else Ret ())
       (thenu (call_void (S_dup 0)) (thenu (call_void (S_dup 0)) (init_loop quietly m n))))"

primrec fork_many :: "nat \<Rightarrow> nat \<Rightarrow> nat uprog" where
  "fork_many 0 n = Ret n"
| "fork_many (Suc k) n =
     bindu (sys S_fork) (\<lambda>pid. if pid < 0 then Ret n else if pid = 0 then Exit else fork_many k (Suc n))"

primrec wait_many :: "nat \<Rightarrow> unit uprog" where
  "wait_many 0 = Ret ()"
| "wait_many (Suc n) =
     bindu (sys S_wait) (\<lambda>r.
       if r < 0 then thenu (call_void (S_write 1 (''wait stopped early'' @ NL))) Exit else wait_many n)"

definition forktest :: "unit uprog" where
  "forktest =
     thenu (call_void (S_write 1 (''fork test'' @ NL)))
     (bindu (fork_many 1000 0) (\<lambda>n.
       if n = 1000 then thenu (call_void (S_write 1 (''fork claimed to work N times!'' @ NL))) Exit
       else thenu (wait_many n)
            (bindu (sys S_wait) (\<lambda>r.
              if r \<noteq> -1 then thenu (call_void (S_write 1 (''wait got too many'' @ NL))) Exit
              else call_void (S_write 1 (''fork test OK'' @ NL))))))"

definition forktest_main :: "unit uprog" where
  "forktest_main = thenu forktest Exit"

primrec stress_fork :: "nat list \<Rightarrow> nat uprog" where
  "stress_fork [] = Ret 4"
| "stress_fork (i # is) = bindu (sys S_fork) (\<lambda>pid. if pid > 0 then Ret i else stress_fork is)"

primrec again :: "nat \<Rightarrow> unit uprog \<Rightarrow> unit uprog" where
  "again 0 m = Ret ()"
| "again (Suc n) m = thenu m (again n m)"

definition stressfs_main :: "unit uprog" where
  "stressfs_main =
     thenu (printf 1 (''stressfs starting'' @ NL) [])
     (bindu (stress_fork [0..<4]) (\<lambda>i.
       thenu (printf 1 (''write %d'' @ NL) [A_int (int i)])
       (let path = ''stressfs'' @ [char_of (48 + i)]
        in bindu (sys (S_open path 0x202)) (\<lambda>fd.
           thenu (again 20 (call_void (S_write fd (replicate 512 CHR ''a''))))
           (thenu (call_void (S_close fd))
           (thenu (printf 1 (''read'' @ NL) [])
           (bindu (sys (S_open path 0)) (\<lambda>fd.
           thenu (again 20 (call_void (S_read fd 512)))
           (thenu (call_void (S_close fd))
           (thenu (call_void S_wait)
           Exit))))))))))"

section \<open>What wc counts\<close>

definition words :: "string \<Rightarrow> nat" where
  "words s = length (filter (\<lambda>i. \<not> wc_space (s ! i) \<and> (i = 0 \<or> wc_space (s ! (i - 1)))) [0..<length s])"

lemma words_snoc: "words (s @ [b]) = words s + (if \<not> wc_space b \<and> (s = [] \<or> wc_space (last s)) then 1 else 0)"
proof -
  have "filter (\<lambda>i. \<not> wc_space ((s @ [b]) ! i) \<and> (i = 0 \<or> wc_space ((s @ [b]) ! (i - 1)))) [0..<length s]
      = filter (\<lambda>i. \<not> wc_space (s ! i) \<and> (i = 0 \<or> wc_space (s ! (i - 1)))) [0..<length s]"
    by (intro filter_cong) (auto simp: nth_append)
  moreover have "(length s = 0 \<or> wc_space ((s @ [b]) ! (length s - 1))) \<longleftrightarrow> s = [] \<or> wc_space (last s)"
    by (cases "s = []") (auto simp: nth_append last_conv_nth)
  ultimately show ?thesis
    by (simp add: words_def)
qed

lemma words_le: "words s \<le> length s"
  unfolding words_def by (rule order_trans [OF length_filter_le]) simp

definition wc_of :: "string \<Rightarrow> wc_count" where
  "wc_of s = \<lparr>wc_l = int (count_list s (CHR 0x0A)), wc_w = int (words s), wc_c = int (length s),
     wc_inword = (s \<noteq> [] \<and> \<not> wc_space (last s))\<rparr>"

lemma wc_char_step:
  assumes "length s < 2147483647"
  shows "wc_char b (wc_of s) = wc_of (s @ [b])"
proof -
  have n: "int (count_list s (CHR 0x0A)) < 2147483647" "int (words s) < 2147483647" "int (length s) < 2147483647"
    using assms count_le_length [of s "CHR 0x0A"] words_le [of s] by simp_all
  then show ?thesis
    by (auto simp: wc_char_def wc_of_def words_snoc Let_def wc_space_def)
qed

lemma fold_wc_char: "length (s @ t) < 2147483648 \<Longrightarrow> fold wc_char t (wc_of s) = wc_of (s @ t)"
proof (induction t arbitrary: s)
  case (Cons b t)
  then show ?case
    using wc_char_step [of s b] Cons.IH [of "s @ [b]"] by simp
qed simp

lemma run_wc_loop:
  assumes "\<forall>b \<in> set bs. b \<noteq> [] \<and> length b \<le> 512" "length bs < n" "length (s @ concat bs) < 2147483648"
    "printf_chars False (''%d %d %d %s'' @ NL) [A_int (wc_l (wc_of (s @ concat bs))), A_int (wc_w (wc_of (s @ concat bs))),
       A_int (wc_c (wc_of (s @ concat bs))), A_str (Some name)] = Ok p"
  shows "run_path feed (wc_loop n fd name (wc_of s)) (bs, out) = (Returned (), [], out @ p)"
  using assms
proof (induction bs arbitrary: n s)
  case Nil
  then show ?case
    by (cases n) (simp_all add: reply0_def run_printf)
next
  case (Cons b bs)
  then obtain m where n: "n = Suc m" "length bs < m"
    by (cases n) auto
  then show ?case
    using Cons.IH [of m "s @ b"] Cons.prems fold_wc_char [of s b] by (simp add: reply0_def)
qed

lemma printf_counts:
  assumes "0 \<le> l" "l < 2147483648" "0 \<le> w" "w < 2147483648" "0 \<le> k" "k < 2147483648"
  shows "\<exists>sl sw sk. printf_chars False (''%d %d %d %s'' @ NL) [A_int l, A_int w, A_int k, A_str (Some name)]
      = Ok (sl @ '' '' @ sw @ '' '' @ sk @ '' '' @ name @ NL) \<and> atoi sl = l \<and> atoi sw = w \<and> atoi sk = k"
proof -
  obtain sl sw sk where "uprintint l 10 True = Ok sl" "uprintint w 10 True = Ok sw" "uprintint k 10 True = Ok sk"
    "atoi sl = l" "atoi sw = w" "atoi sk = k"
    using uprintint_atoi assms by metis
  then show ?thesis
    by (intro exI [of _ sl] exI [of _ sw] exI [of _ sk]) simp
qed

section \<open>Properties\<close>

text \<open>C40: In whatever portions a file of less than 2 GB is delivered, \<open>wc\<close> ends and prints the number of its newlines, of its
  words (the maximal runs of characters that are no white space) and of its characters.\<close>

theorem wc_counts:
  assumes "\<forall>b \<in> set bs. b \<noteq> [] \<and> length b \<le> 512" "length bs < n" "length (concat bs) < 2147483648"
  shows "\<exists>l w k. run_path feed (wc n fd name) (bs, out) = (Returned (), [], out @ l @ '' '' @ w @ '' '' @ k @ '' '' @ name @ NL)
    \<and> atoi l = int (count_list (concat bs) (CHR 0x0A)) \<and> atoi w = int (words (concat bs)) \<and> atoi k = int (length (concat bs))"
proof -
  let ?s = "concat bs"
  have "int (count_list ?s (CHR 0x0A)) < 2147483648" "int (words ?s) < 2147483648" "int (length ?s) < 2147483648"
    using assms(3) count_le_length [of ?s "CHR 0x0A"] words_le [of ?s] by simp_all
  then obtain l w k where "printf_chars False (''%d %d %d %s'' @ NL) [A_int (wc_l (wc_of ?s)), A_int (wc_w (wc_of ?s)),
       A_int (wc_c (wc_of ?s)), A_str (Some name)] = Ok (l @ '' '' @ w @ '' '' @ k @ '' '' @ name @ NL)"
    "atoi l = wc_l (wc_of ?s)" "atoi w = wc_w (wc_of ?s)" "atoi k = wc_c (wc_of ?s)"
    using printf_counts [of "wc_l (wc_of ?s)" "wc_w (wc_of ?s)" "wc_c (wc_of ?s)" name] by (auto simp: wc_of_def)
  moreover have "wc n fd name = wc_loop n fd name (wc_of [])"
    by (simp add: wc_def wc_of_def words_def)
  ultimately show ?thesis
    using run_wc_loop [of bs n "[]" name _ fd out] assms by (auto simp: wc_of_def)
qed

theorem wc_counts_witness:
  "\<exists>l w k. run_path feed (wc 3 0 ''f'') ([''a b'', ''c'' @ NL], []) = (Returned (), [], l @ '' '' @ w @ '' '' @ k @ '' f'' @ NL)
     \<and> atoi l = 1 \<and> atoi w = 2 \<and> atoi k = 5"
proof -
  have "count_list ''a bc\<newline>'' (CHR 0x0A) = 1" "words ''a bc\<newline>'' = 2"
    by (simp_all add: words_def wc_space_def)
  then show ?thesis
    using wc_counts [of "[''a b'', ''c'' @ NL]" 3 0 "''f''" "[]"] by simp
qed

definition tickets_in_range :: "scall \<Rightarrow> bool" where
  "tickets_in_range q = (case q of S_assign_tickets pid t \<Rightarrow> 1 \<le> pid \<and> 1 \<le> t \<and> t \<le> MAX_TICKETS_PER_PROCESS | _ \<Rightarrow> True)"

text \<open>Whatever its arguments are and whatever the kernel answers, the program \<^verbatim>\<open>assign-tickets\<close> asks only for pids from 1 and for
  1 to \<open>MAX_TICKETS_PER_PROCESS\<close> tickets. (The system call itself has no upper bound.)\<close>

theorem assign_tickets_main_checks: "all_calls tickets_in_range (assign_tickets_main argv)"
  by (auto simp: assign_tickets_main_def tickets_in_range_def sys_def Let_def intro!: all_calls_bindu all_calls_printf)

end
