(* ===== verification/SchedTest.thy ===== *)
theory SchedTest
  imports Utils
begin

text \<open>
  The test of the scheduler: the routines of \<^verbatim>\<open>sched_test_utils.c\<close> and the program \<^verbatim>\<open>scheduler-test.c\<close>. The arrays
  \<^verbatim>\<open>child_pids\<close> and \<^verbatim>\<open>tickets\<close> are lists; a pointer into \<^verbatim>\<open>child_pids\<close> is the list with an offset. The middle
  part, which all six tests repeat, is \<open>observe\<close>. A read of a pid from a pipe delivers all four bytes or none:
  the pipe holds a multiple of four bytes and every write is of four.
\<close>

section \<open>sched_test_utils.c\<close>

definition find_index_of_pid :: "processes_info \<Rightarrow> int \<Rightarrow> int" where
  "find_index_of_pid info pid =
     (case first_idx (\<lambda>p. p = pid) (take (nat (num_processes info)) (pids info)) of Some i \<Rightarrow> int i | None \<Rightarrow> -1)"

abbreviation elem :: "int list \<Rightarrow> int \<Rightarrow> int" where
  "elem xs i \<equiv> xs ! nat i"

primrec tickets_set :: "processes_info \<Rightarrow> (int \<times> int) list \<Rightarrow> bool" where
  "tickets_set info [] = True"
| "tickets_set info (x # xs) =
     (let index = find_index_of_pid info (fst x)
      in if index \<noteq> -1 \<and> snd x \<noteq> elem (info_tickets info) index then False else tickets_set info xs)"

primrec wait_for_tickets_loop :: "nat \<Rightarrow> (int \<times> int) list \<Rightarrow> int uprog" where
  "wait_for_tickets_loop 0 xs = Ret (-1)"
| "wait_for_tickets_loop (Suc n) xs =
     thenu (call_void (S_sleep 1))
     (Call S_proc_info (\<lambda>r. if tickets_set (r_info r) xs then Ret 0 else wait_for_tickets_loop n xs))"

definition wait_for_tickets_to_set :: "nat \<Rightarrow> int list \<Rightarrow> int list \<Rightarrow> int uprog" where
  "wait_for_tickets_to_set n child_pids tickets = wait_for_tickets_loop 1000 (zip (take n child_pids) (take n tickets))"

definition create_process :: "int \<Rightarrow> int uprog" where
  "create_process tickets =
     bindu (sys S_fork) (\<lambda>pid.
       if pid = 0 then
         bindu (sys S_getpid) (\<lambda>me.
         bindu (sys (S_assign_tickets me tickets)) (\<lambda>r.
           if r = 0 then Forever
           else thenu (printf 1 (''Error setting the tickets'' @ NL) []) Exit))
       else if pid > 0 then Ret pid
       else Ret (-1))"

text \<open>An \<open>int\<close> in a pipe.\<close>

definition int_str :: "int \<Rightarrow> string" where
  "int_str n = map (\<lambda>b. char_of (unat b)) (bytes32 (of_int n))"

definition str_int :: "string \<Rightarrow> int" where
  "str_int s = sint (get32 (map of_char s) 0)"

primrec create_siblings :: "int \<Rightarrow> int list \<Rightarrow> unit uprog" where
  "create_siblings fd [] = Ret ()"
| "create_siblings fd (t # ts) =
     bindu (create_process t) (\<lambda>pid.
       if pid = -1 then thenu (printf 1 (''Error creating child process'' @ NL) []) Exit
       else thenu (call_void (S_write fd (int_str pid))) (create_siblings fd ts))"

primrec read_pids :: "int \<Rightarrow> nat list \<Rightarrow> int list \<Rightarrow> int list uprog" where
  "read_pids fd [] child_pids = Ret child_pids"
| "read_pids fd (i # is) child_pids =
     Call (S_read fd 4) (\<lambda>r. read_pids fd is (if rv r = 4 then child_pids[i := str_int (r_data r)] else child_pids))"

definition create_more_processes :: "int list \<Rightarrow> nat \<Rightarrow> int list \<Rightarrow> nat \<Rightarrow> (int \<times> int list) uprog" where
  "create_more_processes child_pids off tickets n =
     Call S_pipe (\<lambda>p.
       if rv p \<noteq> 0 then thenu (printf 1 (''Error creating pipe'' @ NL) []) Exit
       else bindu (sys S_fork) (\<lambda>pid.
         if pid = 0 then
           thenu (call_void (S_close (fst (r_pfd p))))
           (bindu (sys S_getpid) (\<lambda>me.
            bindu (sys (S_assign_tickets me (tickets ! 0))) (\<lambda>r.
              if r = 0 then thenu (create_siblings (snd (r_pfd p)) (drop 1 (take n tickets))) Forever
              else thenu (printf 1 (''Error setting the tickets'' @ NL) []) Exit)))
         else if pid > 0 then
           thenu (call_void (S_close (snd (r_pfd p))))
           (bindu (read_pids (fst (r_pfd p)) (map (\<lambda>i. off + i) [1..<n]) (child_pids[off := pid])) (\<lambda>cp. Ret (pid, cp)))
         else Ret (-1, child_pids)))"

primrec write_pids :: "int \<Rightarrow> int list \<Rightarrow> unit uprog" where
  "write_pids fd [] = Ret ()"
| "write_pids fd (p # ps) = thenu (call_void (S_write fd (int_str p))) (write_pids fd ps)"

primrec create_nested_processes :: "nat \<Rightarrow> int list \<Rightarrow> nat \<Rightarrow> int list \<Rightarrow> (int \<times> int list) uprog" where
  "create_nested_processes 0 child_pids off tickets = Ret (0, child_pids)"
| "create_nested_processes (Suc n) child_pids off tickets =
     Call S_pipe (\<lambda>p.
       if rv p \<noteq> 0 then thenu (printf 1 (''Error creating pipe'' @ NL) []) Exit
       else bindu (sys S_fork) (\<lambda>pid.
         if pid = 0 then
           thenu (call_void (S_close (fst (r_pfd p))))
           (bindu (sys S_getpid) (\<lambda>me.
            bindu (sys (S_assign_tickets me (tickets ! 0))) (\<lambda>r.
              if r = 0 then
                bindu (create_nested_processes n child_pids off (drop 1 tickets)) (\<lambda>(pid, cp).
                  thenu (if pid \<noteq> 0 then write_pids (snd (r_pfd p)) (take n (drop off cp)) else Ret ()) Forever)
              else thenu (printf 1 (''Error setting the tickets'' @ NL) []) Exit)))
         else if pid > 0 then
           thenu (call_void (S_close (snd (r_pfd p))))
           (bindu (read_pids (fst (r_pfd p)) (map (\<lambda>i. off + i) [1..<Suc n]) (child_pids[off := pid])) (\<lambda>cp. Ret (pid, cp)))
         else Ret (-1, child_pids)))"

primrec print_children :: "processes_info \<Rightarrow> processes_info \<Rightarrow> (nat \<times> int) list \<Rightarrow> unit uprog" where
  "print_children before after [] = Ret ()"
| "print_children before after (x # xs) =
     (let (i, pid) = x; index1 = find_index_of_pid before pid; index2 = find_index_of_pid after pid
      in thenu (if index1 = -1 \<or> index2 = -1
                then printf 1 (''Child Process with pid %d not found in process list'' @ NL) [A_int pid]
                else printf 1 (''%d'' @ TAB @ TAB @ ''%d'' @ TAB @ TAB @ ''%d'' @ TAB @ TAB @ ''%d'' @ NL)
                       [A_int (int i + 1), A_int pid,
                        A_int (i32 (elem (info_ticks after) index2 - elem (info_ticks before) index1)),
                        A_int (elem (info_tickets after) index2)])
         (print_children before after xs))"

definition print_test_result :: "nat \<Rightarrow> processes_info \<Rightarrow> processes_info \<Rightarrow> int list \<Rightarrow> unit uprog" where
  "print_test_result n before after child_pids =
     thenu (printf 1 (''SUMMARY :'' @ NL @ ''CHILD'' @ TAB @ TAB @ ''PID'' @ TAB @ TAB @ ''TICKS'' @ TAB @ TAB @ ''TICKETS'' @ NL) [])
     (print_children before after (enumerate 0 (take n child_pids)))"

section \<open>scheduler-test.c\<close>

definition MAX_CHILD_PROCESS :: nat where
  "MAX_CHILD_PROCESS = 16"

primrec kill_all :: "int list \<Rightarrow> unit uprog" where
  "kill_all [] = Ret ()"
| "kill_all (p # ps) = thenu (call_void (S_kill p)) (kill_all ps)"

text \<open>From the wait for the tickets to the result: the parent sleeps while the children compete.\<close>

definition observe :: "nat \<Rightarrow> int \<Rightarrow> int list \<Rightarrow> int list \<Rightarrow> nat \<Rightarrow> unit uprog" where
  "observe n timeticks tickets child_pids waits =
     bindu (wait_for_tickets_to_set n child_pids tickets) (\<lambda>r.
       if r = -1 then thenu (printf 1 (''Not able to set child processes tickets'' @ NL) []) Exit
       else thenu (call_void (S_change_schedorder_flag 1))
         (Call S_proc_info (\<lambda>before.
          thenu (call_void (S_sleep timeticks))
         (Call S_proc_info (\<lambda>after.
          thenu (call_void (S_change_schedorder_flag 0))
         (thenu (kill_all (take n child_pids))
         (thenu (again waits (call_void S_wait))
         (print_test_result n (r_info before) (r_info after) child_pids))))))))"

definition banner :: "string \<Rightarrow> unit uprog" where
  "banner num =
     thenu (printf 1 (''-----------------------'' @ NL) [])
     (thenu (printf 1 (''Scheduler Test '' @ num @ '' ...'' @ NL) [])
     (printf 1 (''Scheduling Order :'' @ NL) []))"

definition test_ok :: "string \<Rightarrow> unit uprog" where
  "test_ok num = printf 1 (''Scheduler Test '' @ num @ '' OK'' @ NL) []"

primrec create_children :: "(nat \<times> int) list \<Rightarrow> int list \<Rightarrow> int list uprog" where
  "create_children [] child_pids = Ret child_pids"
| "create_children (x # xs) child_pids =
     bindu (create_process (snd x)) (\<lambda>pid.
       if pid = -1 then thenu (printf 1 (''Error creating child process'' @ NL) []) Exit
       else create_children xs (child_pids[fst x := pid]))"

definition test1 :: "nat \<Rightarrow> int \<Rightarrow> int list \<Rightarrow> int list \<Rightarrow> int list uprog" where
  "test1 n timeticks tickets child_pids =
     thenu (banner ''1'')
     (bindu (create_children (enumerate 0 (take n tickets)) child_pids) (\<lambda>cp.
      thenu (observe n timeticks tickets cp n) (thenu (test_ok ''1'') (Ret cp))))"

definition test2 :: "nat \<Rightarrow> int \<Rightarrow> int list \<Rightarrow> int list \<Rightarrow> int list uprog" where
  "test2 n timeticks tickets child_pids =
     (if n < 2 then Ret child_pids
      else thenu (banner ''2'')
           (let temp1 = n div 2; temp2 = n - temp1
            in bindu (create_more_processes child_pids 0 tickets temp1) (\<lambda>(_, cp).
               bindu (create_more_processes cp temp1 (drop temp1 tickets) temp2) (\<lambda>(_, cp).
               thenu (observe n timeticks tickets cp 2) (thenu (test_ok ''2'') (Ret cp))))))"

definition test3 :: "nat \<Rightarrow> int \<Rightarrow> int list \<Rightarrow> int list \<Rightarrow> int list uprog" where
  "test3 n timeticks tickets child_pids =
     (if n < 3 then Ret child_pids
      else thenu (banner ''3'')
           (let temp1 = n div 3; temp2 = (n - temp1) div 2; temp3 = n - temp1 - temp2
            in bindu (create_more_processes child_pids 0 tickets temp1) (\<lambda>(_, cp).
               bindu (create_more_processes cp temp1 (drop temp1 tickets) temp2) (\<lambda>(_, cp).
               bindu (create_more_processes cp (temp1 + temp2) (drop (temp1 + temp2) tickets) temp3) (\<lambda>(_, cp).
               thenu (observe n timeticks tickets cp 3) (thenu (test_ok ''3'') (Ret cp)))))))"

definition test4 :: "nat \<Rightarrow> int \<Rightarrow> int list \<Rightarrow> int list \<Rightarrow> int list uprog" where
  "test4 n timeticks tickets child_pids =
     thenu (banner ''4'')
     (bindu (create_nested_processes n child_pids 0 tickets) (\<lambda>(_, cp).
      thenu (observe n timeticks tickets cp 1) (thenu (test_ok ''4'') (Ret cp))))"

definition test5 :: "nat \<Rightarrow> int \<Rightarrow> int list \<Rightarrow> int list \<Rightarrow> int list uprog" where
  "test5 n timeticks tickets child_pids =
     (if n < 3 then Ret child_pids
      else thenu (banner ''5'')
           (let temp1 = n div 3; temp2 = (n - temp1) div 2; temp3 = n - temp1 - temp2
            in bindu (create_nested_processes temp1 child_pids 0 tickets) (\<lambda>(_, cp).
               bindu (create_nested_processes temp2 cp temp1 (drop temp1 tickets)) (\<lambda>(_, cp).
               bindu (create_nested_processes temp3 cp (temp1 + temp2) (drop (temp1 + temp2) tickets)) (\<lambda>(_, cp).
               thenu (observe n timeticks tickets cp 1) (thenu (test_ok ''5'') (Ret cp)))))))"

definition test6 :: "nat \<Rightarrow> int \<Rightarrow> int list \<Rightarrow> int list \<Rightarrow> int list uprog" where
  "test6 n timeticks tickets child_pids =
     (if n < 3 then Ret child_pids
      else thenu (banner ''6'')
           (let temp1 = n div 3; temp2 = n - 2 * temp1
            in bindu (create_nested_processes temp1 child_pids 0 tickets) (\<lambda>(_, cp).
               bindu (create_nested_processes temp1 cp temp1 (drop temp1 tickets)) (\<lambda>(_, cp).
               bindu (create_more_processes cp (2 * temp1) (drop (2 * temp1) tickets) temp2) (\<lambda>(_, cp).
               thenu (observe n timeticks tickets cp 1) (thenu (test_ok ''6'') (Ret cp)))))))"

definition auto_tickets :: "int list" where
  "auto_tickets = map (\<lambda>i. 100 + 90 * int i) [0..<10]"

primrec read_tickets :: "string list \<Rightarrow> int list uprog" where
  "read_tickets [] = Ret []"
| "read_tickets (a # as) =
     (if atoi a > MAX_TICKETS_PER_PROCESS
      then thenu (printf 1 (''Maximum tickets allowed for a process is %d'' @ NL) [A_int MAX_TICKETS_PER_PROCESS]) Exit
      else bindu (read_tickets as) (\<lambda>ts. Ret (atoi a # ts)))"

definition usage :: "string \<Rightarrow> unit uprog" where
  "usage name =
     printf 1 (''Usage : FOR AUTO TESTING : %s auto'' @ NL
       @ ''Usage : FOR MANUAL TESTING : %s '' @ QUOTE @ ''time-ticks'' @ QUOTE @ '' '' @ QUOTE @ ''parent_tickets'' @ QUOTE @ '' ''
       @ QUOTE @ ''child1_tickets'' @ QUOTE @ '' '' @ QUOTE @ ''child2_tickets'' @ QUOTE @ '' ... '' @ NL
       @ TAB @ ''time-ticks is the number of ticks the parent process must sleep for'' @ NL
       @ TAB @ ''parent_tickets to be assigned to the parent process'' @ NL
       @ TAB @ ''childN_tickets is the number of tickets to be assigned to the Nth child process'' @ NL)
       [A_str (Some name), A_str (Some name)]"

text \<open>The parameters: the ticks to sleep and the tickets of the children.\<close>

definition test_params :: "int \<Rightarrow> string list \<Rightarrow> (int \<times> int list) uprog" where
  "test_params parent_pid argv =
     (if length argv = 2
      then bindu (sys (S_assign_tickets parent_pid 500)) (\<lambda>r.
             if r \<noteq> 0 then thenu (printf 1 (''Error setting the tickets'' @ NL) []) Exit
             else Ret (1000, auto_tickets))
      else bindu (sys (S_assign_tickets parent_pid (atoi (argv ! 2)))) (\<lambda>r.
             if r \<noteq> 0 then thenu (printf 1 (''Error setting the tickets'' @ NL) []) Exit
             else bindu (read_tickets (drop 3 argv)) (\<lambda>ts. Ret (atoi (argv ! 1), ts))))"

definition scheduler_test_main :: "string list \<Rightarrow> unit uprog" where
  "scheduler_test_main argv =
     (if \<not> (length argv = 2 \<and> ustrcmp (argv ! 1) ''auto'' = 0) \<and> length argv < 4 then thenu (usage (argv ! 0)) Exit
      else if length argv > MAX_CHILD_PROCESS + 3
      then thenu (printf 1 (''Only %d child process supported'' @ NL) [A_int (int MAX_CHILD_PROCESS)]) Exit
      else bindu (sys S_getpid) (\<lambda>parent_pid.
           bindu (test_params parent_pid argv) (\<lambda>(timeticks, tickets).
           let n = length tickets in
           bindu (test1 n timeticks tickets (replicate MAX_CHILD_PROCESS 0)) (\<lambda>cp.
           bindu (test2 n timeticks tickets cp) (\<lambda>cp.
           bindu (test3 n timeticks tickets cp) (\<lambda>cp.
           bindu (test4 n timeticks tickets cp) (\<lambda>cp.
           bindu (test5 n timeticks tickets cp) (\<lambda>cp.
           bindu (test6 n timeticks tickets cp) (\<lambda>cp.
           thenu (printf 1 (''-----------------------'' @ NL) [])
          (thenu (printf 1 (''PARENT PROCESS :'' @ NL) [])
          (Call S_proc_info (\<lambda>after.
             let temp1 = find_index_of_pid (r_info after) parent_pid
             in if temp1 = -1 then thenu (printf 1 (''PARENT PROCESS not found in process list'' @ NL) []) Exit
                else thenu (printf 1 (''PID = %d'' @ TAB @ TAB @ ''TICKS = %d'' @ TAB @ TAB @ '' TICKETS = %d'' @ NL)
                       [A_int parent_pid, A_int (elem (info_ticks (r_info after)) temp1), A_int (elem (info_tickets (r_info after)) temp1)])
                    (thenu (printf 1 (''-----------------------'' @ NL) []) Exit)))))))))))))"

section \<open>Children made and waited for\<close>

text \<open>The process under test is the parent of every \<^verbatim>\<open>fork()\<close>, and its forks and pipes succeed.\<close>

definition parent_side :: "scall \<Rightarrow> reply \<Rightarrow> bool" where
  "parent_side q r = (case q of S_fork \<Rightarrow> 0 < rv r | S_pipe \<Rightarrow> rv r = 0 | _ \<Rightarrow> True)"

text \<open>Every such path that returns makes \<open>n\<close> calls of kind \<open>P\<close>; and some such path returns, with a value in \<open>Q\<close>.\<close>

primrec uses :: "(scall \<Rightarrow> bool) \<Rightarrow> 'a uprog \<Rightarrow> nat \<Rightarrow> bool" where
  "uses P (Ret x) = (\<lambda>n. n = 0)"
| "uses P (Call q k) = (\<lambda>n. \<forall>r. parent_side q r \<longrightarrow> (if P q then \<exists>m. n = Suc m \<and> uses P (k r) m else uses P (k r) n))"
| "uses P Exit = (\<lambda>n. True)"
| "uses P Forever = (\<lambda>n. True)"
| "uses P Crash = (\<lambda>n. True)"

primrec reaches :: "('a \<Rightarrow> bool) \<Rightarrow> 'a uprog \<Rightarrow> bool" where
  "reaches Q (Ret x) = Q x"
| "reaches Q (Call q k) = (\<exists>r. parent_side q r \<and> reaches Q (k r))"
| "reaches Q Exit = False"
| "reaches Q Forever = False"
| "reaches Q Crash = False"

definition forks_and_waits :: "'a uprog \<Rightarrow> nat \<Rightarrow> nat \<Rightarrow> bool" where
  "forks_and_waits prog f w \<longleftrightarrow> reaches (\<lambda>_. True) prog \<and> uses ((=) S_fork) prog f \<and> uses ((=) S_wait) prog w"

lemma uses_bindu: "uses P m a \<Longrightarrow> (\<And>x. uses P (f x) b) \<Longrightarrow> n = a + b \<Longrightarrow> uses P (bindu m f) n"
  by (induction m arbitrary: a n) (auto split: if_splits)

lemma reaches_bindu: "reaches Q m \<Longrightarrow> (\<And>x. Q x \<Longrightarrow> reaches Q' (f x)) \<Longrightarrow> reaches Q' (bindu m f)"
  by (induction m) auto

lemma uses_none: "all_calls (\<lambda>q. \<not> P q) m \<Longrightarrow> uses P m 0"
  by (induction m) auto

lemma reaches_putc: "Q () \<Longrightarrow> reaches Q (putc fd s)"
  by (induction s) (auto simp: parent_side_def)

lemma reaches_printf: "printf_chars False fmt args = Ok s \<Longrightarrow> Q () \<Longrightarrow> reaches Q (printf fd fmt args)"
  by (simp add: printf_def reaches_putc)

definition child_calls :: "(scall \<Rightarrow> bool) \<Rightarrow> bool" where
  "child_calls P \<longleftrightarrow> (\<forall>q. P q \<longrightarrow> q = S_fork \<or> q = S_wait)"

lemma uses_printf: "child_calls P \<Longrightarrow> n = 0 \<Longrightarrow> uses P (printf fd fmt args) n"
  by (auto simp: child_calls_def intro!: uses_none all_calls_printf)

lemma uses_call_void: "n = of_bool (P q) \<Longrightarrow> uses P (call_void q) n"
  by (simp add: call_void_def)

lemma uses_kill_all: "child_calls P \<Longrightarrow> n = 0 \<Longrightarrow> uses P (kill_all ps) n"
  by (induction ps arbitrary: n) (auto simp: child_calls_def intro!: uses_bindu uses_call_void)

lemma uses_again: "n = k * of_bool (P q) \<Longrightarrow> uses P (again k (call_void q)) n"
  by (induction k arbitrary: n) (auto intro!: uses_bindu uses_call_void)

lemma uses_wait_for_tickets_loop: "child_calls P \<Longrightarrow> uses P (wait_for_tickets_loop k xs) 0"
  by (induction k) (auto simp: child_calls_def intro!: uses_bindu uses_call_void)

lemma uses_print_children: "child_calls P \<Longrightarrow> uses P (print_children b a xs) 0"
  by (induction xs) (auto simp: Let_def split_beta intro!: uses_bindu uses_printf)

lemma uses_skip: "uses P m 0 \<Longrightarrow> (\<And>x. uses P (f x) n) \<Longrightarrow> uses P (bindu m f) n"
  by (rule uses_bindu [where a = 0 and b = n]) simp_all

lemma uses_exit: "child_calls P \<Longrightarrow> uses P (thenu (printf fd fmt args) Exit) n"
  by (rule uses_skip) (simp_all add: uses_printf)

lemma uses_observe:
  assumes P: "child_calls P" and n: "n = w * of_bool (P S_wait)"
  shows "uses P (observe k tt ts cp w) n"
proof -
  have off: "\<not> P S_proc_info" "\<And>x. \<not> P (S_sleep x)" "\<And>x. \<not> P (S_change_schedorder_flag x)"
    using P by (auto simp: child_calls_def)
  have last: "uses P (print_test_result k b a cp) 0" for b a
    unfolding print_test_result_def by (intro uses_skip uses_printf uses_print_children P refl)
  have tail: "uses P (thenu (again w (call_void S_wait)) (print_test_result k b a cp)) n" for b a
    by (rule uses_bindu [OF uses_again [OF refl] last]) (simp add: n)
  have "uses P (thenu (kill_all (take k cp)) (thenu (again w (call_void S_wait)) (print_test_result k b a cp))) n" for b a
    by (rule uses_skip [OF uses_kill_all [OF P refl] tail])
  then show ?thesis
    unfolding observe_def wait_for_tickets_to_set_def
    by (intro uses_skip uses_wait_for_tickets_loop P) (simp add: uses_exit [OF P] off call_void_def)
qed

lemma uses_banner: "child_calls P \<Longrightarrow> uses P (banner num) 0"
  unfolding banner_def by (intro uses_skip uses_printf refl)

lemma uses_test_ok: "child_calls P \<Longrightarrow> uses P (thenu (test_ok num) (Ret cp)) 0"
  unfolding test_ok_def by (intro uses_skip uses_printf) simp_all

lemma uses_fork: "(\<And>pid. 0 < pid \<Longrightarrow> uses P (f pid) 0) \<Longrightarrow> n = of_bool (P S_fork) \<Longrightarrow> uses P (bindu (sys S_fork) f) n"
  by (auto simp: sys_def parent_side_def)

lemma uses_read_pids: "child_calls P \<Longrightarrow> uses P (read_pids fd is cp) 0"
  by (induction "is" arbitrary: cp) (auto simp: child_calls_def)

lemma uses_create_process: "uses P (create_process t) (of_bool (P S_fork))"
  unfolding create_process_def by (rule uses_fork) simp_all

lemma uses_create_children:
  "child_calls P \<Longrightarrow> n = length xs * of_bool (P S_fork) \<Longrightarrow> uses P (create_children xs cp) n"
proof (induction xs arbitrary: cp n)
  case (Cons x xs)
  show ?case
    unfolding create_children.simps
    by (rule uses_bindu [OF uses_create_process]) (use Cons in \<open>auto intro: uses_exit\<close>)
qed simp

lemma uses_parent:
  assumes "child_calls P"
  shows "uses P (thenu (call_void (S_close fd)) (bindu (read_pids fd' is cp) (\<lambda>cp. Ret (pid, cp)))) 0"
  using assms by (intro uses_skip uses_read_pids uses_call_void) (auto simp: child_calls_def)

lemma uses_pipe: "child_calls P \<Longrightarrow> (\<And>p. rv p = 0 \<Longrightarrow> uses P (k p) n) \<Longrightarrow> uses P (Call S_pipe k) n"
  by (auto simp: child_calls_def parent_side_def)

lemma uses_create_more_processes:
  "child_calls P \<Longrightarrow> uses P (create_more_processes cp off ts n) (of_bool (P S_fork))"
  unfolding create_more_processes_def by (rule uses_pipe) (auto intro!: uses_fork uses_parent)

lemma uses_create_nested_processes:
  "child_calls P \<Longrightarrow> 0 < n \<Longrightarrow> uses P (create_nested_processes n cp off ts) (of_bool (P S_fork))"
  by (cases n) (auto simp del: upt.simps uses.simps intro!: uses_pipe uses_fork uses_parent)

section \<open>Returning\<close>

lemma reaches_call_void: "Q () \<Longrightarrow> reaches Q (call_void q)"
  unfolding call_void_def reaches.simps parent_side_def
  by (rule exI [where x = "(undefined :: reply) \<lparr>rv := of_bool (q = S_fork)\<rparr>"]) (auto split: scall.split)

lemma reaches_Call: "q \<noteq> S_fork \<Longrightarrow> reaches Q (k ((undefined :: reply) \<lparr>rv := 0\<rparr>)) \<Longrightarrow> reaches Q (Call q k)"
  by (auto simp: parent_side_def split: scall.split)

lemma reaches_fork: "reaches Q (f 1) \<Longrightarrow> reaches Q (bindu (sys S_fork) f)"
  unfolding sys_def bindu.simps reaches.simps
  by (rule exI [where x = "(undefined :: reply) \<lparr>rv := 1\<rparr>"]) (simp add: parent_side_def)

lemma reaches_then: "reaches (\<lambda>_. True) m \<Longrightarrow> reaches Q n \<Longrightarrow> reaches Q (thenu m n)"
  by (rule reaches_bindu)

lemma reaches_kill_all: "reaches (\<lambda>_. True) (kill_all ps)"
  by (induction ps) (auto intro!: reaches_then reaches_call_void)

lemma reaches_again: "reaches (\<lambda>_. True) (again k (call_void q))"
  by (induction k) (auto intro!: reaches_then reaches_call_void)

lemma reaches_read_pids: "reaches (\<lambda>_. True) (read_pids fd is cp)"
  by (induction "is" arbitrary: cp) (auto simp del: reaches.simps(2) intro!: reaches_Call)

lemma reaches_create_process: "reaches (\<lambda>pid. pid \<noteq> -1) (create_process t)"
  unfolding create_process_def by (rule reaches_fork) simp

lemma reaches_create_children: "reaches (\<lambda>_. True) (create_children xs cp)"
  by (induction xs arbitrary: cp) (auto intro!: reaches_bindu [OF reaches_create_process])

lemma reaches_parent:
  "reaches (\<lambda>_. True) (thenu (call_void (S_close fd)) (bindu (read_pids fd' is cp) (\<lambda>cp. Ret (pid, cp))))"
  by (intro reaches_then reaches_call_void reaches_bindu [OF reaches_read_pids]) simp_all

lemma reaches_create_more_processes: "reaches (\<lambda>_. True) (create_more_processes cp off ts n)"
  unfolding create_more_processes_def
  by (rule reaches_Call) (auto intro!: reaches_fork reaches_parent)

lemma reaches_create_nested_processes: "reaches (\<lambda>_. True) (create_nested_processes n cp off ts)"
  by (cases n) (auto simp del: upt.simps reaches.simps(2) intro!: reaches_Call reaches_fork reaches_parent)

lemma tickets_set_no_process: "tickets_set (i\<lparr>num_processes := 0\<rparr>) xs"
  by (induction xs) (simp_all add: find_index_of_pid_def Let_def)

lemma reaches_wait_for_tickets: "reaches (\<lambda>r. r \<noteq> -1) (wait_for_tickets_to_set n cp ts)"
proof -
  have "reaches (\<lambda>r. r \<noteq> -1) (Call S_proc_info (\<lambda>r. if tickets_set (r_info r) xs then Ret 0 else wait_for_tickets_loop k xs))"
    for k xs
    unfolding reaches.simps parent_side_def
    by (rule exI [where x = "reply0 \<lparr>r_info := undefined \<lparr>num_processes := 0\<rparr>\<rparr>"]) (simp add: tickets_set_no_process)
  then have "reaches (\<lambda>r. r \<noteq> -1) (wait_for_tickets_loop (Suc k) xs)" for k xs
    unfolding wait_for_tickets_loop.simps by (intro reaches_then reaches_call_void TrueI)
  from this [of 999] show ?thesis
    by (simp add: wait_for_tickets_to_set_def del: wait_for_tickets_loop.simps)
qed

lemma uprintint_total: "\<exists>s. uprintint n 10 True = Ok s"
proof -
  let ?x = "if n < 0 then of_int (- n) else of_int n :: uint"
  have "unat ?x < 2 ^ 32"
    using unsigned_less [of ?x] by simp
  then have lt: "unat ?x < 10 ^ 10"
    by simp
  then obtain ds where ds: "digit_loop udigits 16 ?x 10 [] = Ok (map ((!) udigits) ds)" "numeral_of 10 (unat ?x) ds"
    using digit_loop_digits [of 10 udigits ?x 16 "[]"] by (auto simp: udigits_def)
  moreover have "length ds < 16"
    using numeral_of_length [OF ds(2) lt] by simp
  ultimately show ?thesis
    by (simp add: uprintint_def int_chars_def Let_def)
qed

lemma reaches_print_children: "reaches (\<lambda>_. True) (print_children (i\<lparr>num_processes := 0\<rparr>) a xs)"
proof (induction xs)
  case (Cons x xs)
  have "\<exists>s. printf_chars False (''Child Process with pid %d not found in process list'' @ NL) [A_int (snd x)] = Ok s"
    using uprintint_total [of "snd x"] by auto
  then show ?case
    using Cons by (auto simp: Let_def split_beta find_index_of_pid_def intro!: reaches_then reaches_printf)
qed simp

lemma reaches_observe: "reaches (\<lambda>_. True) (observe n tt ts cp w)"
proof -
  let ?i = "undefined \<lparr>num_processes := 0\<rparr> :: processes_info"
  have "reaches (\<lambda>_. True) (print_test_result n ?i a cp)" for a
    unfolding print_test_result_def by (intro reaches_then reaches_printf [OF _ TrueI] reaches_print_children) simp
  then have tail: "reaches (\<lambda>_. True) (thenu (kill_all ps) (thenu (again w (call_void S_wait)) (print_test_result n ?i a cp)))" for a ps
    by (intro reaches_then reaches_kill_all reaches_again)
  show ?thesis
    unfolding observe_def using tail
    by (intro reaches_bindu [OF reaches_wait_for_tickets])
      (auto simp: call_void_def parent_side_def intro!: exI [where x = "reply0\<lparr>r_info := ?i\<rparr>"])
qed

section \<open>The tests\<close>

lemma forks_and_waits_intro:
  assumes "reaches (\<lambda>_. True) prog" "\<And>P. child_calls P \<Longrightarrow> uses P prog (f * of_bool (P S_fork) + w * of_bool (P S_wait))"
  shows "forks_and_waits prog f w"
proof -
  have "child_calls ((=) S_fork)" "child_calls ((=) S_wait)"
    by (auto simp: child_calls_def)
  then show ?thesis
    using assms(1) assms(2) [of "(=) S_fork"] assms(2) [of "(=) S_wait"] by (simp add: forks_and_waits_def)
qed

text \<open>The end that the tests share, after the children have been made.\<close>

lemma uses_finish:
  "child_calls P \<Longrightarrow> n = w * of_bool (P S_wait) \<Longrightarrow> uses P (thenu (observe k tt ts cp w) (thenu (test_ok num) (Ret cp))) n"
  by (rule uses_bindu [OF uses_observe [OF _ refl] uses_test_ok]) simp_all

lemma printf_chars_plain: "CHR ''%'' \<notin> set fmt \<Longrightarrow> printf_chars False fmt args = Ok fmt"
  by (induction fmt) auto

lemma reaches_banner: "CHR ''%'' \<notin> set num \<Longrightarrow> reaches (\<lambda>_. True) (banner num)"
  unfolding banner_def by (intro reaches_then reaches_printf [OF printf_chars_plain TrueI]) auto

lemma reaches_finish:
  assumes "CHR ''%'' \<notin> set num"
  shows "reaches (\<lambda>_. True) (thenu (observe k tt ts cp w) (thenu (test_ok num) (Ret cp)))"
  unfolding test_ok_def using assms
  by (intro reaches_then reaches_observe reaches_printf [OF printf_chars_plain TrueI]) auto

lemmas reaches_tests = reaches_then [OF reaches_banner] reaches_finish reaches_bindu [OF reaches_create_children]
  reaches_bindu [OF reaches_create_more_processes] reaches_bindu [OF reaches_create_nested_processes]

lemma uses_stage:
  assumes "uses P m (of_bool (P S_fork))" "\<And>x. uses P (f x) k" "n = of_bool (P S_fork) + k"
  shows "uses P (bindu m f) n"
  by (rule uses_bindu [OF assms])

lemma test1_balance: "n \<le> length ts \<Longrightarrow> forks_and_waits (test1 n tt ts cp) n n"
  unfolding test1_def
  by (intro forks_and_waits_intro uses_skip uses_banner uses_bindu [OF uses_create_children [OF _ refl] uses_finish [OF _ refl]])
    (auto intro!: reaches_tests)

lemma test2_balance: "2 \<le> n \<Longrightarrow> forks_and_waits (test2 n tt ts cp) 2 2"
  by (intro forks_and_waits_intro)
    (auto simp: test2_def Let_def split_beta intro!: reaches_tests uses_skip [OF uses_banner]
      uses_stage [OF uses_create_more_processes] uses_finish)

lemma test3_balance: "3 \<le> n \<Longrightarrow> forks_and_waits (test3 n tt ts cp) 3 3"
  by (intro forks_and_waits_intro)
    (auto simp: test3_def Let_def split_beta intro!: reaches_tests uses_skip [OF uses_banner]
      uses_stage [OF uses_create_more_processes] uses_finish)

lemma test4_balance: "0 < n \<Longrightarrow> forks_and_waits (test4 n tt ts cp) 1 1"
  by (intro forks_and_waits_intro)
    (auto simp: test4_def Let_def split_beta intro!: reaches_tests uses_skip [OF uses_banner]
      uses_stage [OF uses_create_nested_processes] uses_finish)

lemma test5_balance: "3 \<le> n \<Longrightarrow> forks_and_waits (test5 n tt ts cp) 3 1"
  by (intro forks_and_waits_intro)
    (auto simp: test5_def Let_def split_beta intro!: reaches_tests uses_skip [OF uses_banner]
      uses_stage [OF uses_create_nested_processes] uses_finish)

lemma test6_balance: "3 \<le> n \<Longrightarrow> forks_and_waits (test6 n tt ts cp) 3 1"
  by (intro forks_and_waits_intro)
    (auto simp: test6_def Let_def split_beta intro!: reaches_tests uses_skip [OF uses_banner]
      uses_stage [OF uses_create_nested_processes] uses_stage [OF uses_create_more_processes] uses_finish)

text \<open>C38: Tests 1 to 4 of the scheduler test wait for exactly as many children as they have forked. On the
  side of the parent, where the forks and pipes succeed, each of them can return, and every path on which it
  does has \<open>n\<close>, 2, 3 or 1 forks and as many waits.\<close>

theorem tests_wait_for_children:
  assumes "3 \<le> n" "n \<le> length tickets"
  shows "forks_and_waits (test1 n timeticks tickets child_pids) n n
    \<and> forks_and_waits (test2 n timeticks tickets child_pids) 2 2
    \<and> forks_and_waits (test3 n timeticks tickets child_pids) 3 3
    \<and> forks_and_waits (test4 n timeticks tickets child_pids) 1 1"
  using assms test1_balance test2_balance test3_balance test4_balance by simp

theorem tests_wait_for_children_witness: "forks_and_waits (test1 3 100 [10, 20, 30] [0, 0, 0]) 3 3"
  using tests_wait_for_children [of 3 "[10, 20, 30]" 100 "[0, 0, 0]"] by simp

text \<open>C39: Tests 5 and 6 fork three children and wait for one: every path of the parent that returns has three
  forks and a single \<^verbatim>\<open>wait()\<close>, so that two zombies are left, although the comment asks to wait till all
  child processes are killed.\<close>

theorem tests_leave_zombies:
  assumes "3 \<le> n"
  shows "forks_and_waits (test5 n timeticks tickets child_pids) 3 1
    \<and> forks_and_waits (test6 n timeticks tickets child_pids) 3 1"
  using assms test5_balance test6_balance by simp

theorem tests_leave_zombies_witness: "forks_and_waits (test5 10 1000 auto_tickets (replicate 10 0)) 3 1"
  using tests_leave_zombies [of 10 1000 auto_tickets "replicate 10 0"] by simp

end
