(* ===== verification/Grep.thy ===== *)
theory Grep
  imports Userlib
begin

text \<open>
  The program \<^verbatim>\<open>grep\<close> with its matcher of regular expressions. Strings of C end at their NUL: a string here
  holds the characters before it, and the text in the buffer is cut with \<open>takeWhile\<close>. The matcher is shown
  equivalent to a description of what a pattern denotes, and the program to print exactly the lines
  that match, on input whose reads all end in whole lines; a read without a newline in it is lost.
\<close>

section \<open>The matcher\<close>

function (sequential) matchhere :: "string \<Rightarrow> string \<Rightarrow> bool"
  and matchstar :: "char \<Rightarrow> string \<Rightarrow> string \<Rightarrow> bool" where
  "matchhere [] tx = True"
| "matchhere (c # re) tx =
     (if re \<noteq> [] \<and> hd re = CHR ''*'' then matchstar c (tl re) tx
      else if c = CHR ''$'' \<and> re = [] then tx = []
      else if tx \<noteq> [] \<and> (c = CHR ''.'' \<or> c = hd tx) then matchhere re (tl tx)
      else False)"
| "matchstar c re tx =
     (if matchhere re tx then True
      else if tx \<noteq> [] \<and> (hd tx = c \<or> c = CHR ''.'') then matchstar c re (tl tx)
      else False)"
  by pat_completeness auto
termination
  by (relation "measures [\<lambda>x. case x of Inl (re, t) \<Rightarrow> length re | Inr (c, re, t) \<Rightarrow> length re + 1,
      \<lambda>x. case x of Inl (re, t) \<Rightarrow> length t | Inr (c, re, t) \<Rightarrow> length t]") (auto simp: neq_Nil_conv)

declare matchstar.simps [simp del]

primrec match_from :: "string \<Rightarrow> string \<Rightarrow> bool" where
  "match_from re [] = matchhere re []"
| "match_from re (a # tx) = (if matchhere re (a # tx) then True else match_from re tx)"

definition match :: "string \<Rightarrow> string \<Rightarrow> bool" where
  "match re tx = (if re \<noteq> [] \<and> hd re = CHR ''^'' then matchhere (tl re) tx else match_from re tx)"

section \<open>What a pattern means\<close>

definition atom :: "char \<Rightarrow> char \<Rightarrow> bool" where
  "atom c a \<longleftrightarrow> c = CHR ''.'' \<or> c = a"

inductive here :: "string \<Rightarrow> string \<Rightarrow> bool" where
  here_Nil: "here [] tx"
| here_star: "\<forall>a \<in> set u. atom c a \<Longrightarrow> here re v \<Longrightarrow> here (c # CHR ''*'' # re) (u @ v)"
| here_end: "here ''$'' []"
| here_char: "take 1 re \<noteq> ''*'' \<Longrightarrow> c # re \<noteq> ''$'' \<Longrightarrow> atom c a \<Longrightarrow> here re tx \<Longrightarrow> here (c # re) (a # tx)"

inductive_cases here_ConsE: "here (c # re) tx"

lemma matchstar_iff: "matchstar c re tx \<longleftrightarrow> (\<exists>u v. tx = u @ v \<and> (\<forall>a \<in> set u. atom c a) \<and> matchhere re v)"
proof (induction tx)
  case Nil
  then show ?case
    by (subst matchstar.simps) simp
next
  case (Cons a tx)
  have "(\<exists>u v. a # tx = u @ v \<and> (\<forall>a \<in> set u. atom c a) \<and> matchhere re v) \<longleftrightarrow>
      matchhere re (a # tx) \<or> atom c a \<and> (\<exists>u v. tx = u @ v \<and> (\<forall>a \<in> set u. atom c a) \<and> matchhere re v)"
    by (auto simp: Cons_eq_append_conv intro: exI [of _ "[]"]) (metis append_Cons list.set_intros set_ConsD)+
  then show ?case
    using Cons by (subst matchstar.simps) (auto simp: atom_def)
qed

lemma here_plain:
  assumes "take 1 r \<noteq> ''*''"
  shows "here (c # r) tx \<longleftrightarrow> (if c # r = ''$'' then tx = [] else \<exists>a t. tx = a # t \<and> atom c a \<and> here r t)"
proof
  show "if c # r = ''$'' then tx = [] else \<exists>a t. tx = a # t \<and> atom c a \<and> here r t" if "here (c # r) tx"
    using that by (rule here_ConsE) (use assms in auto)
  show "here (c # r) tx" if "if c # r = ''$'' then tx = [] else \<exists>a t. tx = a # t \<and> atom c a \<and> here r t"
    using that assms by (auto split: if_splits intro: here_end here_char)
qed

lemma matchhere_iff: "matchhere re tx \<longleftrightarrow> here re tx"
proof (induction "length re" arbitrary: re tx rule: less_induct)
  case less
  show ?case
  proof (cases re)
    case Nil
    then show ?thesis
      by (simp add: here_Nil)
  next
    case (Cons c r)
    show ?thesis
    proof (cases "r \<noteq> [] \<and> hd r = CHR ''*''")
      case True
      then obtain r' where r: "r = CHR ''*'' # r'"
        by (cases r) auto
      have "matchhere re tx \<longleftrightarrow> (\<exists>u v. tx = u @ v \<and> (\<forall>a \<in> set u. atom c a) \<and> here r' v)"
        using less [of r'] Cons r by (simp add: matchstar_iff)
      also have "\<dots> \<longleftrightarrow> here re tx"
        unfolding Cons r by (auto intro: here_star) (erule here_ConsE; auto)
      finally show ?thesis .
    next
      case False
      then have "take 1 r \<noteq> ''*''"
        by (cases r) auto
      then show ?thesis
        unfolding Cons here_plain [OF \<open>take 1 r \<noteq> ''*''\<close>]
        using less [of r "tl tx"] False Cons by (cases tx) (auto simp: atom_def)
    qed
  qed
qed

lemma match_from_iff: "match_from re tx \<longleftrightarrow> (\<exists>u v. tx = u @ v \<and> here re v)"
proof (induction tx)
  case (Cons a tx)
  then show ?case
    by (auto simp: matchhere_iff Cons_eq_append_conv)
qed (simp add: matchhere_iff)

definition denotes :: "string \<Rightarrow> string \<Rightarrow> bool" where
  "denotes re tx = (if take 1 re = ''^'' then here (drop 1 re) tx else \<exists>u v. tx = u @ v \<and> here re v)"

lemma match_denotes: "match re tx \<longleftrightarrow> denotes re tx"
  by (cases re) (auto simp: match_def denotes_def matchhere_iff match_from_iff)

lemma match_eq: "match = denotes"
  using match_denotes by (intro ext)

section \<open>The program\<close>

lemma strchr_Some: "strchr s c = Some i \<longleftrightarrow> i < length s \<and> s ! i = c \<and> c \<notin> set (take i s)"
proof (induction s arbitrary: i)
  case (Cons d s)
  then show ?case
    by (cases i) (auto split: if_splits)
qed simp

lemma strchr_None: "strchr s c = None \<longleftrightarrow> c \<notin> set s"
  by (induction s) auto

text \<open>The inner loop, over the lines in the buffer; it returns what is left after the last newline.\<close>

function grep_lines :: "string \<Rightarrow> string \<Rightarrow> string uprog" where
  "grep_lines pattern p =
     (case strchr (takeWhile (\<lambda>c. c \<noteq> NUL) p) (CHR 0x0A) of
        None \<Rightarrow> Ret p
      | Some q \<Rightarrow>
          if match pattern (take q p)
          then Call (S_write 1 (take (q + 1) p)) (\<lambda>_. grep_lines pattern (drop (q + 1) p))
          else grep_lines pattern (drop (q + 1) p))"
  by pat_completeness auto
termination
proof (relation "measure (\<lambda>(pattern, p). length p)")
  fix pattern p q
  assume "strchr (takeWhile (\<lambda>c. c \<noteq> NUL) p) (CHR 0x0A) = Some q"
  then have "q < length p"
    using length_takeWhile_le [of "\<lambda>c. c \<noteq> NUL" p] by (auto simp: strchr_Some)
  then show "((pattern, drop (q + 1) p), pattern, p) \<in> measure (\<lambda>(pattern, p). length p)"
    "((pattern, drop (q + 1) p), pattern, p) \<in> measure (\<lambda>(pattern, p). length p)"
    by simp_all
qed simp

declare grep_lines.simps [simp del]

text \<open>The outer loop; \<open>buf\<close> is what the buffer still holds. When a read brought no newline, \<open>m\<close> becomes 0.\<close>

primrec grep :: "nat \<Rightarrow> string \<Rightarrow> int \<Rightarrow> string \<Rightarrow> unit uprog" where
  "grep 0 pattern fd buf = Forever"
| "grep (Suc n) pattern fd buf =
     Call (S_read fd (1024 - int (length buf) - 1)) (\<lambda>r.
       if rv r \<le> 0 then Ret ()
       else let buf = buf @ take (nat (rv r)) (r_data r)
            in bindu (grep_lines pattern buf) (\<lambda>p.
               grep n pattern fd (if length p = length buf then [] else p)))"

primrec grep_files :: "nat \<Rightarrow> string \<Rightarrow> string list \<Rightarrow> unit uprog" where
  "grep_files n pattern [] = Ret ()"
| "grep_files n pattern (a # as) =
     bindu (sys (S_open a 0)) (\<lambda>fd.
       if fd < 0 then thenu (printf 1 (''grep: cannot open %s'' @ [CHR 0x0A]) [A_str (Some a)]) Exit
       else thenu (grep n pattern fd []) (thenu (call_void (S_close fd)) (grep_files n pattern as)))"

definition grep_main :: "nat \<Rightarrow> string list \<Rightarrow> unit uprog" where
  "grep_main n argv =
     (if length argv \<le> 1 then thenu (printf 2 (''usage: grep pattern [file ...]'' @ [CHR 0x0A]) []) Exit
      else if length argv \<le> 2 then thenu (grep n (argv ! 1) 0 []) Exit
      else thenu (grep_files n (argv ! 1) (drop 2 argv)) Exit)"

section \<open>What it prints\<close>

definition line :: "string \<Rightarrow> bool" where
  "line l \<longleftrightarrow> CHR 0x0A \<notin> set l \<and> NUL \<notin> set l"

abbreviation ended :: "string list \<Rightarrow> string" where
  "ended ls \<equiv> concat (map (\<lambda>l. l @ [CHR 0x0A]) ls)"

lemma grep_lines_partial:
  assumes "line l"
  shows "grep_lines pattern l = Ret l"
proof -
  have "strchr (takeWhile (\<lambda>c. c \<noteq> NUL) l) (CHR 0x0A) = None"
    using assms set_takeWhileD [of "CHR 0x0A" _ l] by (auto simp: strchr_None line_def)
  then show ?thesis
    by (subst grep_lines.simps) simp
qed

lemma grep_lines_Cons:
  assumes "line l"
  shows "grep_lines pattern (l @ [CHR 0x0A] @ p) =
    (if match pattern l then Call (S_write 1 (l @ [CHR 0x0A])) (\<lambda>_. grep_lines pattern p) else grep_lines pattern p)"
proof -
  have "takeWhile (\<lambda>c. c \<noteq> NUL) (l @ [CHR 0x0A] @ p) = l @ [CHR 0x0A] @ takeWhile (\<lambda>c. c \<noteq> NUL) p"
    using assms by (auto simp: line_def takeWhile_append)
  then have "strchr (takeWhile (\<lambda>c. c \<noteq> NUL) (l @ [CHR 0x0A] @ p)) (CHR 0x0A) = Some (length l)"
    using assms by (simp add: strchr_Some line_def)
  then show ?thesis
    by (subst grep_lines.simps) simp
qed

lemma run_grep_lines:
  "\<forall>l \<in> set ls. line l \<Longrightarrow> line p \<Longrightarrow>
   run_path feed (grep_lines pattern (ended ls @ p)) (bs, out) = (Returned p, bs, out @ ended (filter (match pattern) ls))"
proof (induction ls arbitrary: out)
  case (Cons l ls)
  then show ?case
    using grep_lines_Cons [of l pattern "ended ls @ p"] by simp
qed (simp add: grep_lines_partial)

lemma run_grep:
  assumes "\<forall>ls \<in> set lss. ls \<noteq> [] \<and> length (ended ls) < 1024 \<and> (\<forall>l \<in> set ls. line l)" "length lss < n"
  shows "run_path feed (grep n pattern fd []) (map ended lss, out) =
    (Returned (), [], out @ ended (filter (match pattern) (concat lss)))"
  using assms
proof (induction lss arbitrary: n out)
  case Nil
  then show ?case
    by (cases n) (simp_all add: reply0_def)
next
  case (Cons ls lss)
  then obtain m where n: "n = Suc m" "length lss < m"
    by (cases n) auto
  have "ended ls \<noteq> []"
    using Cons.prems(1) by (cases ls) auto
  then show ?case
    using Cons.IH [of m] Cons.prems(1) n run_grep_lines [of ls "[]" pattern]
    by (simp add: run_bindu reply0_def line_def Let_def)
qed

section \<open>Properties\<close>

text \<open>C32: The matcher of \<open>grep\<close> accepts a text exactly if the pattern denotes it: somewhere in the text, or at its start
  for a pattern that begins with \<^verbatim>\<open>^\<close>, the characters stand for themselves, \<^verbatim>\<open>.\<close> for any character, \<open>c*\<close> for any number
  of characters \<open>c\<close>, and a final \<^verbatim>\<open>$\<close> for the end of the text.\<close>

theorem grep_match_correct: "match re tx \<longleftrightarrow> denotes re tx"
  by (rule match_denotes)

text \<open>C36: When every read delivers whole lines, \<open>grep\<close> ends and prints exactly the lines that its pattern denotes, in order.\<close>

theorem grep_prints_matching_lines:
  assumes "\<forall>ls \<in> set lss. ls \<noteq> [] \<and> length (ended ls) < 1024 \<and> (\<forall>l \<in> set ls. line l)" "length lss < n"
  shows "run_path feed (grep n pattern fd []) (map ended lss, out) =
    (Returned (), [], out @ ended (filter (denotes pattern) (concat lss)))"
  using run_grep [OF assms] by (simp only: match_eq)

theorem grep_prints_matching_lines_witness:
  "run_path feed (grep 3 ''b*'' 0 []) (map ended [[''ab'', ''cd''], [''b'']], []) =
     (Returned (), [], ended (filter (denotes ''b*'') [''ab'', ''cd'', ''b'']))"
  using grep_prints_matching_lines [of "[[''ab'', ''cd''], [''b'']]" 3 "''b*''" 0 "[]"] by (simp add: line_def)

text \<open>C37: A line that arrives in two reads, the first of them without a newline, is not matched as a whole: \<open>grep\<close> forgets its
  first part, and looks only at the second.\<close>

theorem grep_loses_split_line:
  assumes "line l" "l \<noteq> []" "length l < 1024" "line k" "length k < 1023"
  shows "run_path feed (grep 3 pattern fd []) ([l, k @ [CHR 0x0A]], []) =
    (Returned (), [], if denotes pattern k then k @ [CHR 0x0A] else [])"
proof -
  have "run_path feed (grep_lines pattern (k @ [CHR 0x0A])) (bs, out)
      = (Returned [], bs, out @ (if match pattern k then k @ [CHR 0x0A] else []))" for bs out
    using run_grep_lines [of "[k]" "[]" pattern bs out] assms(4) by (simp add: line_def)
  then show ?thesis
    using assms grep_lines_partial [OF assms(1)]
    by (simp add: run_bindu reply0_def Let_def numeral_3_eq_3 match_eq)
qed

theorem grep_loses_split_line_witness:
  "run_path feed (grep 3 ''^ab$'' 0 []) ([''a'', ''b'' @ [CHR 0x0A]], []) = (Returned (), [], []) \<and> match ''^ab$'' ''ab''"
proof
  have "\<not> denotes ''^ab$'' ''b''" "match ''^ab$'' ''ab''"
    unfolding match_denotes [symmetric] by (simp_all add: match_def)
  then show "run_path feed (grep 3 ''^ab$'' 0 []) ([''a'', ''b'' @ [CHR 0x0A]], []) = (Returned (), [], [])" "match ''^ab$'' ''ab''"
    using grep_loses_split_line [of "''a''" "''b''" "''^ab$''" 0] by (simp_all add: line_def)
qed

end
