(* ===== verification/Shell.thy ===== *)
theory Shell
  imports Utils
begin

text \<open>
  The shell \<^verbatim>\<open>sh.c\<close>. A pointer into the command line is a position in it, the line without its terminating
  0 being a list of characters; a parsed command holds the positions of its words, as the C structures do, and
  \<open>nulterminate\<close> writes the zeros that turn them into strings. The recursive descent carries fuel,
  and \<open>Spin\<close> is the result when it is used up; \<open>parseline_ends\<close> shows that it never is. The memory for
  commands (\<^verbatim>\<open>malloc\<close>) and the stack of the process are taken to suffice.
\<close>

section \<open>Commands\<close>

type_synonym span = "nat \<times> nat"

datatype cmd =
    EXEC "span list"
  | REDIR cmd span int int
  | PIPE cmd cmd
  | LIST cmd cmd
  | BACK cmd

definition MAXARGS :: nat where
  "MAXARGS = 32"

text \<open>The node which \<open>parseexec\<close> keeps a pointer to is the innermost one of those it has wrapped around it.\<close>

fun add_arg :: "cmd \<Rightarrow> span \<Rightarrow> cmd" where
  "add_arg (EXEC argv) a = EXEC (argv @ [a])"
| "add_arg (REDIR c f mode fd) a = REDIR (add_arg c a) f mode fd"
| "add_arg c a = c"

section \<open>Tokens\<close>

definition whitespace :: string where
  "whitespace = [CHR '' '', CHR 0x09, CHR 0x0D, CHR 0x0A, CHR 0x0B]"

definition symbols :: string where
  "symbols = ''<|>&;()''"

definition at :: "string \<Rightarrow> nat \<Rightarrow> char" where
  "at b p = (if p < length b then b ! p else NUL)"

definition skip_ws :: "string \<Rightarrow> nat \<Rightarrow> nat" where
  "skip_ws b p = p + length (takeWhile (\<lambda>c. strchr whitespace c \<noteq> None) (drop p b))"

definition skip_word :: "string \<Rightarrow> nat \<Rightarrow> nat" where
  "skip_word b p = p + length (takeWhile (\<lambda>c. strchr whitespace c = None \<and> strchr symbols c = None) (drop p b))"

definition gettoken :: "string \<Rightarrow> nat \<Rightarrow> char \<times> span \<times> nat" where
  "gettoken b p =
     (let q = skip_ws b p; c = at b q;
          (ret, e) =
            (if c = NUL then (c, q)
             else if strchr ''|();&<'' c \<noteq> None then (c, q + 1)
             else if c = CHR ''>'' then (if at b (q + 1) = CHR ''>'' then (CHR ''+'', q + 2) else (c, q + 1))
             else (CHR ''a'', skip_word b q))
      in (ret, (q, e), skip_ws b e))"

definition peek :: "string \<Rightarrow> nat \<Rightarrow> string \<Rightarrow> nat \<times> bool" where
  "peek b p toks =
     (let p = skip_ws b p in (p, at b p \<noteq> NUL \<and> strchr toks (at b p) \<noteq> None))"

lemma strchr_iff: "strchr s c \<noteq> None \<longleftrightarrow> c \<in> set s" "strchr s c = None \<longleftrightarrow> c \<notin> set s"
  by (induction s) auto

abbreviation space :: "char \<Rightarrow> bool" where
  "space c \<equiv> c \<in> set whitespace"

definition wordc :: "char \<Rightarrow> bool" where
  "wordc c \<longleftrightarrow> c \<notin> set whitespace \<and> c \<notin> set symbols"

lemma skip_ws_eq: "skip_ws b p = p + length (takeWhile space (drop p b))"
  by (simp add: skip_ws_def strchr_iff)

lemma skip_word_eq: "skip_word b p = p + length (takeWhile wordc (drop p b))"
  by (simp add: skip_word_def strchr_iff wordc_def [abs_def])

lemma skip_ws_le: "p \<le> skip_ws b p"
  by (simp add: skip_ws_def)

lemma skip_bound: "p \<le> length b \<Longrightarrow> p + length (takeWhile f (drop p b)) \<le> length b"
  using length_takeWhile_le [of f "drop p b"] by simp

lemma skip_stop:
  assumes "p + length (takeWhile f (drop p b)) < length b"
  shows "\<not> f (b ! (p + length (takeWhile f (drop p b))))"
  using assms nth_length_takeWhile [of f "drop p b"] by simp

lemma skip_all:
  assumes "p \<le> i" "i < p + length (takeWhile f (drop p b))"
  shows "f (b ! i)"
proof -
  have "i - p < length (takeWhile f (drop p b))"
    using assms by simp
  then have "f (takeWhile f (drop p b) ! (i - p))" "takeWhile f (drop p b) ! (i - p) = b ! i"
    using assms(1) nth_mem [of "i - p" "takeWhile f (drop p b)"] length_takeWhile_le [of f "drop p b"]
    by (auto simp: takeWhile_nth dest: set_takeWhileD)
  then show ?thesis
    by simp
qed

lemma skip_word_gt: "p < length b \<Longrightarrow> wordc (b ! p) \<Longrightarrow> p < skip_word b p"
  by (simp add: skip_word_eq Cons_nth_drop_Suc [symmetric])

lemma gettoken_progress:
  assumes "gettoken b p = (ret, (q, e), p')" "ret \<noteq> NUL"
  shows "p < p'"
proof -
  let ?q = "skip_ws b p"
  have q: "p \<le> ?q" "?q < length b"
    using assms skip_ws_le by (auto simp: gettoken_def Let_def at_def split: if_splits)
  have "\<not> space (b ! ?q)"
    using skip_stop [of p space b] q(2) by (simp add: skip_ws_eq)
  then have "wordc (b ! ?q) \<or> b ! ?q \<in> set symbols"
    by (auto simp: wordc_def)
  then have "?q < e"
    using assms q skip_word_gt [of ?q b]
    by (auto simp: gettoken_def Let_def strchr_iff symbols_def at_def split: if_splits)
  moreover have "p' = skip_ws b e"
    using assms(1) by (auto simp: gettoken_def Let_def split_beta split: if_splits)
  ultimately show ?thesis
    using q(1) skip_ws_le [of e b] by simp
qed

section \<open>Parsing\<close>

function back_loop :: "string \<Rightarrow> cmd \<Rightarrow> nat \<Rightarrow> cmd \<times> nat" where
  "back_loop b cmd p =
     (let (p, amp) = peek b p ''&''
      in if amp then let (_, _, p) = gettoken b p in back_loop b (BACK cmd) p
         else (cmd, p))"
  by pat_completeness auto

lemma peek_gettoken:
  assumes "peek b p toks = (p', True)"
  shows "p \<le> p'" "p' < length b" "p' < snd (snd (gettoken b p'))"
proof -
  show lt: "p \<le> p'" "p' < length b"
    using assms skip_ws_le [of p b] by (auto simp: peek_def Let_def at_def split: if_splits)
  have "skip_ws b p' = p'"
    using assms skip_stop [of p space b] lt by (auto simp: peek_def Let_def skip_ws_eq Cons_nth_drop_Suc [symmetric])
  then have "fst (gettoken b p') \<noteq> NUL"
    using assms by (auto simp: peek_def gettoken_def Let_def strchr_iff at_def split_beta split: if_splits)
  then show "p' < snd (snd (gettoken b p'))"
    using gettoken_progress [of b p'] by (metis prod.collapse)
qed

termination back_loop
proof (relation "measure (\<lambda>(b, cmd, p). length b - p)")
  fix b cmd p x p' amp y z w v p''
  assume "x = peek b p ''&''" "(p', amp) = x" "amp" "y = gettoken b p'" "(z, w) = y" "(v, p'') = w"
  then show "((b, BACK cmd, p''), b, cmd, p) \<in> measure (\<lambda>(b, cmd, p). length b - p)"
    using peek_gettoken [of b p "''&''" p'] by (auto simp: eq_commute [of "(_, _)"])
qed simp

text \<open>The modes are \<^verbatim>\<open>O_RDONLY\<close> and \<^verbatim>\<open>O_WRONLY|O_CREATE\<close>.\<close>

function parseredirs :: "string \<Rightarrow> cmd \<Rightarrow> nat \<Rightarrow> (cmd \<times> nat) res" where
  "parseredirs b cmd p =
     (let (p, redir) = peek b p ''<>''
      in if \<not> redir then Ok (cmd, p)
         else let (tok, _, p) = gettoken b p; (word, f, p) = gettoken b p
              in if word \<noteq> CHR ''a'' then Panic ''missing file for redirection''
                 else parseredirs b
                   (if tok = CHR ''<'' then REDIR cmd f 0x000 0
                    else if tok = CHR ''>'' then REDIR cmd f 0x201 1
                    else if tok = CHR ''+'' then REDIR cmd f 0x201 1
                    else cmd) p)"
  by pat_completeness auto

lemma gettoken_le: "p \<le> snd (snd (gettoken b p))"
proof (cases "fst (gettoken b p) = NUL")
  case True
  then show ?thesis
    using skip_ws_le [of p b] skip_ws_le [of "skip_ws b p" b]
    by (auto simp: gettoken_def Let_def split_beta split: if_splits)
next
  case False
  then show ?thesis
    using gettoken_progress [of b p] by (metis less_imp_le prod.collapse)
qed

termination parseredirs
proof (relation "measure (\<lambda>(b, cmd, p). length b - p)")
  fix b and cmd :: cmd and p x p' redir y z w v p1 y' z' w' v' p2
  fix c :: cmd
  assume "x = peek b p ''<>''" "(p', redir) = x" "\<not> \<not> redir" "y = gettoken b p'" "(z, w) = y" "(v, p1) = w"
    "y' = gettoken b p1" "(z', w') = y'" "(v', p2) = w'"
  then show "((b, c, p2), b, cmd, p) \<in> measure (\<lambda>(b, cmd, p). length b - p)"
    using peek_gettoken [of b p "''<>''" p'] gettoken_le [of p1 b] by (auto simp: eq_commute [of "(_, _)"])
qed simp

function parseargs :: "string \<Rightarrow> nat \<Rightarrow> cmd \<Rightarrow> nat \<Rightarrow> (cmd \<times> nat) res" where
  "parseargs b argc ret p =
     (let (p, stop) = peek b p ''|)&;''
      in if stop then Ok (ret, p)
         else let (tok, a, p) = gettoken b p
              in if tok = NUL then Ok (ret, p)
                 else if tok \<noteq> CHR ''a'' then Panic ''syntax''
                 else let ret = add_arg ret a; argc = argc + 1
                      in if MAXARGS \<le> argc then Panic ''too many args''
                         else bindr (parseredirs b ret p) (\<lambda>(ret, p). parseargs b argc ret p))"
  by pat_completeness auto

termination parseargs
  by (relation "measure (\<lambda>(b, argc, cmd, p). MAXARGS - argc)") auto

declare back_loop.simps [simp del] parseredirs.simps [simp del] parseargs.simps [simp del]

fun parseline :: "nat \<Rightarrow> string \<Rightarrow> nat \<Rightarrow> (cmd \<times> nat) res"
  and parsepipe :: "nat \<Rightarrow> string \<Rightarrow> nat \<Rightarrow> (cmd \<times> nat) res"
  and parseblock :: "nat \<Rightarrow> string \<Rightarrow> nat \<Rightarrow> (cmd \<times> nat) res"
  and parseexec :: "nat \<Rightarrow> string \<Rightarrow> nat \<Rightarrow> (cmd \<times> nat) res" where
  "parseline 0 b p = Spin"
| "parseline (Suc n) b p =
     bindr (parsepipe n b p) (\<lambda>(cmd, p).
       let (cmd, p) = back_loop b cmd p; (p, semi) = peek b p '';''
       in if semi then
            let (_, _, p) = gettoken b p
            in bindr (parseline n b p) (\<lambda>(right, p). Ok (LIST cmd right, p))
          else Ok (cmd, p))"
| "parsepipe 0 b p = Spin"
| "parsepipe (Suc n) b p =
     bindr (parseexec n b p) (\<lambda>(cmd, p).
       let (p, bar) = peek b p ''|''
       in if bar then
            let (_, _, p) = gettoken b p
            in bindr (parsepipe n b p) (\<lambda>(right, p). Ok (PIPE cmd right, p))
          else Ok (cmd, p))"
| "parseblock 0 b p = Spin"
| "parseblock (Suc n) b p =
     (let (p, left) = peek b p ''(''
      in if \<not> left then Panic ''parseblock''
         else let (_, _, p) = gettoken b p
              in bindr (parseline n b p) (\<lambda>(cmd, p).
                 let (p, right) = peek b p '')''
                 in if \<not> right then Panic ''syntax - missing )''
                    else let (_, _, p) = gettoken b p in parseredirs b cmd p))"
| "parseexec 0 b p = Spin"
| "parseexec (Suc n) b p =
     (let (p, left) = peek b p ''(''
      in if left then parseblock n b p
         else bindr (parseredirs b (EXEC []) p) (\<lambda>(ret, p). parseargs b 0 ret p))"

primrec nulterminate :: "cmd \<Rightarrow> string \<Rightarrow> string" where
  "nulterminate (EXEC argv) buf = fold (\<lambda>a buf. buf[snd a := NUL]) argv buf"
| "nulterminate (REDIR c f mode fd) buf = (nulterminate c buf)[snd f := NUL]"
| "nulterminate (PIPE l r) buf = nulterminate r (nulterminate l buf)"
| "nulterminate (LIST l r) buf = nulterminate r (nulterminate l buf)"
| "nulterminate (BACK c) buf = nulterminate c buf"

section \<open>Running commands\<close>

text \<open>\<^verbatim>\<open>panic\<close> and \<^verbatim>\<open>fork1\<close>.\<close>

definition sh_panic :: "string \<Rightarrow> 'a uprog" where
  "sh_panic s = thenu (printf 2 (''%s'' @ NL) [A_str (Some s)]) Exit"

definition fork1 :: "int uprog" where
  "fork1 = bindu (sys S_fork) (\<lambda>pid. if pid = -1 then sh_panic ''fork'' else Ret pid)"

definition cstr_at :: "string \<Rightarrow> nat \<Rightarrow> string" where
  "cstr_at buf q = takeWhile (\<lambda>c. c \<noteq> NUL) (drop q buf)"

text \<open>The fuel of \<open>parseline\<close> in \<open>parsecmd\<close> is shown to be enough for every line.\<close>

definition parsecmd :: "string \<Rightarrow> (cmd \<times> string) uprog" where
  "parsecmd s =
     (case parseline (4 * length s + 5) s 0 of
        Ok (cmd, p) \<Rightarrow>
          let (p, _) = peek s p []
          in if p \<noteq> length s
             then thenu (printf 2 (''leftovers: %s'' @ NL) [A_str (Some (drop p s))]) (sh_panic ''syntax'')
             else Ret (cmd, nulterminate cmd (s @ [NUL]))
      | Panic m \<Rightarrow> sh_panic m
      | _ \<Rightarrow> Forever)"

primrec runcmd :: "cmd \<Rightarrow> string \<Rightarrow> unit uprog" where
  "runcmd (EXEC argv) buf =
     (case argv of
        [] \<Rightarrow> Exit
      | a # _ \<Rightarrow>
          thenu (call_void (S_exec (cstr_at buf (fst a)) (map (\<lambda>a. cstr_at buf (fst a)) argv)))
          (thenu (printf 2 (''exec %s failed'' @ NL) [A_str (Some (cstr_at buf (fst a)))]) Exit))"
| "runcmd (REDIR c f mode fd) buf =
     thenu (call_void (S_close fd))
     (bindu (sys (S_open (cstr_at buf (fst f)) mode)) (\<lambda>r.
        if r < 0 then thenu (printf 2 (''open %s failed'' @ NL) [A_str (Some (cstr_at buf (fst f)))]) Exit
        else thenu (runcmd c buf) Exit))"
| "runcmd (LIST l r) buf =
     bindu fork1 (\<lambda>pid.
     thenu (if pid = 0 then runcmd l buf else Ret ())
     (thenu (call_void S_wait)
     (thenu (runcmd r buf) Exit)))"
| "runcmd (PIPE l r) buf =
     Call S_pipe (\<lambda>p.
       if rv p < 0 then sh_panic ''pipe''
       else
         bindu fork1 (\<lambda>pid.
         thenu (if pid = 0 then
                  thenu (call_void (S_close 1))
                 (thenu (call_void (S_dup (snd (r_pfd p))))
                 (thenu (call_void (S_close (fst (r_pfd p))))
                 (thenu (call_void (S_close (snd (r_pfd p))))
                 (runcmd l buf)))) else Ret ())
        (bindu fork1 (\<lambda>pid.
         thenu (if pid = 0 then
                  thenu (call_void (S_close 0))
                 (thenu (call_void (S_dup (fst (r_pfd p))))
                 (thenu (call_void (S_close (fst (r_pfd p))))
                 (thenu (call_void (S_close (snd (r_pfd p))))
                 (runcmd r buf)))) else Ret ())
        (thenu (call_void (S_close (fst (r_pfd p))))
        (thenu (call_void (S_close (snd (r_pfd p))))
        (thenu (call_void S_wait)
        (thenu (call_void S_wait) Exit))))))))"
| "runcmd (BACK c) buf =
     bindu fork1 (\<lambda>pid. thenu (if pid = 0 then runcmd c buf else Ret ()) Exit)"

definition getcmd :: "int \<Rightarrow> (int \<times> string) uprog" where
  "getcmd nbuf =
     thenu (printf 2 ''$ '' [])
     (bindu (gets nbuf) (\<lambda>line.
      let buf = takeWhile (\<lambda>c. c \<noteq> NUL) line in Ret (if buf = [] then -1 else 0, buf)))"

primrec open_console :: "nat \<Rightarrow> unit uprog" where
  "open_console 0 = Forever"
| "open_console (Suc n) =
     bindu (sys (S_open ''console'' 0x002)) (\<lambda>fd.
       if fd < 0 then Ret ()
       else if fd \<ge> 3 then call_void (S_close fd)
       else open_console n)"

primrec sh_loop :: "nat \<Rightarrow> unit uprog" where
  "sh_loop 0 = Forever"
| "sh_loop (Suc n) =
     bindu (getcmd 100) (\<lambda>(r, buf).
       if r < 0 then Exit
       else if take 3 buf = ''cd '' then
         let dir = drop 3 (butlast buf)
         in bindu (sys (S_chdir dir)) (\<lambda>r.
              thenu (if r < 0 then printf 2 (''cannot cd %s'' @ NL) [A_str (Some dir)] else Ret ())
              (sh_loop n))
       else
         bindu fork1 (\<lambda>pid.
         thenu (if pid = 0 then bindu (parsecmd buf) (\<lambda>(cmd, buf). runcmd cmd buf) else Ret ())
         (thenu (call_void S_wait) (sh_loop n))))"

definition sh_main :: "nat \<Rightarrow> unit uprog" where
  "sh_main n = thenu (open_console n) (sh_loop n)"

section \<open>Well-formed commands\<close>

text \<open>The extent of a word: a longest run of word characters.\<close>

definition word_span :: "string \<Rightarrow> span \<Rightarrow> bool" where
  "word_span b a \<longleftrightarrow> fst a < snd a \<and> snd a \<le> length b \<and> (\<forall>i \<in> {fst a..<snd a}. wordc (b ! i))
     \<and> (snd a < length b \<longrightarrow> \<not> wordc (b ! snd a))"

primrec wf_cmd :: "string \<Rightarrow> cmd \<Rightarrow> bool" where
  "wf_cmd b (EXEC argv) \<longleftrightarrow> length argv < MAXARGS \<and> list_all (word_span b) argv"
| "wf_cmd b (REDIR c f mode fd) \<longleftrightarrow> wf_cmd b c \<and> word_span b f \<and> (mode, fd) \<in> {(0x000, 0), (0x201, 1)}"
| "wf_cmd b (PIPE l r) \<longleftrightarrow> wf_cmd b l \<and> wf_cmd b r"
| "wf_cmd b (LIST l r) \<longleftrightarrow> wf_cmd b l \<and> wf_cmd b r"
| "wf_cmd b (BACK c) \<longleftrightarrow> wf_cmd b c"

text \<open>What \<open>parseexec\<close> builds: redirections around a command whose arguments are still being collected.\<close>

fun simple :: "nat \<Rightarrow> cmd \<Rightarrow> bool" where
  "simple argc (EXEC argv) \<longleftrightarrow> length argv = argc"
| "simple argc (REDIR c f mode fd) \<longleftrightarrow> simple argc c"
| "simple argc c \<longleftrightarrow> False"

definition parsed :: "string \<Rightarrow> nat \<Rightarrow> (cmd \<Rightarrow> bool) \<Rightarrow> (cmd \<times> nat) res \<Rightarrow> bool" where
  "parsed b p Q m \<longleftrightarrow> (case m of Ok (cmd, p') \<Rightarrow> p \<le> p' \<and> Q cmd | Panic _ \<Rightarrow> True | _ \<Rightarrow> False)"

lemma parsed_Ok [simp]: "parsed b p Q (Ok (cmd, p')) \<longleftrightarrow> p \<le> p' \<and> Q cmd"
  by (simp add: parsed_def)

lemma parsed_Panic [simp]: "parsed b p Q (Panic m)"
  by (simp add: parsed_def)

lemma parsed_bindr:
  assumes "parsed b p Q m" "\<And>cmd p'. p \<le> p' \<Longrightarrow> Q cmd \<Longrightarrow> parsed b p R (f (cmd, p'))"
  shows "parsed b p R (bindr m f)"
  using assms(1) by (cases m) (auto simp: parsed_def [where Q = Q] intro: assms(2))

lemma parsed_mono: "parsed b p Q m \<Longrightarrow> p0 \<le> p \<Longrightarrow> (\<And>cmd. Q cmd \<Longrightarrow> R cmd) \<Longrightarrow> parsed b p0 R m"
  by (auto simp: parsed_def split: res.splits)

lemma gettoken_word:
  assumes "gettoken b p = (CHR ''a'', a, p')"
  shows "word_span b a"
proof -
  let ?q = "skip_ws b p"
  have a: "at b ?q \<noteq> NUL" "at b ?q \<notin> set ''|();&<''" "at b ?q \<noteq> CHR ''>''" "a = (?q, skip_word b ?q)"
    using assms by (auto simp: gettoken_def Let_def strchr_iff split: if_splits)
  then have q: "?q < length b"
    by (auto simp: at_def split: if_splits)
  moreover have "\<not> space (b ! ?q)"
    using skip_stop [of p space b] q by (simp add: skip_ws_eq)
  ultimately have "wordc (b ! ?q)"
    using a by (auto simp: wordc_def symbols_def at_def)
  then show ?thesis
    using skip_word_gt [OF q] skip_all [of ?q _ wordc b] skip_stop [of ?q wordc b] skip_bound [of ?q b wordc] q
    by (auto simp: word_span_def a(4) skip_word_eq)
qed

lemma peek_le: "p \<le> fst (peek b p toks)"
  by (simp add: peek_def Let_def skip_ws_le)

lemma back_loop_parsed: "wf_cmd b cmd \<Longrightarrow> p \<le> snd (back_loop b cmd p) \<and> wf_cmd b (fst (back_loop b cmd p))"
proof (induction "length b - p" arbitrary: cmd p rule: less_induct)
  case less
  obtain p' amp where pk: "peek b p ''&'' = (p', amp)"
    by fastforce
  obtain x y p'' where gt: "gettoken b p' = (x, y, p'')"
    by (metis prod.collapse)
  show ?case
  proof (cases amp)
    case True
    then have "p \<le> p'" "p' < length b" "p' < p''"
      using peek_gettoken [of b p "''&''" p'] pk gt by simp_all
    then have "p'' \<le> snd (back_loop b (BACK cmd) p'') \<and> wf_cmd b (fst (back_loop b (BACK cmd) p''))" "p \<le> p''"
      using less.hyps [of p'' "BACK cmd"] less.prems by simp_all
    then show ?thesis
      using True pk gt by (simp add: back_loop.simps [of b cmd p])
  next
    case False
    then show ?thesis
      using less.prems pk peek_le [of p b "''&''"] by (simp add: back_loop.simps [of b cmd p])
  qed
qed

lemma parseredirs_parsed:
  assumes "\<And>c f mode fd. Q c \<Longrightarrow> word_span b f \<Longrightarrow> (mode, fd) \<in> {(0x000, 0), (0x201, 1)} \<Longrightarrow> Q (REDIR c f mode fd)"
  shows "Q cmd \<Longrightarrow> parsed b p Q (parseredirs b cmd p)"
proof (induction "length b - p" arbitrary: cmd p rule: less_induct)
  case less
  obtain p' redir where pk: "peek b p ''<>'' = (p', redir)"
    by fastforce
  obtain tok x p1 where gt: "gettoken b p' = (tok, x, p1)"
    by (metis prod.collapse)
  obtain w f p2 where gf: "gettoken b p1 = (w, f, p2)"
    by (metis prod.collapse)
  show ?case
  proof (cases "redir \<and> w = CHR ''a''")
    case True
    then have lt: "p \<le> p'" "p' < length b" "p' < p1" "p1 \<le> p2"
      using peek_gettoken [of b p "''<>''" p'] gettoken_le [of p1 b] pk gt gf by simp_all
    have Q: "Q cmd" "Q (REDIR cmd f 0 0)" "Q (REDIR cmd f 513 1)"
      using less.prems assms [OF less.prems, of f] gettoken_word [of b p1 f p2] gf True by auto
    have "parsed b p2 Q (parseredirs b c p2)" if "Q c" for c
      using less.hyps [of p2 c] that lt by simp
    then have "parsed b p Q (parseredirs b c p2)" if "Q c" for c
      using parsed_mono [of b p2 Q _ p Q] that lt by simp
    then show ?thesis
      using Q True pk gt gf by (simp add: parseredirs.simps [of b cmd p])
  next
    case False
    then show ?thesis
      using less.prems pk gt gf peek_le [of p b "''<>''"] by (auto simp: parseredirs.simps [of b cmd p])
  qed
qed

lemma add_arg_wf:
  "wf_cmd b c \<Longrightarrow> simple argc c \<Longrightarrow> argc + 1 < MAXARGS \<Longrightarrow> word_span b a \<Longrightarrow>
   wf_cmd b (add_arg c a) \<and> simple (argc + 1) (add_arg c a)"
  by (induction c) auto

lemma parseargs_parsed:
  "wf_cmd b ret \<Longrightarrow> simple argc ret \<Longrightarrow> argc < MAXARGS \<Longrightarrow> parsed b p (wf_cmd b) (parseargs b argc ret p)"
proof (induction "MAXARGS - argc" arbitrary: argc ret p rule: less_induct)
  case less
  obtain p' stop where pk: "peek b p ''|)&;'' = (p', stop)"
    by fastforce
  then have p': "p \<le> p'"
    using peek_le [of p b "''|)&;''"] by simp
  obtain tok a p1 where gt: "gettoken b p' = (tok, a, p1)"
    by (metis prod.collapse)
  then have p1: "p \<le> p1"
    using gettoken_le [of p' b] p' by simp
  show ?case
  proof (cases "stop \<or> tok \<noteq> CHR ''a'' \<or> MAXARGS \<le> argc + 1")
    case True
    then show ?thesis
      using less.prems pk gt p' p1 by (auto simp: parseargs.simps [of b argc ret p] Let_def)
  next
    case False
    let ?Q = "\<lambda>c. wf_cmd b c \<and> simple (argc + 1) c"
    have "?Q (add_arg ret a)"
      using add_arg_wf less.prems False gettoken_word gt by simp
    then have "parsed b p1 ?Q (parseredirs b (add_arg ret a) p1)"
      by (intro parseredirs_parsed) auto
    then have r: "parsed b p ?Q (parseredirs b (add_arg ret a) p1)"
      using p1 by (rule parsed_mono)
    have "parsed b p (wf_cmd b) (parseargs b (argc + 1) c p2)" if "?Q c" "p \<le> p2" for c p2
      by (rule parsed_mono [of b p2 "wf_cmd b"]) (use less.hyps [of "argc + 1" c p2] less.prems False that in auto)
    then have "parsed b p (wf_cmd b) (bindr (parseredirs b (add_arg ret a) p1) (\<lambda>(ret, p). parseargs b (argc + 1) ret p))"
      by (intro parsed_bindr [OF r]) simp
    then show ?thesis
      using False pk gt by (simp add: parseargs.simps [of b argc ret p] Let_def)
  qed
qed

definition room :: "string \<Rightarrow> nat \<Rightarrow> nat" where
  "room b p = 4 * (length b - p)"

lemma room_peek:
  assumes "peek b p toks = (p', True)" "gettoken b p' = (x, y, p'')"
  shows "p \<le> p''" "room b p'' + 4 \<le> room b p"
  using peek_gettoken [OF assms(1)] assms(2) by (auto simp: room_def)

lemma room_mono: "p \<le> p' \<Longrightarrow> room b p' \<le> room b p"
  by (simp add: room_def)

text \<open>Looking for a symbol and reading it.\<close>

lemma parsed_peek:
  assumes "p \<le> p1" "\<And>p2. p \<le> p2 \<Longrightarrow> parsed b p Q (no p2)"
    "\<And>p3. p \<le> p3 \<Longrightarrow> room b p3 + 4 \<le> room b p \<Longrightarrow> parsed b p Q (yes p3)"
  shows "parsed b p Q (let (p2, t) = peek b p1 toks in if t then let (_, _, p3) = gettoken b p2 in yes p3 else no p2)"
proof -
  obtain p2 t where pk: "peek b p1 toks = (p2, t)"
    by fastforce
  obtain x y p3 where gt: "gettoken b p2 = (x, y, p3)"
    by (metis prod.collapse)
  have "p1 \<le> p2"
    using peek_le [of p1 b toks] pk by simp
  then show ?thesis
    using assms room_peek [of b p1 toks p2 x y p3] room_mono [OF assms(1), of b] pk gt by (cases t) simp_all
qed

lemma parseline_step:
  assumes "parsed b p (wf_cmd b) (parsepipe n b p)"
    "\<And>p'. p \<le> p' \<Longrightarrow> room b p' + 4 \<le> room b p \<Longrightarrow> parsed b p (wf_cmd b) (parseline n b p')"
  shows "parsed b p (wf_cmd b) (parseline (Suc n) b p)"
proof -
  have "parsed b p (wf_cmd b) (let (p2, t) = peek b p1 '';''
      in if t then let (_, _, p3) = gettoken b p2 in bindr (parseline n b p3) (\<lambda>(right, p). Ok (LIST c1 right, p)) else Ok (c1, p2))"
    if "p \<le> p1" "wf_cmd b c1" for p1 c1
    using that by (intro parsed_peek parsed_bindr [OF assms(2)]) simp_all
  note rest = this
  show ?thesis
    unfolding parseline.simps
    apply (rule parsed_bindr [OF assms(1)])
    subgoal for cmd p'
      using rest [of "snd (back_loop b cmd p')" "fst (back_loop b cmd p')"] back_loop_parsed [of b cmd p']
      by (simp add: split_beta Let_def cong: if_cong)
    done
qed

lemma parsepipe_step:
  assumes "parsed b p (wf_cmd b) (parseexec n b p)"
    "\<And>p'. p \<le> p' \<Longrightarrow> room b p' + 4 \<le> room b p \<Longrightarrow> parsed b p (wf_cmd b) (parsepipe n b p')"
  shows "parsed b p (wf_cmd b) (parsepipe (Suc n) b p)"
  unfolding parsepipe.simps
  by (rule parsed_bindr [OF assms(1)], unfold prod.case, rule parsed_peek)
    (auto intro!: parsed_bindr [OF assms(2)])

lemma wf_redirs: "wf_cmd b c \<Longrightarrow> p0 \<le> p \<Longrightarrow> parsed b p0 (wf_cmd b) (parseredirs b c p)"
  by (rule parsed_mono [OF parseredirs_parsed]) auto

lemma parseblock_step:
  assumes "\<And>p'. p \<le> p' \<Longrightarrow> room b p' + 4 \<le> room b p \<Longrightarrow> parsed b p (wf_cmd b) (parseline n b p')"
  shows "parsed b p (wf_cmd b) (parseblock (Suc n) b p)"
proof -
  have swap: "(if \<not> t then no else yes) = (if t then yes else no)" for t and no yes :: "'a res"
    by simp
  have close: "parsed b p (wf_cmd b) (let (p2, t) = peek b p1 '')''
      in if t then let (_, _, p3) = gettoken b p2 in parseredirs b c p3 else Panic m)" if "p \<le> p1" "wf_cmd b c" for p1 c m
    using that by (intro parsed_peek wf_redirs) simp_all
  show ?thesis
    unfolding parseblock.simps swap using close
    by (intro parsed_peek parsed_bindr [OF assms]) (simp_all add: Let_def split_beta cong: if_cong)
qed

lemma parseexec_step:
  assumes "\<And>p'. p \<le> p' \<Longrightarrow> parsed b p (wf_cmd b) (parseblock n b p')"
  shows "parsed b p (wf_cmd b) (parseexec (Suc n) b p)"
proof -
  let ?Q = "\<lambda>c. wf_cmd b c \<and> simple 0 c"
  have "parsed b p ?Q (parseredirs b (EXEC []) p')" if "p \<le> p'" for p'
    by (rule parsed_mono [OF parseredirs_parsed [where Q = ?Q] that]) (auto simp: MAXARGS_def)
  then have "parsed b p (wf_cmd b) (bindr (parseredirs b (EXEC []) p') (\<lambda>(ret, p). parseargs b 0 ret p))" if "p \<le> p'" for p'
    using that by (intro parsed_bindr [where Q = ?Q]) (auto intro!: parsed_mono [OF parseargs_parsed] simp: MAXARGS_def)
  then show ?thesis
    using assms peek_le [of p b "''(''"] by (auto simp: split_beta Let_def)
qed

lemma parse_parsed:
  "(room b p + 4 \<le> n \<longrightarrow> parsed b p (wf_cmd b) (parseline n b p))
   \<and> (room b p + 3 \<le> n \<longrightarrow> parsed b p (wf_cmd b) (parsepipe n b p))
   \<and> (room b p + 1 \<le> n \<longrightarrow> parsed b p (wf_cmd b) (parseblock n b p))
   \<and> (room b p + 2 \<le> n \<longrightarrow> parsed b p (wf_cmd b) (parseexec n b p))"
proof (induction n arbitrary: p)
  case (Suc n)
  have IH: "room b p' + 4 \<le> n \<Longrightarrow> p \<le> p' \<Longrightarrow> parsed b p (wf_cmd b) (parseline n b p')"
    "room b p' + 3 \<le> n \<Longrightarrow> p \<le> p' \<Longrightarrow> parsed b p (wf_cmd b) (parsepipe n b p')"
    "room b p' + 1 \<le> n \<Longrightarrow> p \<le> p' \<Longrightarrow> parsed b p (wf_cmd b) (parseblock n b p')"
    "room b p' + 2 \<le> n \<Longrightarrow> p \<le> p' \<Longrightarrow> parsed b p (wf_cmd b) (parseexec n b p')" for p'
    using Suc [of p'] by (auto intro: parsed_mono)
  have room: "room b p' + k \<le> n" if "p \<le> p'" "room b p + k \<le> n" for p' k
    using room_mono [OF that(1), of b] that(2) by simp
  show ?case
    by (intro conjI impI parseline_step parsepipe_step parseblock_step parseexec_step IH) (use room [of _ 1] in \<open>auto intro: room\<close>)
qed (simp add: room_def)

lemma parseline_ends:
  obtains cmd p where "parseline (4 * length s + 5) s 0 = Ok (cmd, p)" "wf_cmd s cmd"
  | m where "parseline (4 * length s + 5) s 0 = Panic m"
  using parse_parsed [of s 0 "4 * length s + 5"]
  by (cases "parseline (4 * length s + 5) s 0") (auto simp: parsed_def room_def)

section \<open>The words of a command\<close>

datatype tree = T_EXEC "string list" | T_REDIR tree string int int | T_PIPE tree tree | T_LIST tree tree | T_BACK tree

primrec tree_of :: "(span \<Rightarrow> string) \<Rightarrow> cmd \<Rightarrow> tree" where
  "tree_of w (EXEC argv) = T_EXEC (map w argv)"
| "tree_of w (REDIR c f mode fd) = T_REDIR (tree_of w c) (w f) mode fd"
| "tree_of w (PIPE l r) = T_PIPE (tree_of w l) (tree_of w r)"
| "tree_of w (LIST l r) = T_LIST (tree_of w l) (tree_of w r)"
| "tree_of w (BACK c) = T_BACK (tree_of w c)"

definition word_at :: "string \<Rightarrow> span \<Rightarrow> string" where
  "word_at b a = take (snd a - fst a) (drop (fst a) b)"

definition string_at :: "string \<Rightarrow> span \<Rightarrow> string" where
  "string_at buf a = cstr_at buf (fst a)"

primrec spans :: "cmd \<Rightarrow> span set" where
  "spans (EXEC argv) = set argv"
| "spans (REDIR c f mode fd) = insert f (spans c)"
| "spans (PIPE l r) = spans l \<union> spans r"
| "spans (LIST l r) = spans l \<union> spans r"
| "spans (BACK c) = spans c"

lemma tree_of_cong: "(\<And>a. a \<in> spans cmd \<Longrightarrow> w a = v a) \<Longrightarrow> tree_of w cmd = tree_of v cmd"
  by (induction cmd) auto

lemma wf_cmd_spans: "wf_cmd b cmd \<Longrightarrow> a \<in> spans cmd \<Longrightarrow> word_span b a"
  by (induction cmd) (auto simp: list_all_iff)

definition zeroed :: "span set \<Rightarrow> string \<Rightarrow> string \<Rightarrow> bool" where
  "zeroed A buf buf' \<longleftrightarrow> length buf' = length buf \<and> (\<forall>i < length buf. buf' ! i = (if i \<in> snd ` A then NUL else buf ! i))"

lemma zeroed_trans: "zeroed A x y \<Longrightarrow> zeroed B y z \<Longrightarrow> zeroed (A \<union> B) x z"
  by (auto simp: zeroed_def)

lemma zeroed_update: "zeroed {a} x (x[snd a := NUL])"
  by (auto simp: zeroed_def nth_list_update)

lemma zeroed_fold: "zeroed (set argv) x (fold (\<lambda>a buf. buf[snd a := NUL]) argv x)"
proof (induction argv arbitrary: x)
  case (Cons a argv)
  then show ?case
    using zeroed_trans [OF zeroed_update [of a x] Cons] by simp
qed (simp add: zeroed_def)

lemma nulterminate_zeroed: "zeroed (spans cmd) buf (nulterminate cmd buf)"
proof (induction cmd arbitrary: buf)
  case (REDIR c f mode fd)
  then show ?case
    using zeroed_trans [OF REDIR zeroed_update [of f]] by (simp add: Un_commute)
qed (auto intro: zeroed_fold zeroed_trans)

lemma string_at_word:
  assumes "wf_cmd s cmd" "a \<in> spans cmd" "NUL \<notin> set s"
  shows "string_at (nulterminate cmd (s @ [NUL])) a = word_at s a"
proof -
  let ?buf = "nulterminate cmd (s @ [NUL])"
  have z: "length ?buf = length s + 1" "\<And>i. i < length s + 1 \<Longrightarrow> ?buf ! i = (if i \<in> snd ` spans cmd then NUL else (s @ [NUL]) ! i)"
    using nulterminate_zeroed [of cmd "s @ [NUL]"] by (auto simp: zeroed_def)
  have w: "fst a < snd a" "snd a \<le> length s" "\<And>i. fst a \<le> i \<Longrightarrow> i < snd a \<Longrightarrow> wordc (s ! i)"
    using wf_cmd_spans [OF assms(1,2)] by (auto simp: word_span_def)
  have in_word: "?buf ! i = s ! i \<and> s ! i \<noteq> NUL" if "fst a \<le> i" "i < snd a" for i
  proof -
    have "i \<notin> snd ` spans cmd"
      using wf_cmd_spans [OF assms(1)] w(2) w(3) [OF that] that by (fastforce simp: word_span_def)
    moreover have "s ! i \<noteq> NUL"
      using assms(3) nth_mem [of i s] w(2) that by (metis order_less_le_trans)
    ultimately show ?thesis
      using z(2) [of i] w(2) that by (simp add: nth_append)
  qed
  have "takeWhile (\<lambda>c. c \<noteq> NUL) (drop (fst a) ?buf) = take (snd a - fst a) (drop (fst a) ?buf)"
    using in_word z w(1,2) assms(2) by (intro takeWhile_eq_take_P_nth) auto
  also have "\<dots> = word_at s a"
    using in_word w(2) z(1) by (auto simp: word_at_def intro!: nth_equalityI)
  finally show ?thesis
    by (simp add: string_at_def cstr_at_def)
qed

end
