(* ===== verification/ShellParse.thy ===== *)
theory ShellParse
  imports Shell
begin

text \<open>
  The parser of the shell reads a printed command back: a tree of commands, written with every part in
  parentheses, is parsed to the same tree.
\<close>

section \<open>Printed commands\<close>

primrec join :: "string list \<Rightarrow> string" where
  "join [] = []"
| "join (w # ws) = w @ (if ws = [] then [] else CHR '' '' # join ws)"

text \<open>A tree as text, with every part in parentheses.\<close>

primrec shown :: "tree \<Rightarrow> string" where
  "shown (T_EXEC ws) = join ws"
| "shown (T_REDIR t f mode fd) = CHR ''('' # shown t @ CHR '')'' # (if fd = 0 then CHR ''<'' else CHR ''>'') # f"
| "shown (T_PIPE l r) = CHR ''('' # shown l @ CHR '')'' # CHR ''|'' # CHR ''('' # shown r @ '')''"
| "shown (T_LIST l r) = CHR ''('' # shown l @ CHR '')'' # CHR '';'' # CHR ''('' # shown r @ '')''"
| "shown (T_BACK t) = CHR ''('' # shown t @ '')&''"

definition is_word :: "string \<Rightarrow> bool" where
  "is_word w \<longleftrightarrow> w \<noteq> [] \<and> (\<forall>c \<in> set w. wordc c \<and> c \<noteq> NUL)"

primrec wf_tree :: "tree \<Rightarrow> bool" where
  "wf_tree (T_EXEC ws) \<longleftrightarrow> length ws < MAXARGS \<and> list_all is_word ws"
| "wf_tree (T_REDIR t f mode fd) \<longleftrightarrow> wf_tree t \<and> is_word f \<and> (mode, fd) \<in> {(0x000, 0), (0x201, 1)}"
| "wf_tree (T_PIPE l r) \<longleftrightarrow> wf_tree l \<and> wf_tree r"
| "wf_tree (T_LIST l r) \<longleftrightarrow> wf_tree l \<and> wf_tree r"
| "wf_tree (T_BACK t) \<longleftrightarrow> wf_tree t"

text \<open>What follows: nothing or a character of the given ones.\<close>

definition follows :: "string \<Rightarrow> string \<Rightarrow> bool" where
  "follows cs r \<longleftrightarrow> (case r of [] \<Rightarrow> True | x # _ \<Rightarrow> x \<in> set cs)"

definition solid :: "string \<Rightarrow> bool" where
  "solid r \<longleftrightarrow> (case r of [] \<Rightarrow> True | x # _ \<Rightarrow> \<not> space x)"

lemma skip_ws_solid: "solid (drop p b) \<Longrightarrow> skip_ws b p = p"
  by (auto simp: skip_ws_eq solid_def split: list.splits)

lemma at_drop: "at b p = (case drop p b of [] \<Rightarrow> NUL | x # _ \<Rightarrow> x)"
  by (auto simp: at_def Cons_nth_drop_Suc [symmetric])

lemma drop_Suc_Cons: "drop p b = x # r \<Longrightarrow> drop (Suc p) b = r"
  by (metis drop_Suc list.sel(3) tl_drop)

lemma drop_add_append: "drop p b = w @ r \<Longrightarrow> drop (p + length w) b = r"
  by (metis add.commute append_eq_conv_conj drop_drop)

lemma peek_solid:
  "solid (drop p b) \<Longrightarrow> peek b p toks = (p, case drop p b of [] \<Rightarrow> False | x # _ \<Rightarrow> x \<noteq> NUL \<and> x \<in> set toks)"
  by (auto simp: peek_def Let_def skip_ws_solid at_drop strchr_iff split: list.splits)

lemma gettoken_symbol:
  assumes "drop p b = x # r" "x \<in> set ''|();&<''" "solid r"
  shows "gettoken b p = (x, (p, Suc p), Suc p)"
proof -
  have "\<not> space x" "x \<noteq> NUL"
    using assms(2) by (auto simp: whitespace_def)
  then have "skip_ws b p = p" "at b p = x" "skip_ws b (Suc p) = Suc p"
    using assms drop_Suc_Cons [OF assms(1)] by (simp_all add: skip_ws_solid solid_def at_drop)
  moreover have "strchr ''|();&<'' x \<noteq> None"
    using assms(2) unfolding strchr_iff by simp
  ultimately show ?thesis
    using \<open>x \<noteq> NUL\<close> unfolding gettoken_def by (simp add: Let_def del: strchr.simps)
qed

lemma gettoken_greater:
  assumes "drop p b = CHR ''>'' # x # r" "x \<noteq> CHR ''>''" "\<not> space x"
  shows "gettoken b p = (CHR ''>'', (p, Suc p), Suc p)"
proof -
  have "drop (Suc p) b = x # r"
    using drop_Suc_Cons [OF assms(1)] .
  then have "skip_ws b p = p" "at b p = CHR ''>''" "at b (Suc p) = x" "skip_ws b (Suc p) = Suc p"
    using assms by (simp_all add: skip_ws_solid solid_def at_drop whitespace_def)
  then show ?thesis
    using assms(2) unfolding gettoken_def by (simp add: Let_def strchr_iff)
qed

lemma wordc_cases: "wordc x \<Longrightarrow> \<not> space x \<and> x \<notin> set ''|();&<>''"
  by (auto simp: wordc_def symbols_def)

lemma gettoken_is_word:
  assumes "drop p b = w @ r" "is_word w" "follows (CHR '' '' # symbols) r"
  shows "gettoken b p = (CHR ''a'', (p, p + length w), skip_ws b (p + length w))" "word_at b (p, p + length w) = w"
proof -
  obtain x w' where w: "w = x # w'"
    using assms(2) by (cases w) (auto simp: is_word_def)
  have x: "wordc x" "x \<noteq> NUL"
    using assms(2) w by (auto simp: is_word_def)
  have "skip_ws b p = p" "at b p = x"
    using assms(1) w wordc_cases [OF x(1)] by (simp_all add: skip_ws_solid solid_def at_drop)
  moreover have "takeWhile wordc (w @ r) = w"
    using assms(2,3) by (auto simp: is_word_def follows_def wordc_def whitespace_def split: list.splits)
  then have "skip_word b p = p + length w"
    by (simp add: skip_word_eq assms(1))
  moreover have "strchr ''|();&<'' x = None" "x \<noteq> CHR ''>''"
    using wordc_cases [OF x(1)] by (simp_all only: strchr_iff) auto
  ultimately show "gettoken b p = (CHR ''a'', (p, p + length w), skip_ws b (p + length w))"
    using x unfolding gettoken_def by (simp add: Let_def del: strchr.simps)
  show "word_at b (p, p + length w) = w"
    by (simp add: word_at_def assms(1))
qed

lemma follows_solid: "follows '')|&;'' r \<Longrightarrow> solid r"
  by (auto simp: follows_def solid_def whitespace_def split: list.splits)

lemma parseredirs_none:
  assumes "solid (drop p b)" "\<And>x r. drop p b = x # r \<Longrightarrow> x \<notin> set ''<>''"
  shows "parseredirs b cmd p = Ok (cmd, p)"
  using peek_solid [OF assms(1), of "''<>''"] assms(2) by (auto simp: parseredirs.simps [of b cmd p] split: list.splits)

lemma back_loop_none:
  assumes "solid (drop p b)" "\<And>x r. drop p b = x # r \<Longrightarrow> x \<noteq> CHR ''&''"
  shows "back_loop b cmd p = (cmd, p)"
  using peek_solid [OF assms(1), of "''&''"] assms(2) by (auto simp: back_loop.simps [of b cmd p] split: list.splits)

lemma is_word_Cons:
  assumes "is_word w"
  obtains x w' where "w = x # w'" "wordc x" "x \<noteq> NUL" "\<not> space x" "x \<notin> set ''|();&<>''"
  using assms wordc_cases by (cases w) (auto simp: is_word_def)

lemma parseargs_stop:
  assumes "drop p b = r" "follows '')|&;'' r"
  shows "parseargs b argc ret p = Ok (ret, p)"
proof -
  have s: "solid (drop p b)"
    using assms follows_solid by simp
  have "r = [] \<Longrightarrow> gettoken b p = (NUL, (p, p), p)"
    using assms(1) s by (simp add: gettoken_def skip_ws_solid at_drop Let_def)
  then show ?thesis
    using peek_solid [OF s, of "''|)&;''"] assms
    by (cases r) (auto simp: parseargs.simps [of b argc] follows_def)
qed

lemma parseargs_word:
  assumes "is_word w" "drop p b = w @ r" "follows (CHR '' '' # symbols) r" "argc + 1 < MAXARGS"
  shows "parseargs b argc ret p =
    bindr (parseredirs b (add_arg ret (p, p + length w)) (skip_ws b (p + length w))) (\<lambda>(ret, p). parseargs b (argc + 1) ret p)"
proof -
  obtain x w' where x: "w = x # w'" "\<not> space x" "x \<notin> set ''|();&<>''"
    using is_word_Cons [OF assms(1)] by metis
  then have "peek b p ''|)&;'' = (p, False)"
    using peek_solid [of p b "''|)&;''"] assms(2) by (simp add: solid_def)
  then show ?thesis
    using gettoken_is_word [OF assms(2,1,3)] assms(4) by (simp add: parseargs.simps [of b argc])
qed

lemma join_head: "ws \<noteq> [] \<Longrightarrow> list_all is_word ws \<Longrightarrow> \<exists>w r'. is_word w \<and> join ws @ r = w @ r'"
  by (cases ws) auto

lemma parseargs_join:
  assumes "list_all is_word ws" "argc + length ws < MAXARGS" "drop p b = join ws @ r" "follows '')|&;'' r"
  shows "\<exists>as. parseargs b argc (EXEC argv) p = Ok (EXEC (argv @ as), p + length (join ws)) \<and> map (word_at b) as = ws"
  using assms(1-3)
proof (induction ws arbitrary: argc argv p)
  case Nil
  then show ?case
    using parseargs_stop [of p b r] assms(4) by simp
next
  case (Cons w ws)
  let ?r = "if ws = [] then r else CHR '' '' # join ws @ r" and ?e = "p + length w"
  let ?p = "?e + (if ws = [] then 0 else 1)"
  have w: "is_word w" "drop p b = w @ ?r" "follows (CHR '' '' # symbols) ?r"
    using Cons.prems assms(4) by (auto simp: follows_def symbols_def split: list.splits)
  have e: "drop ?p b = join ws @ r"
    using drop_add_append [OF w(2)] by (cases "ws = []") (auto dest: drop_Suc_Cons)
  have s: "solid (join ws @ r)" "\<And>x r'. join ws @ r = x # r' \<Longrightarrow> x \<notin> set ''<>''"
    using join_head [of ws r] Cons.prems(1) assms(4) follows_solid [of r]
    by (cases "ws = []", auto simp: follows_def solid_def elim!: is_word_Cons split: list.splits)+
  have "skip_ws b ?e = ?p"
  proof (cases "ws = []")
    case True
    then show ?thesis
      using skip_ws_solid [of ?p b] s(1) e by simp
  next
    case False
    then have "drop ?e b = CHR '' '' # join ws @ r"
      using drop_add_append [OF w(2)] by simp
    then show ?thesis
      using s(1) False by (auto simp: skip_ws_eq whitespace_def solid_def split: list.splits)
  qed
  then have "parseredirs b c (skip_ws b ?e) = Ok (c, ?p)" for c
    using parseredirs_none [of ?p b c] s e by simp
  moreover obtain as where "parseargs b (argc + 1) (EXEC (argv @ [(p, ?e)])) ?p =
      Ok (EXEC ((argv @ [(p, ?e)]) @ as), ?p + length (join ws))" "map (word_at b) as = ws"
    using Cons.IH [of "argc + 1" ?p "argv @ [(p, ?e)]"] Cons.prems e by auto
  ultimately show ?case
    using parseargs_word [OF w, of argc "EXEC argv"] gettoken_is_word(2) [OF w(2,1,3)] Cons.prems(2)
    by (intro exI [where x = "(p, ?e) # as"]) auto
qed

text \<open>A command in parentheses, and one that is not followed by an operator.\<close>

lemma peek_is: "drop p b = x # r \<Longrightarrow> \<not> space x \<Longrightarrow> x \<noteq> NUL \<Longrightarrow> peek b p toks = (p, x \<in> set toks)"
  using peek_solid [of p b toks] by (simp add: solid_def)

lemma solid_start: "solid (shown t @ r)" if "wf_tree t" "solid r"
proof (cases t)
  case (T_EXEC ws)
  then show ?thesis
    using that join_head [of ws r] by (cases "ws = []") (auto simp: solid_def elim!: is_word_Cons)
qed (auto simp: solid_def whitespace_def)

lemma parse_block:
  assumes "drop p b = CHR ''('' # x @ CHR '')'' # r" "solid (x @ CHR '')'' # r)" "solid r"
    "parseline n b (Suc p) = Ok (cmd, Suc p + length x)"
  shows "parseexec (Suc (Suc n)) b p = parseredirs b cmd (Suc (Suc (p + length x)))"
proof -
  have d: "drop (Suc p) b = x @ CHR '')'' # r"
    using drop_Suc_Cons [OF assms(1)] .
  then have d': "drop (Suc p + length x) b = CHR '')'' # r"
    using drop_add_append by blast
  have "peek b p ''('' = (p, True)" "peek b (Suc p + length x) '')'' = (Suc p + length x, True)"
    using peek_is [OF assms(1), of "''(''"] peek_is [OF d', of "'')''"] by (simp_all add: whitespace_def)
  moreover have "gettoken b p = (CHR ''('', (p, Suc p), Suc p)"
    "gettoken b (Suc p + length x) = (CHR '')'', (Suc p + length x, Suc (Suc p + length x)), Suc (Suc p + length x))"
    using gettoken_symbol [OF assms(1) _ assms(2)] gettoken_symbol [OF d' _ assms(3)] by simp_all
  ultimately show ?thesis
    using assms(4) by simp
qed

lemma parsepipe_stop:
  assumes "parseexec n b p = Ok (cmd, p')" "drop p' b = r" "follows '')&;'' r"
  shows "parsepipe (Suc n) b p = Ok (cmd, p')"
  using assms peek_solid [of p' b "''|''"] by (auto simp: follows_def solid_def whitespace_def split: list.splits)

lemma parseline_stop:
  assumes "parsepipe n b p = Ok (cmd, p')" "drop p' b = r" "follows '')'' r"
  shows "parseline (Suc n) b p = Ok (cmd, p')"
proof -
  have s: "solid (drop p' b)"
    using assms by (auto simp: follows_def solid_def whitespace_def split: list.splits)
  then show ?thesis
    using assms back_loop_none [OF s] peek_solid [OF s, of "'';''"] by (auto simp: follows_def split: list.splits)
qed

text \<open>The induction hypothesis of the round trip: the text of \<open>t\<close> is read as \<open>t\<close> wherever it stands.\<close>

definition reads_back :: "tree \<Rightarrow> bool" where
  "reads_back t \<longleftrightarrow> (\<forall>n b p r. 4 * length (shown t) + 4 \<le> n \<longrightarrow> drop p b = shown t @ r \<longrightarrow> follows '')'' r \<longrightarrow>
     (\<exists>cmd. parseline n b p = Ok (cmd, p + length (shown t)) \<and> tree_of (word_at b) cmd = t))"

lemma block_reads_back:
  assumes "reads_back t" "wf_tree t" "4 * length (shown t) + 6 \<le> n" "drop p b = CHR ''('' # shown t @ CHR '')'' # r" "solid r"
  obtains cmd where "parseexec n b p = parseredirs b cmd (p + length (shown t) + 2)" "tree_of (word_at b) cmd = t"
    "drop (p + length (shown t) + 2) b = r"
proof -
  define k where "k = n - 2"
  then have k: "n = Suc (Suc k)" "4 * length (shown t) + 4 \<le> k"
    using assms(3) by simp_all
  have "drop (Suc p) b = shown t @ CHR '')'' # r"
    using drop_Suc_Cons [OF assms(4)] .
  then obtain cmd where cmd: "parseline k b (Suc p) = Ok (cmd, Suc p + length (shown t))" "tree_of (word_at b) cmd = t"
    using assms(1) [unfolded reads_back_def, rule_format, OF k(2), of "Suc p" b "CHR '')'' # r"] by (auto simp: follows_def)
  have s: "solid (shown t @ CHR '')'' # r)"
    by (rule solid_start [OF assms(2)]) (simp add: solid_def whitespace_def)
  show ?thesis
    using that parse_block [OF assms(4) s assms(5) cmd(1)] cmd(2) k drop_add_append [of p b "CHR ''('' # shown t @ '')''" r] assms(4)
    by simp
qed

lemma block_ok:
  assumes "reads_back t" "wf_tree t" "4 * length (shown t) + 6 \<le> n" "drop p b = CHR ''('' # shown t @ CHR '')'' # r"
    "follows '')|&;'' r"
  obtains cmd where "parseexec n b p = Ok (cmd, p + length (shown t) + 2)" "tree_of (word_at b) cmd = t"
    "drop (p + length (shown t) + 2) b = r"
proof -
  have s: "solid r"
    using assms(5) by (rule follows_solid)
  obtain cmd where cmd: "parseexec n b p = parseredirs b cmd (p + length (shown t) + 2)" "tree_of (word_at b) cmd = t"
    "drop (p + length (shown t) + 2) b = r"
    using block_reads_back [OF assms(1-4) s] .
  moreover have "parseredirs b cmd (p + length (shown t) + 2) = Ok (cmd, p + length (shown t) + 2)"
    using s assms(5) cmd(3) by (intro parseredirs_none) (auto simp: follows_def)
  ultimately show ?thesis
    using that by simp
qed

lemma follows_weaken: "follows cs r \<Longrightarrow> set cs \<subseteq> set ds \<Longrightarrow> follows ds r"
  by (auto simp: follows_def split: list.splits)

lemma join_start:
  assumes "list_all is_word ws" "follows '')'' r" "join ws @ r = x # r'"
  shows "x \<notin> set ''(<>''"
proof (cases "ws = []")
  case True
  then show ?thesis
    using assms(2,3) by (simp add: follows_def)
next
  case False
  then obtain w r'' where "is_word w" "join ws @ r = w @ r''"
    using join_head assms(1) by blast
  then show ?thesis
    using assms(3) by (auto elim!: is_word_Cons)
qed

lemma reads_back_exec:
  assumes "wf_tree (T_EXEC ws)"
  shows "reads_back (T_EXEC ws)"
  unfolding reads_back_def
proof (intro allI impI)
  fix n b p r
  assume *: "4 * length (shown (T_EXEC ws)) + 4 \<le> n" "drop p b = shown (T_EXEC ws) @ r" "follows '')'' r"
  define k where "k = n - 3"
  then have n: "n = Suc (Suc (Suc k))"
    using *(1) by simp
  have s: "solid (drop p b)"
    unfolding *(2) by (rule solid_start [OF assms follows_solid [OF follows_weaken [OF *(3)]]]) simp
  have x: "x \<notin> set ''(<>''" if "drop p b = x # r'" for x r'
    using join_start [of ws r x r'] *(2,3) that assms by simp
  have "peek b p ''('' = (p, False)"
    using peek_solid [OF s, of "''(''"] x by (auto split: list.splits)
  moreover have "parseredirs b (EXEC []) p = Ok (EXEC [], p)"
    using parseredirs_none [OF s] x by fastforce
  moreover obtain as where as: "parseargs b 0 (EXEC []) p = Ok (EXEC as, p + length (join ws))" "map (word_at b) as = ws"
    using parseargs_join [of ws 0 p b r "[]"] assms *(2) follows_weaken [OF *(3), of "'')|&;''"] by auto
  ultimately have "parseexec (Suc k) b p = Ok (EXEC as, p + length (join ws))"
    by simp
  moreover have r: "drop (p + length (join ws)) b = r"
    using drop_add_append *(2) by simp
  ultimately have "parseline n b p = Ok (EXEC as, p + length (join ws))"
    unfolding n using follows_weaken [OF *(3), of "'')&;''"] *(3) by (intro parseline_stop parsepipe_stop) simp_all
  then show "\<exists>cmd. parseline n b p = Ok (cmd, p + length (shown (T_EXEC ws))) \<and> tree_of (word_at b) cmd = T_EXEC ws"
    using as(2) by simp
qed

lemma reads_back_back:
  assumes "reads_back t" "wf_tree t"
  shows "reads_back (T_BACK t)"
  unfolding reads_back_def
proof (intro allI impI)
  fix n b p r
  assume *: "4 * length (shown (T_BACK t)) + 4 \<le> n" "drop p b = shown (T_BACK t) @ r" "follows '')'' r"
  define k where "k = n - 2"
  then have n: "n = Suc (Suc k)" "4 * length (shown t) + 6 \<le> k"
    using *(1) by simp_all
  let ?q = "p + length (shown t) + 2"
  have "drop p b = CHR ''('' # shown t @ CHR '')'' # CHR ''&'' # r"
    using *(2) by simp
  then obtain cmd where cmd: "parseexec k b p = Ok (cmd, ?q)" "tree_of (word_at b) cmd = t" "drop ?q b = CHR ''&'' # r"
    by (rule block_ok [OF assms n(2)]) (auto simp: follows_def)
  have pipe: "parsepipe (Suc k) b p = Ok (cmd, ?q)"
    using cmd by (intro parsepipe_stop) (auto simp: follows_def)
  have s: "solid r"
    by (rule follows_solid [OF follows_weaken [OF *(3)]]) simp
  have r: "drop (Suc ?q) b = r"
    using drop_Suc_Cons [OF cmd(3)] .
  have "back_loop b (BACK cmd) (Suc ?q) = (BACK cmd, Suc ?q)"
    using *(3) r s by (intro back_loop_none) (auto simp: follows_def)
  then have "back_loop b cmd ?q = (BACK cmd, Suc ?q)"
    using peek_is [OF cmd(3), of "''&''"] gettoken_symbol [OF cmd(3) _ s]
    by (simp add: back_loop.simps [of b cmd] whitespace_def)
  moreover have "peek b (Suc ?q) '';'' = (Suc ?q, False)"
    using peek_solid [of "Suc ?q" b "'';''"] s r *(3) by (auto simp: follows_def split: list.splits)
  ultimately have "parseline n b p = Ok (BACK cmd, Suc ?q)"
    using pipe n(1) by simp
  then show "\<exists>cmd. parseline n b p = Ok (cmd, p + length (shown (T_BACK t))) \<and> tree_of (word_at b) cmd = T_BACK t"
    using cmd(2) by simp
qed

lemma reads_back_redir:
  assumes "reads_back t" "wf_tree (T_REDIR t f mode fd)"
  shows "reads_back (T_REDIR t f mode fd)"
  unfolding reads_back_def
proof (intro allI impI)
  fix n b p r
  let ?T = "T_REDIR t f mode fd" and ?op = "if fd = 0 then CHR ''<'' else CHR ''>''"
  assume *: "4 * length (shown ?T) + 4 \<le> n" "drop p b = shown ?T @ r" "follows '')'' r"
  have wf: "wf_tree t" "is_word f" "(mode, fd) \<in> {(0, 0), (513, 1)}"
    using assms(2) by simp_all
  define k where "k = n - 2"
  then have n: "n = Suc (Suc k)" "4 * length (shown t) + 6 \<le> k"
    using *(1) by simp_all
  let ?q = "p + length (shown t) + 2" and ?e = "p + length (shown t) + 3 + length f"
  obtain x f' where f: "f = x # f'" "\<not> space x" "x \<notin> set ''|();&<>''"
    using is_word_Cons [OF wf(2)] by metis
  have "drop p b = CHR ''('' # shown t @ CHR '')'' # ?op # f @ r"
    using *(2) by simp
  then obtain cmd where cmd: "parseexec k b p = parseredirs b cmd ?q" "tree_of (word_at b) cmd = t" "drop ?q b = ?op # f @ r"
    by (rule block_reads_back [OF assms(1) wf(1) n(2)]) (auto simp: solid_def whitespace_def)
  have d: "drop (Suc ?q) b = f @ r" "drop ?e b = r"
    using drop_Suc_Cons [OF cmd(3)] drop_add_append [of "Suc ?q" b f r] by (simp_all add: eval_nat_numeral)
  have s: "solid r"
    by (rule follows_solid [OF follows_weaken [OF *(3)]]) simp
  have "peek b ?q ''<>'' = (?q, True)"
    using peek_is [OF cmd(3), of "''<>''"] by (simp add: whitespace_def)
  moreover have "gettoken b ?q = (?op, (?q, Suc ?q), Suc ?q)"
    using gettoken_symbol [of ?q b "?op" "f @ r"] gettoken_greater [of ?q b x "f' @ r"] cmd(3) f
    by (cases "fd = 0") (simp_all add: solid_def)
  moreover have "gettoken b (Suc ?q) = (CHR ''a'', (Suc ?q, ?e), ?e)" "word_at b (Suc ?q, ?e) = f"
    using gettoken_is_word [OF d(1) wf(2) follows_weaken [OF *(3)]] skip_ws_solid [of ?e b] d(2) s
    by (simp_all add: symbols_def eval_nat_numeral)
  moreover have "parseredirs b c ?e = Ok (c, ?e)" for c
    using s *(3) d(2) by (intro parseredirs_none) (auto simp: follows_def)
  ultimately have "parseexec k b p = Ok (REDIR cmd (Suc ?q, ?e) mode fd, ?e)"
    using cmd(1) wf(3) by (auto simp: parseredirs.simps [of b cmd])
  then have "parseline n b p = Ok (REDIR cmd (Suc ?q, ?e) mode fd, ?e)"
    unfolding n using d(2) follows_weaken [OF *(3), of "'')&;''"] *(3) by (intro parseline_stop parsepipe_stop) simp_all
  then show "\<exists>cmd. parseline n b p = Ok (cmd, p + length (shown ?T)) \<and> tree_of (word_at b) cmd = ?T"
    using cmd(2) \<open>word_at b (Suc ?q, ?e) = f\<close> by (intro exI [where x = "REDIR cmd (Suc ?q, ?e) mode fd"]) simp
qed

text \<open>Two parts with an operator between them.\<close>

lemma reads_back_pipe:
  assumes "reads_back l" "wf_tree l" "reads_back r" "wf_tree r"
  shows "reads_back (T_PIPE l r)"
  unfolding reads_back_def
proof (intro allI impI)
  fix n b p rest
  let ?T = "T_PIPE l r"
  assume *: "4 * length (shown ?T) + 4 \<le> n" "drop p b = shown ?T @ rest" "follows '')'' rest"
  define k where "k = n - 3"
  then have n: "n = Suc (Suc (Suc k))" "4 * length (shown l) + 6 \<le> Suc k" "4 * length (shown r) + 6 \<le> k"
    using *(1) by simp_all
  let ?q = "p + length (shown l) + 2" and ?e = "p + length (shown ?T)"
  have "drop p b = CHR ''('' # shown l @ CHR '')'' # CHR ''|'' # CHR ''('' # shown r @ CHR '')'' # rest"
    using *(2) by simp
  then obtain c where c: "parseexec (Suc k) b p = Ok (c, ?q)" "tree_of (word_at b) c = l"
    "drop ?q b = CHR ''|'' # CHR ''('' # shown r @ CHR '')'' # rest"
    by (rule block_ok [OF assms(1,2) n(2)]) (auto simp: follows_def)
  have "drop (Suc ?q) b = CHR ''('' # shown r @ CHR '')'' # rest"
    using drop_Suc_Cons [OF c(3)] .
  moreover have e: "Suc ?q + length (shown r) + 2 = ?e"
    by simp
  ultimately obtain d where d: "parseexec k b (Suc ?q) = Ok (d, ?e)" "tree_of (word_at b) d = r" "drop ?e b = rest"
    using block_ok [OF assms(3,4) n(3) _ follows_weaken [OF *(3), of "'')|&;''"], of "Suc ?q" b] unfolding e by auto
  have "parsepipe (Suc k) b (Suc ?q) = Ok (d, ?e)"
    using d follows_weaken [OF *(3), of "'')&;''"] by (intro parsepipe_stop) simp_all
  moreover have "peek b ?q ''|'' = (?q, True)" "gettoken b ?q = (CHR ''|'', (?q, Suc ?q), Suc ?q)"
    using peek_is [OF c(3), of "''|''"] gettoken_symbol [OF c(3)] by (simp_all add: whitespace_def solid_def)
  ultimately have "parsepipe (Suc (Suc k)) b p = Ok (PIPE c d, ?e)"
    using c(1) by simp
  then have "parseline n b p = Ok (PIPE c d, ?e)"
    unfolding n(1) using d(3) *(3) by (intro parseline_stop) simp_all
  then show "\<exists>cmd. parseline n b p = Ok (cmd, ?e) \<and> tree_of (word_at b) cmd = ?T"
    using c(2) d(2) by (intro exI [where x = "PIPE c d"]) simp
qed

lemma reads_back_list:
  assumes "reads_back l" "wf_tree l" "reads_back r" "wf_tree r"
  shows "reads_back (T_LIST l r)"
  unfolding reads_back_def
proof (intro allI impI)
  fix n b p rest
  let ?T = "T_LIST l r"
  assume *: "4 * length (shown ?T) + 4 \<le> n" "drop p b = shown ?T @ rest" "follows '')'' rest"
  define k where "k = n - 3"
  then have n: "n = Suc (Suc (Suc k))" "4 * length (shown l) + 6 \<le> Suc k" "4 * length (shown r) + 6 \<le> k"
    using *(1) by simp_all
  let ?q = "p + length (shown l) + 2" and ?e = "p + length (shown ?T)"
  have "drop p b = CHR ''('' # shown l @ CHR '')'' # CHR '';'' # CHR ''('' # shown r @ CHR '')'' # rest"
    using *(2) by simp
  then obtain c where c: "parseexec (Suc k) b p = Ok (c, ?q)" "tree_of (word_at b) c = l"
    "drop ?q b = CHR '';'' # CHR ''('' # shown r @ CHR '')'' # rest"
    by (rule block_ok [OF assms(1,2) n(2)]) (auto simp: follows_def)
  have "drop (Suc ?q) b = CHR ''('' # shown r @ CHR '')'' # rest"
    using drop_Suc_Cons [OF c(3)] .
  moreover have e: "Suc ?q + length (shown r) + 2 = ?e"
    by simp
  ultimately obtain d where d: "parseexec k b (Suc ?q) = Ok (d, ?e)" "tree_of (word_at b) d = r" "drop ?e b = rest"
    using block_ok [OF assms(3,4) n(3) _ follows_weaken [OF *(3), of "'')|&;''"], of "Suc ?q" b] unfolding e by auto
  have "parseline (Suc (Suc k)) b (Suc ?q) = Ok (d, ?e)"
    using d follows_weaken [OF *(3), of "'')&;''"] *(3)
    by (intro parseline_stop parsepipe_stop) simp_all
  moreover have "peek b ?q '';'' = (?q, True)" "gettoken b ?q = (CHR '';'', (?q, Suc ?q), Suc ?q)"
    using peek_is [OF c(3), of "'';''"] gettoken_symbol [OF c(3)] by (simp_all add: whitespace_def solid_def)
  moreover have "parsepipe (Suc (Suc k)) b p = Ok (c, ?q)"
    by (rule parsepipe_stop [OF c(1,3)]) (simp add: follows_def)
  moreover have "back_loop b c ?q = (c, ?q)"
    using c(3) by (intro back_loop_none) (auto simp: solid_def whitespace_def)
  ultimately have "parseline n b p = Ok (LIST c d, ?e)"
    unfolding n(1) by simp
  then show "\<exists>cmd. parseline n b p = Ok (cmd, ?e) \<and> tree_of (word_at b) cmd = ?T"
    using c(2) d(2) by (intro exI [where x = "LIST c d"]) simp
qed

lemma wf_reads_back: "wf_tree t \<Longrightarrow> reads_back t"
  by (induction t) (auto intro!: reads_back_exec reads_back_redir reads_back_pipe reads_back_list reads_back_back)

section \<open>The parser\<close>

text \<open>C34: The parser ends on every line: with the fuel that \<open>parsecmd\<close> gives it, four calls for each character
  and five more, the recursive descent either returns a command or reports a syntax error.\<close>

theorem parser_ends:
  "(\<exists>cmd p. parseline (4 * length s + 5) s 0 = Ok (cmd, p)) \<or> (\<exists>m. parseline (4 * length s + 5) s 0 = Panic m)"
  by (rule parseline_ends [of s]) auto

lemma bindu_not_Ret: "(\<And>x. f x \<noteq> Ret y) \<Longrightarrow> bindu m f \<noteq> Ret y"
  by (cases m) auto

lemma sh_panic_not_Ret: "sh_panic m \<noteq> Ret y"
  unfolding sh_panic_def by (rule bindu_not_Ret) simp

lemma parsecmd_Ret:
  assumes "parsecmd s = Ret (cmd, buf)"
  shows "wf_cmd s cmd" "buf = nulterminate cmd (s @ [NUL])"
proof -
  have no: "thenu m (sh_panic x) \<noteq> Ret (cmd, buf)" for m :: "unit uprog" and x
    by (rule bindu_not_Ret [OF sh_panic_not_Ret])
  have "wf_cmd s cmd \<and> buf = nulterminate cmd (s @ [NUL])"
  proof (rule parseline_ends [of s])
    fix c p
    assume "parseline (4 * length s + 5) s 0 = Ok (c, p)" "wf_cmd s c"
    then show ?thesis
      using assms by (auto simp: parsecmd_def Let_def split_beta no split: if_splits)
  next
    fix m
    assume "parseline (4 * length s + 5) s 0 = Panic m"
    then show ?thesis
      using assms by (simp add: parsecmd_def sh_panic_not_Ret)
  qed
  then show "wf_cmd s cmd" "buf = nulterminate cmd (s @ [NUL])"
    by auto
qed

lemma is_word_no_NUL: "is_word w \<Longrightarrow> NUL \<notin> set w"
  by (auto simp: is_word_def)

lemma join_no_NUL: "list_all is_word ws \<Longrightarrow> NUL \<notin> set (join ws)"
  by (induction ws) (auto simp: is_word_def)

lemma shown_no_NUL: "wf_tree t \<Longrightarrow> NUL \<notin> set (shown t)"
  by (induction t) (simp_all add: join_no_NUL is_word_no_NUL)

text \<open>C35: Every command that the parser returns is well typed: the words and file names are the longest runs of
  word characters at their place in the line, there are fewer than \<^verbatim>\<open>MAXARGS\<close> of them, and a redirection is one
  of descriptor 0 for reading or descriptor 1 for writing; and in the buffer, after the zeros have been
  written, the string at each position is the word that was read there.\<close>

theorem parsed_cmd_well_typed:
  assumes "parsecmd s = Ret (cmd, buf)" "NUL \<notin> set s"
  shows "wf_cmd s cmd \<and> tree_of (string_at buf) cmd = tree_of (word_at s) cmd"
proof -
  have "tree_of (string_at (nulterminate cmd (s @ [NUL]))) cmd = tree_of (word_at s) cmd"
    using string_at_word [OF parsecmd_Ret(1) [OF assms(1)] _ assms(2)] by (rule tree_of_cong)
  then show ?thesis
    using parsecmd_Ret [OF assms(1)] by simp
qed

theorem parsed_cmd_well_typed_witness:
  "parsecmd ''wc < f'' = Ret (REDIR (EXEC [(0, 2)]) (5, 6) 0 0, [CHR ''w'', CHR ''c'', NUL, CHR ''<'', CHR '' '', CHR ''f'', NUL])
    \<and> wf_cmd ''wc < f'' (REDIR (EXEC [(0, 2)]) (5, 6) 0 0)"
proof -
  have eq: "parsecmd ''wc < f'' = Ret (REDIR (EXEC [(0, 2)]) (5, 6) 0 0, [CHR ''w'', CHR ''c'', NUL, CHR ''<'', CHR '' '', CHR ''f'', NUL])"
  proof -
    let ?cmd = "REDIR (EXEC [(0, 2)]) (5, 6) 0 0"
    have "parseline (4 * length ''wc < f'' + 5) ''wc < f'' 0 = Ok (?cmd, 6)" "peek ''wc < f'' 6 [] = (6, False)"
      "length ''wc < f'' = 6" "nulterminate ?cmd (''wc < f'' @ [NUL]) = [CHR ''w'', CHR ''c'', NUL, CHR ''<'', CHR '' '', CHR ''f'', NUL]"
      by code_simp+
    then show ?thesis
      unfolding parsecmd_def by simp
  qed
  then show ?thesis
    using parsed_cmd_well_typed [OF eq] by simp
qed

text \<open>C33: The shell reads a printed command back: for every tree of commands, pipes, lists, background commands
  and redirections over proper words, \<open>parsecmd\<close> accepts its text with every part in parentheses, and the
  command it returns has the structure of the tree, with its words as the strings in the buffer.\<close>

theorem parse_shown:
  assumes "wf_tree t"
  shows "\<exists>cmd buf. parsecmd (shown t) = Ret (cmd, buf) \<and> tree_of (string_at buf) cmd = t"
proof -
  obtain cmd where cmd: "parseline (4 * length (shown t) + 5) (shown t) 0 = Ok (cmd, length (shown t))"
    "tree_of (word_at (shown t)) cmd = t"
    using wf_reads_back [OF assms, unfolded reads_back_def, rule_format, of "4 * length (shown t) + 5" 0 "shown t" "[]"]
    by (auto simp: follows_def)
  then have wf: "wf_cmd (shown t) cmd"
    by (rule_tac parseline_ends [of "shown t"]) simp_all
  have "parsecmd (shown t) = Ret (cmd, nulterminate cmd (shown t @ [NUL]))"
    using cmd(1) by (simp add: parsecmd_def peek_def skip_ws_def)
  moreover have "tree_of (string_at (nulterminate cmd (shown t @ [NUL]))) cmd = tree_of (word_at (shown t)) cmd"
    using string_at_word [OF wf _ shown_no_NUL [OF assms]] by (rule tree_of_cong)
  note this [unfolded cmd(2)]
  ultimately show ?thesis
    by blast
qed

theorem parse_shown_witness:
  "shown (T_PIPE (T_EXEC [''ps'']) (T_REDIR (T_EXEC [''grep'', ''sh'']) ''out'' 0x201 1)) = ''(ps)|((grep sh)>out)''
    \<and> (\<exists>cmd buf. parsecmd ''(ps)|((grep sh)>out)'' = Ret (cmd, buf)
      \<and> tree_of (string_at buf) cmd = T_PIPE (T_EXEC [''ps'']) (T_REDIR (T_EXEC [''grep'', ''sh'']) ''out'' 0x201 1))"
proof -
  let ?t = "T_PIPE (T_EXEC [''ps'']) (T_REDIR (T_EXEC [''grep'', ''sh'']) ''out'' 0x201 1)"
  have wf: "wf_tree ?t"
    by code_simp
  have eq: "shown ?t = ''(ps)|((grep sh)>out)''"
    by code_simp
  show ?thesis
    using parse_shown [OF wf] unfolding eq by (intro conjI refl)
qed

end
