(* ===== verification/Device.thy ===== *)
theory Device
  imports Trap
begin

text \<open>
  The drivers: keyboard, serial port and screen, the interrupt controllers and the clock, as programs
  that talk to the hardware. An \<open>'a io\<close> is a tree of accesses: \<open>Inb\<close>, \<open>Outb\<close> and their block forms to the ports of the
  processor, \<open>Rd\<close> and \<open>Wr\<close> to device registers in memory. What the hardware answers is the argument of the
  continuation; \<open>IStop\<close> is \<^verbatim>\<open>panic\<close>, and \<open>ILoop\<close> a loop on a register that has used up its fuel.
\<close>

section \<open>Access to the hardware\<close>

datatype 'a io =
    IRet 'a
  | Inb uint "uchar \<Rightarrow> 'a io"
  | Outb uint uchar "'a io"
  | Insl uint nat "uchar list \<Rightarrow> 'a io"
  | Outsl uint "uchar list" "'a io"
  | Rd uint "uint \<Rightarrow> 'a io"
  | Wr uint uint "'a io"
  | Wr16 uint ushort "'a io"
  | IStop string
  | ILoop

primrec bindio :: "'a io \<Rightarrow> ('a \<Rightarrow> 'b io) \<Rightarrow> 'b io" where
  "bindio (IRet x) f = f x"
| "bindio (Inb p k) f = Inb p (\<lambda>v. bindio (k v) f)"
| "bindio (Outb p v m) f = Outb p v (bindio m f)"
| "bindio (Insl p n k) f = Insl p n (\<lambda>v. bindio (k v) f)"
| "bindio (Outsl p v m) f = Outsl p v (bindio m f)"
| "bindio (Rd a k) f = Rd a (\<lambda>v. bindio (k v) f)"
| "bindio (Wr a v m) f = Wr a v (bindio m f)"
| "bindio (Wr16 a v m) f = Wr16 a v (bindio m f)"
| "bindio (IStop m) f = IStop m"
| "bindio ILoop f = ILoop"

abbreviation thenio :: "'a io \<Rightarrow> 'b io \<Rightarrow> 'b io" where
  "thenio m n \<equiv> bindio m (\<lambda>_. n)"

text \<open>A device with the state \<open>'e\<close>, and a program that runs against it.\<close>

record 'e hw =
  h_inb :: "uint \<Rightarrow> 'e \<Rightarrow> uchar \<times> 'e"
  h_outb :: "uint \<Rightarrow> uchar \<Rightarrow> 'e \<Rightarrow> 'e"
  h_insl :: "uint \<Rightarrow> nat \<Rightarrow> 'e \<Rightarrow> uchar list \<times> 'e"
  h_outsl :: "uint \<Rightarrow> uchar list \<Rightarrow> 'e \<Rightarrow> 'e"
  h_rd :: "uint \<Rightarrow> 'e \<Rightarrow> uint \<times> 'e"
  h_wr :: "uint \<Rightarrow> uint \<Rightarrow> 'e \<Rightarrow> 'e"
  h_wr16 :: "uint \<Rightarrow> ushort \<Rightarrow> 'e \<Rightarrow> 'e"

datatype 'a ioend = Done 'a | Stopped string | Hanging

primrec run_io :: "'e hw \<Rightarrow> 'a io \<Rightarrow> 'e \<Rightarrow> 'a ioend \<times> 'e" where
  "run_io h (IRet x) = (\<lambda>e. (Done x, e))"
| "run_io h (Inb p k) = (\<lambda>e. let (v, e) = h_inb h p e in run_io h (k v) e)"
| "run_io h (Outb p v m) = (\<lambda>e. run_io h m (h_outb h p v e))"
| "run_io h (Insl p n k) = (\<lambda>e. let (v, e) = h_insl h p n e in run_io h (k v) e)"
| "run_io h (Outsl p v m) = (\<lambda>e. run_io h m (h_outsl h p v e))"
| "run_io h (Rd a k) = (\<lambda>e. let (v, e) = h_rd h a e in run_io h (k v) e)"
| "run_io h (Wr a v m) = (\<lambda>e. run_io h m (h_wr h a v e))"
| "run_io h (Wr16 a v m) = (\<lambda>e. run_io h m (h_wr16 h a v e))"
| "run_io h (IStop s) = (\<lambda>e. (Stopped s, e))"
| "run_io h ILoop = (\<lambda>e. (Hanging, e))"

lemma run_bindio:
  "run_io h (bindio m f) e = (case run_io h m e of (Done x, e) \<Rightarrow> run_io h (f x) e | (Stopped s, e) \<Rightarrow> (Stopped s, e)
     | (Hanging, e) \<Rightarrow> (Hanging, e))"
  by (induction m arbitrary: e) (simp_all add: split_beta)

text \<open>A part of the kernel that talks to the hardware \<open>h\<close> in the state \<open>e\<close>.\<close>

definition io_res :: "'e hw \<Rightarrow> 'a io \<Rightarrow> 'e \<Rightarrow> ('a \<times> 'e) res" where
  "io_res h m e = (case run_io h m e of (Done x, e) \<Rightarrow> Ok (x, e) | (Stopped t, e) \<Rightarrow> Panic t | (Hanging, e) \<Rightarrow> Spin)"

section \<open>Keyboard\<close>

definition SHIFT :: uint where "SHIFT = 1"
definition CTL :: uint where "CTL = 2"
definition ALT :: uint where "ALT = 4"
definition CAPSLOCK :: uint where "CAPSLOCK = 8"
definition NUMLOCK :: uint where "NUMLOCK = 16"
definition SCROLLLOCK :: uint where "SCROLLLOCK = 32"
definition E0ESC :: uint where "E0ESC = 64"

definition table :: "uint list \<Rightarrow> (nat \<times> uint) list \<Rightarrow> nat \<Rightarrow> uint" where
  "table xs ys i = (if i < length xs then xs ! i else case map_of ys i of Some v \<Rightarrow> v | None \<Rightarrow> 0)"

definition shiftcode :: "nat \<Rightarrow> uint" where
  "shiftcode = table [] [(0x1D, CTL), (0x2A, SHIFT), (0x36, SHIFT), (0x38, ALT), (0x9D, CTL), (0xB8, ALT)]"

definition togglecode :: "nat \<Rightarrow> uint" where
  "togglecode = table [] [(0x3A, CAPSLOCK), (0x45, NUMLOCK), (0x46, SCROLLLOCK)]"

definition chars :: "string \<Rightarrow> uint list" where
  "chars s = map of_char s"

definition keypad :: "uint \<Rightarrow> uint \<Rightarrow> (nat \<times> uint) list" where
  "keypad ent sl = [(0x9C, ent), (0xB5, sl), (0xC8, 0xE2), (0xD0, 0xE3), (0xC9, 0xE6), (0xD1, 0xE7),
     (0xCB, 0xE4), (0xCD, 0xE5), (0x97, 0xE0), (0xCF, 0xE1), (0xD2, 0xE8), (0xD3, 0xE9)]"

definition normalmap :: "nat \<Rightarrow> uint" where
  "normalmap = table
     ([0, 0x1B] @ chars ''1234567890-='' @ [0x08, 0x09] @ chars ''qwertyuiop[]'' @ [0x0A, 0] @ chars ''asdfghjkl;''
      @ [0x27, 0x60, 0, 0x5C] @ chars ''zxcvbnm,./'' @ [0] @ chars ''*'' @ [0] @ chars '' '' @ replicate 13 0
      @ chars ''789-456+1230.'' @ [0, 0, 0, 0])
     (keypad 0x0A 0x2F)"

definition shiftmap :: "nat \<Rightarrow> uint" where
  "shiftmap = table
     ([0, 0x1B] @ chars ''!@#$%^&*()_+'' @ [0x08, 0x09] @ chars ''QWERTYUIOP{}'' @ [0x0A, 0] @ chars ''ASDFGHJKL:''
      @ [0x22, 0x7E, 0, 0x7C] @ chars ''ZXCVBNM<>?'' @ [0] @ chars ''*'' @ [0] @ chars '' '' @ replicate 13 0
      @ chars ''789-456+1230.'' @ [0, 0, 0, 0])
     (keypad 0x0A 0x2F)"

text \<open>\<^verbatim>\<open>C(x)\<close>, cut to a byte.\<close>

definition ctrl :: "string \<Rightarrow> uint list" where
  "ctrl s = map (\<lambda>c. (of_char c - 0x40) mod 256) s"

definition ctlmap :: "nat \<Rightarrow> uint" where
  "ctlmap = table
     (replicate 16 0 @ ctrl ''QWERTYUIOP'' @ [0, 0, 0x0D, 0] @ ctrl ''ASDFGHJKL'' @ [0, 0, 0, 0, 0x1C] @ ctrl ''ZXCVBNM''
      @ [0, 0] @ ctrl ''/'' @ [0, 0])
     (keypad 0x0D 0xEF)"

definition charcode :: "uint \<Rightarrow> nat \<Rightarrow> uint" where
  "charcode m = (if m = 0 then normalmap else if m = 1 then shiftmap else ctlmap)"

text \<open>The static variable \<open>shift\<close> is an argument and part of the result.\<close>

definition kbdgetc :: "uint \<Rightarrow> (int \<times> uint) io" where
  "kbdgetc shift =
     Inb 0x64 (\<lambda>st.
       if st AND 1 = 0 then IRet (-1, shift)
       else Inb 0x60 (\<lambda>data.
         let data = (ucast data :: uint)
         in if data = 0xE0 then IRet (0, shift OR E0ESC)
            else if data AND 0x80 \<noteq> 0 then
              let data = (if shift AND E0ESC \<noteq> 0 then data else data AND 0x7F)
              in IRet (0, shift AND NOT (shiftcode (unat data) OR E0ESC))
            else
              let (data, shift) = (if shift AND E0ESC \<noteq> 0 then (data OR 0x80, shift AND NOT E0ESC) else (data, shift));
                  shift = shift OR shiftcode (unat data);
                  shift = shift XOR togglecode (unat data);
                  c = charcode (shift AND (CTL OR SHIFT)) (unat data);
                  c = (if shift AND CAPSLOCK \<noteq> 0
                       then if 0x61 \<le> c \<and> c \<le> 0x7A then c + (0x41 - 0x61)
                            else if 0x41 \<le> c \<and> c \<le> 0x5A then c + (0x61 - 0x41) else c
                       else c)
              in IRet (sint c, shift)))"

text \<open>\<^verbatim>\<open>while((c = getc()) >= 0)\<close> of \<^verbatim>\<open>consoleintr\<close> collects what the keyboard has; \<open>k\<close> bounds the number of
  scan codes that may arrive during one interrupt.\<close>

primrec kbd_chars :: "nat \<Rightarrow> uint \<Rightarrow> (uchar list \<times> uint) io" where
  "kbd_chars 0 shift = ILoop"
| "kbd_chars (Suc k) shift =
     bindio (kbdgetc shift) (\<lambda>(c, shift).
       if c < 0 then IRet ([], shift)
       else bindio (kbd_chars k shift) (\<lambda>(cs, shift). IRet (word_of_int c # cs, shift)))"

section \<open>Interrupt controllers\<close>

definition picinit :: "unit io" where
  "picinit = Outb 0x21 0xFF (Outb 0xA1 0xFF (IRet ()))"

definition IOAPIC :: uint where "IOAPIC = 0xFEC00000"
definition INT_DISABLED :: uint where "INT_DISABLED = 0x00010000"

definition ioapicread :: "uint \<Rightarrow> uint \<Rightarrow> uint io" where
  "ioapicread ioapic reg = Wr ioapic reg (Rd (ioapic + 16) IRet)"

definition ioapicwrite :: "uint \<Rightarrow> uint \<Rightarrow> uint \<Rightarrow> unit io" where
  "ioapicwrite ioapic reg data = Wr ioapic reg (Wr (ioapic + 16) data (IRet ()))"

primrec ioapic_clear :: "uint \<Rightarrow> nat list \<Rightarrow> unit io" where
  "ioapic_clear ioapic [] = IRet ()"
| "ioapic_clear ioapic (i # is) =
     thenio (ioapicwrite ioapic (0x10 + 2 * of_nat i) (INT_DISABLED OR (T_IRQ0 + of_nat i)))
     (thenio (ioapicwrite ioapic (0x10 + 2 * of_nat i + 1) 0)
      (ioapic_clear ioapic is))"

text \<open>The result is the value of the variable \<open>ioapic\<close> and what is printed.\<close>

definition ioapicinit :: "uchar \<Rightarrow> (uint \<times> string) io" where
  "ioapicinit ioapicid =
     (let ioapic = IOAPIC
      in bindio (ioapicread ioapic 1) (\<lambda>v.
         let maxintr = drop_bit 16 v AND 0xFF
         in bindio (ioapicread ioapic 0) (\<lambda>w.
            let id = drop_bit 24 w
            in thenio (ioapic_clear ioapic [0..<unat maxintr + 1])
               (IRet (ioapic, if id \<noteq> ucast ioapicid
                       then ''ioapicinit: id isn'' @ [CHR 0x27] @ ''t equal to ioapicid; not a MP'' @ [CHR 0x0A] else [])))))"

definition ioapicenable :: "uint \<Rightarrow> uint \<Rightarrow> uint \<Rightarrow> unit io" where
  "ioapicenable ioapic irq cpunum =
     thenio (ioapicwrite ioapic (0x10 + 2 * irq) (T_IRQ0 + irq))
       (ioapicwrite ioapic (0x10 + 2 * irq + 1) (push_bit 24 cpunum))"

definition lapicw :: "uint \<Rightarrow> uint \<Rightarrow> uint \<Rightarrow> unit io" where
  "lapicw lapic index val = Wr (lapic + 4 * index) val (Rd (lapic + 0x20) (\<lambda>_. IRet ()))"

text \<open>\<^verbatim>\<open>while(lapic[ICRLO] & DELIVS)\<close>, reading the register at most \<open>k\<close> times.\<close>

primrec lapic_deliver :: "nat \<Rightarrow> uint \<Rightarrow> unit io" where
  "lapic_deliver 0 lapic = ILoop"
| "lapic_deliver (Suc k) lapic = Rd (lapic + 0x300) (\<lambda>v. if v AND 0x1000 \<noteq> 0 then lapic_deliver k lapic else IRet ())"

definition lapicinit :: "nat \<Rightarrow> uint \<Rightarrow> unit io" where
  "lapicinit k lapic =
     (if lapic = 0 then IRet ()
      else thenio (lapicw lapic (0xF0 div 4) (0x100 OR (T_IRQ0 + 31)))
          (thenio (lapicw lapic (0x3E0 div 4) 0xB)
          (thenio (lapicw lapic (0x320 div 4) (0x20000 OR (T_IRQ0 + 0)))
          (thenio (lapicw lapic (0x380 div 4) 10000000)
          (thenio (lapicw lapic (0x350 div 4) 0x10000)
          (thenio (lapicw lapic (0x360 div 4) 0x10000)
          (Rd (lapic + 0x30) (\<lambda>v.
           thenio (if drop_bit 16 v AND 0xFF \<ge> 4 then lapicw lapic (0x340 div 4) 0x10000 else IRet ())
          (thenio (lapicw lapic (0x370 div 4) (T_IRQ0 + 19))
          (thenio (lapicw lapic (0x280 div 4) 0)
          (thenio (lapicw lapic (0x280 div 4) 0)
          (thenio (lapicw lapic (0xB0 div 4) 0)
          (thenio (lapicw lapic (0x310 div 4) 0)
          (thenio (lapicw lapic (0x300 div 4) (0x80000 OR 0x500 OR 0x8000))
          (thenio (lapic_deliver k lapic)
          (lapicw lapic (0x80 div 4) 0))))))))))))))))"

definition lapicid :: "uint \<Rightarrow> int io" where
  "lapicid lapic = (if lapic = 0 then IRet 0 else Rd (lapic + 0x20) (\<lambda>v. IRet (sint (drop_bit 24 v :: uint))))"

definition lapiceoi :: "uint \<Rightarrow> unit io" where
  "lapiceoi lapic = (if lapic \<noteq> 0 then lapicw lapic (0xB0 div 4) 0 else IRet ())"

primrec startup_ipi :: "nat \<Rightarrow> uint \<Rightarrow> uchar \<Rightarrow> uint \<Rightarrow> unit io" where
  "startup_ipi 0 lapic ap addr = IRet ()"
| "startup_ipi (Suc k) lapic ap addr =
     thenio (lapicw lapic (0x310 div 4) (push_bit 24 (ucast ap)))
    (thenio (lapicw lapic (0x300 div 4) (0x600 OR drop_bit 12 addr))
     (startup_ipi k lapic ap addr))"

definition lapicstartap :: "uint \<Rightarrow> uchar \<Rightarrow> uint \<Rightarrow> unit io" where
  "lapicstartap lapic ap addr =
     Outb 0x70 0xF (Outb 0x71 0x0A
    (Wr16 (KERNBASE + 0x467) 0 (Wr16 (KERNBASE + 0x469) (ucast (drop_bit 4 addr))
    (thenio (lapicw lapic (0x310 div 4) (push_bit 24 (ucast ap)))
    (thenio (lapicw lapic (0x300 div 4) (0x500 OR 0x8000 OR 0x4000))
    (thenio (lapicw lapic (0x300 div 4) (0x500 OR 0x8000))
    (startup_ipi 2 lapic ap addr)))))))"

section \<open>The clock\<close>

record rtcdate =
  second :: uint
  minute :: uint
  hour :: uint
  day :: uint
  month :: uint
  year :: uint

definition cmos_read :: "uint \<Rightarrow> uint io" where
  "cmos_read reg = Outb 0x70 (ucast reg) (Inb 0x71 (\<lambda>v. IRet (ucast v)))"

definition fill_rtcdate :: "rtcdate io" where
  "fill_rtcdate =
     bindio (cmos_read 0) (\<lambda>s. bindio (cmos_read 2) (\<lambda>m. bindio (cmos_read 4) (\<lambda>h.
     bindio (cmos_read 7) (\<lambda>d. bindio (cmos_read 8) (\<lambda>mo. bindio (cmos_read 9) (\<lambda>y.
       IRet \<lparr>second = s, minute = m, hour = h, day = d, month = mo, year = y\<rparr>))))))"

definition conv :: "uint \<Rightarrow> uint" where
  "conv x = drop_bit 4 x * 10 + (x AND 0xF)"

primrec cmos_stable :: "nat \<Rightarrow> rtcdate io" where
  "cmos_stable 0 = ILoop"
| "cmos_stable (Suc k) =
     bindio fill_rtcdate (\<lambda>t1.
     bindio (cmos_read 0xA) (\<lambda>a.
       if a AND 0x80 \<noteq> 0 then cmos_stable k
       else bindio fill_rtcdate (\<lambda>t2. if t1 = t2 then IRet t1 else cmos_stable k)))"

definition cmostime :: "nat \<Rightarrow> rtcdate io" where
  "cmostime k =
     bindio (cmos_read 0xB) (\<lambda>sb.
     bindio (cmos_stable k) (\<lambda>t1.
       let t1 = (if sb AND 4 = 0
                 then \<lparr>second = conv (second t1), minute = conv (minute t1), hour = conv (hour t1),
                       day = conv (day t1), month = conv (month t1), year = conv (year t1)\<rparr>
                 else t1)
       in IRet (t1\<lparr>year := year t1 + 2000\<rparr>)))"

section \<open>Serial port and screen\<close>

definition COM1 :: uint where "COM1 = 0x3F8"

primrec uart_ready :: "nat \<Rightarrow> unit io" where
  "uart_ready 0 = IRet ()"
| "uart_ready (Suc k) = Inb (COM1 + 5) (\<lambda>v. if v AND 0x20 = 0 then uart_ready k else IRet ())"

definition uartputc :: "bool \<Rightarrow> int \<Rightarrow> unit io" where
  "uartputc uart c = (if \<not> uart then IRet () else thenio (uart_ready 128) (Outb COM1 (word_of_int c) (IRet ())))"

primrec uart_puts :: "bool \<Rightarrow> int list \<Rightarrow> unit io" where
  "uart_puts uart [] = IRet ()"
| "uart_puts uart (c # cs) = thenio (uartputc uart c) (uart_puts uart cs)"

text \<open>The result is the value of the variable \<open>uart\<close>.\<close>

definition uartinit :: "uint \<Rightarrow> bool io" where
  "uartinit ioapic =
     Outb (COM1 + 2) 0 (Outb (COM1 + 3) 0x80 (Outb COM1 (115200 div 9600)
    (Outb (COM1 + 1) 0 (Outb (COM1 + 3) 0x03 (Outb (COM1 + 4) 0 (Outb (COM1 + 1) 0x01
    (Inb (COM1 + 5) (\<lambda>v.
       if v = 0xFF then IRet False
       else Inb (COM1 + 2) (\<lambda>_. Inb COM1 (\<lambda>_.
         thenio (ioapicenable ioapic 4 0)
        (thenio (uart_puts True (map of_char (''xv6...'' @ [CHR 0x0A]))) (IRet True))))))))))))"

definition uartgetc :: "bool \<Rightarrow> int io" where
  "uartgetc uart =
     (if \<not> uart then IRet (-1)
      else Inb (COM1 + 5) (\<lambda>v. if v AND 1 = 0 then IRet (-1) else Inb COM1 (\<lambda>d. IRet (uint d))))"

primrec uart_chars :: "nat \<Rightarrow> bool \<Rightarrow> uchar list io" where
  "uart_chars 0 uart = ILoop"
| "uart_chars (Suc k) uart =
     bindio (uartgetc uart) (\<lambda>c.
       if c < 0 then IRet [] else bindio (uart_chars k uart) (\<lambda>cs. IRet (word_of_int c # cs)))"

definition BACKSPACE :: int where "BACKSPACE = 0x100"
definition CRTPORT :: uint where "CRTPORT = 0x3D4"

text \<open>The screen memory \<open>crt\<close> as a function of the index; what \<^verbatim>\<open>cgaputc\<close> does between reading and writing the
  position of the cursor.\<close>

definition cga_place :: "int \<Rightarrow> int \<Rightarrow> (nat \<Rightarrow> ushort) \<Rightarrow> (int \<times> (nat \<Rightarrow> ushort)) option" where
  "cga_place c pos crt =
     (let (pos, crt) =
        (if c = 0x0A then (pos + (80 - pos mod 80), crt)
         else if c = BACKSPACE then (if pos > 0 then pos - 1 else pos, crt)
         else (pos + 1, crt(nat pos := (word_of_int c AND 0xFF) OR 0x0700)))
      in if pos < 0 \<or> pos > 25 * 80 then None
         else if pos div 80 \<ge> 24
         then let crt = (\<lambda>i. if i < 23 * 80 then crt (i + 80) else crt i);
                  pos = pos - 80
              in Some (pos, \<lambda>i. if nat pos \<le> i \<and> i < 24 * 80 then 0 else crt i)
         else Some (pos, crt))"

definition cgaputc :: "int \<Rightarrow> (nat \<Rightarrow> ushort) \<Rightarrow> (nat \<Rightarrow> ushort) io" where
  "cgaputc c crt =
     Outb CRTPORT 14 (Inb (CRTPORT + 1) (\<lambda>hi.
     Outb CRTPORT 15 (Inb (CRTPORT + 1) (\<lambda>lo.
       case cga_place c (uint hi * 256 + uint lo) crt of
         None \<Rightarrow> IStop ''pos under/overflow''
       | Some (pos, crt) \<Rightarrow>
           Outb CRTPORT 14 (Outb (CRTPORT + 1) (word_of_int (pos div 256))
          (Outb CRTPORT 15 (Outb (CRTPORT + 1) (word_of_int pos)
          (IRet (crt(nat pos := 0x0720))))))))))"

definition consputc_io :: "bool \<Rightarrow> bool \<Rightarrow> int \<Rightarrow> (nat \<Rightarrow> ushort) \<Rightarrow> (nat \<Rightarrow> ushort) io" where
  "consputc_io panicked uart c crt =
     (if panicked then ILoop
      else thenio (if c = BACKSPACE then uart_puts uart [0x08, 0x20, 0x08] else uartputc uart c)
             (cgaputc c crt))"

end
