(* ===== verification/Console.thy ===== *)
theory Console
  imports Device
begin

text \<open>
  The console output down to the devices: what \<^verbatim>\<open>consputc\<close> sends to the serial port and shows on the screen, for
  any hardware with the registers of a display controller and a serial line.
\<close>

section \<open>What appears on the screen\<close>

text \<open>The visible screen, 24 rows of 80 cells, and a terminal that works on it as a list: a character goes to
  the cursor, a newline moves to the next row, the last row scrolls; the cursor shows as a blank.\<close>

definition screen :: "(nat \<Rightarrow> ushort) \<Rightarrow> ushort list" where
  "screen crt = map crt [0..<24 * 80]"

definition glyph :: "int \<Rightarrow> ushort" where
  "glyph c = (word_of_int c AND 0xFF) OR 0x0700"

definition tty_put :: "int \<Rightarrow> nat \<times> ushort list \<Rightarrow> nat \<times> ushort list" where
  "tty_put c = (\<lambda>(pos, cells).
     let (pos, cells) = (if c = 0x0A then ((pos div 80 + 1) * 80, cells)
                         else if c = BACKSPACE then (pos - 1, cells) else (pos + 1, cells[pos := glyph c]));
         (pos, cells) = (if pos = 24 * 80 then (23 * 80, drop 80 cells @ replicate 80 0) else (pos, cells))
     in (pos, cells[pos := 0x0720]))"

lemma screen_upd: "screen (crt(p := v)) = (screen crt)[p := v]"
  by (rule nth_equalityI) (auto simp: screen_def nth_list_update)

lemma screen_scroll:
  "screen (\<lambda>i. if 23 * 80 \<le> i \<and> i < 24 * 80 then 0 else if i < 23 * 80 then crt (i + 80) else crt i)
     = drop 80 (screen crt) @ replicate 80 0"
  by (rule nth_equalityI) (auto simp: screen_def nth_append algebra_simps)

lemma next_row: "0 \<le> p \<Longrightarrow> p + (80 - p mod 80) = (p div 80 + 1) * 80" for p :: int
  using div_mult_mod_eq [of p 80] by (simp add: algebra_simps)

lemma cga_place_tty:
  assumes "0 \<le> pos" "pos < 24 * 80"
  shows "\<exists>pos' crt'. cga_place c pos crt = Some (pos', crt') \<and> 0 \<le> pos' \<and> pos' < 24 * 80
    \<and> (nat pos', screen (crt'(nat pos' := 0x0720))) = tty_put c (nat pos, screen crt)"
proof -
  define q where "q = (if c = 0x0A then (pos div 80 + 1) * 80 else if c = BACKSPACE then (if pos > 0 then pos - 1 else pos) else pos + 1)"
  define crt1 where "crt1 = (if c = 0x0A \<or> c = BACKSPACE then crt else crt(nat pos := glyph c))"
  have q: "0 \<le> q" "q \<le> 24 * 80"
    using assms by (auto simp: q_def)
  have n: "nat q = (if c = 0x0A then (nat pos div 80 + 1) * 80 else if c = BACKSPACE then nat pos - 1 else nat pos + 1)"
    using assms by (auto simp: q_def nat_mult_distrib nat_add_distrib nat_div_distrib)
  have "cga_place c pos crt =
    (if q \<ge> 24 * 80 then Some (q - 80, \<lambda>i. if nat (q - 80) \<le> i \<and> i < 24 * 80 then 0 else if i < 23 * 80 then crt1 (i + 80) else crt1 i)
     else Some (q, crt1))"
    using q assms by (auto simp: cga_place_def q_def crt1_def next_row glyph_def Let_def)
  then have "\<exists>pos' crt'. cga_place c pos crt = Some (pos', crt') \<and> 0 \<le> pos' \<and> pos' < 24 * 80
    \<and> nat pos' = (if nat q = 24 * 80 then 23 * 80 else nat q)
    \<and> screen crt' = (if nat q = 24 * 80 then drop 80 (screen crt1) @ replicate 80 0 else screen crt1)"
    using q screen_scroll [of crt1] by (cases "q = 24 * 80") auto
  moreover have "screen crt1 = (if c = 0x0A \<or> c = BACKSPACE then screen crt else (screen crt)[nat pos := glyph c])"
    by (simp add: crt1_def screen_upd)
  then have "tty_put c (nat pos, screen crt) =
    (let (p, l) = (if nat q = 24 * 80 then (23 * 80, drop 80 (screen crt1) @ replicate 80 0) else (nat q, screen crt1))
     in (p, l[p := 0x0720]))"
    unfolding tty_put_def n by (simp split: if_splits)
  ultimately show ?thesis
    by (auto simp: screen_upd simp del: upt_rec_numeral)
qed

text \<open>What is assumed of the hardware: the cursor of the display controller is in its registers 14 and 15, reached
  through an index register; the line status of the serial port says after fewer than 128 readings (\<open>delay\<close>) that the
  transmitter has room, and only then is what goes to the data port sent.\<close>

definition display :: "'e hw \<Rightarrow> ('e \<Rightarrow> nat) \<Rightarrow> ('e \<Rightarrow> uchar) \<Rightarrow> ('e \<Rightarrow> uchar \<Rightarrow> uchar) \<Rightarrow> ('e \<Rightarrow> uchar list) \<Rightarrow> bool" where
  "display h delay sel reg sent \<longleftrightarrow>
     (\<forall>e. delay e < 128)
     \<and> (\<forall>e p v. sel (h_outb h p v e) = (if p = CRTPORT then v else sel e)
        \<and> reg (h_outb h p v e) = (if p = CRTPORT + 1 then (reg e)(sel e := v) else reg e)
        \<and> (p \<noteq> COM1 \<longrightarrow> sent (h_outb h p v e) = sent e)
        \<and> (p = COM1 \<and> delay e = 0 \<longrightarrow> sent (h_outb h p v e) = sent e @ [v]))
     \<and> (\<forall>e p. sel (snd (h_inb h p e)) = sel e \<and> reg (snd (h_inb h p e)) = reg e
        \<and> sent (snd (h_inb h p e)) = sent e)
     \<and> (\<forall>e. fst (h_inb h (CRTPORT + 1) e) = reg e (sel e))
     \<and> (\<forall>e. let (v, e') = h_inb h (COM1 + 5) e
          in if delay e = 0 then v AND 0x20 \<noteq> 0 \<and> delay e' = 0 else v AND 0x20 = 0 \<and> delay e' < delay e)"

definition cursor :: "('e \<Rightarrow> uchar \<Rightarrow> uchar) \<Rightarrow> 'e \<Rightarrow> int" where
  "cursor reg e = uint (reg e 14) * 256 + uint (reg e 15)"

lemma displayD:
  assumes "display h delay sel reg sent"
  shows "sel (h_outb h p v e) = (if p = CRTPORT then v else sel e)"
    "reg (h_outb h p v e) = (if p = CRTPORT + 1 then (reg e)(sel e := v) else reg e)"
    "p \<noteq> COM1 \<Longrightarrow> sent (h_outb h p v e) = sent e" "delay e = 0 \<Longrightarrow> sent (h_outb h COM1 v e) = sent e @ [v]"
    "sel (snd (h_inb h p e)) = sel e" "reg (snd (h_inb h p e)) = reg e" "sent (snd (h_inb h p e)) = sent e"
    "fst (h_inb h (CRTPORT + 1) e) = reg e (sel e)" "delay e < 128"
    "delay e = 0 \<Longrightarrow> fst (h_inb h (COM1 + 5) e) AND 0x20 \<noteq> 0" "delay e = 0 \<Longrightarrow> delay (snd (h_inb h (COM1 + 5) e)) = 0"
    "delay e \<noteq> 0 \<Longrightarrow> fst (h_inb h (COM1 + 5) e) AND 0x20 = 0" "delay e \<noteq> 0 \<Longrightarrow> delay (snd (h_inb h (COM1 + 5) e)) < delay e"
  using assms unfolding display_def by (auto simp: split_beta)

lemma ports [simp]: "CRTPORT \<noteq> COM1" "CRTPORT + 1 \<noteq> COM1"
  by (simp_all add: CRTPORT_def COM1_def)

lemma cursor_bytes: "0 \<le> p \<Longrightarrow> p < 65536 \<Longrightarrow> uint (word_of_int (p div 256) :: uchar) * 256 + uint (word_of_int p :: uchar) = p"
  by (simp add: uint_word_of_int take_bit_eq_mod div_mult_mod_eq)

lemma cgaputc_tty:
  assumes "display h delay sel reg sent" "cursor reg e < 24 * 80"
  shows "\<exists>crt' e'. run_io h (cgaputc c crt) e = (Done crt', e') \<and> cursor reg e' < 24 * 80 \<and> sent e' = sent e
    \<and> (nat (cursor reg e'), screen crt') = tty_put c (nat (cursor reg e), screen crt)"
proof -
  note d = displayD [OF assms(1)]
  obtain pos crt' where p: "cga_place c (cursor reg e) crt = Some (pos, crt')" "0 \<le> pos" "pos < 24 * 80"
    "(nat pos, screen (crt'(nat pos := 0x0720))) = tty_put c (nat (cursor reg e), screen crt)"
    using cga_place_tty [of "cursor reg e" c crt] assms(2) by (auto simp: cursor_def)
  then show ?thesis
    using cursor_bytes [of pos] by (simp add: cgaputc_def split_beta d cursor_def)
qed

text \<open>The loop of \<^verbatim>\<open>uartputc\<close> ends with a transmitter that has room.\<close>

lemma uart_ready_waits:
  assumes "display h delay sel reg sent"
  shows "delay e < n \<Longrightarrow> \<exists>e'. run_io h (uart_ready n) e = (Done (), e') \<and> delay e' = 0 \<and> reg e' = reg e \<and> sent e' = sent e"
proof (induction n arbitrary: e)
  case (Suc n)
  note d = displayD [OF assms]
  show ?case
  proof (cases "delay e = 0")
    case True
    then show ?thesis
      using d(10,11) [of e] by (simp add: split_beta d(6,7))
  next
    case False
    then show ?thesis
      using Suc.IH [of "snd (h_inb h (COM1 + 5) e)"] Suc.prems d(12,13) [of e] by (auto simp: split_beta d(6,7))
  qed
qed simp

lemma uartputc_sends:
  assumes "display h delay sel reg sent"
  shows "\<exists>e'. run_io h (uartputc uart c) e = (Done (), e') \<and> reg e' = reg e
    \<and> sent e' = sent e @ (if uart then [word_of_int c] else [])"
  using uart_ready_waits [OF assms displayD(9) [OF assms], of e]
  by (auto simp: uartputc_def run_bindio displayD(2,4) [OF assms] ports [symmetric])

lemma uart_puts_sends:
  assumes "display h delay sel reg sent"
  shows "\<exists>e'. run_io h (uart_puts uart cs) e = (Done (), e') \<and> reg e' = reg e
    \<and> sent e' = sent e @ (if uart then map word_of_int cs else [])"
proof (induction cs arbitrary: e)
  case (Cons c cs)
  obtain e1 where e1: "run_io h (uartputc uart c) e = (Done (), e1)" "reg e1 = reg e"
    "sent e1 = sent e @ (if uart then [word_of_int c] else [])"
    using uartputc_sends [OF assms] by blast
  then show ?case
    using Cons [of e1] by (auto simp: run_bindio)
qed simp

text \<open>The output of the kernel, character by character: down to the devices, and in the model of the kernel.\<close>

primrec cons_puts :: "bool \<Rightarrow> bool \<Rightarrow> int list \<Rightarrow> (nat \<Rightarrow> ushort) \<Rightarrow> (nat \<Rightarrow> ushort) io" where
  "cons_puts panicked uart [] crt = IRet crt"
| "cons_puts panicked uart (c # cs) crt = bindio (consputc_io panicked uart c crt) (cons_puts panicked uart cs)"

definition kernel_put :: "int \<Rightarrow> 'a con_state_scheme \<Rightarrow> 'a con_state_scheme" where
  "kernel_put c s = (if c = BACKSPACE then cons_backspace s else consputc (word_of_int c) s)"

definition on_wire :: "uchar list \<Rightarrow> string" where
  "on_wire bs = map (\<lambda>b. char_of (unat b)) bs"

lemma consputc_io_tty:
  assumes "display h delay sel reg sent" "cursor reg e < 24 * 80"
  shows "\<exists>crt' e'. run_io h (consputc_io False uart c crt) e = (Done crt', e') \<and> cursor reg e' < 24 * 80
    \<and> (nat (cursor reg e'), screen crt') = tty_put c (nat (cursor reg e), screen crt)
    \<and> (if uart then kout s = on_wire (sent e) \<longrightarrow> kout (kernel_put c s) = on_wire (sent e') else sent e' = sent e)"
proof -
  let ?cs = "if c = BACKSPACE then [0x08, 0x20, 0x08] else [c]"
  have "\<exists>e1. run_io h (if c = BACKSPACE then uart_puts uart [0x08, 0x20, 0x08] else uartputc uart c) e = (Done (), e1)
      \<and> reg e1 = reg e \<and> sent e1 = sent e @ (if uart then map word_of_int ?cs else [])"
    using uart_puts_sends [OF assms(1), of uart "[0x08, 0x20, 0x08]" e] uartputc_sends [OF assms(1), of uart c e]
    by (cases uart) simp_all
  then obtain e1 where e1: "reg e1 = reg e" "sent e1 = sent e @ (if uart then map word_of_int ?cs else [])"
    "run_io h (consputc_io False uart c crt) e = run_io h (cgaputc c crt) e1"
    by (auto simp: consputc_io_def run_bindio)
  have "CHR 0x08 = char_of (8 :: nat)" "CHR '' '' = char_of (32 :: nat)"
    by (simp_all add: char_of_def bit_Suc_0_iff)
  moreover have "cursor reg e1 = cursor reg e"
    by (simp add: cursor_def e1(1))
  ultimately show ?thesis
    using cgaputc_tty [OF assms(1), of e1 c crt] assms(2) e1
    by (cases uart) (auto simp: on_wire_def kernel_put_def consputc_def cons_backspace_def)
qed

text \<open>C26: For any hardware with a display controller whose cursor is on the visible rows and a serial line that has
  room for a character after fewer than 128 readings of its status, writing any sequence of characters to the console of
  a kernel that has not panicked comes back (the cursor never leaves the rows, \<^verbatim>\<open>cgaputc\<close> never panics), and the screen
  shows what a terminal of 24 rows of 80 cells shows. If \<^verbatim>\<open>uartinit\<close> has found a serial port, the line carries exactly
  the characters that the model of the kernel records as its output; otherwise nothing is sent. Once the kernel has
  panicked, the first character hangs, and reaches no device.\<close>

theorem console_reaches_devices:
  assumes "display h delay sel reg sent" "cursor reg e < 24 * 80" "kout s = on_wire (sent e)"
  shows "(\<exists>crt' e'. run_io h (cons_puts False uart cs crt) e = (Done crt', e') \<and> cursor reg e' < 24 * 80
      \<and> (nat (cursor reg e'), screen crt') = fold tty_put cs (nat (cursor reg e), screen crt)
      \<and> (if uart then kout (fold kernel_put cs s) = on_wire (sent e') else sent e' = sent e))
    \<and> (cs \<noteq> [] \<longrightarrow> run_io h (cons_puts True uart cs crt) e = (Hanging, e))"
proof
  show "\<exists>crt' e'. run_io h (cons_puts False uart cs crt) e = (Done crt', e') \<and> cursor reg e' < 24 * 80
      \<and> (nat (cursor reg e'), screen crt') = fold tty_put cs (nat (cursor reg e), screen crt)
      \<and> (if uart then kout (fold kernel_put cs s) = on_wire (sent e') else sent e' = sent e)"
    using assms(2) impI [OF assms(3), of uart]
  proof (induction cs arbitrary: crt e s)
    case (Cons c cs)
    then obtain crt1 e1 where r: "run_io h (consputc_io False uart c crt) e = (Done crt1, e1)" "cursor reg e1 < 24 * 80"
      "(nat (cursor reg e1), screen crt1) = tty_put c (nat (cursor reg e), screen crt)"
      "uart \<longrightarrow> kout (kernel_put c s) = on_wire (sent e1)" "uart \<or> sent e1 = sent e"
      using consputc_io_tty [OF assms(1), of e uart c crt s] by (auto split: if_splits)
    then show ?case
      using Cons.IH [of e1 "kernel_put c s" crt1] by (cases uart) (auto simp: run_bindio)
  qed simp
  show "cs \<noteq> [] \<longrightarrow> run_io h (cons_puts True uart cs crt) e = (Hanging, e)"
    by (cases cs) (simp_all add: consputc_io_def)
qed

text \<open>A display controller, and a serial line that is busy for three readings of its status after each character. The
  last component counts, modulo 4, the readings for which it is still busy.\<close>

definition vga :: "(uchar \<times> (uchar \<Rightarrow> uchar) \<times> uchar list \<times> nat) hw" where
  "vga = \<lparr>h_inb = \<lambda>p (i, r, b, n).
       if p = COM1 + 5 then (if n mod 4 = 0 then 0x20 else 0, i, r, b, n mod 4 - 1)
       else (if p = CRTPORT + 1 then r i else 0, i, r, b, n),
     h_outb = \<lambda>p v (i, r, b, n). (if p = CRTPORT then (v, r, b, n) else if p = CRTPORT + 1 then (i, r(i := v), b, n)
       else if p = COM1 \<and> n mod 4 = 0 then (i, r, b @ [v], 3) else (i, r, b, n)),
     h_insl = \<lambda>p n e. (replicate n 0, e), h_outsl = \<lambda>p v e. e, h_rd = \<lambda>a e. (0, e), h_wr = \<lambda>a v e. e,
     h_wr16 = \<lambda>a v e. e\<rparr>"

abbreviation vga_sent :: "uchar \<times> (uchar \<Rightarrow> uchar) \<times> uchar list \<times> nat \<Rightarrow> uchar list" where
  "vga_sent e \<equiv> fst (snd (snd e))"

lemma vga_display: "display vga (\<lambda>e. snd (snd (snd e)) mod 4) fst (fst \<circ> snd) vga_sent"
proof -
  have "x mod 4 < 128" for x :: nat
    using mod_less_divisor [of 4 x] by linarith
  then show ?thesis
    by (auto simp: display_def vga_def CRTPORT_def COM1_def)
qed

abbreviation quiet_console :: con_state where
  "quiet_console \<equiv> \<lparr>cpus = [], locks = \<lambda>_. \<lparr>locked = False, lk_name = [], lk_cpu = None\<rparr>, kout = [], cons_locking = True\<rparr>"

theorem console_reaches_devices_witness:
  "\<exists>crt' e'. run_io vga (cons_puts False True [0x68, 0x69, 0x0A] (\<lambda>_. 0)) (0, \<lambda>_. 0, [], 0) = (Done crt', e')
    \<and> cursor (fst \<circ> snd) e' < 24 * 80
    \<and> (nat (cursor (fst \<circ> snd) e'), screen crt') = fold tty_put [0x68, 0x69, 0x0A] (0, screen (\<lambda>_. 0))
    \<and> kout (fold kernel_put [0x68, 0x69, 0x0A] quiet_console) = on_wire (vga_sent e')"
  using console_reaches_devices [OF vga_display,
      of "(0, \<lambda>_. 0, [], 0)" quiet_console True "[0x68, 0x69, 0x0A]" "\<lambda>_. 0"]
  by (simp add: cursor_def on_wire_def)

end
