(* ===== verification/Ide.thy ===== *)
theory Ide
  imports Device ProcProps
begin

text \<open>
  \<^verbatim>\<open>ide.c\<close>, the driver of a real disk, which stands in for \<^verbatim>\<open>memide.c\<close>: a queue of buffers, the first of which is
  the request that the disk works on, and an interrupt at the end of each. The list through \<^verbatim>\<open>qnext\<close> is the list
  \<open>idequeue\<close>. The waiting loop of \<^verbatim>\<open>iderw\<close> is a step of its own, since each round gives up the CPU.
\<close>

section \<open>The driver\<close>

record ide_state = bio_state +
  idequeue :: "nat list"
  havedisk1 :: bool

primrec idewait :: "nat \<Rightarrow> bool \<Rightarrow> int io" where
  "idewait 0 checkerr = ILoop"
| "idewait (Suc k) checkerr =
     Inb 0x1F7 (\<lambda>r.
       if r AND 0xC0 \<noteq> 0x40 then idewait k checkerr
       else if checkerr \<and> r AND 0x21 \<noteq> 0 then IRet (-1) else IRet 0)"

primrec ide_probe :: "nat \<Rightarrow> bool io" where
  "ide_probe 0 = IRet False"
| "ide_probe (Suc n) = Inb 0x1F7 (\<lambda>r. if r \<noteq> 0 then IRet True else ide_probe n)"

definition ide_find_disk1 :: "nat \<Rightarrow> uint \<Rightarrow> uint \<Rightarrow> bool io" where
  "ide_find_disk1 k ioapic ncpu =
     thenio (ioapicenable ioapic 14 (ncpu - 1))
    (thenio (idewait k False)
    (Outb 0x1F6 0xF0 (bindio (ide_probe 1000) (\<lambda>d. Outb 0x1F6 0xE0 (IRet d)))))"

definition ideinit :: "nat \<Rightarrow> uint \<Rightarrow> uint \<Rightarrow> 'e hw \<Rightarrow> 'a ide_state_scheme \<times> 'e \<Rightarrow> ('a ide_state_scheme \<times> 'e) res"
  where
  "ideinit k ioapic ncpu h = (\<lambda>(s, e).
     let s = initlock L_ide ''ide'' s
     in bindr (io_res h (ide_find_disk1 k ioapic ncpu) e) (\<lambda>(d, e).
        Ok (if d then s\<lparr>havedisk1 := True\<rparr> else s, e)))"

definition FSSIZE :: uint where "FSSIZE = 1000"

definition idestart :: "nat \<Rightarrow> buf option \<Rightarrow> unit io" where
  "idestart k b =
     (case b of None \<Rightarrow> IStop ''idestart''
      | Some b \<Rightarrow>
          if b_blockno b \<ge> FSSIZE then IStop ''incorrect blockno''
          else let sector_per_block = of_nat (BSIZE div 512) :: uint;
                   sector = b_blockno b * sector_per_block;
                   read_cmd = (if sector_per_block = 1 then 0x20 else 0xC4);
                   write_cmd = (if sector_per_block = 1 then 0x30 else 0xC5)
               in if sector_per_block > 7 then IStop ''idestart''
                  else thenio (idewait k False)
                   (Outb 0x3F6 0 (Outb 0x1F2 (ucast sector_per_block) (Outb 0x1F3 (ucast sector)
                   (Outb 0x1F4 (ucast (drop_bit 8 sector)) (Outb 0x1F5 (ucast (drop_bit 16 sector))
                   (Outb 0x1F6 (0xE0 OR ucast (push_bit 4 (b_dev b AND 1)) OR ucast (drop_bit 24 sector AND 0x0F))
                   (if b_flags b AND B_DIRTY \<noteq> 0
                    then Outb 0x1F7 write_cmd (Outsl 0x1F0 (b_data b) (IRet ()))
                    else Outb 0x1F7 read_cmd (IRet ())))))))))"

text \<open>The parts of the two routines that work on the queue and the disk: appending a request and starting it if it
  is alone; finishing the first one; starting the next.\<close>

definition ide_append :: "nat \<Rightarrow> nat \<Rightarrow> buf list \<Rightarrow> nat list \<Rightarrow> nat list io" where
  "ide_append k b bs q =
     (let q = q @ [b]
      in if hd q = b then thenio (idestart k (Some (bs ! b))) (IRet q) else IRet q)"

definition ide_collect :: "nat \<Rightarrow> nat \<Rightarrow> buf list \<Rightarrow> buf list io" where
  "ide_collect k b bs =
     bindio (if b_flags (bs ! b) AND B_DIRTY = 0
             then bindio (idewait k True) (\<lambda>r.
                    if r \<ge> 0 then Insl 0x1F0 BSIZE (\<lambda>d. IRet (upd b (\<lambda>k. k\<lparr>b_data := d\<rparr>) bs)) else IRet bs)
             else IRet bs) (\<lambda>bs.
     IRet (upd b (\<lambda>k. k\<lparr>b_flags := (b_flags k OR B_VALID) AND NOT B_DIRTY\<rparr>) bs))"

definition ide_next :: "nat \<Rightarrow> nat list \<Rightarrow> buf list \<Rightarrow> unit io" where
  "ide_next k q bs = (if q \<noteq> [] then idestart k (Some (bs ! hd q)) else IRet ())"

definition ideintr :: "nat \<Rightarrow> nat \<Rightarrow> 'e hw \<Rightarrow> 'a ide_state_scheme \<times> 'e \<Rightarrow> ('a ide_state_scheme \<times> 'e) res" where
  "ideintr c k h = (\<lambda>(s, e).
     bindr (acquire c L_ide s) (\<lambda>s.
       case idequeue s of
         [] \<Rightarrow> bindr (release c L_ide s) (\<lambda>s. Ok (s, e))
       | b # q \<Rightarrow>
           let s = s\<lparr>idequeue := q\<rparr>
           in bindr (io_res h (ide_collect k b (bufs s)) e) (\<lambda>(bs, e).
              bindr (wakeup c (Some (Chan_buf b)) (s\<lparr>bufs := bs\<rparr>)) (\<lambda>s.
              bindr (io_res h (ide_next k (idequeue s) (bufs s)) e) (\<lambda>(_, e).
              bindr (release c L_ide s) (\<lambda>s. Ok (s, e)))))))"

datatype ide_out = Served | Waiting

definition iderw_wait :: "nat \<Rightarrow> nat \<Rightarrow> 'a ide_state_scheme \<Rightarrow> (ide_out \<times> 'a ide_state_scheme) res" where
  "iderw_wait c b s =
     (if b_flags (the_buf b s) AND (B_VALID OR B_DIRTY) \<noteq> B_VALID
      then bindr (sleep c (Chan_buf b) (Some L_ide) s) (\<lambda>s. Ok (Waiting, s))
      else bindr (release c L_ide s) (\<lambda>s. Ok (Served, s)))"

definition iderw :: "nat \<Rightarrow> nat \<Rightarrow> 'e hw \<Rightarrow> nat \<Rightarrow> 'a ide_state_scheme \<times> 'e \<Rightarrow> ((ide_out \<times> 'a ide_state_scheme) \<times> 'e) res"
  where
  "iderw c k h b = (\<lambda>(s, e).
     bindr (holdingsleep c (L_sleep_buf b) s) (\<lambda>(held, s).
       if \<not> held then Panic ''iderw: buf not locked''
       else if b_flags (the_buf b s) AND (B_VALID OR B_DIRTY) = B_VALID then Panic ''iderw: nothing to do''
       else if b_dev (the_buf b s) \<noteq> 0 \<and> \<not> havedisk1 s then Panic ''iderw: ide disk 1 not present''
       else bindr (acquire c L_ide s) (\<lambda>s.
            bindr (io_res h (ide_append k b (bufs s) (idequeue s)) e) (\<lambda>(q, e).
            bindr (iderw_wait c b (s\<lparr>idequeue := q\<rparr>)) (\<lambda>r. Ok (r, e))))))"

section \<open>The queue serves the requests in order\<close>

text \<open>What is assumed of the disk, as the standard for PIO transfers has it: the status register says that it is
  busy for fewer than \<open>k\<close> readings; only a disk that is not busy takes what is written to its task file, and the command
  register may make it busy again; a read may end in an error (\<open>err\<close>), which the status then shows; and the data port
  moves the sector that the task file selects, for the command last given, only while the disk is not busy, and for a read
  only without an error. \<open>disk e\<close> are the sectors of the two drives. A write is assumed to succeed.\<close>

definition lba :: "(uint \<Rightarrow> uchar) \<Rightarrow> bool \<times> nat" where
  "lba r = (bit (r 0x1F6) 4,
     unat (r 0x1F3) + 256 * unat (r 0x1F4) + 65536 * unat (r 0x1F5) + 16777216 * unat (r 0x1F6 AND 0x0F))"

definition ata :: "nat \<Rightarrow> 'e hw \<Rightarrow> ('e \<Rightarrow> nat) \<Rightarrow> ('e \<Rightarrow> bool) \<Rightarrow> ('e \<Rightarrow> uint \<Rightarrow> uchar) \<Rightarrow> ('e \<Rightarrow> bool \<times> nat \<Rightarrow> block) \<Rightarrow> bool" where
  "ata k h busy err reg disk \<longleftrightarrow>
     (\<forall>e. busy e < k)
     \<and> (\<forall>e p v. disk (h_outb h p v e) = disk e
           \<and> (busy e = 0 \<longrightarrow> reg (h_outb h p v e) = (reg e)(p := v) \<and> (p \<noteq> 0x1F7 \<longrightarrow> busy (h_outb h p v e) = 0)))
     \<and> (\<forall>e. (let (r, e') = h_inb h 0x1F7 e
             in reg e' = reg e \<and> disk e' = disk e
                \<and> (if busy e = 0 then r AND 0xC0 = 0x40 \<and> (r AND 0x21 \<noteq> 0 \<longleftrightarrow> err e) \<and> busy e' = 0 \<and> err e' = err e
                   else r AND 0xC0 \<noteq> 0x40 \<and> busy e' < busy e)))
     \<and> (\<forall>e bs. busy e = 0 \<and> reg e 0x1F7 = 0x30 \<and> reg e 0x1F2 = 1 \<longrightarrow>
           disk (h_outsl h 0x1F0 bs e) = (disk e)(lba (reg e) := bs))
     \<and> (\<forall>e. busy e = 0 \<and> \<not> err e \<and> reg e 0x1F7 = 0x20 \<and> reg e 0x1F2 = 1 \<longrightarrow>
           (let (d, e') = h_insl h 0x1F0 512 e in d = disk e (lba (reg e)) \<and> disk e' = disk e))"

text \<open>\<^verbatim>\<open>idestart\<close> sends the data of a write right after the command, without looking at the status again. It relies on
  a drive that takes the data at once.\<close>

definition takes_data :: "'e hw \<Rightarrow> ('e \<Rightarrow> nat) \<Rightarrow> bool" where
  "takes_data h busy \<longleftrightarrow> (\<forall>e. busy e = 0 \<longrightarrow> busy (h_outb h 0x1F7 0x30 e) = 0)"

text \<open>The driver without the locks and the waking: requests arrive, interrupts arrive, and buffers that are not
  in the queue are changed by their owners.\<close>

datatype ide_event = Request nat | Interrupt | Fill nat buf

fun ide_step :: "nat \<Rightarrow> ide_event \<Rightarrow> buf list \<times> nat list \<Rightarrow> (buf list \<times> nat list) io" where
  "ide_step k (Request b) (bs, q) = bindio (ide_append k b bs q) (\<lambda>q. IRet (bs, q))"
| "ide_step k Interrupt (bs, []) = IRet (bs, [])"
| "ide_step k Interrupt (bs, b # q) =
     bindio (ide_collect k b bs) (\<lambda>bs. thenio (ide_next k q bs) (IRet (bs, q)))"
| "ide_step k (Fill b x) (bs, q) = IRet (bs[b := x], q)"

primrec ide_run :: "nat \<Rightarrow> ide_event list \<Rightarrow> buf list \<times> nat list \<Rightarrow> (buf list \<times> nat list) io" where
  "ide_run k [] w = IRet w"
| "ide_run k (ev # evs) w = bindio (ide_step k ev w) (ide_run k evs)"

text \<open>The specification: a transfer between buffer and disk happens at once, as in \<^verbatim>\<open>memide.c\<close>, when the interrupt
  arrives. A read that has failed (\<open>f\<close>) leaves the data of the buffer as it was, but the buffer is marked valid all the
  same, since \<^verbatim>\<open>ideintr\<close> does not look at the error any further.\<close>

definition sector_of :: "buf \<Rightarrow> bool \<times> nat" where
  "sector_of b = (bit (b_dev b) 0, unat (b_blockno b))"

definition transfer :: "bool \<Rightarrow> nat \<Rightarrow> buf list \<times> (bool \<times> nat \<Rightarrow> block) \<Rightarrow> buf list \<times> (bool \<times> nat \<Rightarrow> block)" where
  "transfer f b = (\<lambda>(bs, disk).
     let x = bs ! b; flags = (b_flags x OR B_VALID) AND NOT B_DIRTY
     in if b_flags x AND B_DIRTY \<noteq> 0 then (bs[b := x\<lparr>b_flags := flags\<rparr>], disk(sector_of x := b_data x))
        else if f then (bs[b := x\<lparr>b_flags := flags\<rparr>], disk)
        else (bs[b := x\<lparr>b_data := disk (sector_of x), b_flags := flags\<rparr>], disk))"

fun disk_step :: "ide_event \<times> bool \<Rightarrow> (buf list \<times> (bool \<times> nat \<Rightarrow> block)) \<times> nat list
    \<Rightarrow> (buf list \<times> (bool \<times> nat \<Rightarrow> block)) \<times> nat list" where
  "disk_step (Request b, f) (w, q) = (w, q @ [b])"
| "disk_step (Interrupt, f) (w, []) = (w, [])"
| "disk_step (Interrupt, f) (w, b # q) = (transfer f b w, q)"
| "disk_step (Fill b x, f) ((bs, disk), q) = ((bs[b := x], disk), q)"

text \<open>Events that the buffer cache can cause, for buffers of the blocks \<open>ns\<close> and a queue \<open>q\<close>: only a locked buffer that
  is not in the queue is requested or changed, and blocks are blocks of the file system.\<close>

fun ide_events_ok :: "ide_event list \<Rightarrow> uint list \<Rightarrow> nat list \<Rightarrow> bool" where
  "ide_events_ok [] ns q \<longleftrightarrow> True"
| "ide_events_ok (Request b # evs) ns q \<longleftrightarrow>
     b < length ns \<and> b \<notin> set q \<and> ns ! b < FSSIZE \<and> ide_events_ok evs ns (q @ [b])"
| "ide_events_ok (Interrupt # evs) ns q \<longleftrightarrow> ide_events_ok evs ns (tl q)"
| "ide_events_ok (Fill b x # evs) ns q \<longleftrightarrow> b \<notin> set q \<and> ide_events_ok evs (ns[b := b_blockno x]) q"

lemma ataD:
  assumes "ata k h busy err reg disk"
  shows "busy e < k" "disk (h_outb h p v e) = disk e"
    "busy e = 0 \<Longrightarrow> reg (h_outb h p v e) = (reg e)(p := v)" "busy e = 0 \<Longrightarrow> p \<noteq> 0x1F7 \<Longrightarrow> busy (h_outb h p v e) = 0"
    "reg (snd (h_inb h 0x1F7 e)) = reg e" "disk (snd (h_inb h 0x1F7 e)) = disk e"
    "busy e = 0 \<Longrightarrow> fst (h_inb h 0x1F7 e) AND 0xC0 = 0x40" "busy e = 0 \<Longrightarrow> fst (h_inb h 0x1F7 e) AND 0x21 \<noteq> 0 \<longleftrightarrow> err e"
    "busy e = 0 \<Longrightarrow> busy (snd (h_inb h 0x1F7 e)) = 0" "busy e = 0 \<Longrightarrow> err (snd (h_inb h 0x1F7 e)) = err e"
    "busy e \<noteq> 0 \<Longrightarrow> fst (h_inb h 0x1F7 e) AND 0xC0 \<noteq> 0x40" "busy e \<noteq> 0 \<Longrightarrow> busy (snd (h_inb h 0x1F7 e)) < busy e"
    "busy e = 0 \<Longrightarrow> reg e 0x1F7 = 0x30 \<Longrightarrow> reg e 0x1F2 = 1 \<Longrightarrow> disk (h_outsl h 0x1F0 bs e) = (disk e)(lba (reg e) := bs)"
    "busy e = 0 \<Longrightarrow> \<not> err e \<Longrightarrow> reg e 0x1F7 = 0x20 \<Longrightarrow> reg e 0x1F2 = 1 \<Longrightarrow> fst (h_insl h 0x1F0 512 e) = disk e (lba (reg e))"
    "busy e = 0 \<Longrightarrow> \<not> err e \<Longrightarrow> reg e 0x1F7 = 0x20 \<Longrightarrow> reg e 0x1F2 = 1 \<Longrightarrow> disk (snd (h_insl h 0x1F0 512 e)) = disk e"
  using assms unfolding ata_def by (auto simp: split_beta)

lemma idewait_ready:
  assumes "ata k h busy err reg disk"
  shows "busy e < n \<Longrightarrow> \<exists>e'. run_io h (idewait n ch) e = (Done (if ch \<and> err e' then -1 else 0), e')
    \<and> reg e' = reg e \<and> disk e' = disk e \<and> busy e' = 0"
proof (induction n arbitrary: e)
  case (Suc n)
  note d = ataD [OF assms]
  show ?case
  proof (cases "busy e = 0")
    case True
    then show ?thesis
      using d(7,8,9,10) [of e] by (auto simp: split_beta d(5,6))
  next
    case False
    then show ?thesis
      using Suc.IH [of "snd (h_inb h 0x1F7 e)"] Suc.prems d(11,12) [of e] by (auto simp: split_beta d(5,6))
  qed
qed simp

lemma lba_small:
  fixes d :: uint
  assumes "x < FSSIZE" "r 0x1F3 = ucast x" "r 0x1F4 = ucast (drop_bit 8 x)" "r 0x1F5 = ucast (drop_bit 16 x)"
    "r 0x1F6 = 0xE0 OR ucast (push_bit 4 (d AND 1)) OR ucast (drop_bit 24 x AND 0x0F)"
  shows "lba r = (bit d 0, unat x)"
proof -
  have x: "unat x < 1000"
    using assms(1) by (simp add: FSSIZE_def word_less_nat_alt)
  have z: "drop_bit 16 x = 0" "drop_bit 24 x = 0"
    using x by (simp_all add: word_unat_eq_iff drop_bit_eq_div unat_div)
  have "unat (ucast x :: uchar) = unat x mod 256" "unat (ucast (drop_bit 8 x) :: uchar) = unat x div 256"
    using x by (simp_all add: unsigned_ucast_eq drop_bit_eq_div unat_div take_bit_eq_mod)
  moreover have "d AND 1 = of_bool (bit d 0)"
    by (simp add: and_one_eq mod2_eq_if bit_0)
  then have "bit (r 0x1F6) 4 = bit d 0 \<and> r 0x1F6 AND 0x0F = 0"
    by (cases "bit d 0") (simp_all add: assms(5) z)
  ultimately show ?thesis
    by (simp add: lba_def assms(2-4) z)
qed

text \<open>A request that has been started: for a read the task file selects the sector; a write has reached the disk.\<close>

definition started_ok :: "('e \<Rightarrow> uint \<Rightarrow> uchar) \<Rightarrow> ('e \<Rightarrow> bool \<times> nat \<Rightarrow> block) \<Rightarrow> buf \<Rightarrow> (bool \<times> nat \<Rightarrow> block) \<Rightarrow> 'e \<Rightarrow> bool" where
  "started_ok reg disk x D e \<longleftrightarrow>
     (if b_flags x AND B_DIRTY \<noteq> 0 then disk e = D(sector_of x := b_data x)
      else disk e = D \<and> reg e 0x1F7 = 0x20 \<and> reg e 0x1F2 = 1 \<and> lba (reg e) = sector_of x)"

lemma idestart_starts:
  assumes "ata k h busy err reg disk" "takes_data h busy" "b_blockno x < FSSIZE"
  shows "\<exists>e'. run_io h (idestart k (Some x)) e = (Done (), e') \<and> started_ok reg disk x (disk e) e'"
proof -
  obtain e1 where e1: "run_io h (idewait k False) e = (Done 0, e1)" "disk e1 = disk e" "busy e1 = 0"
    using idewait_ready [OF assms(1) ataD(1) [OF assms(1)], where ch = False and e = e] by auto
  note d = ataD(2,3,4,13) [OF assms(1)]
  have t: "busy (h_outb h 0x1F7 0x30 e) = 0" if "busy e = 0" for e
    using assms(2) that by (simp add: takes_data_def)
  show ?thesis
    using lba_small [OF assms(3), of _ "b_dev x"] assms(3)
    by (simp add: idestart_def run_bindio e1 started_ok_def sector_of_def BSIZE_def d t not_le [symmetric] Let_def)
qed

lemma run_bindio_Done:
  "run_io h (bindio m f) e = (Done y, e') \<longleftrightarrow> (\<exists>x e1. run_io h m e = (Done x, e1) \<and> run_io h (f x) e1 = (Done y, e'))"
  by (auto simp: run_bindio split: prod.splits ioend.splits)

text \<open>An interrupt on a CPU that holds neither lock is a step of the queue, and wakes the processes that sleep on
  the buffer.\<close>

lemma ideintr_steps:
  assumes "cpu_at c s" "lock_idle L_ide s" "lock_idle L_ptable s"
    and "run_io h (ide_step k Interrupt (bufs s, idequeue s)) e = (Done (bs, q), e')"
  shows "\<exists>t. ideintr c k h (s, e) = Ok (t, e') \<and> bufs t = bs \<and> idequeue t = q \<and> locks t = locks s
    \<and> cpus t = upd c settled (cpus s)
    \<and> ptable t = (case idequeue s of [] \<Rightarrow> ptable s | b # _ \<Rightarrow> map (wake_entry (Some (Chan_buf b))) (ptable s))"
proof -
  let ?g = "grabbed c L_ide s"
  have a: "acquire c L_ide s = Ok ?g"
    using assms(1,2) by (simp add: acquire_grabbed cpu_at_def)
  have g: "bufs ?g = bufs s" "idequeue ?g = idequeue s" "ptable ?g = ptable s"
    by (simp_all add: grabbed_def set_lock_def upd_cpu_def)
  have rel: "release c L_ide t = Ok (t\<lparr>cpus := upd c settled (cpus s), locks := locks s\<rparr>)"
    if "cpus t = cpus ?g" "locks t = locks ?g" for t :: "'a ide_state_scheme"
    using release_grabbed [of c s L_ide t] assms(1,2) that by (simp add: cpu_at_def)
  show ?thesis
  proof (cases "idequeue s")
    case Nil
    then show ?thesis
      using assms(4) rel [of ?g] by (simp add: ideintr_def a g)
  next
    case (Cons b r)
    then obtain e1 where io: "run_io h (ide_collect k b (bufs s)) e = (Done bs, e1)"
      "run_io h (ide_next k r bs) e1 = (Done (), e')" "q = r"
      using assms(4) by (auto simp: run_bindio_Done)
    let ?t = "?g\<lparr>idequeue := r, bufs := bs\<rparr>"
    have at: "cpu_at c ?t" "ncli (the_cpu c ?t) \<noteq> 0" "lock_idle L_ptable ?t"
      using assms(1,3) by (auto simp: cpu_at_def grabbed_def nth_upd lock_idle_def cpu_ok_def)
    then have "upd c settled (cpus ?t) = cpus ?t"
      by (simp add: upd_def settled_def list_update_same_conv)
    then have w: "wakeup c ch ?t = Ok (wakeup1 ch ?t)" for ch
      using wakeup_eq [OF at(1,3)] by (simp add: settle_def upd_cpu_def wakeup1_def)
    show ?thesis
      using rel [of "wakeup1 (Some (Chan_buf b)) ?t"]
      by (simp add: ideintr_def a g Cons io_res_def io w wakeup1_def)
  qed
qed

text \<open>The driver and the specification in step.\<close>

definition ide_rel :: "('e \<Rightarrow> uint \<Rightarrow> uchar) \<Rightarrow> ('e \<Rightarrow> bool \<times> nat \<Rightarrow> block) \<Rightarrow> buf list \<times> nat list \<Rightarrow> 'e
    \<Rightarrow> (buf list \<times> (bool \<times> nat \<Rightarrow> block)) \<times> nat list \<Rightarrow> bool" where
  "ide_rel reg disk w e v \<longleftrightarrow>
     (case (w, v) of ((bs, q), ((bs', D), q')) \<Rightarrow>
        bs' = bs \<and> q' = q \<and> distinct q \<and> (\<forall>b \<in> set q. b < length bs \<and> b_blockno (bs ! b) < FSSIZE)
        \<and> (case q of [] \<Rightarrow> disk e = D | b # _ \<Rightarrow> started_ok reg disk (bs ! b) D e))"

lemma ide_collect_transfer:
  assumes "ata k h busy err reg disk" "started_ok reg disk (bs ! b) D e" "b < length bs"
  shows "\<exists>e' f. run_io h (ide_collect k b bs) e = (Done (fst (transfer f b (bs, D))), e')
    \<and> disk e' = snd (transfer f b (bs, D)) \<and> (f \<longrightarrow> (\<exists>e. err e))"
proof (cases "b_flags (bs ! b) AND B_DIRTY = 0")
  case True
  obtain e1 where e1: "run_io h (idewait k True) e = (Done (if err e1 then -1 else 0), e1)" "reg e1 = reg e"
    "disk e1 = disk e" "busy e1 = 0"
    using idewait_ready [OF assms(1) ataD(1) [OF assms(1)], where ch = True and e = e] by auto
  show ?thesis
  proof (cases "err e1")
    case err: True
    then have "run_io h (ide_collect k b bs) e = (Done (fst (transfer True b (bs, D))), e1)"
      "disk e1 = snd (transfer True b (bs, D))"
      using True assms(2,3) e1 by (auto simp: ide_collect_def run_bindio started_ok_def transfer_def upd_def Let_def)
    then show ?thesis
      using err by blast
  next
    case False
    then have "run_io h (ide_collect k b bs) e = (Done (fst (transfer False b (bs, D))), snd (h_insl h 0x1F0 512 e1))"
      "disk (snd (h_insl h 0x1F0 512 e1)) = snd (transfer False b (bs, D))"
      using True assms(2,3) e1 ataD(14,15) [OF assms(1), of e1]
      by (auto simp: ide_collect_def run_bindio started_ok_def transfer_def split_beta BSIZE_def upd_def Let_def)
    then show ?thesis
      by blast
  qed
next
  case False
  then have "run_io h (ide_collect k b bs) e = (Done (fst (transfer False b (bs, D))), e)"
    "disk e = snd (transfer False b (bs, D))"
    using assms(2,3) by (auto simp: ide_collect_def started_ok_def transfer_def upd_def Let_def)
  then show ?thesis
    by blast
qed

lemma transfer_other: "fst (transfer f b (bs, D)) ! b' = bs ! b'" if "b \<noteq> b'"
  using that by (simp add: transfer_def Let_def)

lemma transfer_blocks: "map b_blockno (fst (transfer f b (bs, D))) = map b_blockno bs"
  by (cases "b < length bs") (simp_all add: transfer_def Let_def map_update list_update_same_conv list_update_beyond)

lemma request_refines:
  assumes "ata k h busy err reg disk" "takes_data h busy" "ide_rel reg disk (bs, q) e ((bs, D), q)"
    and b: "b < length bs" "b \<notin> set q" "b_blockno (bs ! b) < FSSIZE"
  shows "\<exists>e'. run_io h (ide_step k (Request b) (bs, q)) e = (Done (bs, q @ [b]), e')
    \<and> ide_rel reg disk (bs, q @ [b]) e' ((bs, D), q @ [b])"
proof (cases q)
  case Nil
  then obtain e' where "run_io h (idestart k (Some (bs ! b))) e = (Done (), e')" "started_ok reg disk (bs ! b) D e'"
    using idestart_starts [OF assms(1,2), of "bs ! b" e] assms(3) b by (auto simp: ide_rel_def)
  then show ?thesis
    using assms(3) b Nil by (auto simp: ide_rel_def ide_append_def run_bindio)
qed (use assms(3) b in \<open>auto simp: ide_rel_def ide_append_def\<close>)

lemma interrupt_refines:
  assumes "ata k h busy err reg disk" "takes_data h busy" "ide_rel reg disk (bs, q) e ((bs, D), q)"
  shows "\<exists>bs' D' e' f. run_io h (ide_step k Interrupt (bs, q)) e = (Done (bs', tl q), e')
    \<and> disk_step (Interrupt, f) ((bs, D), q) = ((bs', D'), tl q) \<and> ide_rel reg disk (bs', tl q) e' ((bs', D'), tl q)
    \<and> map b_blockno bs' = map b_blockno bs \<and> (f \<longrightarrow> (\<exists>e. err e))"
proof (cases q)
  case Nil
  then show ?thesis
    using assms(3) by auto
next
  case (Cons b r)
  obtain e1 f where e1: "run_io h (ide_collect k b bs) e = (Done (fst (transfer f b (bs, D))), e1)"
    "disk e1 = snd (transfer f b (bs, D))" "f \<longrightarrow> (\<exists>e. err e)"
    using ide_collect_transfer [OF assms(1), of bs b D e] assms(3) by (fastforce simp: Cons ide_rel_def)
  obtain bs' D' where t: "transfer f b (bs, D) = (bs', D')"
    by fastforce
  have blocks: "map b_blockno bs' = map b_blockno bs"
    using transfer_blocks [of f b bs D] by (simp add: t)
  have r: "b' < length bs' \<and> b_blockno (bs' ! b') < FSSIZE" if "b' \<in> set r" for b'
  proof -
    have "b \<noteq> b'" "b' < length bs" "b_blockno (bs ! b') < FSSIZE"
      using that assms(3) by (auto simp: Cons ide_rel_def)
    then show ?thesis
      using transfer_other [of b b' f bs D] map_eq_imp_length_eq [OF blocks] by (simp add: t)
  qed
  have "\<exists>e2. run_io h (ide_next k r bs') e1 = (Done (), e2)
      \<and> (case r of [] \<Rightarrow> disk e2 = D' | b' # _ \<Rightarrow> started_ok reg disk (bs' ! b') D' e2)"
    using idestart_starts [OF assms(1,2), of "bs' ! hd r" e1] r e1(2) t by (cases r) (auto simp: ide_next_def)
  then obtain e2 where "run_io h (ide_next k r bs') e1 = (Done (), e2)"
    "case r of [] \<Rightarrow> disk e2 = D' | b' # _ \<Rightarrow> started_ok reg disk (bs' ! b') D' e2"
    by blast
  then show ?thesis
    using assms(3) r e1(1,3) blocks
    by (intro exI [of _ bs'] exI [of _ D'] exI [of _ e2] exI [of _ f]) (auto simp: Cons ide_rel_def run_bindio t)
qed

lemma fill_refines:
  assumes "ide_rel reg disk (bs, q) e ((bs, D), q)" "b \<notin> set q"
  shows "ide_rel reg disk (bs[b := x], q) e ((bs[b := x], D), q)"
proof -
  have "bs[b := x] ! b' = bs ! b'" if "b' \<in> set q" for b'
    using that assms(2) by (metis nth_list_update_neq)
  then show ?thesis
    using assms by (cases q) (auto simp: ide_rel_def)
qed

lemma ide_run_refines:
  assumes "ata k h busy err reg disk" "takes_data h busy"
    and "ide_rel reg disk (bs, q) e ((bs, D), q)" "ide_events_ok evs (map b_blockno bs) q"
  shows "\<exists>bs' q' e' D' fs. run_io h (ide_run k evs (bs, q)) e = (Done (bs', q'), e')
    \<and> length fs = length evs \<and> fold disk_step (zip evs fs) ((bs, D), q) = ((bs', D'), q')
    \<and> ide_rel reg disk (bs', q') e' ((bs', D'), q') \<and> (True \<in> set fs \<longrightarrow> (\<exists>e. err e))"
  using assms(3,4)
proof (induction evs arbitrary: bs q e D)
  case Nil
  then show ?case
    by auto
next
  case (Cons ev evs)
  have "\<exists>bs1 q1 e1 D1 f. run_io h (ide_step k ev (bs, q)) e = (Done (bs1, q1), e1)
    \<and> disk_step (ev, f) ((bs, D), q) = ((bs1, D1), q1) \<and> ide_rel reg disk (bs1, q1) e1 ((bs1, D1), q1)
    \<and> ide_events_ok evs (map b_blockno bs1) q1 \<and> (f \<longrightarrow> (\<exists>e. err e))"
  proof (cases ev)
    case (Request b)
    then have "b < length bs" "b \<notin> set q" "b_blockno (bs ! b) < FSSIZE" "ide_events_ok evs (map b_blockno bs) (q @ [b])"
      using Cons.prems(2) by auto
    with request_refines [OF assms(1,2) Cons.prems(1)] show ?thesis
      by (force simp: Request intro: exI [of _ False])
  next
    case Interrupt
    then show ?thesis
      using interrupt_refines [OF assms(1,2) Cons.prems(1)] Cons.prems(2) by fastforce
  next
    case (Fill b x)
    then show ?thesis
      using fill_refines [OF Cons.prems(1), of b x] Cons.prems(2)
      by (auto simp: map_update intro!: exI [of _ False])
  qed
  then obtain bs1 q1 e1 D1 f where s: "run_io h (ide_step k ev (bs, q)) e = (Done (bs1, q1), e1)"
    "disk_step (ev, f) ((bs, D), q) = ((bs1, D1), q1)" "ide_rel reg disk (bs1, q1) e1 ((bs1, D1), q1)"
    "ide_events_ok evs (map b_blockno bs1) q1" "f \<longrightarrow> (\<exists>e. err e)"
    by blast
  obtain bs' q' e' D' fs where r: "run_io h (ide_run k evs (bs1, q1)) e1 = (Done (bs', q'), e')" "length fs = length evs"
    "fold disk_step (zip evs fs) ((bs1, D1), q1) = ((bs', D'), q')" "ide_rel reg disk (bs', q') e' ((bs', D'), q')"
    "True \<in> set fs \<longrightarrow> (\<exists>e. err e)"
    using Cons.IH [OF s(3,4)] by blast
  then show ?case
    using s by (intro exI [of _ bs'] exI [of _ q'] exI [of _ e'] exI [of _ D'] exI [of _ "f # fs"])
      (auto simp: run_bindio)
qed

text \<open>C19: For any disk with the task file of the standard that takes the data of a write at once, and any sequence of
  requests, interrupts and changes of buffers that are not in the queue, the driver serves the requests in the order in
  which they came: buffers, queue and disk are as if each transfer between buffer and disk happened at once at its
  interrupt; the driver never hangs, and once the queue is empty the disk holds exactly the blocks of that specification.
  At an interrupt at which the disk reports an error, a read leaves the data of the buffer as it was and marks the
  buffer valid; no read fails that way if the disk never reports one.\<close>

theorem ide_serves_in_order:
  assumes "ata k h busy err reg disk" "takes_data h busy" "ide_events_ok evs (map b_blockno bs) []"
  shows "\<exists>bs' q' e' D' fs. run_io h (ide_run k evs (bs, [])) e = (Done (bs', q'), e')
    \<and> length fs = length evs \<and> fold disk_step (zip evs fs) ((bs, disk e), []) = ((bs', D'), q')
    \<and> (q' = [] \<longrightarrow> disk e' = D') \<and> (True \<in> set fs \<longrightarrow> (\<exists>e. err e))"
proof -
  have "ide_rel reg disk (bs, []) e ((bs, disk e), [])"
    by (simp add: ide_rel_def)
  from ide_run_refines [OF assms(1,2) this assms(3)] show ?thesis
    by (fastforce simp: ide_rel_def)
qed

text \<open>A disk with two drives, which is busy for two readings after each read command, and without errors. Its last
  component counts, modulo 3, the readings for which it is still busy.\<close>

definition ata_disk :: "((uint \<Rightarrow> uchar) \<times> (bool \<times> nat \<Rightarrow> block) \<times> nat) hw" where
  "ata_disk = \<lparr>h_inb = \<lambda>p (r, D, n). (if n mod 3 = 0 then 0x40 else 0x80, r, D, n mod 3 - 1),
     h_outb = \<lambda>p v (r, D, n). (if n mod 3 = 0 then (r(p := v), D, if p = 0x1F7 \<and> v = 0x20 then 2 else 0) else (r, D, n)),
     h_insl = \<lambda>p m (r, D, n). (if n mod 3 = 0 then D (lba r) else [], r, D, n),
     h_outsl = \<lambda>p bs (r, D, n). (r, if n mod 3 = 0 then D(lba r := bs) else D, n),
     h_rd = \<lambda>a e. (0, e), h_wr = \<lambda>a v e. e, h_wr16 = \<lambda>a v e. e\<rparr>"

abbreviation disk_busy :: "(uint \<Rightarrow> uchar) \<times> (bool \<times> nat \<Rightarrow> block) \<times> nat \<Rightarrow> nat" where
  "disk_busy e \<equiv> snd (snd e) mod 3"

lemma ata_disk_ok: "ata 3 ata_disk disk_busy (\<lambda>_. False) fst (fst \<circ> snd)"
  by (auto simp: ata_def ata_disk_def)

lemma ata_disk_takes: "takes_data ata_disk disk_busy"
  by (auto simp: takes_data_def ata_disk_def)

definition buf_of :: "uint \<Rightarrow> uint \<Rightarrow> block \<Rightarrow> buf" where
  "buf_of flags n d = \<lparr>b_flags = flags, b_dev = 1, b_blockno = n, b_refcnt = 1, b_data = d\<rparr>"

text \<open>Two requests wait at the same time: a block is written and read back by the one behind it.\<close>

theorem ide_serves_in_order_witness:
  "let evs = [Request 1, Request 0, Interrupt, Interrupt]; bs = [buf_of 0 7 [], buf_of 4 7 [1, 2]]; D = \<lambda>_. []
   in \<exists>bs' q' e' D'. run_io ata_disk (ide_run 3 evs (bs, [])) (\<lambda>_. 0, D, 0) = (Done (bs', q'), e')
      \<and> bs' = [buf_of 2 7 [1, 2], buf_of 2 7 [1, 2]] \<and> q' = [] \<and> fst (snd e') = D' \<and> D' = D((True, 7) := [1, 2])"
proof -
  let ?evs = "[Request 1, Request 0, Interrupt, Interrupt]" and ?bs = "[buf_of 0 7 [], buf_of 4 7 [1, 2]]"
  let ?D = "\<lambda>_ :: bool \<times> nat. [] :: block"
  have "ide_events_ok ?evs (map b_blockno ?bs) []"
    by (simp add: buf_of_def FSSIZE_def)
  then obtain bs' q' e' D' fs where r: "run_io ata_disk (ide_run 3 ?evs (?bs, [])) (\<lambda>_. 0, ?D, 0) = (Done (bs', q'), e')"
    "length fs = length ?evs" "fold disk_step (zip ?evs fs) ((?bs, ?D), []) = ((bs', D'), q')"
    "q' = [] \<longrightarrow> fst (snd e') = D'" "True \<notin> set fs"
    using ide_serves_in_order [OF ata_disk_ok ata_disk_takes, of ?evs ?bs "(\<lambda>_. 0, ?D, 0)"] by auto
  then obtain f0 f1 f2 f3 where "fs = [f0, f1, f2, f3]"
    by (auto simp: length_Suc_conv)
  then have "fs = [False, False, False, False]"
    using r(5) by simp
  then have "((bs', D'), q') = (([buf_of 2 7 [1, 2], buf_of 2 7 [1, 2]], ?D((True, 7) := [1, 2])), [])"
    using r(3) by (simp add: buf_of_def transfer_def sector_of_def B_DIRTY_def B_VALID_def)
  then have "bs' = [buf_of 2 7 [1, 2], buf_of 2 7 [1, 2]]" "q' = []" "D' = ?D((True, 7) := [1, 2])"
    by simp_all
  then show ?thesis
    using r(1,4) unfolding Let_def by blast
qed

end
