(* ===== verification/Boot.thy ===== *)
theory Boot
  imports Ide
begin

text \<open>
  Starting the machine: the boot loader of \<^verbatim>\<open>bootmain.c\<close>, the search for the processors in \<^verbatim>\<open>mp.c\<close>, the descriptor
  tables of \<^verbatim>\<open>vm.c\<close> and \<^verbatim>\<open>trap.c\<close>, and \<^verbatim>\<open>main.c\<close>, which calls the initialisation of every part of the kernel. The loader
  works on physical memory, the rest on kernel addresses. Loops over memory that the code ends by comparing
  pointers carry a number of rounds \<open>k\<close>.
\<close>

section \<open>Boot loader\<close>

primrec waitdisk :: "nat \<Rightarrow> unit io" where
  "waitdisk 0 = ILoop"
| "waitdisk (Suc k) = Inb 0x1F7 (\<lambda>v. if v AND 0xC0 \<noteq> 0x40 then waitdisk k else IRet ())"

definition readsect :: "nat \<Rightarrow> uint \<Rightarrow> uint \<Rightarrow> mem \<Rightarrow> mem io" where
  "readsect k dst offset m =
     thenio (waitdisk k)
    (Outb 0x1F2 1 (Outb 0x1F3 (ucast offset) (Outb 0x1F4 (ucast (drop_bit 8 offset))
    (Outb 0x1F5 (ucast (drop_bit 16 offset)) (Outb 0x1F6 (ucast (drop_bit 24 offset OR 0xE0))
    (Outb 0x1F7 0x20
    (thenio (waitdisk k)
    (Insl 0x1F0 512 (\<lambda>bs. IRet (put_bytes m dst bs)))))))))) "

primrec readseg_loop :: "nat \<Rightarrow> nat \<Rightarrow> uint \<Rightarrow> uint \<Rightarrow> uint \<Rightarrow> mem \<Rightarrow> mem io" where
  "readseg_loop 0 k pa epa offset m = ILoop"
| "readseg_loop (Suc n) k pa epa offset m =
     (if pa < epa then bindio (readsect k pa offset m) (readseg_loop n k (pa + 512) epa (offset + 1))
      else IRet m)"

text \<open>A segment of \<open>count\<close> bytes takes at most \<open>count div 512 + 2\<close> sectors.\<close>

definition readseg :: "nat \<Rightarrow> uint \<Rightarrow> uint \<Rightarrow> uint \<Rightarrow> mem \<Rightarrow> mem io" where
  "readseg k pa count offset m =
     (let epa = pa + count; pa = pa - offset mod 512; offset = offset div 512 + 1
      in readseg_loop (unat count div 512 + 3) k pa epa offset m)"

definition load16 :: "mem \<Rightarrow> uint \<Rightarrow> ushort" where
  "load16 m a = (ucast (m a) :: ushort) OR push_bit 8 (ucast (m (a + 1)))"

primrec boot_segments :: "nat \<Rightarrow> nat \<Rightarrow> uint \<Rightarrow> uint \<Rightarrow> mem \<Rightarrow> mem io" where
  "boot_segments 0 k ph eph m = IRet m"
| "boot_segments (Suc n) k ph eph m =
     (if ph < eph
      then let pa = load32 m (ph + 12); filesz = load32 m (ph + 16)
           in bindio (readseg k pa filesz (load32 m (ph + 4)) m) (\<lambda>m.
                let filesz = load32 m (ph + 16); memsz = load32 m (ph + 20);
                    m = (if memsz > filesz then stosb m (pa + filesz) 0 (memsz - filesz) else m)
                in boot_segments n k (ph + 32) eph m)
      else IRet m)"

text \<open>The result is the entry point that is called, or \<open>None\<close> if the file is no executable.\<close>

definition bootmain :: "nat \<Rightarrow> mem \<Rightarrow> (uint option \<times> mem) io" where
  "bootmain k m =
     (let elf = 0x10000
      in bindio (readseg k elf 4096 0 m) (\<lambda>m.
         if load32 m elf \<noteq> 0x464C457F then IRet (None, m)
         else let ph = elf + load32 m (elf + 28); phnum = load16 m (elf + 44)
              in bindio (boot_segments (unat phnum) k ph (ph + 32 * ucast phnum) m) (\<lambda>m.
                 IRet (Some (load32 m (elf + 24)), m))))"

section \<open>Processors\<close>

definition NCPU :: nat where "NCPU = 8"

definition mp_sum :: "mem \<Rightarrow> uint \<Rightarrow> nat \<Rightarrow> uchar" where
  "mp_sum m a len = sum_list (map (\<lambda>i. m (a + of_nat i)) [0..<len])"

definition has_sig :: "mem \<Rightarrow> uint \<Rightarrow> string \<Rightarrow> bool" where
  "has_sig m a sig \<longleftrightarrow> map (\<lambda>i. m (a + of_nat i)) [0..<4] = map of_char sig"

primrec mpsearch_loop :: "nat \<Rightarrow> mem \<Rightarrow> uint \<Rightarrow> uint \<Rightarrow> uint" where
  "mpsearch_loop 0 m p e = 0"
| "mpsearch_loop (Suc n) m p e =
     (if p < e
      then if has_sig m p ''_MP_'' \<and> mp_sum m p 16 = 0 then p else mpsearch_loop n m (p + 16) e
      else 0)"

definition mpsearch1 :: "mem \<Rightarrow> uint \<Rightarrow> nat \<Rightarrow> uint" where
  "mpsearch1 m a len = (let addr = P2V a; e = addr + of_nat len in mpsearch_loop (len div 16 + 1) m addr e)"

definition mpsearch :: "mem \<Rightarrow> uint" where
  "mpsearch m =
     (let bda = P2V 0x400;
          p = push_bit 4 (push_bit 8 (ucast (m (bda + 0x0F))) OR ucast (m (bda + 0x0E)));
          mp = (if p \<noteq> 0 then mpsearch1 m p 1024
                else let p = (push_bit 8 (ucast (m (bda + 0x14))) OR ucast (m (bda + 0x13))) * 1024
                     in mpsearch1 m (p - 1024) 1024)
      in if mp \<noteq> 0 then mp else mpsearch1 m 0xF0000 0x10000)"

definition mpconfig :: "mem \<Rightarrow> (uint \<times> uint) option" where
  "mpconfig m =
     (let mp = mpsearch m
      in if mp = 0 \<or> load32 m (mp + 4) = 0 then None
         else let conf = P2V (load32 m (mp + 4))
              in if \<not> has_sig m conf ''PCMP'' then None
                 else if m (conf + 6) \<noteq> 1 \<and> m (conf + 6) \<noteq> 4 then None
                 else if mp_sum m conf (unat (load16 m (conf + 4))) \<noteq> 0 then None
                 else Some (mp, conf))"

record mpinfo =
  mi_cpus :: "cpu list"
  ncpu :: nat
  ioapicid :: uchar

primrec mp_entries :: "nat \<Rightarrow> mem \<Rightarrow> uint \<Rightarrow> uint \<Rightarrow> bool \<Rightarrow> mpinfo \<Rightarrow> (bool \<times> mpinfo) io" where
  "mp_entries 0 m p e ismp w = ILoop"
| "mp_entries (Suc k) m p e ismp w =
     (if p < e
      then if m p = 0 then
             let w = (if ncpu w < NCPU
                      then w\<lparr>mi_cpus := upd (ncpu w) (\<lambda>c. c\<lparr>apicid := m (p + 1)\<rparr>) (mi_cpus w), ncpu := ncpu w + 1\<rparr>
                      else w)
             in mp_entries k m (p + 20) e ismp w
           else if m p = 2 then mp_entries k m (p + 8) e ismp (w\<lparr>ioapicid := m (p + 1)\<rparr>)
           else if m p = 1 \<or> m p = 3 \<or> m p = 4 then mp_entries k m (p + 8) e ismp w
           else mp_entries k m p e False w
      else IRet (ismp, w))"

text \<open>The result includes the address of the local interrupt controller.\<close>

definition mpinit :: "nat \<Rightarrow> mem \<Rightarrow> mpinfo \<Rightarrow> (mpinfo \<times> uint) io" where
  "mpinit k m w =
     (case mpconfig m of None \<Rightarrow> IStop ''Expect to run on an SMP''
      | Some (mp, conf) \<Rightarrow>
          let lapic = load32 m (conf + 36)
          in bindio (mp_entries k m (conf + 44) (conf + ucast (load16 m (conf + 4))) True w) (\<lambda>(ismp, w).
               if \<not> ismp then IStop (''Didn'' @ [CHR 0x27] @ ''t find a suitable machine'')
               else if m (mp + 12) \<noteq> 0
               then Outb 0x22 0x70 (Inb 0x23 (\<lambda>v. Outb 0x23 (v OR 1) (IRet (w, lapic))))
               else IRet (w, lapic)))"

section \<open>Descriptor tables\<close>

record segdesc =
  lim_15_0 :: uint
  base_15_0 :: uint
  base_23_16 :: uint
  sd_type :: uint
  sd_s :: uint
  sd_dpl :: uint
  sd_p :: uint
  lim_19_16 :: uint
  sd_db :: uint
  sd_g :: uint
  base_31_24 :: uint

definition SEG :: "uint \<Rightarrow> uint \<Rightarrow> uint \<Rightarrow> uint \<Rightarrow> segdesc" where
  "SEG ty base lim dpl =
     \<lparr>lim_15_0 = drop_bit 12 lim AND 0xFFFF, base_15_0 = base AND 0xFFFF, base_23_16 = drop_bit 16 base AND 0xFF,
      sd_type = ty, sd_s = 1, sd_dpl = dpl, sd_p = 1, lim_19_16 = drop_bit 28 lim, sd_db = 1, sd_g = 1,
      base_31_24 = drop_bit 24 base\<rparr>"

text \<open>The descriptor table of a CPU, entries 1 to 4 of \<^verbatim>\<open>gdt\<close>.\<close>

definition seginit :: "segdesc list \<Rightarrow> segdesc list" where
  "seginit gdt = gdt[1 := SEG 0xA 0 0xFFFFFFFF 0, 2 := SEG 0x2 0 0xFFFFFFFF 0, 3 := SEG 0xA 0 0xFFFFFFFF 3,
                     4 := SEG 0x2 0 0xFFFFFFFF 3]"

record gatedesc =
  gd_off :: uint
  gd_cs :: uint
  gd_type :: uint
  gd_dpl :: uint
  gd_p :: uint

definition SETGATE :: "bool \<Rightarrow> uint \<Rightarrow> uint \<Rightarrow> uint \<Rightarrow> gatedesc" where
  "SETGATE istrap sel off d =
     \<lparr>gd_off = off, gd_cs = sel AND 0xFFFF, gd_type = (if istrap then 0xF else 0xE), gd_dpl = d, gd_p = 1\<rparr>"

definition tvinit :: "(nat \<Rightarrow> uint) \<Rightarrow> 'a mach_scheme \<Rightarrow> gatedesc list \<times> 'a mach_scheme" where
  "tvinit vectors s =
     (let idt = map (\<lambda>i. SETGATE False 8 (vectors i) 0) [0..<256]
      in (idt[64 := SETGATE True 8 (vectors 64) 3], initlock L_tickslock ''time'' s))"

section \<open>The order of initialisation\<close>

text \<open>What the devices of a running machine have been found to be, and the descriptor tables.\<close>

record board =
  mpi :: mpinfo
  lapic :: uint
  ioapic :: uint
  uart :: bool
  gdts :: "segdesc list list"
  idt :: "gatedesc list"

text \<open>The images and addresses that the linker provides.\<close>

record image =
  vectors_of :: "nat \<Rightarrow> uint"
  disk_img :: "uint \<Rightarrow> block"
  disk_img_size :: uint
  entryother :: uint
  entryother_size :: uint
  initcode :: uint
  initcode_size :: uint
  mpenter_addr :: uint
  entrypgdir_addr :: uint

definition seginit_cpu :: "nat \<Rightarrow> board \<Rightarrow> board" where
  "seginit_cpu c b = b\<lparr>gdts := upd c seginit (gdts b)\<rparr>"

text \<open>\<^verbatim>\<open>mpmain\<close> up to the loop of the scheduler.\<close>

definition mpmain :: "nat \<Rightarrow> 'a file_state_scheme \<Rightarrow> 'a file_state_scheme res" where
  "mpmain c s =
     bindr (cprintf c (''cpu%d: starting %d'' @ [CHR 0x0A]) [A_int (int c), A_int (int c)] s) (\<lambda>s.
       let s = upd_cpu c (\<lambda>k. k\<lparr>started := True\<rparr>) s
       in Ok (scheduler_start c s))"

definition mpenter :: "nat \<Rightarrow> 'e hw \<Rightarrow> nat \<Rightarrow> board \<times> 'a file_state_scheme \<times> 'e
    \<Rightarrow> (board \<times> 'a file_state_scheme \<times> 'e) res" where
  "mpenter k h c = (\<lambda>(b, s, e).
     let s = switchkvm c s; b = seginit_cpu c b
     in bindr (io_res h (lapicinit k (lapic b)) e) (\<lambda>(_, e).
        bindr (mpmain c s) (\<lambda>s. Ok (b, s, e))))"

text \<open>The boot processor waits for each of the others until it has run \<^verbatim>\<open>mpenter\<close>.\<close>

primrec startothers_loop :: "nat \<Rightarrow> image \<Rightarrow> 'e hw \<Rightarrow> nat \<Rightarrow> nat list \<Rightarrow> board \<times> 'a file_state_scheme \<times> 'e
    \<Rightarrow> (board \<times> 'a file_state_scheme \<times> 'e) res" where
  "startothers_loop k im h me [] w = Ok w"
| "startothers_loop k im h me (c # cs) w =
     (if c = me then startothers_loop k im h me cs w
      else case w of (b, s, e) \<Rightarrow>
        let code = P2V 0x7000
        in bindr (kalloc me s) (\<lambda>(stack, s).
             let s = poke (code - 4) (stack + 4096) s;
                 s = poke (code - 8) (mpenter_addr im) s;
                 s = poke (code - 12) (V2P (entrypgdir_addr im)) s
             in bindr (io_res h (lapicstartap (lapic b) (apicid (the_cpu c s)) (V2P code)) e) (\<lambda>(_, e).
                bindr (mpenter k h c (b, s, e)) (\<lambda>w. startothers_loop k im h me cs w))))"

definition startothers :: "nat \<Rightarrow> image \<Rightarrow> 'e hw \<Rightarrow> nat \<Rightarrow> board \<times> 'a file_state_scheme \<times> 'e
    \<Rightarrow> (board \<times> 'a file_state_scheme \<times> 'e) res" where
  "startothers k im h me = (\<lambda>(b, s, e).
     let s = s\<lparr>ram := memmove (ram s) (P2V 0x7000) (entryother im) (entryother_size im)\<rparr>
     in startothers_loop k im h me [0..<ncpu (mpi b)] (b, s, e))"

text \<open>\<^verbatim>\<open>main\<close> on the boot processor \<open>c\<close>, up to the loop of the scheduler; the disk is \<^verbatim>\<open>memide.c\<close>.\<close>

definition main_devices :: "nat \<Rightarrow> 'e hw \<Rightarrow> nat \<Rightarrow> board \<times> 'a file_state_scheme \<times> 'e
    \<Rightarrow> (board \<times> 'a file_state_scheme \<times> 'e) res" where
  "main_devices k h c = (\<lambda>(b, s, e).
     bindr (io_res h (mpinit k (ram s) ((mpi b)\<lparr>mi_cpus := cpus s\<rparr>)) e) (\<lambda>((w, l), e).
       let s = s\<lparr>cpus := mi_cpus w\<rparr>; b = b\<lparr>mpi := w, lapic := l\<rparr>
       in bindr (io_res h (lapicinit k (lapic b)) e) (\<lambda>(_, e).
          let b = seginit_cpu c b
          in bindr (io_res h picinit e) (\<lambda>(_, e).
             bindr (io_res h (ioapicinit (ioapicid (mpi b))) e) (\<lambda>((io, msg), e).
             bindr (if msg = [] then Ok s else cprintf c msg [] s) (\<lambda>s.
               let b = b\<lparr>ioapic := io\<rparr>; s = consoleinit s
               in bindr (io_res h (ioapicenable (ioapic b) 1 0) e) (\<lambda>(_, e).
                  bindr (io_res h (uartinit (ioapic b)) e) (\<lambda>(u, e).
                  Ok (b\<lparr>uart := u\<rparr>, s, e)))))))))"

definition main :: "nat \<Rightarrow> image \<Rightarrow> 'e hw \<Rightarrow> nat \<Rightarrow> board \<times> 'a file_state_scheme \<times> 'e
    \<Rightarrow> (board \<times> 'a file_state_scheme \<times> 'e) res" where
  "main k im h c = (\<lambda>(b, s, e).
     bindr (kinit1 c (kend s) (P2V (4 * 1024 * 1024)) s) (\<lambda>s.
     bindr (kvmalloc c s) (\<lambda>s.
     bindr (main_devices k h c (b, s, e)) (\<lambda>(b, s, e).
       let s = pinit s;
           (i, s) = tvinit (vectors_of im) s; b = b\<lparr>idt := i\<rparr>;
           s = binit s; s = fileinit s; s = Bio.ideinit (disk_img im) (disk_img_size im) s
       in bindr (startothers k im h c (b, s, e)) (\<lambda>(b, s, e).
          bindr (kinit2 c (P2V (4 * 1024 * 1024)) (P2V PHYSTOP) s) (\<lambda>s.
          bindr (userinit c (initcode im) (initcode_size im) s) (\<lambda>s.
          bindr (mpmain c s) (\<lambda>s. Ok (b, s, e)))))))))"

section \<open>Loading from the disk\<close>

lemma put_bytes_at:
  "length bs < 2 ^ 32 \<Longrightarrow> put_bytes m a bs x = (if unat (x - a) < length bs then bs ! unat (x - a) else m x)"
proof (induction bs arbitrary: m a)
  case (Cons b bs)
  show ?case
  proof (cases "x = a")
    case True
    have "\<not> unat (a - (a + 1)) < length bs"
      using Cons.prems by (simp add: unsigned_minus_1_eq_mask mask_eq_exp_minus_1)
    then show ?thesis
      using Cons True by simp
  next
    case False
    then have "unat (x - (a + 1)) = unat (x - a) - 1" "unat (x - a) \<noteq> 0"
      using unat_minus_one [of "x - a"] by (simp_all add: diff_diff_add unat_eq_zero)
    then show ?thesis
      using Cons False by (auto simp: nth_Cons')
  qed
qed simp

lemma waitdisk_ready:
  assumes "ata k h busy err reg disk"
  shows "\<exists>e'. run_io h (waitdisk k) e = (Done (), e') \<and> reg e' = reg e \<and> disk e' = disk e \<and> busy e' = 0"
proof -
  note d = ataD [OF assms]
  have "busy e < n \<Longrightarrow> \<exists>e'. run_io h (waitdisk n) e = (Done (), e') \<and> reg e' = reg e \<and> disk e' = disk e \<and> busy e' = 0" for n
  proof (induction n arbitrary: e)
    case (Suc n)
    show ?case
    proof (cases "busy e = 0")
      case True
      then show ?thesis
        using d(7,9) [of e] by (simp add: split_beta d(5,6))
    next
      case False
      then show ?thesis
        using Suc.IH [of "snd (h_inb h 0x1F7 e)"] Suc.prems d(11,12) [of e] by (auto simp: split_beta d(5,6))
    qed
  qed simp
  then show ?thesis
    using d(1) by blast
qed

lemma below_16: "n < 16 \<Longrightarrow> n \<in> {0, 1, 2, 3, 4, 5, 6, 7, 8, 9, 10, 11, 12, 13, 14, 15}" for n :: nat
  by simp presburger

lemma lba_28:
  fixes x :: uint
  assumes "unat x < 2 ^ 28" "r 0x1F3 = ucast x" "r 0x1F4 = ucast (drop_bit 8 x)" "r 0x1F5 = ucast (drop_bit 16 x)"
    "r 0x1F6 = ucast (drop_bit 24 x OR 0xE0)"
  shows "lba r = (False, unat x)"
proof -
  define y where "y = drop_bit 24 x"
  have y: "unat y < 16" "unat y = unat x div 16777216"
    using assms(1) by (simp_all add: y_def drop_bit_eq_div unat_div)
  have "\<not> bit (ucast (y OR 0xE0) :: uchar) 4 \<and> unat (ucast (y OR 0xE0) AND 0x0F :: uchar) = unat y"
  proof -
    have "unat y \<in> {0, 1, 2, 3, 4, 5, 6, 7, 8, 9, 10, 11, 12, 13, 14, 15}"
      using y(1) by (rule below_16)
    then have "y \<in> {0, 1, 2, 3, 4, 5, 6, 7, 8, 9, 10, 11, 12, 13, 14, 15}"
      by (simp add: word_unat_eq_iff)
    then show ?thesis
      by (elim insertE) simp_all
  qed
  moreover have "unat (ucast x :: uchar) = unat x mod 256"
    "unat (ucast (drop_bit 8 x) :: uchar) = unat x div 256 mod 256"
    "unat (ucast (drop_bit 16 x) :: uchar) = unat x div 65536 mod 256"
    by (simp_all add: unsigned_ucast_eq drop_bit_eq_div unat_div take_bit_eq_mod)
  moreover have "n mod 256 + 256 * (n div 256 mod 256) + 65536 * (n div 65536 mod 256) + 16777216 * (n div 16777216) = n" for n :: nat
  proof -
    have "n div 256 div 256 = n div 65536" "n div 65536 div 256 = n div 16777216"
      by (simp_all add: div_mult2_eq [symmetric])
    then show ?thesis
      using mod_mult_div_eq [of n 256] mod_mult_div_eq [of "n div 256" 256] mod_mult_div_eq [of "n div 65536" 256]
      by linarith
  qed
  ultimately show ?thesis
    using y(2) by (simp add: lba_def assms(2-5) y_def [symmetric])
qed

lemma readsect_reads:
  assumes "ata k h busy (\<lambda>_. False) reg disk" "unat offset < 2 ^ 28"
  shows "\<exists>e'. run_io h (readsect k dst offset m) e = (Done (put_bytes m dst (disk e (False, unat offset))), e') \<and> disk e' = disk e"
proof -
  note d = ataD [OF assms(1)]
  obtain e1 where e1: "run_io h (waitdisk k) e = (Done (), e1)" "disk e1 = disk e" "busy e1 = 0"
    using waitdisk_ready [OF assms(1)] by blast
  define e2 where "e2 = h_outb h 0x1F7 0x20 (h_outb h 0x1F6 (ucast (drop_bit 24 offset OR 0xE0))
    (h_outb h 0x1F5 (ucast (drop_bit 16 offset)) (h_outb h 0x1F4 (ucast (drop_bit 8 offset))
    (h_outb h 0x1F3 (ucast offset) (h_outb h 0x1F2 1 e1)))))"
  have e2: "disk e2 = disk e" "reg e2 0x1F7 = 0x20" "reg e2 0x1F2 = 1" "lba (reg e2) = (False, unat offset)"
    using lba_28 [OF assms(2), of "reg e2"] by (simp_all add: e2_def d(2,3,4) e1(2,3))
  obtain e3 where e3: "run_io h (waitdisk k) e2 = (Done (), e3)" "reg e3 = reg e2" "disk e3 = disk e2" "busy e3 = 0"
    using waitdisk_ready [OF assms(1)] by blast
  show ?thesis
    using d(14,15) [of e3] e2 e3 by (simp add: readsect_def run_bindio e1(1) e2_def [symmetric] split_beta)
qed

text \<open>What the disk holds from a sector on.\<close>

definition disk_byte :: "(bool \<times> nat \<Rightarrow> block) \<Rightarrow> nat \<Rightarrow> nat \<Rightarrow> uchar" where
  "disk_byte D sec j = D (False, sec + j div 512) ! (j mod 512)"

lemma readseg_loop_reads:
  assumes "ata k h busy (\<lambda>_. False) reg disk" "\<forall>x. length (disk e x) = 512"
    and "unat epa \<le> unat pa + 512 * n" "unat epa + 512 \<le> 2 ^ 32" "unat offset + n < 2 ^ 28"
  shows "\<exists>m' e'. run_io h (readseg_loop (Suc n) k pa epa offset m) e = (Done m', e')
    \<and> (\<forall>x. m' x = (if unat pa \<le> unat x \<and> unat pa + (unat x - unat pa) div 512 * 512 < unat epa
                    then disk_byte (disk e) (unat offset) (unat x - unat pa) else m x))"
  using assms(2-5)
proof (induction n arbitrary: pa offset m e)
  case 0
  then show ?case
    by (auto simp: word_less_nat_alt)
next
  case (Suc n)
  show ?case
  proof (cases "pa < epa")
    case False
    then show ?thesis
      by (auto simp: word_less_nat_alt)
  next
    case True
    let ?m = "put_bytes m pa (disk e (False, unat offset))"
    have u: "unat (pa + 512) = unat pa + 512" "unat (offset + 1) = unat offset + 1"
      using True Suc.prems by (simp_all add: word_less_nat_alt unat_plus_if')
    obtain e1 where e1: "run_io h (readsect k pa offset m) e = (Done ?m, e1)" "disk e1 = disk e"
      using readsect_reads [OF assms(1), of offset pa m e] Suc.prems(4) by auto
    obtain m' e' where m': "run_io h (readseg_loop (Suc n) k (pa + 512) epa (offset + 1) ?m) e1 = (Done m', e')"
      "\<forall>x. m' x = (if unat (pa + 512) \<le> unat x \<and> unat (pa + 512) + (unat x - unat (pa + 512)) div 512 * 512 < unat epa
                    then disk_byte (disk e1) (unat (offset + 1)) (unat x - unat (pa + 512)) else ?m x)"
      using Suc.IH [of e1 "pa + 512" "offset + 1" ?m] Suc.prems u e1(2) by auto
    have "m' x = (if unat pa \<le> unat x \<and> unat pa + (unat x - unat pa) div 512 * 512 < unat epa
                    then disk_byte (disk e) (unat offset) (unat x - unat pa) else m x)" for x
    proof -
      have len: "length (disk e (False, unat offset)) = 512"
        using Suc.prems(1) by simp
      consider "unat x < unat pa" | "unat pa \<le> unat x" "unat x < unat pa + 512" | "unat pa + 512 \<le> unat x"
        by linarith
      then show ?thesis
      proof cases
        case 1
        then have "512 \<le> unat (x - pa)"
          using True Suc.prems(3) by (simp add: unat_sub_if' word_less_nat_alt)
        then show ?thesis
          using 1 m'(2) by (simp add: u put_bytes_at len)
      next
        case 2
        then have "unat (x - pa) = unat x - unat pa" "unat x - unat pa < 512"
          by (simp_all add: unat_sub_if' less_diff_conv2)
        then show ?thesis
          using 2 m'(2) True by (simp add: u put_bytes_at len disk_byte_def word_less_nat_alt)
      next
        case 3
        define j where "j = unat x - (unat pa + 512)"
        have j: "unat x - unat pa = j + 512"
          using 3 by (simp add: j_def)
        have "512 \<le> unat (x - pa)"
          using 3 by (simp add: unat_sub_if')
        then have "?m x = m x"
          by (simp add: put_bytes_at len)
        moreover have "(j + 512) div 512 = Suc (j div 512)"
          by simp
        ultimately show ?thesis
          using 3 m'(2) by (simp add: u j j_def [symmetric] e1(2) disk_byte_def add.assoc)
      qed
    qed
    then show ?thesis
      using True e1(1) m'(1) by (auto simp: run_bindio)
  qed
qed

text \<open>C27: \<^verbatim>\<open>readseg\<close> of the boot loader, with any disk of the standard that reports no errors, puts the \<open>count\<close> bytes of the kernel image from
  \<open>offset\<close> on at \<open>pa\<close>, the image starting at sector 1, and writes at most the rest of the first and of the last sector
  besides; it never hangs for want of rounds.\<close>

theorem readseg_loads:
  assumes "ata k h busy (\<lambda>_. False) reg disk" "\<forall>x. length (disk e x) = 512"
    "unat pa + unat count + 512 \<le> 2 ^ 32" "unat offset mod 512 \<le> unat pa"
  shows "\<exists>m' e'. run_io h (readseg k pa count offset m) e = (Done m', e')
    \<and> (\<forall>i < unat count. m' (pa + of_nat i) = disk_byte (disk e) 1 (unat offset + i))
    \<and> (\<forall>x. unat x < unat pa - unat offset mod 512 \<or> unat pa + unat count + 511 < unat x \<longrightarrow> m' x = m x)"
proof -
  let ?r = "unat offset mod 512" and ?q = "unat offset div 512"
  have r: "unat (offset mod 512) = ?r" "?r < 512"
    by (simp_all add: unat_mod)
  have pa: "unat (pa - offset mod 512) = unat pa - ?r" "unat (pa + count) = unat pa + unat count"
    using assms(3,4) r by (simp_all add: unat_sub_if' unat_plus_if')
  have sec: "unat x div 512 < 8388608" for x :: uint
    using unat32_less [of x] by (simp add: less_mult_imp_div_less)
  have q: "unat (offset div 512 + 1) = ?q + 1"
    using sec [of offset] by (simp add: unat_div unat_plus_if')
  have "unat count mod 512 < 512"
    by simp
  then have n: "unat pa + unat count \<le> unat pa - ?r + 512 * (unat count div 512 + 2)"
    using r(2) assms(4) mult_div_mod_eq [of 512 "unat count"] unfolding distrib_left by linarith
  obtain m' e' where m': "run_io h (readseg k pa count offset m) e = (Done m', e')"
    "\<forall>x. m' x = (if unat pa - ?r \<le> unat x \<and> unat pa - ?r + (unat x - (unat pa - ?r)) div 512 * 512 < unat pa + unat count
                    then disk_byte (disk e) (?q + 1) (unat x - (unat pa - ?r)) else m x)"
    using readseg_loop_reads [OF assms(1,2), of "pa + count" "pa - offset mod 512" "unat count div 512 + 2" "offset div 512 + 1" m]
      pa q n sec [of offset] sec [of count] assms(3) by (auto simp: readseg_def Let_def numeral_3_eq_3)
  have "m' (pa + of_nat i) = disk_byte (disk e) 1 (unat offset + i)" if i: "i < unat count" for i
  proof -
    have x: "unat (pa + of_nat i) = unat pa + i"
      using assms(3) i unat32_less [of count] by (simp add: unat_plus_if' unat_of_nat)
    have d: "unat pa + i - (unat pa - ?r) = i + ?r"
      using assms(4) by simp
    have "unat pa - ?r + (i + ?r) div 512 * 512 \<le> unat pa + i"
      using assms(4) div_times_less_eq_dividend [of "i + ?r" 512] by linarith
    moreover have "unat offset + i = (i + ?r) + ?q * 512"
      by simp
    then have "(unat offset + i) div 512 = ?q + (i + ?r) div 512" "(unat offset + i) mod 512 = (i + ?r) mod 512"
      by (simp_all only: div_mult_self1 mod_mult_self1 zero_neq_numeral not_False_eq_True)
    ultimately show ?thesis
      using m'(2) i x d by (simp add: disk_byte_def)
  qed
  moreover have "m' x = m x" if "unat x < unat pa - ?r \<or> unat pa + unat count + 511 < unat x" for x
  proof -
    have "(unat x - (unat pa - ?r)) mod 512 < 512"
      by simp
    then have "unat x < unat pa - ?r + (unat x - (unat pa - ?r)) div 512 * 512 + 512" if "unat pa - ?r \<le> unat x"
      using that div_mult_mod_eq [of "unat x - (unat pa - ?r)" 512] by linarith
    then show ?thesis
      using that m'(2) by auto
  qed
  ultimately show ?thesis
    using m'(1) by blast
qed

theorem readseg_loads_witness:
  "\<exists>m' e'. run_io ata_disk (readseg 3 0x10000 4 510 (\<lambda>_. 0)) (\<lambda>_. 0, \<lambda>(d, n). replicate 512 (of_nat n), 0) = (Done m', e')
    \<and> m' 0x10000 = 1 \<and> m' 0x10003 = 2 \<and> m' 0x20000 = 0"
proof -
  let ?e = "(\<lambda>_. 0, \<lambda>(d, n). replicate 512 (of_nat n), 0) :: (uint \<Rightarrow> uchar) \<times> (bool \<times> nat \<Rightarrow> block) \<times> nat"
  obtain m' e' where m: "run_io ata_disk (readseg 3 0x10000 4 510 (\<lambda>_. 0)) ?e = (Done m', e')"
    "\<forall>i < unat (4 :: uint). m' (0x10000 + of_nat i) = disk_byte (fst (snd ?e)) 1 (unat (510 :: uint) + i)"
    "\<forall>x. unat x < unat (0x10000 :: uint) - unat (510 :: uint) mod 512 \<or> unat (0x10000 :: uint) + unat (4 :: uint) + 511 < unat x
      \<longrightarrow> m' x = 0"
    using readseg_loads [OF ata_disk_ok, where e = ?e and pa = "0x10000" and count = 4 and offset = 510 and m = "\<lambda>_. 0"] by auto
  then have "m' 0x10000 = 1" "m' 0x10003 = 2" "m' 0x20000 = 0"
    using m(2) [rule_format, of 0] m(2) [rule_format, of 3] m(3) [rule_format, of "0x20000"] by (simp_all add: disk_byte_def)
  then show ?thesis
    using m(1) by blast
qed

section \<open>The table of the processors\<close>

text \<open>The entries that the loop of \<^verbatim>\<open>mpinit\<close> comes to.\<close>

inductive mp_reach :: "mem \<Rightarrow> uint \<Rightarrow> uint \<Rightarrow> uint \<Rightarrow> bool" for m e where
  mp_here: "mp_reach m e p p"
| mp_next: "p < e \<Longrightarrow> m p \<le> 4 \<Longrightarrow> mp_reach m e (p + (if m p = 0 then 20 else 8)) q \<Longrightarrow> mp_reach m e p q"

lemma mp_entries_stuck: "p < e \<Longrightarrow> 4 < m p \<Longrightarrow> mp_entries k m p e ismp w = ILoop"
  by (induction k arbitrary: ismp) auto

lemma mp_kinds: "(t :: uchar) \<le> 4 \<longleftrightarrow> t = 0 \<or> t = 1 \<or> t = 2 \<or> t = 3 \<or> t = 4"
proof -
  have "t \<le> 4 \<longleftrightarrow> unat t = 0 \<or> unat t = 1 \<or> unat t = 2 \<or> unat t = 3 \<or> unat t = 4"
    by (auto simp: word_le_nat_alt)
  then show ?thesis
    by (simp add: word_unat_eq_iff)
qed

lemma mp_entries_known:
  "p < e \<Longrightarrow> m p \<le> 4 \<Longrightarrow>
   \<exists>w1. mp_entries (Suc k) m p e ismp w = mp_entries k m (p + (if m p = 0 then 20 else 8)) e ismp w1"
  by (auto simp: mp_kinds Let_def)

lemma mp_entries_hang:
  "mp_reach m e p q \<Longrightarrow> q < e \<Longrightarrow> 4 < m q \<Longrightarrow> mp_entries k m p e ismp w = ILoop"
proof (induction arbitrary: k ismp w rule: mp_reach.induct)
  case (mp_here p)
  then show ?case
    by (simp add: mp_entries_stuck)
next
  case (mp_next p q)
  show ?case
  proof (cases k)
    case (Suc j)
    then show ?thesis
      using mp_entries_known [of p e m j ismp w] mp_next by metis
  qed simp
qed

lemma mp_entries_end:
  assumes "\<And>q. mp_reach m e p q \<Longrightarrow> q < e \<Longrightarrow> m q \<le> 4" "unat e + 20 < 2 ^ 32" "unat e \<le> unat p + 8 * k"
  shows "\<exists>w'. mp_entries (Suc k) m p e ismp w = IRet (ismp, w')"
  using assms
proof (induction k arbitrary: p w)
  case 0
  then show ?case
    by (simp add: word_less_nat_alt)
next
  case (Suc k)
  show ?case
  proof (cases "p < e")
    case True
    let ?d = "if m p = 0 then 20 else 8 :: uint"
    have t: "m p \<le> 4"
      using Suc.prems(1) [OF mp_here True] .
    have u: "unat (p + ?d) = unat p + unat ?d"
      using True Suc.prems(2) by (auto simp: word_less_nat_alt unat_plus_if')
    obtain w1 where w1: "mp_entries (Suc (Suc k)) m p e ismp w = mp_entries (Suc k) m (p + ?d) e ismp w1"
      using mp_entries_known [where m = m, OF True t] by blast
    have "\<exists>w'. mp_entries (Suc k) m (p + ?d) e ismp w1 = IRet (ismp, w')"
    proof (rule Suc.IH)
      show "m q \<le> 4" if "mp_reach m e (p + ?d) q" "q < e" for q
        using Suc.prems(1) [OF mp_next [where m = m, OF True t that(1)] that(2)] .
      show "unat e \<le> unat (p + ?d) + 8 * k"
        unfolding u using Suc.prems(3) by simp
    qed (fact Suc.prems(2))
    then show ?thesis
      unfolding w1 .
  qed simp
qed

lemma mp_entries_ismp: "mp_entries k m p e True w = ILoop \<or> (\<exists>w'. mp_entries k m p e True w = IRet (True, w'))"
proof (induction k arbitrary: p w)
  case (Suc k)
  consider "\<not> p < e" | "p < e" "4 < m p" | "p < e" "m p \<le> 4"
    by force
  then show ?case
  proof cases
    case 3
    then show ?thesis
      using mp_entries_known [where m = m, OF 3, of k True w] Suc by metis
  qed (simp_all add: mp_entries_stuck del: mp_entries.simps(2), simp)
qed simp

text \<open>C28: \<^verbatim>\<open>mpinit\<close> on a machine with a valid configuration table hangs exactly if the table has an entry of an
  unknown type: the \<^verbatim>\<open>break\<close> in the default case leaves the switch and not the loop, which then looks at the same
  entry for ever. The panic behind the loop, meant for this case, is never reached.\<close>

theorem mpinit_hangs_iff:
  assumes "mpconfig m = Some (mp, conf)" "unat conf + 65536 + 20 < 2 ^ 32"
  defines "e \<equiv> conf + ucast (load16 m (conf + 4))"
  shows "((\<forall>k. mpinit k m w = ILoop) \<longleftrightarrow> (\<exists>q. mp_reach m e (conf + 44) q \<and> q < e \<and> 4 < m q))
    \<and> mpinit k m w \<noteq> IStop (''Didn'' @ [CHR 0x27] @ ''t find a suitable machine'')"
proof
  have "unat (load16 m (conf + 4)) < 65536"
    using unsigned_less [of "load16 m (conf + 4)"] by simp
  then have len: "unat (ucast (load16 m (conf + 4)) :: uint) < 65536"
    by (simp add: unsigned_ucast_eq take_bit_eq_mod)
  then have e: "unat e + 20 < 2 ^ 32" "unat e \<le> unat (conf + 44) + 8 * 8192"
    using assms(2) by (auto simp: e_def unat_plus_if')
  note init = mpinit_def assms(1) e_def [symmetric] Let_def
  show "mpinit k m w \<noteq> IStop (''Didn'' @ [CHR 0x27] @ ''t find a suitable machine'')"
    using mp_entries_ismp [of k m "conf + 44" e w] by (auto simp: init split: if_splits)
  show "(\<forall>k. mpinit k m w = ILoop) \<longleftrightarrow> (\<exists>q. mp_reach m e (conf + 44) q \<and> q < e \<and> 4 < m q)"
  proof
    assume loop: "\<forall>k. mpinit k m w = ILoop"
    show "\<exists>q. mp_reach m e (conf + 44) q \<and> q < e \<and> 4 < m q"
    proof (rule ccontr)
      assume "\<not> ?thesis"
      then obtain w' where "mp_entries (Suc 8192) m (conf + 44) e True w = IRet (True, w')"
        using mp_entries_end [OF _ e, of m True w] by (metis not_le)
      moreover have "mpinit (Suc 8192) m w = ILoop"
        using loop by simp
      ultimately show False
        by (simp add: init del: mp_entries.simps split: if_splits)
    qed
  next
    assume "\<exists>q. mp_reach m e (conf + 44) q \<and> q < e \<and> 4 < m q"
    then show "\<forall>k. mpinit k m w = ILoop"
      using mp_entries_hang by (fastforce simp: init)
  qed
qed

text \<open>A machine whose table has one entry, of the unknown type 5.\<close>

definition odd_table :: mem where
  "odd_table a = (case map_of
     [(0x8000040F, 0x10),
      (0x80010000, 0x5F), (0x80010001, 0x4D), (0x80010002, 0x50), (0x80010003, 0x5F), (0x80010005, 0x10),
      (0x80010006, 0x01), (0x80010008, 0x01), (0x80010009, 0x04), (0x8001000A, 0x8F),
      (0x80011000, 0x50), (0x80011001, 0x43), (0x80011002, 0x4D), (0x80011003, 0x50), (0x80011004, 0x2D),
      (0x80011006, 0x04), (0x80011007, 0x9A), (0x8001102C, 0x05)] a of Some v \<Rightarrow> v | None \<Rightarrow> 0)"

lemma odd_table_config: "mpconfig odd_table = Some (0x80010000, 0x80011000)" "load16 odd_table 0x80011004 = 45"
  by code_simp+

theorem mpinit_hangs_iff_witness: "\<forall>k. mpinit k odd_table \<lparr>mi_cpus = [], ncpu = 0, ioapicid = 0\<rparr> = ILoop"
proof -
  have "mp_reach odd_table 0x8001102D 0x8001102C 0x8001102C" "4 < odd_table 0x8001102C"
    by (simp_all add: mp_here odd_table_def)
  then show ?thesis
    using mpinit_hangs_iff [OF odd_table_config(1), of "\<lparr>mi_cpus = [], ncpu = 0, ioapicid = 0\<rparr>" 0]
    by (auto simp: odd_table_config(2))
qed

end
