(* ===== verification/VmSpec.thy ===== *)
theory VmSpec
  imports VmFrame "HOL-Library.Sublist"
begin

text \<open>
  What the page tables in memory mean. \<open>lookup\<close> reads the entry of a virtual address through the directory, the way
  the processor does; the routines of \<^verbatim>\<open>vm.c\<close> are shown to be updates of that function, with the directory, its tables,
  the pages mapped and the free pages kept apart.
\<close>

section \<open>Words of a page\<close>

lemma unat_index: "unat i < 1024 \<Longrightarrow> unat (4 * i) = 4 * unat i" for i :: uint
  by (simp add: unat_word_ariths)

lemma index_less: "unat i < 1024 \<Longrightarrow> 4 * i < PGSIZE" for i :: uint
  by (simp add: unat_index PGSIZE_def word_less_nat_alt)

lemma index_inj: "unat i < 1024 \<Longrightarrow> unat j < 1024 \<Longrightarrow> 4 * i = 4 * j \<Longrightarrow> i = j" for i j :: uint
  using unat_index [of i] unat_index [of j] by (auto simp: word_unat_eq_iff)

lemma unat_and_3FF: "unat (x AND 0x3FF :: uint) < 1024"
proof -
  have "x AND 0x3FF = take_bit 10 x"
    by (simp add: take_bit_eq_mask mask_eq_exp_minus_1)
  then have "unat (x AND 0x3FF) = unat x mod 1024"
    by (simp add: take_bit_eq_mod unat_mod)
  then show ?thesis
    by simp
qed

lemma PDX_less [simp]: "unat (PDX va) < 1024" and PTX_less [simp]: "unat (PTX va) < 1024"
  by (simp_all add: PDX_def PTX_def unat_and_3FF)

lemma word_slot_eq:
  assumes "p mod PGSIZE = 0" "q mod PGSIZE = 0" "unat i < 1024" "unat j < 1024"
  shows "p + 4 * i = q + 4 * j \<longleftrightarrow> p = q \<and> i = j"
  using aligned_split [OF page_dvd assms(1,2) index_less [OF assms(3)] index_less [OF assms(4)]] index_inj [OF assms(3,4)]
  by auto

lemma word_slot_aligned: "p mod PGSIZE = 0 \<Longrightarrow> (p + 4 * i) mod 4 = 0"
proof -
  assume "p mod PGSIZE = 0"
  then have "unat p mod 4 = 0"
    using page_aligned_4 [of p] unat_mod [of p 4] by (simp add: word_unat_eq_iff)
  moreover have "unat (p + 4 * i) = (unat p + 4 * unat i) mod 2 ^ 32"
    by (simp add: unat_word_ariths mod_simps)
  moreover have "(4 :: nat) dvd 2 ^ 32"
    by simp
  ultimately have "unat (p + 4 * i) mod 4 = 0"
    by (simp only: mod_mod_cancel) (simp add: mod_eq_0_iff_dvd)
  then show ?thesis
    using unat_mod [of "p + 4 * i" 4] by (simp add: word_unat_eq_iff)
qed

lemma word_slot_page:
  assumes "p mod PGSIZE = 0" "unat i < 1024" "j < 4"
  shows "same_page p (p + 4 * i + j)"
proof -
  have "unat (4 * i + j) = 4 * unat i + unat j"
    using assms(2,3) by (simp add: unat_word_ariths word_less_nat_alt)
  then show ?thesis
    using assms(2,3) by (simp add: same_page_def PGSIZE_def word_less_nat_alt add.assoc)
qed

text \<open>A word of a page after a store to another word, and after changes to other pages.\<close>

lemma load_slot_store:
  assumes "p mod PGSIZE = 0" "q mod PGSIZE = 0" "unat i < 1024" "unat j < 1024"
  shows "load32 (store32 m (q + 4 * j) v) (p + 4 * i) = (if p = q \<and> i = j then v else load32 m (p + 4 * i))"
  using word_slot_eq [OF assms] load_store_other [OF word_slot_aligned word_slot_aligned, OF assms(1,2), of i j m v]
  by (auto simp: load_store_same)

lemma load_slot_cong:
  assumes "p mod PGSIZE = 0" "unat i < 1024" "\<And>a. same_page p a \<Longrightarrow> m a = m' a"
  shows "load32 m (p + 4 * i) = load32 m' (p + 4 * i)"
  using word_slot_page [OF assms(1,2), of 0] word_slot_page [OF assms(1,2), of 1] word_slot_page [OF assms(1,2), of 2]
    word_slot_page [OF assms(1,2), of 3]
  by (intro load32_cong assms(3)) simp_all

lemma same_page_unique: "p mod PGSIZE = 0 \<Longrightarrow> q mod PGSIZE = 0 \<Longrightarrow> same_page p a \<Longrightarrow> same_page q a \<Longrightarrow> p = q"
  using other_page [of p q "a - q"] by (auto simp: same_page_def)

lemma store_slot_page:
  assumes "q mod PGSIZE = 0" "unat j < 1024" "\<not> same_page q a"
  shows "store32 m (q + 4 * j) v a = m a"
  using assms(3) word_slot_page [OF assms(1,2), of 0] word_slot_page [OF assms(1,2), of 1] word_slot_page [OF assms(1,2), of 2]
    word_slot_page [OF assms(1,2), of 3]
  by (intro store32_other) auto

lemma load_zero_page:
  assumes "p mod PGSIZE = 0" "unat i < 1024"
  shows "load32 (memset m p 0 PGSIZE) (p + 4 * i) = 0"
proof -
  have "load32 (memset m p 0 PGSIZE) (p + 4 * i) = load32 (\<lambda>_. 0) (p + 4 * i)"
    by (rule load_slot_cong [OF assms]) (simp add: memset_page)
  then show ?thesis
    by (simp add: load32_def)
qed

section \<open>Entries\<close>

lemma not_FFF: "NOT 0xFFF = (NOT (PGSIZE - 1) :: uint)"
  by (simp add: PGSIZE_def)

lemma entry_parts:
  assumes "p mod PGSIZE = 0" "f < PGSIZE"
  shows "PTE_ADDR (p OR f) = p" "PTE_FLAGS (p OR f) = f"
proof -
  have p: "take_bit 12 p = 0"
    using assms(1) by (simp add: take_bit_eq_mod PGSIZE_def)
  have f: "take_bit 12 f = f"
    using assms(2) by (simp add: take_bit_eq_mod PGSIZE_def word_unat_eq_iff unat_mod word_less_nat_alt)
  have m: "(0xFFF :: uint) = mask 12"
    by (simp add: mask_eq_exp_minus_1)
  have pb: "\<not> bit p n" if "n < 12" for n
    using that p by (metis bit_0_eq bit_take_bit_iff bot_apply bot_bool_def)
  have fb: "bit f n \<longleftrightarrow> n < 12 \<and> bit f n" for n
    using f by (metis bit_take_bit_iff)
  show "PTE_ADDR (p OR f) = p" "PTE_FLAGS (p OR f) = f"
    unfolding PTE_ADDR_def PTE_FLAGS_def m
    by (rule bit_word_eqI; use pb fb in \<open>auto simp: bit_simps\<close>)+
qed

lemma V2P_aligned: "p mod PGSIZE = 0 \<Longrightarrow> V2P p mod PGSIZE = 0"
proof -
  assume "p mod PGSIZE = 0"
  moreover have "V2P p = p + KERNBASE" "KERNBASE mod PGSIZE = 0"
    by (simp_all add: V2P_def KERNBASE_def PGSIZE_def)
  ultimately show ?thesis
    by (simp add: page_aligned_add)
qed

lemma P2V_V2P [simp]: "P2V (V2P p) = p" "V2P (P2V p) = p"
  by (simp_all add: P2V_def V2P_def)

lemma page_index: "PDX a = PDX b \<and> PTX a = PTX b \<longleftrightarrow> PGROUNDDOWN a = PGROUNDDOWN b"
proof -
  have 3: "x AND 0x3FF = take_bit 10 x" for x :: uint
    by (simp add: take_bit_eq_mask mask_eq_exp_minus_1)
  have d: "PDX a = drop_bit 10 (drop_bit 12 a)" for a
    unfolding PDX_def 3 by (rule bit_word_eqI) (auto simp: bit_simps dest: bit_imp_le_length)
  have t: "PTX a = take_bit 10 (drop_bit 12 a)" for a
    by (simp add: PTX_def 3)
  have r: "PGROUNDDOWN a = push_bit 12 (drop_bit 12 a)" for a
  proof -
    have "PGSIZE - 1 = mask 12"
      by (simp add: PGSIZE_def mask_eq_exp_minus_1)
    then show ?thesis
      unfolding PGROUNDDOWN_def by (intro bit_word_eqI) (auto simp: bit_simps)
  qed
  have "drop_bit 12 a = push_bit 10 (PDX a) + PTX a" for a
    using bits_ident [of 10 "drop_bit 12 a"] by (simp add: d t)
  moreover have "drop_bit 12 (PGROUNDDOWN a) = drop_bit 12 a" for a
    unfolding r by (rule bit_word_eqI) (auto simp: bit_simps dest: bit_imp_le_length)
  ultimately show ?thesis
    by (metis d t r)
qed

section \<open>The meaning of a page directory\<close>

definition pde :: "mem \<Rightarrow> uint \<Rightarrow> uint \<Rightarrow> uint" where
  "pde m d va = load32 m (d + 4 * PDX va)"

definition has_tab :: "mem \<Rightarrow> uint \<Rightarrow> uint \<Rightarrow> bool" where
  "has_tab m d va \<longleftrightarrow> pde m d va AND PTE_P \<noteq> 0"

definition tab :: "mem \<Rightarrow> uint \<Rightarrow> uint \<Rightarrow> uint" where
  "tab m d va = P2V (PTE_ADDR (pde m d va))"

definition present :: "uint \<Rightarrow> uint option" where
  "present e = (if e AND PTE_P \<noteq> 0 then Some e else None)"

definition lookup :: "mem \<Rightarrow> uint \<Rightarrow> uint \<Rightarrow> uint option" where
  "lookup m d va = (if has_tab m d va then present (load32 m (tab m d va + 4 * PTX va)) else None)"

definition tabs :: "mem \<Rightarrow> uint \<Rightarrow> uint set" where
  "tabs m d = {tab m d va | va. has_tab m d va}"

text \<open>The pages of a directory are pages of the allocator, none of them free, and no table is shared.\<close>

definition pd_ok :: "'a kmem_state_scheme \<Rightarrow> uint \<Rightarrow> uint list \<Rightarrow> bool" where
  "pd_ok s d xs \<longleftrightarrow> page_ok s d \<and> d \<notin> set xs
     \<and> (\<forall>va. has_tab (ram s) d va \<longrightarrow> page_ok s (tab (ram s) d va) \<and> tab (ram s) d va \<notin> set xs \<and> tab (ram s) d va \<noteq> d)
     \<and> (\<forall>va vb. has_tab (ram s) d va \<and> has_tab (ram s) d vb \<and> tab (ram s) d va = tab (ram s) d vb \<longrightarrow> PDX va = PDX vb)"

text \<open>The number of tables that a directory does not have.\<close>

definition absent :: "mem \<Rightarrow> uint \<Rightarrow> nat" where
  "absent m d = card {i. i < 1024 \<and> load32 m (d + 4 * of_nat i) AND PTE_P = 0}"

lemma pd_okD:
  assumes "pd_ok s d xs"
  shows "d mod PGSIZE = 0" "page_ok s d" "d \<notin> set xs"
    "has_tab (ram s) d va \<Longrightarrow> tab (ram s) d va mod PGSIZE = 0" "has_tab (ram s) d va \<Longrightarrow> page_ok s (tab (ram s) d va)"
    "has_tab (ram s) d va \<Longrightarrow> tab (ram s) d va \<notin> set xs" "has_tab (ram s) d va \<Longrightarrow> tab (ram s) d va \<noteq> d"
    "has_tab (ram s) d va \<Longrightarrow> has_tab (ram s) d vb \<Longrightarrow> tab (ram s) d va = tab (ram s) d vb \<Longrightarrow> PDX va = PDX vb"
  using assms unfolding pd_ok_def page_ok_def by blast+

text \<open>What a directory means depends only on its own pages.\<close>

lemma directory_cong:
  assumes "d mod PGSIZE = 0" "\<And>a. same_page d a \<Longrightarrow> m' a = m a"
  shows "pde m' d = pde m d" "has_tab m' d = has_tab m d" "tab m' d = tab m d" "tabs m' d = tabs m d" "absent m' d = absent m d"
proof -
  have l: "load32 m' (d + 4 * i) = load32 m (d + 4 * i)" if "unat i < 1024" for i
    using assms that by (intro load_slot_cong) auto
  show p: "pde m' d = pde m d"
    by (rule ext) (simp add: pde_def l)
  show "has_tab m' d = has_tab m d" "tab m' d = tab m d"
    by (simp_all add: fun_eq_iff has_tab_def tab_def p)
  then show "tabs m' d = tabs m d"
    by (simp add: tabs_def)
  have "load32 m' (d + 4 * of_nat i) = load32 m (d + 4 * of_nat i)" if "i < 1024" for i
    using that by (intro l) (simp add: unat_of_nat)
  then show "absent m' d = absent m d"
    unfolding absent_def by (intro arg_cong [where f = card]) auto
qed

lemma lookup_cong:
  assumes "d mod PGSIZE = 0" "\<And>a. same_page d a \<Longrightarrow> m' a = m a"
    and "\<And>t a. t \<in> tabs m d \<Longrightarrow> t mod PGSIZE = 0 \<and> (same_page t a \<longrightarrow> m' a = m a)"
  shows "lookup m' d = lookup m d"
proof
  fix va
  have "load32 m' (tab m d va + 4 * PTX va) = load32 m (tab m d va + 4 * PTX va)" if "has_tab m d va"
    using assms(3) [of "tab m d va"] that by (intro load_slot_cong) (auto simp: tabs_def)
  then show "lookup m' d va = lookup m d va"
    by (simp add: lookup_def directory_cong [OF assms(1,2)])
qed

section \<open>Writing entries\<close>

abbreviation entry :: "uint \<Rightarrow> uint" where
  "entry p \<equiv> V2P p OR PTE_P OR PTE_W OR PTE_U"

lemma entry_eq: "entry p = V2P p OR 7"
proof -
  have "PTE_P OR PTE_W OR PTE_U = 7"
    by (simp add: PTE_P_def PTE_W_def PTE_U_def)
  then show ?thesis
    by (simp only: or.assoc)
qed

lemma entry_present: "(x OR f) AND PTE_P \<noteq> 0" if "f AND PTE_P \<noteq> 0"
proof
  assume "(x OR f) AND PTE_P = 0"
  then have "f AND PTE_P = 0"
    by (simp add: bit.conj_disj_distrib2 or_eq_0_iff)
  then show False
    using that by simp
qed

text \<open>A new table.\<close>

lemma new_table:
  assumes d: "d mod PGSIZE = 0" and x: "x mod PGSIZE = 0" "x \<noteq> d" and no: "\<not> has_tab m d va"
    and t: "\<And>t. t \<in> tabs m d \<Longrightarrow> t mod PGSIZE = 0 \<and> t \<noteq> d \<and> t \<noteq> x"
  defines "m' \<equiv> store32 (memset m x 0 PGSIZE) (d + 4 * PDX va) (entry x)"
  shows "has_tab m' d vb \<longleftrightarrow> PDX vb = PDX va \<or> has_tab m d vb"
    "tab m' d vb = (if PDX vb = PDX va then x else tab m d vb)"
    "lookup m' d = lookup m d" "Suc (absent m' d) = absent m d"
    "\<not> same_page d a \<Longrightarrow> \<not> same_page x a \<Longrightarrow> m' a = m a"
    "lookup m' d va = None"
proof -
  let ?z = "memset m x 0 PGSIZE" and ?A = "{i. i < 1024 \<and> load32 m (d + 4 * of_nat i) AND PTE_P = 0}"
  have z: "load32 ?z (q + 4 * i) = load32 m (q + 4 * i)" if "q mod PGSIZE = 0" "q \<noteq> x" "unat i < 1024" for q i
    using that same_page_unique [OF that(1) x(1)] by (intro load_slot_cong) (auto simp: memset_page)
  have m': "load32 m' (q + 4 * i) = (if q = d \<and> i = PDX va then entry x else load32 ?z (q + 4 * i))"
    if "q mod PGSIZE = 0" "unat i < 1024" for q i
    unfolding m'_def by (rule load_slot_store) (simp_all add: that d)
  have pde': "pde m' d vb = (if PDX vb = PDX va then entry x else pde m d vb)" for vb
    by (simp add: pde_def m' d z x(2) [symmetric])
  have ent: "PTE_ADDR (entry x) = V2P x" "entry x AND PTE_P \<noteq> 0"
    unfolding entry_eq using entry_parts(1) [OF V2P_aligned [OF x(1)], of 7] entry_present [of 7 "V2P x"]
    by (simp_all add: PGSIZE_def PTE_P_def)
  show h: "has_tab m' d vb \<longleftrightarrow> PDX vb = PDX va \<or> has_tab m d vb" for vb
    using ent(2) by (simp add: has_tab_def pde')
  show tb: "tab m' d vb = (if PDX vb = PDX va then x else tab m d vb)" for vb
    by (simp add: tab_def pde' ent(1))
  have same: "has_tab m d vb \<longleftrightarrow> has_tab m d va" if "PDX vb = PDX va" for vb
    using that by (simp add: has_tab_def pde_def)
  show l: "lookup m' d = lookup m d"
  proof
    fix vb
    show "lookup m' d vb = lookup m d vb"
    proof (cases "PDX vb = PDX va")
      case True
      then show ?thesis
        using no same [OF True] x by (simp add: lookup_def h tb m' load_zero_page present_def)
    next
      case False
      have "load32 m' (tab m d vb + 4 * PTX vb) = load32 m (tab m d vb + 4 * PTX vb)" if "has_tab m d vb"
      proof -
        have "tab m d vb \<in> tabs m d"
          using that by (auto simp: tabs_def)
        then show ?thesis
          using t by (simp add: m' z)
      qed
      then show ?thesis
        using False by (simp add: lookup_def h tb)
    qed
  qed
  show "lookup m' d va = None"
    using no by (simp add: l lookup_def)
  have "load32 m' (d + 4 * of_nat i) AND PTE_P = 0 \<longleftrightarrow> i \<noteq> unat (PDX va) \<and> load32 m (d + 4 * of_nat i) AND PTE_P = 0" if "i < 1024" for i
  proof -
    have "unat (of_nat i :: uint) = i"
      using that by (simp add: unat_of_nat)
    then have "load32 m' (d + 4 * of_nat i) = (if i = unat (PDX va) then entry x else load32 m (d + 4 * of_nat i))"
      using that d x(2) by (auto simp: m' z word_unat_eq_iff)
    then show ?thesis
      using ent(2) by (cases "i = unat (PDX va)") simp_all
  qed
  then have "{i. i < 1024 \<and> load32 m' (d + 4 * of_nat i) AND PTE_P = 0} = ?A - {unat (PDX va)}"
    by blast
  moreover have "unat (PDX va) \<in> ?A" "finite ?A"
    using no by (simp_all add: has_tab_def pde_def)
  ultimately show "Suc (absent m' d) = absent m d"
    using card_Suc_Diff1 [of ?A "unat (PDX va)"] by (simp only: absent_def)
  show "m' a = m a" if "\<not> same_page d a" "\<not> same_page x a"
    using that by (simp add: m'_def store_slot_page [OF d] memset_page)
qed

text \<open>A new entry of a table.\<close>

lemma new_entry:
  fixes v :: uint
  assumes "pd_ok s d xs" "has_tab (ram s) d va"
  defines "m' \<equiv> store32 (ram s) (tab (ram s) d va + 4 * PTX va) v"
  shows "has_tab m' d = has_tab (ram s) d" "tab m' d = tab (ram s) d" "absent m' d = absent (ram s) d"
    "lookup m' d = (\<lambda>vb. if PGROUNDDOWN vb = PGROUNDDOWN va then present v else lookup (ram s) d vb)"
    "\<not> same_page (tab (ram s) d va) a \<Longrightarrow> m' a = ram s a"
proof -
  note ok = pd_okD [OF assms(1)]
  show out: "m' a = ram s a" if "\<not> same_page (tab (ram s) d va) a" for a
    using that ok(4) [OF assms(2)] by (simp add: m'_def store_slot_page)
  have "m' a = ram s a" if "same_page d a" for a
    using that same_page_unique [OF ok(1) ok(4) [OF assms(2)]] ok(7) [OF assms(2)] by (intro out) auto
  note c = directory_cong [OF ok(1) this]
  show "has_tab m' d = has_tab (ram s) d" "tab m' d = tab (ram s) d" "absent m' d = absent (ram s) d"
    using c by simp_all
  show "lookup m' d = (\<lambda>vb. if PGROUNDDOWN vb = PGROUNDDOWN va then present v else lookup (ram s) d vb)"
  proof
    fix vb
    show "lookup m' d vb = (if PGROUNDDOWN vb = PGROUNDDOWN va then present v else lookup (ram s) d vb)"
    proof (cases "has_tab (ram s) d vb")
      case True
      have "tab (ram s) d vb = tab (ram s) d va \<longleftrightarrow> PDX vb = PDX va"
        using ok(8) [OF True assms(2)] by (auto simp: tab_def pde_def)
      then have "load32 m' (tab (ram s) d vb + 4 * PTX vb) =
          (if PDX vb = PDX va \<and> PTX vb = PTX va then v else load32 (ram s) (tab (ram s) d vb + 4 * PTX vb))"
        unfolding m'_def by (subst load_slot_store) (simp_all add: ok(4) True assms(2))
      then show ?thesis
        using True by (simp add: lookup_def c page_index)
    next
      case False
      then have "\<not> (PDX vb = PDX va)"
        using assms(2) by (auto simp: has_tab_def pde_def)
      then show ?thesis
        using False page_index [of vb va] by (simp add: lookup_def c)
    qed
  qed
qed

section \<open>Walking and mapping\<close>

text \<open>What a routine that only adds tables to a directory may do: it takes them from the free pages, keeps the ones
  that are there, and writes to no other page.\<close>

definition grows :: "nat \<Rightarrow> uint \<Rightarrow> 'a kmem_state_scheme \<Rightarrow> uint list \<Rightarrow> 'a kmem_state_scheme \<Rightarrow> uint list \<Rightarrow> bool" where
  "grows c d s xs t ys \<longleftrightarrow> kmem_inv t ys \<and> kmem_frame c s t \<and> pd_ok t d ys \<and> suffix ys xs
     \<and> (\<forall>va. has_tab (ram s) d va \<longrightarrow> has_tab (ram t) d va \<and> tab (ram t) d va = tab (ram s) d va)
     \<and> tabs (ram t) d \<subseteq> tabs (ram s) d \<union> set xs
     \<and> absent (ram t) d + length xs = absent (ram s) d + length ys
     \<and> (\<forall>a. \<not> same_page d a \<and> (\<forall>p \<in> tabs (ram t) d. \<not> same_page p a) \<longrightarrow> ram t a = ram s a)"

lemma growsD:
  assumes "grows c d s xs t ys"
  shows "kmem_inv t ys" "kmem_frame c s t" "pd_ok t d ys" "suffix ys xs"
    "has_tab (ram s) d va \<Longrightarrow> has_tab (ram t) d va" "has_tab (ram s) d va \<Longrightarrow> tab (ram t) d va = tab (ram s) d va"
    "tabs (ram s) d \<subseteq> tabs (ram t) d" "tabs (ram t) d \<subseteq> tabs (ram s) d \<union> set xs"
    "absent (ram t) d + length xs = absent (ram s) d + length ys"
    "\<not> same_page d a \<Longrightarrow> (\<And>p. p \<in> tabs (ram t) d \<Longrightarrow> \<not> same_page p a) \<Longrightarrow> ram t a = ram s a"
proof -
  show "kmem_inv t ys" "kmem_frame c s t" "pd_ok t d ys" "suffix ys xs" "tabs (ram t) d \<subseteq> tabs (ram s) d \<union> set xs"
    "absent (ram t) d + length xs = absent (ram s) d + length ys"
    using assms unfolding grows_def by blast+
  show "has_tab (ram t) d va" "tab (ram t) d va = tab (ram s) d va" if "has_tab (ram s) d va" for va
    using assms that unfolding grows_def by blast+
  then show "tabs (ram s) d \<subseteq> tabs (ram t) d"
    unfolding tabs_def by force
  show "ram t a = ram s a" if "\<not> same_page d a" "\<And>p. p \<in> tabs (ram t) d \<Longrightarrow> \<not> same_page p a"
    using assms that unfolding grows_def by blast
qed

lemma grows_trans:
  assumes "grows c d s xs t ys" "grows c d t ys u zs"
  shows "grows c d s xs u zs"
  unfolding grows_def
proof (intro conjI allI impI)
  note g = growsD [OF assms(1)] and h = growsD [OF assms(2)]
  show "kmem_inv u zs" "kmem_frame c s u" "pd_ok u d zs" "suffix zs xs"
    using g(2,4) h(1,2,3,4) by (auto intro: kmem_frame_trans suffix_order.trans)
  show "has_tab (ram u) d va" "tab (ram u) d va = tab (ram s) d va" if "has_tab (ram s) d va" for va
    using that g(5,6) h(5,6) by metis+
  have "set ys \<subseteq> set xs"
    using g(4) by (rule set_mono_suffix)
  then show "tabs (ram u) d \<subseteq> tabs (ram s) d \<union> set xs"
    using g(8) h(8) by blast
  show "absent (ram u) d + length xs = absent (ram s) d + length zs"
    using g(9) h(9) by linarith
  show "ram u a = ram s a" if "\<not> same_page d a \<and> (\<forall>p \<in> tabs (ram u) d. \<not> same_page p a)" for a
    using that g(10) [of a] h(7) h(10) [of a] by (metis subsetD)
qed

lemma grows_refl: "kmem_inv s xs \<Longrightarrow> pd_ok s d xs \<Longrightarrow> grows c d s xs s xs"
  by (simp add: grows_def)

lemma slot_nonzero:
  assumes "page_ok s p" "unat i < 1024" shows "p + 4 * i \<noteq> 0"
  using aligned_split [OF page_dvd _ _ index_less [OF assms(2)], of p 0 0] assms(1) page_ok_nonzero [OF assms(1)]
  by (auto simp: page_ok_def PGSIZE_def)

lemma absent_pos: "\<not> has_tab m d va \<Longrightarrow> 0 < absent m d"
proof -
  let ?A = "{i. i < 1024 \<and> load32 m (d + 4 * of_nat i) AND PTE_P = 0}"
  assume "\<not> has_tab m d va"
  then have "unat (PDX va) \<in> ?A" "finite ?A"
    by (simp_all add: has_tab_def pde_def)
  then show ?thesis
    unfolding absent_def using card_gt_0_iff [of ?A] by blast
qed

lemma walk_grows:
  assumes "kmem_ready c s" "kmem_inv s xs" "pd_ok s d xs" "absent (ram s) d \<le> length xs"
  shows "\<exists>t ys. walkpgdir c d va True s = Ok (tab (ram t) d va + 4 * PTX va, t) \<and> has_tab (ram t) d va
    \<and> grows c d s xs t ys \<and> lookup (ram t) d = lookup (ram s) d"
proof (cases "has_tab (ram s) d va")
  case True
  then show ?thesis
    using assms(2,3) grows_refl [of s xs d c] by (auto simp: walkpgdir_def has_tab_def tab_def pde_def Let_def)
next
  case False
  note ok = pd_okD [OF assms(3)]
  obtain x ys where xs: "xs = x # ys"
    using absent_pos [OF False] assms(4) by (cases xs) auto
  obtain u where u: "kalloc c s = Ok (x, u)" "kmem_inv u ys" "ram u = ram s" "kmem_frame c s u"
    using kalloc_inv [OF assms(1,2)] by (auto simp: xs)
  have x: "page_ok s x" "x \<notin> set ys" "distinct xs"
    using assms(2) by (auto simp: kmem_inv_def xs)
  then have x': "x mod PGSIZE = 0" "x \<noteq> d" "x \<noteq> 0"
    using ok(3) page_ok_nonzero [OF x(1)] by (auto simp: page_ok_def xs)
  have t: "p mod PGSIZE = 0 \<and> p \<noteq> d \<and> p \<noteq> x" if "p \<in> tabs (ram s) d" for p
    using that ok(4,6,7) by (auto simp: tabs_def xs)
  let ?m = "store32 (memset (ram s) x 0 PGSIZE) (d + 4 * PDX va) (entry x)"
  let ?t = "u\<lparr>ram := ?m\<rparr>"
  note n = new_table [OF ok(1) x'(1,2) False t]
  have w: "walkpgdir c d va True s = Ok (x + 4 * PTX va, ?t)"
    using False u(1,3) x'(3) by (simp add: walkpgdir_def has_tab_def pde_def Let_def poke_def)
  have pok: "page_ok ?t = page_ok s"
    using kmem_frame_page_ok [OF u(4)] by (simp add: page_ok_def fun_eq_iff)
  have "flist ?m (freelist u) ys = flist (ram u) (freelist u) ys"
  proof (rule flist_cong)
    fix y assume y: "y \<in> set ys"
    then have "y mod PGSIZE = 0" "y \<noteq> x" "y \<noteq> d"
      using assms(2) x(2) ok(3) by (auto simp: kmem_inv_def page_ok_def xs)
    moreover from this have "\<not> same_page d a" "\<not> same_page x a" if "same_page y a" for a
      using that same_page_unique [OF _ ok(1), of y a] same_page_unique [OF _ x'(1), of y a] by auto
    ultimately have "load32 ?m (y + 4 * 0) = load32 (ram u) (y + 4 * 0)"
      by (intro load_slot_cong) (auto simp: n(5) u(3))
    then show "load32 ?m y = load32 (ram u) y"
      by simp
  qed
  then have inv: "kmem_inv ?t ys"
    using u(2) kmem_frame_page_ok [OF u(4)] pok by (simp add: kmem_inv_def)
  have pd: "pd_ok ?t d ys"
    unfolding pd_ok_def pok
  proof (intro conjI allI impI)
    show "page_ok s d" "d \<notin> set ys"
      using ok(2,3) by (simp_all add: xs)
    show "page_ok s (tab (ram ?t) d vb)" "tab (ram ?t) d vb \<notin> set ys" "tab (ram ?t) d vb \<noteq> d" if "has_tab (ram ?t) d vb" for vb
      using that ok(5,6,7) [of vb] x x' by (auto simp: n(1,2) xs)
    show "PDX vb = PDX vc" if "has_tab (ram ?t) d vb \<and> has_tab (ram ?t) d vc \<and> tab (ram ?t) d vb = tab (ram ?t) d vc" for vb vc
      using that ok(8) [of vb vc] ok(6) by (auto simp: n(1,2) xs split: if_splits)
  qed
  have "has_tab (ram ?t) d vb \<and> tab (ram ?t) d vb = tab (ram s) d vb" if "has_tab (ram s) d vb" for vb
  proof -
    have "PDX vb \<noteq> PDX va"
      using that False by (auto simp: has_tab_def pde_def)
    then show ?thesis
      using that by (simp add: n(1,2))
  qed
  moreover have "tab (ram ?t) d vb \<in> tabs (ram s) d \<union> set xs" if "has_tab (ram ?t) d vb" for vb
    using that n(1,2) [of vb] by (auto simp: tabs_def xs)
  then have "tabs (ram ?t) d \<subseteq> tabs (ram s) d \<union> set xs"
    unfolding tabs_def [of "ram ?t"] by blast
  moreover have "x \<in> tabs (ram ?t) d"
    unfolding tabs_def using n(1,2) [of va] by force
  ultimately have "grows c d s xs ?t ys"
    using inv pd u(4) n(4) n(5) by (auto simp: grows_def xs suffix_ConsI)
  then show ?thesis
    using w n(1-3) by auto
qed

lemma poke_grows:
  fixes v :: uint
  assumes "kmem_inv s xs" "pd_ok s d xs" "has_tab (ram s) d va"
  defines "t \<equiv> poke (tab (ram s) d va + 4 * PTX va) v s"
  shows "grows c d s xs t xs"
    "lookup (ram t) d = (\<lambda>vb. if PGROUNDDOWN vb = PGROUNDDOWN va then present v else lookup (ram s) d vb)"
proof -
  note ok = pd_okD [OF assms(2)]
  have r: "ram t = store32 (ram s) (tab (ram s) d va + 4 * PTX va) v"
    by (simp add: t_def poke_def)
  note n = new_entry [OF assms(2,3), where v = v, folded r]
  have pok: "page_ok t = page_ok s" "kmem_frame c s t"
    by (simp_all add: t_def poke_def page_ok_def fun_eq_iff)
  have "flist (ram t) (freelist s) xs = flist (ram s) (freelist s) xs"
  proof (rule flist_cong)
    fix y assume y: "y \<in> set xs"
    then have "y mod PGSIZE = 0" "y \<noteq> tab (ram s) d va"
      using assms(1) ok(6) [OF assms(3)] by (auto simp: kmem_inv_def page_ok_def)
    then have "load32 (ram t) (y + 4 * 0) = load32 (ram s) (y + 4 * 0)"
      using same_page_unique [OF _ ok(4) [OF assms(3)], of y] n(5) by (intro load_slot_cong) auto
    then show "load32 (ram t) y = load32 (ram s) y"
      by simp
  qed
  then have inv: "kmem_inv t xs"
    using assms(1) pok(1) by (simp add: kmem_inv_def t_def poke_def)
  have "pd_ok t d xs"
    using assms(2) unfolding pd_ok_def pok(1) n(1,2) .
  moreover have "tab (ram s) d va \<in> tabs (ram t) d" "tabs (ram t) d = tabs (ram s) d"
    using assms(3) unfolding tabs_def n(1,2) by blast+
  ultimately show "grows c d s xs t xs"
    using inv pok(2) n(5) unfolding grows_def n(1-3) by auto
  show "lookup (ram t) d = (\<lambda>vb. if PGROUNDDOWN vb = PGROUNDDOWN va then present v else lookup (ram s) d vb)"
    by (rule n(4))
qed

lemma grows_ready: "grows c d s xs t ys \<Longrightarrow> kmem_ready c s \<Longrightarrow> kmem_ready c t"
  using growsD(2) kmem_frame_ready by blast

text \<open>The pages from \<open>a\<close> to \<open>a + n * PGSIZE\<close>, mapped to consecutive physical pages.\<close>

definition mapped :: "uint \<Rightarrow> nat \<Rightarrow> uint \<Rightarrow> uint \<Rightarrow> (uint \<Rightarrow> uint option) \<Rightarrow> uint \<Rightarrow> uint option" where
  "mapped a n pa perm f v =
     (if PGROUNDDOWN v - a \<le> of_nat n * PGSIZE then Some ((pa + (PGROUNDDOWN v - a)) OR perm OR PTE_P) else f v)"

lemma PTE_P_present: "present (x OR PTE_P) = Some (x OR PTE_P)"
  using entry_present [of PTE_P x] by (simp add: present_def PTE_P_def)

lemma perm_present: "present (pa OR perm OR PTE_P) = Some (pa OR perm OR PTE_P)"
  using PTE_P_present [of "pa OR perm"] by (simp add: or.assoc)

lemma unat_pages: "n * 4096 < 2 ^ 32 \<Longrightarrow> unat (of_nat n * PGSIZE) = n * 4096"
  by (simp add: PGSIZE_def unat_word_ariths unat_of_nat)

lemma page_diff_aligned: "a mod PGSIZE = 0 \<Longrightarrow> 4096 dvd unat (PGROUNDDOWN v - a)"
proof -
  assume "a mod PGSIZE = 0"
  then have "4096 dvd unat a" "4096 dvd unat (PGROUNDDOWN v)"
    using unat_mod [of a PGSIZE] PGROUNDDOWN_aligned [of v] unat_mod [of "PGROUNDDOWN v" PGSIZE]
    by (auto simp: PGSIZE_def word_unat_eq_iff)
  then show ?thesis
    by (auto simp: unat_sub_if' intro!: dvd_diff_nat)
qed

lemma mapped_Suc:
  assumes "a mod PGSIZE = 0" "Suc n * 4096 < 2 ^ 32"
  shows "mapped (a + PGSIZE) n (pa + PGSIZE) perm (\<lambda>v. if PGROUNDDOWN v = a then Some (pa OR perm OR PTE_P) else f v)
    = mapped a (Suc n) pa perm f"
proof
  fix v
  let ?x = "PGROUNDDOWN v - a"
  have u: "unat (of_nat n * PGSIZE) = n * 4096" "unat (of_nat (Suc n) * PGSIZE) = Suc n * 4096"
    by (rule unat_pages, use assms(2) in simp)+
  have d: "PGROUNDDOWN v - (a + PGSIZE) = ?x - PGSIZE" "pa + PGSIZE + (PGROUNDDOWN v - (a + PGSIZE)) = pa + ?x"
    by simp_all
  have z: "PGROUNDDOWN v = a \<longleftrightarrow> ?x = 0"
    by simp
  show "mapped (a + PGSIZE) n (pa + PGSIZE) perm (\<lambda>v. if PGROUNDDOWN v = a then Some (pa OR perm OR PTE_P) else f v) v
    = mapped a (Suc n) pa perm f v"
  proof (cases "?x = 0")
    case True
    then have "\<not> ?x - PGSIZE \<le> of_nat n * PGSIZE"
      using assms(2) u(1) by (simp add: word_le_nat_alt PGSIZE_def unat_sub_if')
    then show ?thesis
      using True by (simp add: mapped_def d)
  next
    case False
    then have le: "4096 \<le> unat ?x"
      using page_diff_aligned [OF assms(1), of v] by (metis dvd_imp_le neq0_conv unat_eq_zero)
    then have "unat (?x - PGSIZE) = unat ?x - 4096"
      by (simp add: unat_sub_if' PGSIZE_def)
    then have "?x - PGSIZE \<le> of_nat n * PGSIZE \<longleftrightarrow> ?x \<le> of_nat (Suc n) * PGSIZE"
      using u le by (simp only: word_le_nat_alt mult_Suc) linarith
    then show ?thesis
      using False unfolding mapped_def d z by simp
  qed
qed

lemma mapped_0: "mapped a 0 pa perm f = (\<lambda>v. if PGROUNDDOWN v = a then Some (pa OR perm OR PTE_P) else f v)"
  by (rule ext) (simp add: mapped_def)

lemma map_step:
  assumes "kmem_ready c s" "kmem_inv s xs" "pd_ok s d xs" "absent (ram s) d \<le> length xs" "a mod PGSIZE = 0" "lookup (ram s) d a = None"
  shows "\<exists>u ys. map_loop (Suc j) c d a lastp pa perm s
      = (if a = lastp then Ok (0, u) else map_loop j c d (a + PGSIZE) lastp (pa + PGSIZE) perm u) \<and> grows c d s xs u ys
    \<and> lookup (ram u) d = (\<lambda>v. if PGROUNDDOWN v = a then Some (pa OR perm OR PTE_P) else lookup (ram s) d v)"
proof -
  have a: "PGROUNDDOWN a = a"
    using assms(5) by (simp add: PGROUNDDOWN_eq)
  obtain t ys where t: "walkpgdir c d a True s = Ok (tab (ram t) d a + 4 * PTX a, t)" "has_tab (ram t) d a"
    "grows c d s xs t ys" "lookup (ram t) d = lookup (ram s) d"
    using walk_grows [OF assms(1-4)] by blast
  let ?u = "poke (tab (ram t) d a + 4 * PTX a) (pa OR perm OR PTE_P) t"
  note g = growsD [OF t(3)] and u = poke_grows [OF growsD(1,3) [OF t(3)] t(2), where v = "pa OR perm OR PTE_P"]
  have lu: "lookup (ram ?u) d = (\<lambda>v. if PGROUNDDOWN v = a then Some (pa OR perm OR PTE_P) else lookup (ram s) d v)"
    using u(2) unfolding a t(4) perm_present .
  have "lookup (ram t) d a = None"
    using assms(6) t(4) by simp
  then have "peek t (tab (ram t) d a + 4 * PTX a) AND PTE_P = 0" "tab (ram t) d a + 4 * PTX a \<noteq> 0"
    using t(2) slot_nonzero [OF pd_okD(5) [OF g(3) t(2)] PTX_less]
    by (simp_all add: lookup_def present_def split: if_splits)
  then show ?thesis
    using grows_trans [OF t(3) u(1)] lu by (intro exI [of _ ?u]) (auto simp: t(1))
qed

lemma PGROUNDDOWN_pages: "a mod PGSIZE = 0 \<Longrightarrow> PGROUNDDOWN (a + of_nat i * PGSIZE) = a + of_nat i * PGSIZE"
proof -
  assume "a mod PGSIZE = 0"
  moreover have "(of_nat i * PGSIZE) mod PGSIZE = (0 :: uint)"
    by (induction i) (simp_all add: distrib_right page_aligned_add)
  ultimately show ?thesis
    by (simp add: PGROUNDDOWN_eq page_aligned_add)
qed

lemma pages_distinct: "0 < n \<Longrightarrow> n * 4096 < 2 ^ 32 \<Longrightarrow> a + of_nat n * PGSIZE \<noteq> a"
  using unat_pages [of n] by (auto simp: unat_eq_zero)

lemma map_loop_maps:
  assumes "kmem_ready c s" "kmem_inv s xs" "pd_ok s d xs" "absent (ram s) d \<le> length xs"
    "a mod PGSIZE = 0" "unat a + n * 4096 < 2 ^ 32" "n < k"
    and "\<And>i. i \<le> n \<Longrightarrow> lookup (ram s) d (a + of_nat i * PGSIZE) = None"
  shows "\<exists>t ys. map_loop k c d a (a + of_nat n * PGSIZE) pa perm s = Ok (0, t) \<and> grows c d s xs t ys
    \<and> lookup (ram t) d = mapped a n pa perm (lookup (ram s) d)"
  using assms
proof (induction n arbitrary: k a pa s xs)
  case 0
  have z: "lookup (ram s) d a = None" and k: "k = Suc (k - 1)"
    using 0(7) 0(8) [of 0] by simp_all
  obtain u ys where u: "map_loop (Suc (k - 1)) c d a a pa perm s = Ok (0, u)" "grows c d s xs u ys"
    "lookup (ram u) d = mapped a 0 pa perm (lookup (ram s) d)"
    using map_step [OF 0(1-5) z, of "k - 1" a pa perm] unfolding mapped_0 by auto
  then show ?case
    using k by (metis add.right_neutral mult_zero_left of_nat_0)
next
  case (Suc n)
  let ?l = "a + of_nat (Suc n) * PGSIZE"
  have z: "lookup (ram s) d a = None"
    using Suc.prems(8) [of 0] by simp
  obtain u ys where u: "map_loop (Suc (k - 1)) c d a ?l pa perm s
      = (if a = ?l then Ok (0, u) else map_loop (k - 1) c d (a + PGSIZE) ?l (pa + PGSIZE) perm u)" "grows c d s xs u ys"
    "lookup (ram u) d = (\<lambda>v. if PGROUNDDOWN v = a then Some (pa OR perm OR PTE_P) else lookup (ram s) d v)"
    using map_step [OF Suc.prems(1-5) z] by blast
  have l: "?l = a + PGSIZE + of_nat n * PGSIZE"
    by (simp add: algebra_simps)
  have up: "unat (a + PGSIZE) = unat a + 4096" "(a + PGSIZE) mod PGSIZE = 0"
    using Suc.prems(5,6) page_aligned_add [of a PGSIZE] by (simp_all add: PGSIZE_def unat_plus_if')
  have free: "lookup (ram u) d (a + PGSIZE + of_nat i * PGSIZE) = None" if "i \<le> n" for i
  proof -
    have "a + PGSIZE + of_nat i * PGSIZE = a + of_nat (Suc i) * PGSIZE"
      by (simp add: algebra_simps)
    then show ?thesis
      using Suc.prems(5,6) Suc.prems(8) [of "Suc i"] that pages_distinct [of "Suc i" a] PGROUNDDOWN_pages [of a "Suc i"]
      by (simp only: u(3)) (simp del: of_nat_Suc)
  qed
  have "\<exists>w zs. map_loop (k - 1) c d (a + PGSIZE) (a + PGSIZE + of_nat n * PGSIZE) (pa + PGSIZE) perm u = Ok (0, w)
    \<and> grows c d u ys w zs \<and> lookup (ram w) d = mapped (a + PGSIZE) n (pa + PGSIZE) perm (lookup (ram u) d)"
  proof (rule Suc.IH)
    show "absent (ram u) d \<le> length ys"
      using growsD(9) [OF u(2)] Suc.prems(4) by linarith
    show "unat (a + PGSIZE) + n * 4096 < 2 ^ 32" "n < k - 1"
      using up(1) Suc.prems(6,7) by simp_all
  qed (use growsD(1,3) [OF u(2)] grows_ready [OF u(2) Suc.prems(1)] up(2) free in blast)+
  then obtain w zs where w: "map_loop (k - 1) c d (a + PGSIZE) ?l (pa + PGSIZE) perm u = Ok (0, w)"
    "grows c d u ys w zs" "lookup (ram w) d = mapped (a + PGSIZE) n (pa + PGSIZE) perm (lookup (ram u) d)"
    unfolding l by blast
  have "map_loop k c d a ?l pa perm s = Ok (0, w)"
    using u(1) w(1) pages_distinct [of "Suc n" a] Suc.prems(6,7) by (auto simp del: map_loop.simps of_nat_Suc)
  moreover have "lookup (ram w) d = mapped a (Suc n) pa perm (lookup (ram s) d)"
    using mapped_Suc [OF Suc.prems(5)] Suc.prems(6) by (simp add: w(3) u(3))
  ultimately show ?case
    using grows_trans [OF u(2) w(2)] by blast
qed

text \<open>The pages that the range of \<open>sz\<close> bytes at \<open>va\<close> touches, less one.\<close>

definition span :: "uint \<Rightarrow> uint \<Rightarrow> nat" where
  "span va sz = (unat va + unat sz - 1) div 4096 - unat va div 4096"

lemma span_pages:
  assumes "0 < sz" "unat va + unat sz \<le> 2 ^ 32"
  shows "PGROUNDDOWN (va + sz - 1) = PGROUNDDOWN va + of_nat (span va sz) * PGSIZE"
    "unat (PGROUNDDOWN va) + span va sz * 4096 < 2 ^ 32" "span va sz < PAGES"
proof -
  have pos: "0 < unat sz"
    using assms(1) by (simp add: word_less_nat_alt)
  have l: "unat (va + sz - 1) = unat va + unat sz - 1"
  proof (cases "unat va + unat sz = 2 ^ 32")
    case True
    then have "va + sz = 0"
      by (simp add: word_unat_eq_iff unat_word_ariths)
    then show ?thesis
      using True by (simp add: unsigned_minus_1_eq_mask mask_eq_exp_minus_1)
  next
    case False
    then have "unat (va + sz) = unat va + unat sz"
      using assms(2) by (simp add: unat_plus_if')
    moreover from this have "va + sz \<noteq> 0"
      using pos by auto
    ultimately show ?thesis
      by (simp add: unat_minus_one)
  qed
  let ?e = "unat va + unat sz - 1"
  have le: "unat va div 4096 \<le> ?e div 4096"
    using pos by (intro div_le_mono) simp
  have a: "unat (PGROUNDDOWN va) = unat va div 4096 * 4096" "unat (PGROUNDDOWN (va + sz - 1)) = ?e div 4096 * 4096"
    unfolding unat_PGROUNDDOWN l by (simp_all add: minus_mod_eq_div_mult)
  have e: "unat (PGROUNDDOWN va) + span va sz * 4096 = ?e div 4096 * 4096"
    unfolding a span_def using le by (simp add: diff_mult_distrib)
  have "?e < 2 ^ 32"
    using assms(2) pos by simp
  then have lt: "?e div 4096 * 4096 < 2 ^ 32" "?e div 4096 < 1048576"
    using div_times_less_eq_dividend [of ?e 4096] by (simp_all add: less_mult_imp_div_less)
  show "unat (PGROUNDDOWN va) + span va sz * 4096 < 2 ^ 32" "span va sz < PAGES"
    using lt e by (simp_all add: span_def PAGES_def)
  have "unat (of_nat (span va sz) * PGSIZE) = span va sz * 4096"
    using lt(1) e by (intro unat_pages) simp
  then show "PGROUNDDOWN (va + sz - 1) = PGROUNDDOWN va + of_nat (span va sz) * PGSIZE"
    using e lt(1) a(2) by (simp add: word_unat_eq_iff unat_plus_if')
qed

lemma mappages_grows:
  assumes "kmem_ready c s" "kmem_inv s xs" "pd_ok s d xs" "absent (ram s) d \<le> length xs"
    "0 < sz" "unat va + unat sz \<le> 2 ^ 32"
    and "\<And>i. i \<le> span va sz \<Longrightarrow> lookup (ram s) d (PGROUNDDOWN va + of_nat i * PGSIZE) = None"
  shows "\<exists>t ys. mappages c d va sz pa perm s = Ok (0, t) \<and> grows c d s xs t ys
    \<and> lookup (ram t) d = mapped (PGROUNDDOWN va) (span va sz) pa perm (lookup (ram s) d)"
  using map_loop_maps [OF assms(1-4) PGROUNDDOWN_aligned span_pages(2,3) [OF assms(5,6)] assms(7)]
  by (simp add: mappages_def span_pages(1) [OF assms(5,6)])

section \<open>The kernel's part\<close>

lemma unat_aligned: "v mod PGSIZE = 0 \<longleftrightarrow> 4096 dvd unat v"
  using unat_mod [of v PGSIZE] by (auto simp: PGSIZE_def word_unat_eq_iff)

lemma in_span_iff:
  assumes "a mod PGSIZE = 0" "unat a + n * 4096 < 2 ^ 32"
  shows "PGROUNDDOWN v - a \<le> of_nat n * PGSIZE \<longleftrightarrow> unat a \<le> unat v \<and> unat v < unat a + (n + 1) * 4096"
proof -
  obtain k where k: "unat a = 4096 * k"
    using assms(1) by (auto simp: unat_aligned)
  define j where "j = unat v div 4096"
  have j: "4096 * j \<le> unat v" "unat v < 4096 * j + 4096"
    using mult_div_mod_eq [of 4096 "unat v"] mod_less_divisor [of 4096 "unat v"] by (simp_all add: j_def)
  have v: "unat (PGROUNDDOWN v) = 4096 * j"
    by (simp add: unat_PGROUNDDOWN minus_mod_eq_mult_div j_def)
  have n: "unat (of_nat n * PGSIZE) = n * 4096"
    using assms(2) by (intro unat_pages) simp
  have range: "unat a \<le> unat v \<and> unat v < unat a + (n + 1) * 4096 \<longleftrightarrow> k \<le> j \<and> j \<le> k + n"
  proof (intro iffI conjI; elim conjE)
    assume "unat a \<le> unat v" "unat v < unat a + (n + 1) * 4096"
    then have "4096 * k < 4096 * (j + 1)" "4096 * j < 4096 * (k + n + 1)"
      using j k by (simp_all add: distrib_left distrib_right)
    then show "k \<le> j" "j \<le> k + n"
      by simp_all
  next
    assume "k \<le> j" "j \<le> k + n"
    then show "unat a \<le> unat v" "unat v < unat a + (n + 1) * 4096"
      using j k by (simp_all add: distrib_left distrib_right)
  qed
  show ?thesis
  proof (cases "k \<le> j")
    case True
    then have "unat (PGROUNDDOWN v - a) = (j - k) * 4096"
      by (simp add: unat_sub_if' v k)
    then show ?thesis
      using True unfolding range word_le_nat_alt n by auto
  next
    case False
    then have "unat (PGROUNDDOWN v - a) = 2 ^ 32 + 4096 * j - 4096 * k"
      by (simp add: unat_sub_if' v k)
    then show ?thesis
      using False assms(2) k unfolding range word_le_nat_alt n by auto
  qed
qed

lemma span_aligned:
  assumes "va mod PGSIZE = 0" "sz mod PGSIZE = 0" "0 < sz"
  shows "(span va sz + 1) * 4096 = unat sz"
proof -
  obtain j i where ji: "unat va = 4096 * j" "unat sz = 4096 * i"
    using assms(1,2) unfolding unat_aligned by (auto elim!: dvdE)
  moreover have "0 < unat sz"
    using assms(3) by (simp add: word_less_nat_alt)
  ultimately obtain k where jk: "unat va = 4096 * j" "unat sz = 4096 * Suc k"
    by (cases i) auto
  then have "(unat va + unat sz - 1) div 4096 = j + k"
    by (intro div_nat_eqI) simp_all
  then show ?thesis
    using jk by (simp add: span_def)
qed

definition k_size :: "kmap_entry \<Rightarrow> uint" where
  "k_size k = k_phys_end k - k_phys_start k"

definition k_ok :: "kmap_entry \<Rightarrow> bool" where
  "k_ok k \<longleftrightarrow> k_virt k mod PGSIZE = 0 \<and> k_size k mod PGSIZE = 0 \<and> 0 < k_size k \<and> unat (k_virt k) + unat (k_size k) \<le> 2 ^ 32"

definition k_in :: "kmap_entry \<Rightarrow> uint \<Rightarrow> bool" where
  "k_in k v \<longleftrightarrow> unat (k_virt k) \<le> unat v \<and> unat v < unat (k_virt k) + unat (k_size k)"

text \<open>The map that a list of entries stands for.\<close>

definition k_entry :: "kmap_entry \<Rightarrow> uint \<Rightarrow> uint" where
  "k_entry k v = (k_phys_start k + (PGROUNDDOWN v - k_virt k)) OR k_perm k OR PTE_P"

primrec kernel_map :: "kmap_entry list \<Rightarrow> (uint \<Rightarrow> uint option) \<Rightarrow> uint \<Rightarrow> uint option" where
  "kernel_map [] f = f"
| "kernel_map (k # ks) f = kernel_map ks (\<lambda>v. if k_in k v then Some (k_entry k v) else f v)"

lemma mapped_entry:
  assumes "k_ok k"
  shows "mapped (PGROUNDDOWN (k_virt k)) (span (k_virt k) (k_size k)) (k_phys_start k) (k_perm k) f
    = (\<lambda>v. if k_in k v then Some (k_entry k v) else f v)"
proof
  fix v
  have k: "k_virt k mod PGSIZE = 0" "k_size k mod PGSIZE = 0" "0 < k_size k" "unat (k_virt k) + unat (k_size k) \<le> 2 ^ 32"
    using assms by (simp_all add: k_ok_def)
  then have a: "PGROUNDDOWN (k_virt k) = k_virt k"
    by (simp add: PGROUNDDOWN_eq)
  have n: "unat (k_virt k) + span (k_virt k) (k_size k) * 4096 < 2 ^ 32"
    using span_pages(2) [OF k(3,4)] by (simp add: a)
  show "mapped (PGROUNDDOWN (k_virt k)) (span (k_virt k) (k_size k)) (k_phys_start k) (k_perm k) f v
    = (if k_in k v then Some (k_entry k v) else f v)"
    unfolding mapped_def a in_span_iff [OF k(1) n] span_aligned [OF k(1-3)] k_in_def k_entry_def ..
qed

lemma kmap_loop_maps:
  assumes "kmem_ready c s" "kmem_inv s xs" "pd_ok s d xs" "absent (ram s) d \<le> length xs"
    "\<forall>k \<in> set ks. k_ok k \<and> (\<forall>v. k_in k v \<longrightarrow> lookup (ram s) d v = None)"
    "sorted_wrt (\<lambda>k l. \<forall>v. \<not> (k_in k v \<and> k_in l v)) ks"
  shows "\<exists>t ys. kmap_loop c d ks s = Ok (d, t) \<and> grows c d s xs t ys \<and> lookup (ram t) d = kernel_map ks (lookup (ram s) d)"
  using assms
proof (induction ks arbitrary: s xs)
  case Nil
  then show ?case
    using grows_refl [of s xs d c] by auto
next
  case (Cons k ks)
  have k: "k_ok k" "\<And>v. k_in k v \<Longrightarrow> lookup (ram s) d v = None"
    using Cons.prems(5) by auto
  note ok = k(1) [unfolded k_ok_def]
  have pos: "0 < k_size k" and le: "unat (k_virt k) + unat (k_size k) \<le> 2 ^ 32" and a: "PGROUNDDOWN (k_virt k) = k_virt k"
    using ok by (simp_all add: PGROUNDDOWN_eq)
  have free: "lookup (ram s) d (PGROUNDDOWN (k_virt k) + of_nat i * PGSIZE) = None" if "i \<le> span (k_virt k) (k_size k)" for i
  proof -
    have n: "unat (k_virt k) + span (k_virt k) (k_size k) * 4096 < 2 ^ 32"
      using span_pages(2) [of "k_size k" "k_virt k"] ok by (simp add: a)
    have "unat (of_nat i * PGSIZE) = i * 4096"
      using n that by (intro unat_pages) (metis add_lessD1 add.commute le_less_trans mult_le_mono1)
    moreover have "i * 4096 \<le> span (k_virt k) (k_size k) * 4096"
      using that by simp
    ultimately have "unat (k_virt k + of_nat i * PGSIZE) = unat (k_virt k) + i * 4096"
      using n by (simp add: unat_plus_if')
    moreover have "(span (k_virt k) (k_size k) + 1) * 4096 = unat (k_size k)"
      using ok by (intro span_aligned) auto
    ultimately have "k_in k (k_virt k + of_nat i * PGSIZE)"
      using that unfolding k_in_def by simp
    then show ?thesis
      using k(2) by (simp add: a)
  qed
  obtain t ys where t: "mappages c d (k_virt k) (k_size k) (k_phys_start k) (k_perm k) s = Ok (0, t)" "grows c d s xs t ys"
    "lookup (ram t) d = (\<lambda>v. if k_in k v then Some (k_entry k v) else lookup (ram s) d v)"
    using mappages_grows [OF Cons.prems(1-4) pos le free, of "k_phys_start k" "k_perm k"] unfolding mapped_entry [OF k(1)] by blast
  have "\<exists>u zs. kmap_loop c d ks t = Ok (d, u) \<and> grows c d t ys u zs \<and> lookup (ram u) d = kernel_map ks (lookup (ram t) d)"
  proof (rule Cons.IH)
    show "absent (ram t) d \<le> length ys"
      using growsD(9) [OF t(2)] Cons.prems(4) by linarith
    show "\<forall>l \<in> set ks. k_ok l \<and> (\<forall>v. k_in l v \<longrightarrow> lookup (ram t) d v = None)"
      using Cons.prems(5,6) unfolding t(3) by auto
    show "sorted_wrt (\<lambda>k l. \<forall>v. \<not> (k_in k v \<and> k_in l v)) ks"
      using Cons.prems(6) by simp
  qed (use growsD(1,3) [OF t(2)] grows_ready [OF t(2) Cons.prems(1)] in blast)+
  then obtain u zs where u: "kmap_loop c d ks t = Ok (d, u)" "grows c d t ys u zs" "lookup (ram u) d = kernel_map ks (lookup (ram t) d)"
    by blast
  have "kmap_loop c d (k # ks) s = Ok (d, u)"
    using t(1) u(1) by (simp add: k_size_def)
  then show ?case
    using grows_trans [OF t(2) u(2)] u(3) by (auto simp: t(3))
qed

definition kmap_ok :: "uint \<Rightarrow> bool" where
  "kmap_ok data \<longleftrightarrow> data mod PGSIZE = 0 \<and> KERNLINK < data \<and> data < P2V PHYSTOP"

lemmas layout_defs = KERNBASE_def KERNLINK_def EXTMEM_def PHYSTOP_def DEVSPACE_def V2P_def P2V_def

lemma kmap_sizes:
  assumes "kmap_ok data"
  shows "map (\<lambda>k. (unat (k_virt k), unat (k_size k))) (kmap data) =
    [(0x80000000, 0x100000), (0x80100000, unat data - 0x80100000), (unat data, 0x8E000000 - unat data), (0xFE000000, 0x2000000)]"
  using assms by (auto simp: kmap_def k_size_def kmap_ok_def layout_defs word_less_nat_alt unat_sub_if')

lemma kmap_regions:
  assumes "kmap_ok data"
  shows "\<forall>k \<in> set (kmap data). k_ok k \<and> (\<forall>v. k_in k v \<longrightarrow> KERNBASE \<le> v)"
    "sorted_wrt (\<lambda>k l. \<forall>v. \<not> (k_in k v \<and> k_in l v)) (kmap data)"
proof -
  have d: "4096 dvd unat data" "0x80100000 < unat data" "unat data < 0x8E000000"
    using assms by (simp_all add: kmap_ok_def unat_aligned layout_defs word_less_nat_alt)
  note z = kmap_sizes [OF assms, unfolded kmap_def, simplified]
  show "\<forall>k \<in> set (kmap data). k_ok k \<and> (\<forall>v. k_in k v \<longrightarrow> KERNBASE \<le> v)"
    using z d by (auto simp: kmap_def k_ok_def k_in_def unat_aligned word_less_nat_alt word_le_nat_alt KERNBASE_def dvd_diff_nat)
  show "sorted_wrt (\<lambda>k l. \<forall>v. \<not> (k_in k v \<and> k_in l v)) (kmap data)"
    using z d by (auto simp: kmap_def k_in_def)
qed

lemma kernel_map_user: "(\<forall>k \<in> set ks. \<not> k_in k v) \<Longrightarrow> kernel_map ks f v = f v"
  by (induction ks arbitrary: f) auto

lemma fresh_directory:
  assumes "d mod PGSIZE = 0"
  shows "\<not> has_tab (memset m d 0 PGSIZE) d va" "tabs (memset m d 0 PGSIZE) d = {}" "absent (memset m d 0 PGSIZE) d = 1024"
    "lookup (memset m d 0 PGSIZE) d = (\<lambda>_. None)"
proof -
  show h: "\<not> has_tab (memset m d 0 PGSIZE) d va" for va
    by (simp add: has_tab_def pde_def load_zero_page [OF assms])
  then show "tabs (memset m d 0 PGSIZE) d = {}" "lookup (memset m d 0 PGSIZE) d = (\<lambda>_. None)"
    by (simp_all add: tabs_def lookup_def fun_eq_iff)
  have "{i. i < 1024 \<and> load32 (memset m d 0 PGSIZE) (d + 4 * of_nat i) AND PTE_P = 0} = {..<1024}"
    by (auto simp: load_zero_page [OF assms] unat_of_nat)
  then show "absent (memset m d 0 PGSIZE) d = 1024"
    by (simp add: absent_def)
qed

lemma kdata_frame: "kmem_frame c s t \<Longrightarrow> kdata t = kdata s" for s t :: "'a vm_state_scheme"
  by (cases s, cases t) (simp add: kmem_frame_def)

text \<open>A new directory: one free page for itself and one for every table.\<close>

lemma setupkvm_maps:
  assumes "kmem_ready c s" "kmem_inv s (d # xs)" "1024 \<le> length xs" "kmap_ok (kdata s)"
  shows "\<exists>t ys. setupkvm c s = Ok (d, t) \<and> kmem_inv t ys \<and> kmem_frame c s t \<and> pd_ok t d ys \<and> suffix ys xs
    \<and> absent (ram t) d + length xs = 1024 + length ys \<and> tabs (ram t) d \<subseteq> set xs
    \<and> lookup (ram t) d = kernel_map (kmap (kdata s)) (\<lambda>_. None)
    \<and> (\<forall>a. (\<forall>q \<in> insert d (tabs (ram t) d). \<not> same_page q a) \<longrightarrow> ram t a = ram s a)"
proof -
  obtain u where u: "kalloc c s = Ok (d, u)" "kmem_inv u xs" "ram u = ram s" "kmem_frame c s u"
    using kalloc_inv [OF assms(1,2)] by auto
  have d: "page_ok s d" "d \<notin> set xs" "d mod PGSIZE = 0" "d \<noteq> 0"
    using assms(2) page_ok_nonzero by (auto simp: kmem_inv_def page_ok_def)
  let ?v = "u\<lparr>ram := memset (ram u) d 0 PGSIZE\<rparr>"
  note f = fresh_directory [OF d(3), of "ram u"]
  have v: "kmem_frame c s ?v" "kmem_ready c ?v" "page_ok ?v = page_ok s" "kdata ?v = kdata s"
    using u(4) kmem_frame_ready [OF u(4) assms(1)] kmem_frame_page_ok [OF u(4)] kdata_frame [OF u(4)]
    by (auto simp: kmem_ready_def lock_idle_def page_ok_def fun_eq_iff)
  have "flist (ram ?v) (freelist u) xs = flist (ram u) (freelist u) xs"
  proof (rule flist_cong)
    fix y assume "y \<in> set xs"
    then have "y mod PGSIZE = 0" "y \<noteq> d"
      using assms(2) d(2) by (auto simp: kmem_inv_def page_ok_def)
    then show "load32 (ram ?v) y = load32 (ram u) y"
      by (intro load32_same_page_cong [OF d(3)]) (simp_all add: memset_page)
  qed
  then have inv: "kmem_inv ?v xs"
    using u(2) v(3) kmem_frame_page_ok [OF u(4)] by (simp add: kmem_inv_def)
  have pd: "pd_ok ?v d xs"
    using d f(1) by (simp add: pd_ok_def v(3))
  have regions: "\<forall>k \<in> set (kmap (kdata s)). k_ok k \<and> (\<forall>w. k_in k w \<longrightarrow> lookup (ram ?v) d w = None)"
    using kmap_regions(1) [OF assms(4)] f(4) by simp
  obtain t ys where t: "kmap_loop c d (kmap (kdata s)) ?v = Ok (d, t)" "grows c d ?v xs t ys"
    "lookup (ram t) d = kernel_map (kmap (kdata s)) (\<lambda>_. None)"
    using kmap_loop_maps [OF v(2) inv pd _ regions kmap_regions(2) [OF assms(4)]] assms(3) f(3,4) by auto
  note g = growsD [OF t(2)]
  have "setupkvm c s = Ok (d, t)"
    using u(1) d(4) t(1) v(4) by (simp add: setupkvm_def Let_def layout_defs)
  moreover have "ram t a = ram s a" if "\<forall>q \<in> insert d (tabs (ram t) d). \<not> same_page q a" for a
    using that g(10) [of a] by (simp add: u(3) memset_page)
  ultimately show ?thesis
    using g(1,3,4) kmem_frame_trans [OF v(1) g(2)] g(8,9) f(2,3) t(3) by auto
qed

end
