(* ===== verification/VmCopy.thy ===== *)
theory VmCopy
  imports VmSpec
begin

text \<open>
  User address spaces: \<open>space\<close> says that a directory maps all of the first \<open>n\<close> bytes to frames of its own. \<^verbatim>\<open>copyuvm\<close> makes a
  second address space with the same contents that shares no page with the first, and \<^verbatim>\<open>allocuvm\<close> extends one by zeros.
\<close>

section \<open>Address spaces\<close>

definition frame :: "uint \<Rightarrow> uint" where
  "frame e = P2V (PTE_ADDR e)"

definition frames :: "mem \<Rightarrow> uint \<Rightarrow> nat \<Rightarrow> uint set" where
  "frames m d n = {frame e | v e. unat v < n \<and> lookup m d v = Some e}"

definition owned :: "mem \<Rightarrow> uint \<Rightarrow> nat \<Rightarrow> uint set" where
  "owned m d n = insert d (tabs m d) \<union> frames m d n"

definition space :: "'a kmem_state_scheme \<Rightarrow> uint \<Rightarrow> nat \<Rightarrow> uint list \<Rightarrow> bool" where
  "space s d n xs \<longleftrightarrow> pd_ok s d xs
     \<and> (\<forall>v. unat v < n \<longrightarrow> lookup (ram s) d v \<noteq> None)
     \<and> (\<forall>q \<in> frames (ram s) d n. page_ok s q \<and> q \<notin> set xs \<and> q \<notin> insert d (tabs (ram s) d))
     \<and> (\<forall>v w e e'. unat v < n \<and> unat w < n \<and> lookup (ram s) d v = Some e \<and> lookup (ram s) d w = Some e' \<and> frame e = frame e'
          \<longrightarrow> PGROUNDDOWN v = PGROUNDDOWN w)"

lemma lookup_page: "PGROUNDDOWN v = PGROUNDDOWN w \<Longrightarrow> lookup m d v = lookup m d w"
  using page_index [of v w] by (simp add: lookup_def has_tab_def tab_def pde_def)

lemma spaceD:
  assumes "space s d n xs"
  shows "pd_ok s d xs" "unat v < n \<Longrightarrow> lookup (ram s) d v \<noteq> None"
    "q \<in> frames (ram s) d n \<Longrightarrow> page_ok s q" "q \<in> frames (ram s) d n \<Longrightarrow> q \<notin> set xs"
    "q \<in> frames (ram s) d n \<Longrightarrow> q \<notin> insert d (tabs (ram s) d)"
  using assms unfolding space_def by blast+

lemma owned_ok:
  assumes "space s d n xs" "q \<in> owned (ram s) d n"
  shows "page_ok s q" "q mod PGSIZE = 0" "q \<notin> set xs"
proof -
  note sp = spaceD [OF assms(1)]
  show "page_ok s q" "q \<notin> set xs"
    using assms(2) sp(3,4) pd_okD(2,3,5,6) [OF sp(1)] by (auto simp: owned_def tabs_def)
  then show "q mod PGSIZE = 0"
    by (simp add: page_ok_def)
qed

text \<open>Nothing of an address space changes when its pages do not.\<close>

lemma owned_cong:
  assumes "space s d n xs" "\<And>q a. q \<in> insert d (tabs (ram s) d) \<Longrightarrow> same_page q a \<Longrightarrow> m a = ram s a"
  shows "lookup m d = lookup (ram s) d" "tabs m d = tabs (ram s) d" "has_tab m d = has_tab (ram s) d" "tab m d = tab (ram s) d"
    "absent m d = absent (ram s) d" "frames m d k = frames (ram s) d k"
proof -
  have d: "d mod PGSIZE = 0" "\<And>t. t \<in> tabs (ram s) d \<Longrightarrow> t mod PGSIZE = 0"
    using owned_ok(2) [OF assms(1)] by (auto simp: owned_def)
  show l: "lookup m d = lookup (ram s) d"
    using assms(2) d by (intro lookup_cong) auto
  show "tabs m d = tabs (ram s) d" "has_tab m d = has_tab (ram s) d" "tab m d = tab (ram s) d" "absent m d = absent (ram s) d"
    using directory_cong [OF d(1), of m "ram s"] assms(2) by auto
  show "frames m d k = frames (ram s) d k"
    by (simp add: frames_def l)
qed

lemma space_cong:
  assumes "space s d n xs" "page_ok t = page_ok s" "set ys \<subseteq> set xs"
    and "\<And>q a. q \<in> insert d (tabs (ram s) d) \<Longrightarrow> same_page q a \<Longrightarrow> ram t a = ram s a"
  shows "space t d n ys"
proof -
  have c: "lookup (ram t) d = lookup (ram s) d" "tabs (ram t) d = tabs (ram s) d" "has_tab (ram t) d = has_tab (ram s) d"
    "tab (ram t) d = tab (ram s) d" "frames (ram t) d n = frames (ram s) d n"
    by (rule owned_cong [OF assms(1)], erule (1) assms(4))+
  note ok = pd_okD [OF spaceD(1) [OF assms(1)]] and sp = assms(1) [unfolded space_def] and sub = subsetD [OF assms(3)]
  have "pd_ok t d ys"
    unfolding pd_ok_def c(3,4) assms(2)
  proof (intro conjI allI impI)
    show "d \<notin> set ys" "\<And>va. has_tab (ram s) d va \<Longrightarrow> tab (ram s) d va \<notin> set ys"
      using ok(3,6) sub by auto
    show "PDX va = PDX vb" if "has_tab (ram s) d va \<and> has_tab (ram s) d vb \<and> tab (ram s) d va = tab (ram s) d vb" for va vb
      using that ok(8) by simp
  qed (simp_all add: ok(2,5,7))
  moreover have "\<forall>q \<in> frames (ram s) d n. page_ok s q \<and> q \<notin> set ys \<and> q \<notin> insert d (tabs (ram s) d)"
    using sp sub by auto
  ultimately show ?thesis
    using sp unfolding space_def c(1,2,5) assms(2) by simp
qed

text \<open>The contents of the frames of \<open>d\<close> in \<open>m\<close> are those of \<open>p\<close> in \<open>m0\<close>, with the same access rights.\<close>

definition copied :: "mem \<Rightarrow> uint \<Rightarrow> mem \<Rightarrow> uint \<Rightarrow> nat \<Rightarrow> bool" where
  "copied m0 p m d n \<longleftrightarrow>
     (\<forall>v e. unat v < n \<and> lookup m0 p v = Some e \<longrightarrow>
        (\<exists>e'. lookup m d v = Some e' \<and> PTE_FLAGS e' = PTE_FLAGS e \<and> (\<forall>j < PGSIZE. m (frame e' + j) = m0 (frame e + j))))"

section \<open>Adding a page\<close>

lemma take_page:
  assumes "kmem_ready c s" "kmem_inv s (x # ys)" "space s d n (x # ys)" "\<And>a. \<not> same_page x a \<Longrightarrow> m a = ram s a"
  shows "\<exists>u. kalloc c s = Ok (x, u) \<and> ram u = ram s
    \<and> kmem_inv (u\<lparr>ram := m\<rparr>) ys \<and> kmem_ready c (u\<lparr>ram := m\<rparr>) \<and> kmem_frame c s (u\<lparr>ram := m\<rparr>) \<and> space (u\<lparr>ram := m\<rparr>) d n ys"
proof -
  obtain u where u: "kalloc c s = Ok (x, u)" "kmem_inv u ys" "ram u = ram s" "kmem_frame c s u"
    using kalloc_inv [OF assms(1,2)] by auto
  let ?t = "u\<lparr>ram := m\<rparr>"
  have x: "x mod PGSIZE = 0" "x \<notin> set ys" "\<And>y. y \<in> set ys \<Longrightarrow> y mod PGSIZE = 0"
    using assms(2) by (auto simp: kmem_inv_def page_ok_def)
  have f: "kmem_ready c ?t" "kmem_frame c s ?t" "page_ok ?t = page_ok s"
    using kmem_frame_ready [OF u(4) assms(1)] u(4) kmem_frame_page_ok [OF u(4)]
    by (auto simp: kmem_ready_def lock_idle_def page_ok_def fun_eq_iff)
  have "flist m (freelist u) ys = flist (ram u) (freelist u) ys"
  proof (rule flist_cong)
    fix y assume "y \<in> set ys"
    then have "y mod PGSIZE = 0" "y \<noteq> x"
      using x by auto
    then show "load32 m y = load32 (ram u) y"
      using assms(4) u(3) by (intro load32_same_page_cong [OF x(1)]) simp_all
  qed
  then have "kmem_inv ?t ys"
    using u(2) f(3) kmem_frame_page_ok [OF u(4)] by (simp add: kmem_inv_def)
  moreover have "space ?t d n ys"
  proof (rule space_cong [OF assms(3) f(3)])
    show "ram ?t a = ram s a" if "q \<in> insert d (tabs (ram s) d)" "same_page q a" for q a
    proof -
      have "q \<noteq> x" "q mod PGSIZE = 0"
        using owned_ok(2,3) [OF assms(3), of q] that(1) by (auto simp: owned_def)
      then have "\<not> same_page x a"
        using same_page_unique [OF _ x(1) that(2)] by auto
      then show ?thesis
        by (simp add: assms(4))
    qed
  qed auto
  ultimately show ?thesis
    using u f by blast
qed

lemma span_page: "i mod PGSIZE = 0 \<Longrightarrow> span i PGSIZE = 0"
  using span_aligned [of i PGSIZE] by (simp add: PGSIZE_def)

lemma in_page: "i mod PGSIZE = 0 \<Longrightarrow> PGROUNDDOWN v = i \<longleftrightarrow> unat i \<le> unat v \<and> unat v < unat i + 4096"
  using in_span_iff [of i 0 v] unat32_less [of i] by simp

lemma below_page: "f < PGSIZE \<longleftrightarrow> take_bit 12 f = f"
proof -
  have "unat (take_bit 12 f) = unat f mod 4096"
    by (simp add: take_bit_eq_mod unat_mod)
  then show ?thesis
    using mod_less_divisor [of 4096 "unat f"]
    by (auto simp: PGSIZE_def word_less_nat_alt word_unat_eq_iff simp del: mod_less_divisor)
qed

lemma flags_P: "flags < PGSIZE \<Longrightarrow> flags OR PTE_P < PGSIZE"
  by (simp add: below_page PTE_P_def)

lemma extend_frames:
  assumes "i mod PGSIZE = 0" "unat i = n" "frame f = x" "lookup m' d = (\<lambda>v. if PGROUNDDOWN v = i then Some f else lookup m d v)"
  shows "frames m' d (n + 4096) = insert x (frames m d n)"
proof (intro equalityI subsetI)
  have old: "lookup m' d v = lookup m d v" if "unat v < n" for v
    using that assms(1,2) in_page [of i v] by (simp add: assms(4))
  have new: "lookup m' d v = Some f" if "n \<le> unat v" "unat v < n + 4096" for v
    using that assms(1,2) in_page [of i v] by (simp add: assms(4))
  show "q \<in> insert x (frames m d n)" if q: "q \<in> frames m' d (n + 4096)" for q
  proof -
    obtain v e where v: "q = frame e" "unat v < n + 4096" "lookup m' d v = Some e"
      using q by (auto simp: frames_def)
    show ?thesis
      using v old [of v] new [of v] assms(3) by (cases "unat v < n") (auto simp: frames_def)
  qed
  have "x \<in> frames m' d (n + 4096)"
    using new [of i] assms(2,3) unfolding frames_def by force
  moreover have "frame e \<in> frames m' d (n + 4096)" if "unat v < n" "lookup m d v = Some e" for v e
    using that old [of v] unfolding frames_def by (intro CollectI exI [of _ v] exI [of _ e]) simp
  then have "frames m d n \<subseteq> frames m' d (n + 4096)"
    unfolding frames_def [of m] by blast
  ultimately show "q \<in> frames m' d (n + 4096)" if "q \<in> insert x (frames m d n)" for q
    using that by blast
qed

text \<open>The entries of an address space that has grown by a page still lead to different frames.\<close>

lemma extend_injective:
  assumes "space s d n xs" "i mod PGSIZE = 0" "unat i = n" "frame f = x" "x \<notin> frames (ram s) d n"
    "m d = (\<lambda>v. if PGROUNDDOWN v = i then Some f else lookup (ram s) d v)"
    "unat v < n + 4096" "unat w < n + 4096" "m d v = Some e" "m d w = Some e'" "frame e = frame e'"
  shows "PGROUNDDOWN v = PGROUNDDOWN w"
proof -
  have old: "lookup (ram s) d v = Some e \<and> frame e \<noteq> x" if "unat v < n" "m d v = Some e" for v e
  proof -
    have "lookup (ram s) d v = Some e"
      using that assms(2,3) in_page [of i v] by (simp add: assms(6))
    then show ?thesis
      using that(1) assms(5) unfolding frames_def by blast
  qed
  have new: "PGROUNDDOWN v = i \<and> frame e = x" if "n \<le> unat v" "unat v < n + 4096" "m d v = Some e" for v e
    using that assms(2-4) in_page [of i v] by (auto simp: assms(6))
  show ?thesis
  proof (cases "unat v < n \<and> unat w < n")
    case True
    then show ?thesis
      using assms(1) old [of v e] old [of w e'] assms(9-11) unfolding space_def by blast
  next
    case False
    then have "n \<le> unat v" "n \<le> unat w"
      using old [of v e] old [of w e'] new [of v e] new [of w e'] assms(7-11) by (metis not_less)+
    then show ?thesis
      using new assms(7-10) by blast
  qed
qed

lemma add_page:
  assumes "kmem_ready c t" "kmem_inv t ys" "space t d n ys" "absent (ram t) d \<le> length ys"
    and x: "page_ok t x" "x \<notin> set ys" "x \<notin> owned (ram t) d n"
    and i: "i mod PGSIZE = 0" "unat i = n" "lookup (ram t) d i = None" "unat i + 4096 \<le> 2 ^ 32" "flags < PGSIZE"
  shows "\<exists>u zs. mappages c d i PGSIZE (V2P x) flags t = Ok (0, u) \<and> grows c d t ys u zs \<and> space u d (n + 4096) zs
    \<and> lookup (ram u) d = (\<lambda>v. if PGROUNDDOWN v = i then Some (V2P x OR flags OR PTE_P) else lookup (ram t) d v)
    \<and> frames (ram u) d (n + 4096) = insert x (frames (ram t) d n)"
proof -
  note sp = spaceD [OF assms(3)]
  have r: "PGROUNDDOWN i = i"
    using i(1) by (simp add: PGROUNDDOWN_eq)
  have free: "lookup (ram t) d (PGROUNDDOWN i + of_nat j * PGSIZE) = None" if "j \<le> span i PGSIZE" for j
    using that i(3) by (simp add: span_page [OF i(1)] r)
  have pos: "0 < PGSIZE" "unat i + unat PGSIZE \<le> 2 ^ 32"
    using i(4) by (simp_all add: PGSIZE_def)
  obtain u zs where u: "mappages c d i PGSIZE (V2P x) flags t = Ok (0, u)" "grows c d t ys u zs"
    "lookup (ram u) d = (\<lambda>v. if PGROUNDDOWN v = i then Some (V2P x OR flags OR PTE_P) else lookup (ram t) d v)"
    using mappages_grows [OF assms(1,2) sp(1) assms(4) pos free, of "V2P x" flags]
    unfolding r span_page [OF i(1)] mapped_0 by blast
  note g = growsD [OF u(2)]
  have fx: "frame (V2P x OR flags OR PTE_P) = x"
    using entry_parts(1) [OF V2P_aligned flags_P [OF i(5)], of x] x(1) by (simp add: frame_def page_ok_def)
  note fr = extend_frames [OF i(1,2) fx u(3)]
  have "space u d (n + 4096) zs"
    unfolding space_def fr
  proof (intro conjI allI impI ballI)
    show "pd_ok u d zs"
      by (rule g(3))
    show "lookup (ram u) d v \<noteq> None" if "unat v < n + 4096" for v
      using that sp(2) [of v] i(1,2) in_page [of i v] by (simp add: u(3))
    fix q assume q: "q \<in> insert x (frames (ram t) d n)"
    then show "page_ok u q"
      using x(1) sp(3) by (auto simp: kmem_frame_page_ok [OF g(2)])
    have "q \<notin> set ys" "q \<notin> insert d (tabs (ram t) d)"
      using q x(2,3) sp(4,5) [of q] by (auto simp: owned_def)
    then show "q \<notin> set zs" "q \<notin> insert d (tabs (ram u) d)"
      using g(8) set_mono_suffix [OF g(4)] by auto
  next
    have "x \<notin> frames (ram t) d n"
      using x(3) by (simp add: owned_def)
    then show "PGROUNDDOWN v = PGROUNDDOWN w"
      if "unat v < n + 4096 \<and> unat w < n + 4096 \<and> lookup (ram u) d v = Some e \<and> lookup (ram u) d w = Some e' \<and> frame e = frame e'"
      for v w e e'
      using that extend_injective [where m = "lookup (ram u)", OF assms(3) i(1,2) fx _ u(3), of v w e e'] by blast
  qed
  then show ?thesis
    using u fr by blast
qed

text \<open>A free page \<open>x\<close>, filled so that memory is \<open>m\<close>, becomes the page at \<open>i\<close>: what \<^verbatim>\<open>allocuvm\<close> and \<^verbatim>\<open>copyuvm\<close> do in a round.\<close>

definition added :: "nat \<Rightarrow> uint \<Rightarrow> uint \<Rightarrow> uint \<Rightarrow> uint \<Rightarrow> mem \<Rightarrow> 'a kmem_state_scheme \<Rightarrow> uint list \<Rightarrow> 'a kmem_state_scheme \<Rightarrow> uint list \<Rightarrow> bool"
  where
  "added c d i x flags m s ys u zs \<longleftrightarrow> kmem_inv u zs \<and> kmem_frame c s u \<and> kmem_ready c u \<and> set zs \<subseteq> set ys
     \<and> space u d (unat i + 4096) zs
     \<and> lookup (ram u) d = (\<lambda>v. if PGROUNDDOWN v = i then Some (V2P x OR flags OR PTE_P) else lookup (ram s) d v)
     \<and> frames (ram u) d (unat i + 4096) = insert x (frames (ram s) d (unat i))
     \<and> tabs (ram u) d \<subseteq> tabs (ram s) d \<union> set ys \<and> absent (ram u) d + length ys = absent (ram s) d + length zs
     \<and> (\<forall>q a. q mod PGSIZE = 0 \<and> same_page q a \<and> q \<notin> insert d (tabs (ram u) d) \<longrightarrow> ram u a = m a)"

lemma addedD:
  assumes "added c d i x flags m s ys u zs"
  shows "kmem_inv u zs" "kmem_frame c s u" "kmem_ready c u" "set zs \<subseteq> set ys" "space u d (unat i + 4096) zs"
    "lookup (ram u) d = (\<lambda>v. if PGROUNDDOWN v = i then Some (V2P x OR flags OR PTE_P) else lookup (ram s) d v)"
    "frames (ram u) d (unat i + 4096) = insert x (frames (ram s) d (unat i))"
    "tabs (ram u) d \<subseteq> tabs (ram s) d \<union> set ys" "absent (ram u) d + length ys = absent (ram s) d + length zs"
    "q mod PGSIZE = 0 \<Longrightarrow> same_page q a \<Longrightarrow> q \<notin> insert d (tabs (ram u) d) \<Longrightarrow> ram u a = m a"
  using assms unfolding added_def by simp_all

lemma grows_outside:
  assumes "grows c d t ys u zs" "q mod PGSIZE = 0" "same_page q a" "q \<notin> insert d (tabs (ram u) d)"
  shows "ram u a = ram t a"
proof -
  note g = growsD [OF assms(1)]
  have "\<not> same_page r a" if "r \<in> insert d (tabs (ram u) d)" for r
  proof -
    have "r mod PGSIZE = 0"
      using that pd_okD(1,4) [OF g(3)] unfolding tabs_def by blast
    then show ?thesis
      using same_page_unique [OF assms(2) _ assms(3), of r] assms(4) that by auto
  qed
  then show ?thesis
    using g(10) [of a] by auto
qed

lemma kalloc_map:
  assumes "kmem_ready c s" "kmem_inv s (x # ys)" "space s d (unat i) (x # ys)" "absent (ram s) d \<le> length ys"
    and m: "\<And>a. \<not> same_page x a \<Longrightarrow> m a = ram s a"
    and i: "i mod PGSIZE = 0" "lookup (ram s) d i = None" "unat i + 4096 \<le> 2 ^ 32" "flags < PGSIZE"
  shows "\<exists>v u zs. kalloc c s = Ok (x, v) \<and> ram v = ram s \<and> mappages c d i PGSIZE (V2P x) flags (v\<lparr>ram := m\<rparr>) = Ok (0, u)
    \<and> added c d i x flags m s ys u zs"
proof -
  have x: "page_ok s x" "x mod PGSIZE = 0" "x \<notin> set ys" "x \<notin> owned (ram s) d (unat i)"
    using assms(2) owned_ok(3) [OF assms(3), of x] by (auto simp: kmem_inv_def page_ok_def)
  obtain v where v0: "kalloc c s = Ok (x, v)" "ram v = ram s" "kmem_inv (v\<lparr>ram := m\<rparr>) ys" "kmem_ready c (v\<lparr>ram := m\<rparr>)"
    "kmem_frame c s (v\<lparr>ram := m\<rparr>)" "space (v\<lparr>ram := m\<rparr>) d (unat i) ys"
    using take_page [OF assms(1-3) m] by auto
  define t where "t = v\<lparr>ram := m\<rparr>"
  note v = v0 [folded t_def]
  have rt: "ram t = m"
    by (simp add: t_def)
  have same: "ram t a = ram s a" if "r \<in> insert d (tabs (ram s) d)" "same_page r a" for r a
  proof -
    have "r mod PGSIZE = 0" "r \<noteq> x"
      using owned_ok(2) [OF assms(3), of r] that(1) x(4) by (auto simp: owned_def)
    then show ?thesis
      using same_page_unique [of r x a] x(2) that(2) m by (auto simp: rt)
  qed
  have ld: "lookup (ram t) d = lookup (ram s) d" "tabs (ram t) d = tabs (ram s) d" "absent (ram t) d = absent (ram s) d"
    "frames (ram t) d (unat i) = frames (ram s) d (unat i)"
    by (rule owned_cong [OF assms(3)], erule (1) same)+
  have "page_ok t x" "x \<notin> owned (ram t) d (unat i)"
    using x kmem_frame_page_ok [OF v(5)] by (simp_all add: owned_def ld)
  then obtain u zs where u: "mappages c d i PGSIZE (V2P x) flags t = Ok (0, u)" "grows c d t ys u zs" "space u d (unat i + 4096) zs"
    "lookup (ram u) d = (\<lambda>v. if PGROUNDDOWN v = i then Some (V2P x OR flags OR PTE_P) else lookup (ram t) d v)"
    "frames (ram u) d (unat i + 4096) = insert x (frames (ram t) d (unat i))"
    using add_page [OF v(4,3,6), of x i flags] assms(4) i x(3) by (auto simp: ld)
  note g = growsD [OF u(2)]
  have "\<forall>q a. q mod PGSIZE = 0 \<and> same_page q a \<and> q \<notin> insert d (tabs (ram u) d) \<longrightarrow> ram u a = m a"
    by (intro allI impI, elim conjE) (rule grows_outside [OF u(2), unfolded rt])
  then have "added c d i x flags m s ys u zs"
    unfolding added_def
    using g(1) g(8,9) [unfolded ld] kmem_frame_trans [OF v(5) g(2)] grows_ready [OF u(2) v(4)] set_mono_suffix [OF g(4)]
      u(3) u(4,5) [unfolded ld] by simp
  then show ?thesis
    using v(1,2) u(1) unfolding t_def by blast
qed

lemma added_keeps:
  assumes "added c d i x flags m s ys u zs" "x mod PGSIZE = 0" "x \<notin> frames (ram s) d (unat i)" "\<And>a. \<not> same_page x a \<Longrightarrow> m a = ram s a"
    "q \<in> frames (ram s) d (unat i)" "same_page q a"
  shows "ram u a = ram s a"
proof -
  note g = addedD [OF assms(1)]
  have q: "q \<in> frames (ram u) d (unat i + 4096)" "q \<noteq> x"
    using assms(3,5) by (auto simp: g(7))
  then have "q mod PGSIZE = 0"
    using owned_ok(2) [OF g(5), of q] by (simp add: owned_def)
  moreover from this q(2) have "\<not> same_page x a"
    using same_page_unique [OF _ assms(2) assms(6)] by metis
  ultimately show ?thesis
    using g(10) [OF _ assms(6) spaceD(5) [OF g(5) q(1)]] assms(4) by simp
qed

lemma added_fills:
  assumes "added c d i x flags m s ys u zs" "x mod PGSIZE = 0" "j < PGSIZE"
  shows "ram u (x + j) = m (x + j)"
proof -
  note g = addedD [OF assms(1)]
  have "x \<in> frames (ram u) d (unat i + 4096)" "same_page x (x + j)"
    using assms(3) by (simp_all add: g(7) same_page_def)
  then show ?thesis
    using g(10) [OF assms(2)] spaceD(5) [OF g(5)] by blast
qed

lemma V2P_entry:
  assumes "x mod PGSIZE = 0" "flags < PGSIZE"
  shows "frame (V2P x OR flags OR PTE_P) = x" "PTE_FLAGS (V2P x OR flags OR PTE_P) = flags OR PTE_P"
  using entry_parts [OF V2P_aligned [OF assms(1)] flags_P [OF assms(2)]] by (simp_all add: frame_def)

section \<open>Growing\<close>

text \<open>An address space covers whole pages.\<close>

lemma round_idem: "PGROUNDDOWN (PGROUNDDOWN v) = PGROUNDDOWN v"
  using PGROUNDDOWN_aligned [of v] by (subst PGROUNDDOWN_eq) simp

lemma round_page:
  fixes n v :: uint
  assumes "unat n + 4095 < 2 ^ 32" "unat v < unat (PGROUNDUP n)"
  shows "unat (PGROUNDDOWN v) < unat n"
proof -
  obtain k where k: "unat (PGROUNDUP n) = 4096 * k"
    using PGROUNDUP_aligned [of n] unat_aligned [of "PGROUNDUP n"] by (auto elim: dvdE)
  have "unat (PGROUNDDOWN v) = 4096 * (unat v div 4096)"
    by (simp add: unat_PGROUNDDOWN minus_mod_eq_mult_div)
  moreover have "unat v div 4096 + 1 \<le> k"
    using assms(2) k by (simp add: less_mult_imp_div_less mult.commute Suc_leI)
  ultimately show ?thesis
    using PGROUNDUP_bounds(2) [OF assms(1)] k by linarith
qed

lemma space_round:
  assumes "space s d (unat n) xs" "unat n + 4095 < 2 ^ 32"
  shows "space s d (unat (PGROUNDUP n)) xs" "frames (ram s) d (unat (PGROUNDUP n)) = frames (ram s) d (unat n)"
proof -
  have pg: "lookup (ram s) d (PGROUNDDOWN v) = lookup (ram s) d v" for v
    by (rule lookup_page) (rule round_idem)
  show fr: "frames (ram s) d (unat (PGROUNDUP n)) = frames (ram s) d (unat n)"
  proof (intro equalityI subsetI)
    fix q assume "q \<in> frames (ram s) d (unat (PGROUNDUP n))"
    then obtain v e where "q = frame e" "unat v < unat (PGROUNDUP n)" "lookup (ram s) d v = Some e"
      by (auto simp: frames_def)
    then show "q \<in> frames (ram s) d (unat n)"
      using round_page [OF assms(2), of v] pg [of v] unfolding frames_def by force
  next
    fix q assume "q \<in> frames (ram s) d (unat n)"
    then show "q \<in> frames (ram s) d (unat (PGROUNDUP n))"
      using PGROUNDUP_bounds(1) [OF assms(2)] unfolding frames_def by force
  qed
  show "space s d (unat (PGROUNDUP n)) xs"
    unfolding space_def fr
  proof (intro conjI allI impI ballI)
    show "pd_ok s d xs"
      by (rule spaceD(1) [OF assms(1)])
    show "lookup (ram s) d v \<noteq> None" if "unat v < unat (PGROUNDUP n)" for v
      using spaceD(2) [OF assms(1) round_page [OF assms(2) that]] by (simp add: pg)
    show "page_ok s q" "q \<notin> set xs" "q \<notin> insert d (tabs (ram s) d)" if "q \<in> frames (ram s) d (unat n)" for q
      by (rule spaceD(3-5) [OF assms(1) that])+
    fix v w e e'
    assume "unat v < unat (PGROUNDUP n) \<and> unat w < unat (PGROUNDUP n)
      \<and> lookup (ram s) d v = Some e \<and> lookup (ram s) d w = Some e' \<and> frame e = frame e'"
    then have "PGROUNDDOWN (PGROUNDDOWN v) = PGROUNDDOWN (PGROUNDDOWN w)"
      using assms(1) round_page [OF assms(2)] pg unfolding space_def by metis
    then show "PGROUNDDOWN v = PGROUNDDOWN w"
      by (simp add: round_idem)
  qed
qed

text \<open>The first \<open>n0\<close> bytes of \<open>d\<close> are as in \<open>s0\<close>, and from there up to \<open>n\<close> it has zeroed pages of its own the user may write.\<close>

definition growing :: "nat \<Rightarrow> 'a kmem_state_scheme \<Rightarrow> uint list \<Rightarrow> uint \<Rightarrow> nat \<Rightarrow> nat \<Rightarrow> 'a kmem_state_scheme \<Rightarrow> uint list \<Rightarrow> bool" where
  "growing c s0 xs0 d n0 n s xs \<longleftrightarrow> kmem_inv s xs \<and> kmem_frame c s0 s \<and> set xs \<subseteq> set xs0 \<and> space s d n xs
     \<and> frames (ram s) d n \<subseteq> frames (ram s0) d n0 \<union> set xs0 \<and> frames (ram s0) d n0 \<subseteq> frames (ram s) d n
     \<and> (\<forall>v. unat v < n0 \<or> n \<le> unat v \<longrightarrow> lookup (ram s) d v = lookup (ram s0) d v)
     \<and> (\<forall>q \<in> frames (ram s0) d n0. \<forall>a. same_page q a \<longrightarrow> ram s a = ram s0 a)
     \<and> (\<forall>v. n0 \<le> unat v \<and> unat v < n \<longrightarrow>
          (\<exists>e. lookup (ram s) d v = Some e \<and> PTE_FLAGS e = PTE_W OR PTE_U OR PTE_P \<and> (\<forall>j < PGSIZE. ram s (frame e + j) = 0)))"

lemma growingD:
  assumes "growing c s0 xs0 d n0 n s xs"
  shows "kmem_inv s xs" "kmem_frame c s0 s" "set xs \<subseteq> set xs0" "space s d n xs"
    "frames (ram s) d n \<subseteq> frames (ram s0) d n0 \<union> set xs0" "frames (ram s0) d n0 \<subseteq> frames (ram s) d n"
    "unat v < n0 \<or> n \<le> unat v \<Longrightarrow> lookup (ram s) d v = lookup (ram s0) d v"
    "q \<in> frames (ram s0) d n0 \<Longrightarrow> same_page q a \<Longrightarrow> ram s a = ram s0 a"
    "n0 \<le> unat v \<Longrightarrow> unat v < n
       \<Longrightarrow> \<exists>e. lookup (ram s) d v = Some e \<and> PTE_FLAGS e = PTE_W OR PTE_U OR PTE_P \<and> (\<forall>j < PGSIZE. ram s (frame e + j) = 0)"
  using assms unfolding growing_def by blast+

lemma growing_next:
  assumes "growing c s0 xs0 d n0 n s (x # ys)" "added c d i x (PTE_W OR PTE_U) (memset (ram s) x 0 PGSIZE) s ys u zs"
    "i mod PGSIZE = 0" "unat i = n" "n0 \<le> n"
  shows "growing c s0 xs0 d n0 (n + 4096) u zs"
proof -
  note I = growingD [OF assms(1)] and g = addedD [OF assms(2), unfolded assms(4)]
  have x: "x mod PGSIZE = 0" "x \<notin> frames (ram s) d n"
    using I(1) spaceD(4) [OF I(4), of x] by (auto simp: kmem_inv_def page_ok_def)
  have keep: "ram u a = ram s a" if "q \<in> frames (ram s) d n" "same_page q a" for q a
    using added_keeps [OF assms(2) x(1), unfolded assms(4), OF x(2) _ that] by (simp add: memset_page)
  have flags: "PTE_W OR PTE_U < PGSIZE"
    by (simp add: PTE_W_def PTE_U_def PGSIZE_def)
  note e = V2P_entry [OF x(1) flags]
  have new: "\<exists>e. lookup (ram u) d v = Some e \<and> PTE_FLAGS e = PTE_W OR PTE_U OR PTE_P \<and> (\<forall>j < PGSIZE. ram u (frame e + j) = 0)"
    if "n0 \<le> unat v" "unat v < n + 4096" for v
  proof (cases "unat v < n")
    case True
    then obtain e where *: "lookup (ram s) d v = Some e" "PTE_FLAGS e = PTE_W OR PTE_U OR PTE_P" "\<forall>j < PGSIZE. ram s (frame e + j) = 0"
      using I(9) \<open>n0 \<le> unat v\<close> by blast
    then have "frame e \<in> frames (ram s) d n"
      using True unfolding frames_def by blast
    then have "\<forall>j < PGSIZE. ram u (frame e + j) = 0"
      using keep [of "frame e"] *(3) by (simp add: same_page_def)
    then show ?thesis
      using * True assms(3,4) in_page [of i v] by (simp add: g(6))
  next
    case False
    then have "PGROUNDDOWN v = i"
      using that assms(3,4) in_page [of i v] by simp
    moreover have "\<forall>j < PGSIZE. ram u (x + j) = 0"
      using added_fills [OF assms(2) x(1)] by (simp add: memset_page same_page_def)
    ultimately show ?thesis
      using e by (simp add: g(6) or.assoc)
  qed
  have "lookup (ram u) d v = lookup (ram s0) d v" if "unat v < n0 \<or> n + 4096 \<le> unat v" for v
    using that I(7) [of v] assms(3,4,5) in_page [of i v] by (auto simp: g(6))
  moreover have "x \<in> set xs0" "set zs \<subseteq> set xs0"
    using I(3) g(4) by auto
  moreover have "\<forall>q \<in> frames (ram s0) d n0. \<forall>a. same_page q a \<longrightarrow> ram u a = ram s0 a"
    using I(6,8) keep by (metis subsetD)
  ultimately show ?thesis
    unfolding growing_def using g(1,5) kmem_frame_trans [OF I(2) g(2)] I(5,6) new unfolding g(7) by auto
qed

lemma memset_keeps: "\<not> same_page x a \<Longrightarrow> memset m x 0 PGSIZE a = m a"
  by (simp add: memset_page)

lemma alloc_round:
  assumes "growing c s0 xs0 d n0 n s xs" "kmem_ready c s" "absent (ram s) d < length xs" "4096 dvd n" "n0 \<le> n"
    "n < sz" "sz < unat KERNBASE" "lookup (ram s0) d (of_nat n) = None"
  shows "\<exists>u zs. alloc_loop (Suc k) c d (of_nat n) old (of_nat sz) s = alloc_loop k c d (of_nat (n + 4096)) old (of_nat sz) u
    \<and> growing c s0 xs0 d n0 (n + 4096) u zs \<and> kmem_ready c u \<and> absent (ram u) d + length xs = absent (ram s) d + Suc (length zs)"
proof -
  note I = growingD [OF assms(1)]
  let ?i = "of_nat n :: uint"
  have n: "n < 0x80000000" "sz < 0x80000000"
    using assms(6,7) by (simp_all add: KERNBASE_def)
  then have i: "unat ?i = n" "?i mod PGSIZE = 0" "?i < of_nat sz" "unat ?i + 4096 \<le> 2 ^ 32"
    using assms(4,6) by (simp_all add: unat_aligned unat_of_nat word_less_nat_alt)
  obtain x ys where xs: "xs = x # ys"
    using assms(3) by (cases xs) auto
  have x: "x \<noteq> 0"
    using I(1) page_ok_nonzero by (auto simp: kmem_inv_def xs)
  have flags: "PTE_W OR PTE_U < PGSIZE"
    by (simp add: PTE_W_def PTE_U_def PGSIZE_def)
  have "lookup (ram s) d ?i = None" "absent (ram s) d \<le> length ys" "space s d (unat ?i) (x # ys)"
    using assms(3,8) I(4) I(7) [of ?i] i by (simp_all add: xs)
  then obtain v u zs where u: "kalloc c s = Ok (x, v)" "ram v = ram s"
    "mappages c d ?i PGSIZE (V2P x) (PTE_W OR PTE_U) (v\<lparr>ram := memset (ram s) x 0 PGSIZE\<rparr>) = Ok (0, u)"
    "added c d ?i x (PTE_W OR PTE_U) (memset (ram s) x 0 PGSIZE) s ys u zs"
    using kalloc_map [where m = "memset (ram s) x 0 PGSIZE", OF assms(2) I(1) [unfolded xs] _ _ memset_keeps i(2) _ i(4) flags, of d] by blast
  have "of_nat (n + 4096) = ?i + PGSIZE"
    by (simp add: PGSIZE_def)
  then have "alloc_loop (Suc k) c d ?i old (of_nat sz) s = alloc_loop k c d (of_nat (n + 4096)) old (of_nat sz) u"
    using i(3) u(1-3) x by simp
  then show ?thesis
    using growing_next [OF assms(1) [unfolded xs] u(4) i(2,1) assms(5)] addedD(3,9) [OF u(4)] xs
    by (intro exI [of _ u] exI [of _ zs]) simp
qed

lemma alloc_loop_grows:
  assumes "growing c s0 xs0 d n0 n s xs" "kmem_ready c s" "absent (ram s) d + r \<le> length xs" "4096 dvd n" "n0 \<le> n"
    "sz \<le> n + r * 4096" "0 < r \<Longrightarrow> n + (r - 1) * 4096 < sz" "n < sz + 4096" "sz < unat KERNBASE"
    "\<And>v. n0 \<le> unat v \<Longrightarrow> unat v < sz \<Longrightarrow> lookup (ram s0) d v = None" "r < k"
  shows "\<exists>u zs. alloc_loop k c d (of_nat n) old (of_nat sz) s = Ok (of_nat sz, u) \<and> growing c s0 xs0 d n0 (n + r * 4096) u zs"
  using assms(1-8,11)
proof (induction r arbitrary: n s xs k)
  case 0
  then have "n < 2 ^ 32" "sz < 2 ^ 32"
    using assms(9) by (simp_all add: KERNBASE_def)
  then have "\<not> (of_nat n :: uint) < of_nat sz"
    using 0 by (simp add: word_less_nat_alt unat_of_nat)
  then show ?case
    using 0 by (cases k) auto
next
  case (Suc r)
  have n: "n < sz" "unat (of_nat n :: uint) = n"
    using Suc.prems(7) assms(9) by (simp_all add: unat_of_nat KERNBASE_def)
  then have "lookup (ram s0) d (of_nat n) = None"
    using assms(10) [of "of_nat n"] Suc.prems(5) by simp
  then obtain u zs where u: "alloc_loop (Suc (k - 1)) c d (of_nat n) old (of_nat sz) s = alloc_loop (k - 1) c d (of_nat (n + 4096)) old (of_nat sz) u"
    "growing c s0 xs0 d n0 (n + 4096) u zs" "kmem_ready c u" "absent (ram u) d + length xs = absent (ram s) d + Suc (length zs)"
    using alloc_round [OF Suc.prems(1,2) _ Suc.prems(4,5) n(1) assms(9)] Suc.prems(3) by fastforce
  have "\<exists>w ws. alloc_loop (k - 1) c d (of_nat (n + 4096)) old (of_nat sz) u = Ok (of_nat sz, w) \<and> growing c s0 xs0 d n0 (n + 4096 + r * 4096) w ws"
  proof (rule Suc.IH [OF u(2,3)])
    show "absent (ram u) d + r \<le> length zs"
      using Suc.prems(3) u(4) by linarith
    show "4096 dvd n + 4096" "n0 \<le> n + 4096" "sz \<le> n + 4096 + r * 4096" "r < k - 1" "n + 4096 < sz + 4096"
      using Suc.prems(4,5,6,9) n(1) by simp_all
    show "n + 4096 + (r - 1) * 4096 < sz" if "0 < r"
      using Suc.prems(7) that by (cases r) simp_all
  qed
  then show ?case
    using u(1) Suc.prems(9) by (simp add: add.assoc)
qed

lemma space_mono:
  assumes "space s d n xs" "k \<le> n"
  shows "space s d k xs" "owned (ram s) d k \<subseteq> owned (ram s) d n"
proof -
  have f: "frames (ram s) d k \<subseteq> frames (ram s) d n"
    using assms(2) unfolding frames_def by force
  then show "owned (ram s) d k \<subseteq> owned (ram s) d n"
    unfolding owned_def by blast
  have lt: "unat v < n" if "unat v < k" for v :: uint
    using that assms(2) by simp
  show "space s d k xs"
    unfolding space_def
  proof (intro conjI allI impI ballI)
    show "pd_ok s d xs" "\<And>v. unat v < k \<Longrightarrow> lookup (ram s) d v \<noteq> None"
      using spaceD(1,2) [OF assms(1)] lt by blast+
    show "page_ok s q" "q \<notin> set xs" "q \<notin> insert d (tabs (ram s) d)" if "q \<in> frames (ram s) d k" for q
      using spaceD(3-5) [OF assms(1) subsetD [OF f that]] .
    show "PGROUNDDOWN v = PGROUNDDOWN w"
      if "unat v < k \<and> unat w < k \<and> lookup (ram s) d v = Some e \<and> lookup (ram s) d w = Some e' \<and> frame e = frame e'" for v w e e'
      using that lt assms(1) unfolding space_def by blast
  qed
qed

lemma rounds:
  fixes n :: nat
  assumes "r = (n + 4095) div 4096"
  shows "n \<le> r * 4096" "0 < r \<Longrightarrow> (r - 1) * 4096 < n" "n \<le> k * 4096 \<Longrightarrow> r \<le> k"
proof -
  have "r * 4096 + (n + 4095) mod 4096 = n + 4095" "(n + 4095) mod 4096 < 4096"
    by (simp_all add: assms)
  then show "n \<le> r * 4096" "0 < r \<Longrightarrow> (r - 1) * 4096 < n" "n \<le> k * 4096 \<Longrightarrow> r \<le> k"
    by (simp_all add: diff_mult_distrib)
qed

lemma pages_top:
  fixes n :: nat
  assumes "4096 dvd n" "n < sz + 4096" "0 < r \<Longrightarrow> (r - 1) * 4096 < sz - n" "sz \<le> 0x80000000"
  shows "n + r * 4096 \<le> 0x80000000"
proof -
  obtain k where k: "n = 4096 * k"
    using assms(1) by (auto elim: dvdE)
  have "n + r * 4096 < 0x80000000 + 4096"
    using assms(2-4) by (cases "r = 0") (simp_all add: diff_mult_distrib)
  then have "k + r \<le> 0x80000"
    unfolding k by linarith
  then show ?thesis
    unfolding k by simp
qed

section \<open>A machine with free memory\<close>

definition bare :: vm_state where
  "bare = \<lparr>cpus = cpus two_cpus, locks = locks two_cpus, kout = [], cons_locking = False,
     ram = (\<lambda>_. 0), freelist = 0, use_lock = False, kend = 0x80200000, kpgdir = 0, kdata = 0x80108000\<rparr>"

lemma bare_directory:
  "\<exists>t p u xs. freerange 0 0x80400000 0x80E00000 bare = Ok t \<and> setupkvm 0 t = Ok (p, u) \<and> kmem_ready 0 u \<and> kmem_inv u xs
     \<and> space u p 0 xs \<and> kmap_ok (kdata u) \<and> (\<forall>v. v < KERNBASE \<longrightarrow> lookup (ram u) p v = None)
     \<and> absent (ram u) p + 1535 \<le> length xs"
proof -
  have up: "PGROUNDUP 0x80400000 = 0x80400000" "npages 0x80400000 0x80E00000 = 2560"
    by (simp_all add: PGROUNDUP_def PGSIZE_def npages_def)
  have "kmem_ready 0 bare" "kmem_inv bare []"
    by (simp_all add: kmem_ready_def kmem_inv_def bare_def)
  from freerange_inv [OF this, of "0x80400000" "0x80E00000"]
  obtain t where t: "freerange 0 0x80400000 0x80E00000 bare = Ok t" "kmem_inv t (rev (page_run 0x80400000 2560))" "kmem_frame 0 bare t"
    unfolding up by (auto simp: bare_def KERNBASE_def PHYSTOP_def)
  have len: "length (page_run x n) = n" for x n
    by (induction n arbitrary: x) simp_all
  have "length (rev (page_run 0x80400000 2560)) = Suc 2559"
    by (simp add: len)
  then obtain p xs where xs: "rev (page_run 0x80400000 2560) = p # xs" "length xs = 2559"
    unfolding length_Suc_conv by blast
  have ready: "kmem_ready 0 t" "kmap_ok (kdata t)" "kdata t = 0x80108000"
    using kmem_frame_ready [OF t(3) \<open>kmem_ready 0 bare\<close>] kdata_frame [OF t(3)]
    by (simp_all add: bare_def kmap_ok_def layout_defs PGSIZE_def)
  obtain u ys where u: "setupkvm 0 t = Ok (p, u)" "kmem_inv u ys" "kmem_frame 0 t u" "pd_ok u p ys"
    "absent (ram u) p + length xs = 1024 + length ys" "lookup (ram u) p = kernel_map (kmap (kdata t)) (\<lambda>_. None)"
    using setupkvm_maps [OF ready(1) t(2) [unfolded xs(1)] _ ready(2)] xs(2) by auto
  have "space u p 0 ys"
    using u(4) by (simp add: space_def frames_def)
  moreover have "lookup (ram u) p v = None" if "v < KERNBASE" for v
    using kmap_regions(1) [OF ready(2)] that unfolding u(6) by (subst kernel_map_user) fastforce+
  ultimately show ?thesis
    using t(1) u(1,2,5) kmem_frame_ready [OF u(3) ready(1)] kdata_frame [OF u(3)] ready(2) xs(2)
    by (intro exI [of _ t] exI [of _ p] exI [of _ u] exI [of _ ys]) simp
qed

text \<open>C21: \<^verbatim>\<open>allocuvm\<close>, behind \<^verbatim>\<open>sbrk\<close> and \<^verbatim>\<open>exec\<close>. With enough free pages it extends an address space of \<open>oldsz\<close> bytes to
  \<open>newsz\<close> bytes: the new pages are frames of its own, user-writable and zero, and what was mapped before, its contents and the
  kernel's half are as they were.\<close>

theorem allocuvm_grows:
  assumes "kmem_ready c s" "kmem_inv s xs" "space s d (unat oldsz) xs" "oldsz \<le> newsz" "newsz < KERNBASE"
    "\<forall>v. PGROUNDUP oldsz \<le> v \<and> v < newsz \<longrightarrow> lookup (ram s) d v = None"
    "absent (ram s) d + (unat newsz - unat (PGROUNDUP oldsz) + 4095) div 4096 \<le> length xs"
  shows "\<exists>t ys. allocuvm c d oldsz newsz s = Ok (newsz, t) \<and> kmem_inv t ys \<and> kmem_frame c s t \<and> space t d (unat newsz) ys
    \<and> (\<forall>v. v < PGROUNDUP oldsz \<or> KERNBASE \<le> v \<longrightarrow> lookup (ram t) d v = lookup (ram s) d v)
    \<and> (\<forall>q \<in> frames (ram s) d (unat oldsz). \<forall>a. same_page q a \<longrightarrow> ram t a = ram s a)
    \<and> (\<forall>v. PGROUNDUP oldsz \<le> v \<and> v < newsz \<longrightarrow>
         (\<exists>e. lookup (ram t) d v = Some e \<and> PTE_FLAGS e = PTE_W OR PTE_U OR PTE_P \<and> (\<forall>j < PGSIZE. ram t (frame e + j) = 0)))"
proof -
  let ?n = "unat (PGROUNDUP oldsz)"
  define r where "r = (unat newsz - ?n + 4095) div 4096"
  note rounds = rounds [OF r_def]
  have sz: "unat oldsz \<le> unat newsz" "unat newsz < 0x80000000" "unat newsz < unat KERNBASE"
    using assms(4,5) by (simp_all add: word_le_nat_alt word_less_nat_alt KERNBASE_def)
  then have old: "unat oldsz + 4095 < 2 ^ 32"
    by simp
  note up = PGROUNDUP_bounds [OF old] and sp = space_round [OF assms(3) old]
  have n: "4096 dvd ?n"
    using unat_aligned PGROUNDUP_aligned by blast
  have "\<exists>t zs. alloc_loop PAGES c d (of_nat ?n) oldsz (of_nat (unat newsz)) s = Ok (of_nat (unat newsz), t)
    \<and> growing c s xs d ?n (?n + r * 4096) t zs"
  proof (rule alloc_loop_grows [OF _ assms(1) assms(7) [folded r_def] n order_refl _ _ _ sz(3)])
    show "growing c s xs d ?n ?n s xs"
      using assms(2) sp(1) by (auto simp: growing_def)
    show "unat newsz \<le> ?n + r * 4096" "?n < unat newsz + 4096"
      using rounds(1) up(2) sz(1) by linarith+
    show "?n + (r - 1) * 4096 < unat newsz" if "0 < r"
      using rounds(2) [OF that] by linarith
    show "lookup (ram s) d v = None" if "?n \<le> unat v" "unat v < unat newsz" for v
      using assms(6) that by (simp add: word_le_nat_alt word_less_nat_alt)
    have "unat newsz - ?n \<le> 0x80000 * 4096"
      using sz(2) by simp
    from rounds(3) [OF this] show "r < PAGES"
      by (simp add: PAGES_def)
  qed
  then obtain t zs where t: "alloc_loop PAGES c d (PGROUNDUP oldsz) oldsz newsz s = Ok (newsz, t)"
    "growing c s xs d ?n (?n + r * 4096) t zs"
    by auto
  note I = growingD [OF t(2)]
  have le: "unat newsz \<le> ?n + r * 4096"
    using rounds(1) by linarith
  have top: "?n + r * 4096 \<le> unat KERNBASE"
    using pages_top [OF n, of "unat newsz" r] rounds(2) up(2) sz(1,2) by (simp add: KERNBASE_def)
  have "allocuvm c d oldsz newsz s = Ok (newsz, t)"
    using t(1) assms(4,5) by (auto simp: allocuvm_def)
  then show ?thesis
    using I(1,2,7,8,9) space_mono(1) [OF I(4) le] le top unfolding sp(2) [symmetric] word_le_nat_alt word_less_nat_alt
    by (intro exI [of _ t] exI [of _ zs]) auto
qed

theorem allocuvm_grows_witness:
  "\<exists>t p u w ys. freerange 0 0x80400000 0x80E00000 bare = Ok t \<and> setupkvm 0 t = Ok (p, u)
     \<and> allocuvm 0 p 0 5000 u = Ok (5000, w) \<and> space w p 5000 ys \<and> (\<exists>e. lookup (ram w) p 4999 = Some e \<and> ram w (frame e + 7) = 0)"
proof -
  obtain t p u xs where u: "freerange 0 0x80400000 0x80E00000 bare = Ok t" "setupkvm 0 t = Ok (p, u)" "kmem_ready 0 u" "kmem_inv u xs"
    "space u p 0 xs" "\<And>v. v < KERNBASE \<Longrightarrow> lookup (ram u) p v = None" "absent (ram u) p + 1535 \<le> length xs"
    using bare_directory by blast
  have "PGROUNDUP 0 = 0"
    by (simp add: PGROUNDUP_def PGSIZE_def)
  moreover have "lookup (ram u) p v = None" if "v < 5000" for v
    using that u(6) [of v] by (simp add: word_less_nat_alt KERNBASE_def)
  ultimately obtain w ys where w: "allocuvm 0 p 0 5000 u = Ok (5000, w)" "space w p 5000 ys"
    "\<And>v. v < 5000 \<Longrightarrow> \<exists>e. lookup (ram w) p v = Some e \<and> (\<forall>j < PGSIZE. ram w (frame e + j) = 0)"
    using allocuvm_grows [OF u(3,4), of p 0 5000] u(5,7) by (force simp: KERNBASE_def)
  have "\<exists>e. lookup (ram w) p 4999 = Some e \<and> ram w (frame e + 7) = 0"
    using w(3) [of 4999] by (auto simp: PGSIZE_def)
  then show ?thesis
    using u(1,2) w(1,2) by blast
qed

section \<open>Copying\<close>

text \<open>Between two rounds of \<^verbatim>\<open>copyuvm\<close>: \<open>n\<close> bytes of the address space of \<open>p\<close> in \<open>s0\<close>, of \<open>sz\<close> bytes, have been copied to \<open>d\<close>,
  whose pages all come from the free list \<open>xs0\<close> of that state and which is \<open>K\<close> from there on; the pages of \<open>p\<close> are as they were.\<close>

definition copying :: "nat \<Rightarrow> (uint \<Rightarrow> uint option) \<Rightarrow> 'a kmem_state_scheme \<Rightarrow> uint list \<Rightarrow> uint \<Rightarrow> nat \<Rightarrow> uint \<Rightarrow> nat \<Rightarrow> 'a kmem_state_scheme \<Rightarrow> uint list \<Rightarrow> bool" where
  "copying c K s0 xs0 p sz d n s xs \<longleftrightarrow> kmem_inv s xs \<and> kmem_frame c s0 s \<and> set xs \<subseteq> set xs0
     \<and> space s d n xs \<and> owned (ram s) d n \<subseteq> set xs0
     \<and> (\<forall>v. n \<le> unat v \<longrightarrow> lookup (ram s) d v = K v)
     \<and> (\<forall>q \<in> owned (ram s0) p sz. \<forall>a. same_page q a \<longrightarrow> ram s a = ram s0 a)
     \<and> copied (ram s0) p (ram s) d n"

lemma PTE_FLAGS_take: "PTE_FLAGS e = take_bit 12 e"
  by (simp add: PTE_FLAGS_def take_bit_eq_mask mask_eq_exp_minus_1)

lemma flags_less: "PTE_FLAGS e < PGSIZE"
  by (simp add: below_page PTE_FLAGS_take)

lemma flags_present: "e AND PTE_P \<noteq> 0 \<Longrightarrow> PTE_FLAGS e OR PTE_P = PTE_FLAGS e"
proof -
  assume "e AND PTE_P \<noteq> 0"
  moreover have "e AND PTE_P = of_bool (bit e 0)"
    by (simp add: PTE_P_def and_one_eq mod2_eq_if bit_0)
  ultimately have "bit e 0"
    by (cases "bit e 0") simp_all
  then show ?thesis
    unfolding PTE_FLAGS_take PTE_P_def by (intro bit_word_eqI) (auto simp: bit_or_iff bit_take_bit_iff bit_1_iff)
qed

lemma lookup_Some: "lookup m d v = Some e \<Longrightarrow> has_tab m d v \<and> load32 m (tab m d v + 4 * PTX v) = e \<and> e AND PTE_P \<noteq> 0"
  by (auto simp: lookup_def present_def split: if_splits)

lemma walk_found:
  assumes "pd_ok s p xs" "lookup (ram s) p v = Some e"
  shows "walkpgdir c p v al s = Ok (tab (ram s) p v + 4 * PTX v, s)" "tab (ram s) p v + 4 * PTX v \<noteq> 0"
  using lookup_Some [OF assms(2)] slot_nonzero [OF pd_okD(5) [OF assms(1)] PTX_less]
  by (auto simp: walkpgdir_def has_tab_def tab_def pde_def Let_def)

lemma memmove_page:
  assumes "page_ok s q" "page_ok t x"
  shows "memmove m x q PGSIZE = (\<lambda>a. if same_page x a then m (q + (a - x)) else m a)"
proof -
  have "unat q + unat PGSIZE < 2 ^ 32" "unat x + unat PGSIZE \<le> 2 ^ 32"
    using assms V2P_less_PHYSTOP(2) [of q] V2P_less_PHYSTOP(2) [of x] by (simp_all add: page_ok_def KERNBASE_def PHYSTOP_def PGSIZE_def)
  then show ?thesis
    by (simp add: memmove_eq same_page_def)
qed

lemma copyingD:
  assumes "copying c K s0 xs0 p sz d n s xs"
  shows "kmem_inv s xs" "kmem_frame c s0 s" "set xs \<subseteq> set xs0" "space s d n xs" "owned (ram s) d n \<subseteq> set xs0"
    "n \<le> unat v \<Longrightarrow> lookup (ram s) d v = K v"
    "q \<in> owned (ram s0) p sz \<Longrightarrow> same_page q a \<Longrightarrow> ram s a = ram s0 a" "copied (ram s0) p (ram s) d n"
  using assms unfolding copying_def by blast+

lemma parent_kept:
  assumes "space s0 p sz xs0" "copying c K s0 xs0 p sz d n s xs"
  shows "space s p sz xs" "lookup (ram s) p = lookup (ram s0) p" "owned (ram s) p sz = owned (ram s0) p sz"
proof -
  have k: "ram s a = ram s0 a" if "q \<in> insert p (tabs (ram s0) p)" "same_page q a" for q a
    using that copyingD(7) [OF assms(2)] by (auto simp: owned_def)
  show "space s p sz xs"
    by (rule space_cong [OF assms(1) kmem_frame_page_ok [OF copyingD(2) [OF assms(2)]] copyingD(3) [OF assms(2)]]) (erule (1) k)
  show "lookup (ram s) p = lookup (ram s0) p"
    by (rule owned_cong(1) [OF assms(1)]) (erule (1) k)
  have "tabs (ram s) p = tabs (ram s0) p" "frames (ram s) p sz = frames (ram s0) p sz"
    by (rule owned_cong [OF assms(1)], erule (1) k)+
  then show "owned (ram s) p sz = owned (ram s0) p sz"
    by (simp add: owned_def)
qed

lemma copied_next:
  assumes "copied m0 p m d n" "lookup m' d = (\<lambda>v. if PGROUNDDOWN v = i then Some f else lookup m d v)"
    and i: "i mod PGSIZE = 0" "unat i = n" "lookup m0 p i = Some e" "PTE_FLAGS f = PTE_FLAGS e"
    and old: "\<And>q j. q \<in> frames m d n \<Longrightarrow> j < PGSIZE \<Longrightarrow> m' (q + j) = m (q + j)"
    and new: "\<And>j. j < PGSIZE \<Longrightarrow> m' (frame f + j) = m0 (frame e + j)"
  shows "copied m0 p m' d (n + 4096)"
  unfolding copied_def
proof (intro allI impI; elim conjE)
  fix v g
  assume v: "unat v < n + 4096" "lookup m0 p v = Some g"
  show "\<exists>e'. lookup m' d v = Some e' \<and> PTE_FLAGS e' = PTE_FLAGS g \<and> (\<forall>j < PGSIZE. m' (frame e' + j) = m0 (frame g + j))"
  proof (cases "unat v < n")
    case True
    then obtain e' where e': "lookup m d v = Some e'" "PTE_FLAGS e' = PTE_FLAGS g"
      "\<forall>j < PGSIZE. m (frame e' + j) = m0 (frame g + j)"
      using assms(1) v(2) unfolding copied_def by blast
    then have "frame e' \<in> frames m d n"
      using True unfolding frames_def by blast
    moreover have "lookup m' d v = Some e'"
      using True i(1,2) in_page [of i v] e'(1) by (simp add: assms(2))
    ultimately show ?thesis
      using e'(2,3) old by auto
  next
    case False
    then have "PGROUNDDOWN v = i"
      using v(1) i(1,2) in_page [of i v] by simp
    moreover from this have "g = e"
      using v(2) i(1,3) lookup_page [of v i] by (simp add: PGROUNDDOWN_eq)
    ultimately show ?thesis
      using new i(4) by (simp add: assms(2))
  qed
qed

text \<open>One page: the new frame \<open>x\<close> filled from the frame of the entry \<open>e\<close> and mapped.\<close>

lemma copying_next:
  assumes "space s0 p sz xs0" "copying c K s0 xs0 p sz d n s (x # ys)"
    and u: "added c d i x (PTE_FLAGS e) (\<lambda>a. if same_page x a then ram s (frame e + (a - x)) else ram s a) s ys u zs"
    and i: "i mod PGSIZE = 0" "unat i = n" "n < sz" "lookup (ram s0) p i = Some e"
  shows "copying c K s0 xs0 p sz d (n + 4096) u zs"
proof -
  note I = copyingD [OF assms(2)] and g = addedD [OF u, unfolded i(2)]
  have x: "x mod PGSIZE = 0" "x \<in> set xs0" "x \<notin> owned (ram s) d n" "x \<notin> insert d (tabs (ram u) d)"
    using I(1,3) owned_ok(3) [OF I(4), of x] spaceD(5) [OF g(5), of x] g(7) by (auto simp: kmem_inv_def page_ok_def)
  have ow: "owned (ram u) d (n + 4096) \<subseteq> set xs0"
    using I(3,5) x(2) g(8) unfolding owned_def g(7) by auto
  have same: "ram u a = ram s a" if "q mod PGSIZE = 0" "same_page q a" "q \<notin> insert d (tabs (ram u) d)" "q \<noteq> x" for q a
    using g(10) [OF that(1-3)] same_page_unique [OF that(1) x(1) that(2)] that(4) by auto
  have keep: "ram u a = ram s0 a" if "q \<in> owned (ram s0) p sz" "same_page q a" for q a
    using owned_ok(2,3) [OF assms(1) that(1)] same [of q a] ow x(2) that I(7) by (auto simp: owned_def)
  have e: "frame (V2P x OR PTE_FLAGS e OR PTE_P) = x" "PTE_FLAGS (V2P x OR PTE_FLAGS e OR PTE_P) = PTE_FLAGS e"
    using V2P_entry [OF x(1) flags_less [of e]] flags_present lookup_Some [OF i(4)] by simp_all
  have "copied (ram s0) p (ram u) d (n + 4096)"
  proof (rule copied_next [OF I(8) g(6) i(1,2,4) e(2)])
    fix q j assume q: "q \<in> frames (ram s) d n" and j: "j < PGSIZE"
    have "x \<notin> frames (ram s) d n"
      using x(3) by (simp add: owned_def)
    then show "ram u (q + j) = ram s (q + j)"
      using added_keeps [OF u x(1), unfolded i(2), of q "q + j"] q j by (simp add: same_page_def)
  next
    fix j assume j: "j < PGSIZE"
    have "frame e \<in> owned (ram s0) p sz"
      using i(2,3,4) unfolding owned_def frames_def by blast
    then show "ram u (frame (V2P x OR PTE_FLAGS e OR PTE_P) + j) = ram s0 (frame e + j)"
      using added_fills [OF u x(1) j] j I(7) [of "frame e" "frame e + j"] by (simp add: e(1) same_page_def)
  qed
  moreover have "lookup (ram u) d v = K v" if "n + 4096 \<le> unat v" for v
    using that I(6) [of v] i(1,2) in_page [of i v] by (simp add: g(6))
  moreover have "set zs \<subseteq> set xs0"
    using g(4) I(3) by auto
  ultimately show ?thesis
    unfolding copying_def using g(1,5) kmem_frame_trans [OF I(2) g(2)] ow keep by blast
qed

lemma copy_round:
  assumes "space s0 p sz xs0" "copying c K s0 xs0 p sz d n s xs" "kmem_ready c s" "absent (ram s) d < length xs"
    "4096 dvd n" "n < sz" "sz \<le> unat KERNBASE" "\<And>v. v < KERNBASE \<Longrightarrow> K v = None"
  shows "\<exists>u zs. copy_loop (Suc k) c p d (of_nat n) (of_nat sz) s = copy_loop k c p d (of_nat (n + 4096)) (of_nat sz) u
    \<and> copying c K s0 xs0 p sz d (n + 4096) u zs \<and> kmem_ready c u \<and> absent (ram u) d + length xs = absent (ram s) d + Suc (length zs)"
proof -
  note I = copyingD [OF assms(2)] and par = parent_kept [OF assms(1,2)]
  let ?i = "of_nat n :: uint"
  have n: "n < 0x80000000" "sz \<le> 0x80000000"
    using assms(6,7) by (simp_all add: KERNBASE_def)
  then have i: "unat ?i = n" "?i mod PGSIZE = 0" "?i < of_nat sz" "?i < KERNBASE" "unat ?i + 4096 \<le> 2 ^ 32"
    using assms(5,6) by (simp_all add: unat_aligned unat_of_nat word_less_nat_alt KERNBASE_def)
  obtain e where e: "lookup (ram s0) p ?i = Some e"
    using spaceD(2) [OF assms(1), of ?i] i(1) assms(6) by auto
  then have e': "lookup (ram s) p ?i = Some e"
    by (simp add: par(2))
  note w = walk_found [OF spaceD(1) [OF par(1)] e'] and en = lookup_Some [OF e']
  obtain x ys where xs: "xs = x # ys"
    using assms(4) by (cases xs) auto
  have q: "frame e \<in> frames (ram s) p sz"
    using e' i(1) assms(6) unfolding frames_def by (intro CollectI exI [of _ ?i] exI [of _ e]) simp
  have x: "page_ok s x" "x \<noteq> 0"
    using I(1) page_ok_nonzero by (auto simp: kmem_inv_def xs)
  let ?m = "\<lambda>a. if same_page x a then ram s (frame e + (a - x)) else ram s a"
  have m: "memmove (ram s) x (frame e) PGSIZE = ?m"
    using memmove_page [OF spaceD(3) [OF par(1) q] x(1)] .
  have "lookup (ram s) d ?i = None" "absent (ram s) d \<le> length ys" "space s d (unat ?i) (x # ys)"
    using assms(4,8) I(4) I(6) [of ?i] i by (simp_all add: xs)
  then obtain v u zs where u: "kalloc c s = Ok (x, v)" "ram v = ram s"
    "mappages c d ?i PGSIZE (V2P x) (PTE_FLAGS e) (v\<lparr>ram := ?m\<rparr>) = Ok (0, u)" "added c d ?i x (PTE_FLAGS e) ?m s ys u zs"
    using kalloc_map [OF assms(3) I(1) [unfolded xs] _ _ _ i(2) _ i(5) flags_less, of d ?m e] by auto
  have "copying c K s0 xs0 p sz d (n + 4096) u zs"
    by (rule copying_next [OF assms(1) assms(2) [unfolded xs] u(4) i(2,1) assms(6) e])
  moreover have "of_nat (n + 4096) = ?i + PGSIZE"
    by (simp add: PGSIZE_def)
  then have "copy_loop (Suc k) c p d ?i (of_nat sz) s = copy_loop k c p d (of_nat (n + 4096)) (of_nat sz) u"
    using i(3) w en u(1-3) m x(2) by (simp add: frame_def)
  ultimately show ?thesis
    using addedD(3,9) [OF u(4)] xs by (intro exI [of _ u] exI [of _ zs]) simp
qed

lemma copy_loop_copies:
  assumes "space s0 p sz xs0" "copying c K s0 xs0 p sz d n s xs" "kmem_ready c s" "absent (ram s) d + r \<le> length xs"
    "4096 dvd n" "sz \<le> n + r * 4096" "0 < r \<Longrightarrow> n + (r - 1) * 4096 < sz" "n < sz + 4096" "sz \<le> unat KERNBASE"
    "\<And>v. v < KERNBASE \<Longrightarrow> K v = None" "r < k"
  shows "\<exists>u zs. copy_loop k c p d (of_nat n) (of_nat sz) s = Ok (d, u) \<and> copying c K s0 xs0 p sz d (n + r * 4096) u zs"
  using assms(2-8,11)
proof (induction r arbitrary: n s xs k)
  case 0
  then have "n < 2 ^ 32" "sz < 2 ^ 32"
    using assms(9) by (simp_all add: KERNBASE_def)
  then have "\<not> (of_nat n :: uint) < of_nat sz"
    using 0 by (simp add: word_less_nat_alt unat_of_nat)
  then show ?case
    using 0 by (cases k) auto
next
  case (Suc r)
  obtain u zs where u: "copy_loop (Suc (k - 1)) c p d (of_nat n) (of_nat sz) s = copy_loop (k - 1) c p d (of_nat (n + 4096)) (of_nat sz) u"
    "copying c K s0 xs0 p sz d (n + 4096) u zs" "kmem_ready c u" "absent (ram u) d + length xs = absent (ram s) d + Suc (length zs)"
    using copy_round [OF assms(1) Suc.prems(1,2) _ Suc.prems(4) _ assms(9,10)] Suc.prems(3,6) by fastforce
  have "\<exists>w ws. copy_loop (k - 1) c p d (of_nat (n + 4096)) (of_nat sz) u = Ok (d, w) \<and> copying c K s0 xs0 p sz d (n + 4096 + r * 4096) w ws"
  proof (rule Suc.IH [OF u(2,3)])
    show "absent (ram u) d + r \<le> length zs"
      using Suc.prems(3) u(4) by linarith
    show "4096 dvd n + 4096" "sz \<le> n + 4096 + r * 4096" "r < k - 1" "n + 4096 < sz + 4096"
      using Suc.prems(4,5,6,8) by simp_all
    show "n + 4096 + (r - 1) * 4096 < sz" if "0 < r"
      using Suc.prems(6) that by (cases r) simp_all
  qed
  then show ?case
    using u(1) Suc.prems(8) by (simp add: add.assoc)
qed

text \<open>What \<^verbatim>\<open>setupkvm\<close> gives \<^verbatim>\<open>copyuvm\<close> to start from: nothing is copied yet.\<close>

lemma copying_start:
  assumes "kmem_ready c s" "kmem_inv s (d # xs)" "1024 \<le> length xs" "kmap_ok (kdata s)" "space s p sz (d # xs)"
  shows "\<exists>t ys. setupkvm c s = Ok (d, t) \<and> copying c (kernel_map (kmap (kdata s)) (\<lambda>_. None)) s (d # xs) p sz d 0 t ys
    \<and> kmem_ready c t \<and> absent (ram t) d + length xs = 1024 + length ys"
proof -
  obtain t ys where t: "setupkvm c s = Ok (d, t)" "kmem_inv t ys" "kmem_frame c s t" "pd_ok t d ys" "suffix ys xs"
    "absent (ram t) d + length xs = 1024 + length ys" "tabs (ram t) d \<subseteq> set xs"
    "lookup (ram t) d = kernel_map (kmap (kdata s)) (\<lambda>_. None)"
    "\<And>a. (\<forall>q \<in> insert d (tabs (ram t) d). \<not> same_page q a) \<Longrightarrow> ram t a = ram s a"
    using setupkvm_maps [OF assms(1-4)] by blast
  have sub: "insert d (tabs (ram t) d) \<subseteq> set (d # xs)" "set ys \<subseteq> set (d # xs)"
    using t(7) set_mono_suffix [OF t(5)] by auto
  have keep: "ram t a = ram s a" if "q \<in> owned (ram s) p sz" "same_page q a" for q a
  proof (rule t(9), rule ballI)
    fix r assume "r \<in> insert d (tabs (ram t) d)"
    then have "r \<in> set (d # xs)"
      using sub(1) by blast
    then have "page_ok s r" "r \<noteq> q"
      using assms(2) owned_ok(3) [OF assms(5) that(1)] by (auto simp: kmem_inv_def)
    moreover from this have "r mod PGSIZE = 0"
      by (simp add: page_ok_def)
    ultimately show "\<not> same_page r a"
      using same_page_unique [OF owned_ok(2) [OF assms(5) that(1)] _ that(2)] by metis
  qed
  have "space t d 0 ys" "owned (ram t) d 0 = insert d (tabs (ram t) d)" "copied (ram s) p (ram t) d 0"
    using t(4) by (simp_all add: space_def owned_def frames_def copied_def)
  then have "copying c (kernel_map (kmap (kdata s)) (\<lambda>_. None)) s (d # xs) p sz d 0 t ys"
    unfolding copying_def using t(2,3,8) sub keep by simp
  then show ?thesis
    using t(1,6) kmem_frame_ready [OF t(3) assms(1)] by blast
qed

text \<open>C20: \<^verbatim>\<open>copyuvm\<close>, which gives a forked child its memory. With a free page for every page of the parent, for the new directory
  and for its tables, it returns a directory that maps each of the \<open>sz\<close> bytes of the parent to a frame of the child's own with the
  same contents and the same access rights, and maps the kernel as every address space does. All the child's pages come from
  the free list, so it shares none with the parent, whose address space and memory are as they were.\<close>

theorem copyuvm_copies:
  fixes s :: "'a vm_state_scheme"
  assumes "kmem_ready c s" "kmem_inv s xs" "space s p (unat sz) xs" "sz \<le> KERNBASE" "kmap_ok (kdata s)"
    "1025 + (unat sz + 4095) div 4096 \<le> length xs"
  shows "\<exists>d t ys. copyuvm c p sz s = Ok (d, t) \<and> kmem_inv t ys \<and> kmem_frame c s t
    \<and> space t p (unat sz) ys \<and> space t d (unat sz) ys \<and> owned (ram t) p (unat sz) \<inter> owned (ram t) d (unat sz) = {}
    \<and> owned (ram t) d (unat sz) \<subseteq> set xs \<and> set ys \<subseteq> set xs
    \<and> copied (ram s) p (ram t) d (unat sz)
    \<and> (\<forall>v \<ge> KERNBASE. lookup (ram t) d v = kernel_map (kmap (kdata s)) (\<lambda>_. None) v)
    \<and> (\<forall>q \<in> owned (ram s) p (unat sz). \<forall>a. same_page q a \<longrightarrow> ram t a = ram s a)"
proof -
  define r where "r = (unat sz + 4095) div 4096"
  note rounds = rounds [OF r_def]
  let ?K = "kernel_map (kmap (kdata s)) (\<lambda>_. None)"
  obtain d xs' where xs: "xs = d # xs'"
    using assms(6) by (cases xs) auto
  obtain u ys where u: "setupkvm c s = Ok (d, u)" "copying c ?K s xs p (unat sz) d 0 u ys"
    "kmem_ready c u" "absent (ram u) d + length xs' = 1024 + length ys"
    using copying_start [OF assms(1) assms(2) [unfolded xs] _ assms(5) assms(3) [unfolded xs]] assms(6) unfolding xs by auto
  have sz: "unat sz \<le> unat KERNBASE" "unat sz \<le> 0x80000000"
    using assms(4) by (simp_all add: word_le_nat_alt KERNBASE_def)
  have K: "?K v = None" if "v < KERNBASE" for v
    using kmap_regions(1) [OF assms(5)] that by (subst kernel_map_user) fastforce+
  have r: "r \<le> 0x80000"
    using rounds(3) [of "0x80000"] sz(2) by simp
  have "\<exists>t zs. copy_loop PAGES c p d (of_nat 0) (of_nat (unat sz)) u = Ok (d, t) \<and> copying c ?K s xs p (unat sz) d (0 + r * 4096) t zs"
  proof (rule copy_loop_copies [OF assms(3) u(2,3) _ _ _ _ _ sz(1) K])
    show "absent (ram u) d + r \<le> length ys"
      using u(4) assms(6) unfolding r_def [symmetric] xs by simp
    show "r < PAGES"
      using r by (simp add: PAGES_def)
  qed (use rounds(1,2) in simp_all)
  then obtain t zs where t: "copy_loop PAGES c p d 0 sz u = Ok (d, t)" "copying c ?K s xs p (unat sz) d (r * 4096) t zs"
    by auto
  note I = copyingD [OF t(2)] and par = parent_kept [OF assms(3) t(2)]
  have le: "unat sz \<le> r * 4096" "r * 4096 \<le> unat KERNBASE"
    using rounds(1) r by (simp_all add: KERNBASE_def)
  have "d \<noteq> 0"
    using assms(2) page_ok_nonzero by (auto simp: kmem_inv_def xs)
  then have "copyuvm c p sz s = Ok (d, t)"
    using u(1) t(1) by (simp add: copyuvm_def)
  moreover have "copied (ram s) p (ram t) d (unat sz)"
    using I(8) le(1) unfolding copied_def by auto
  moreover have "\<forall>v \<ge> KERNBASE. lookup (ram t) d v = ?K v"
    using I(6) le(2) by (auto simp: word_le_nat_alt)
  moreover have "owned (ram t) p (unat sz) \<inter> owned (ram t) d (unat sz) = {}"
    using owned_ok(3) [OF assms(3)] I(5) space_mono(2) [OF I(4) le(1)] unfolding par(3) by blast
  ultimately show ?thesis
    using I(1,2,3,7) par(1) space_mono [OF I(4) le(1)] I(5) by blast
qed

theorem copyuvm_copies_witness:
  "\<exists>t p u x v w d z ys. freerange 0 0x80400000 0x80E00000 bare = Ok t \<and> setupkvm 0 t = Ok (p, u) \<and> kalloc 0 u = Ok (x, v)
     \<and> mappages 0 p 0 PGSIZE (V2P x) (PTE_W OR PTE_U) (v\<lparr>ram := memset (ram v) x 7 PGSIZE\<rparr>) = Ok (0, w)
     \<and> copyuvm 0 p 4096 w = Ok (d, z) \<and> space z d 4096 ys \<and> copied (ram w) p (ram z) d 4096"
proof -
  obtain t p u xs where u: "freerange 0 0x80400000 0x80E00000 bare = Ok t" "setupkvm 0 t = Ok (p, u)" "kmem_ready 0 u" "kmem_inv u xs"
    "space u p 0 xs" "kmap_ok (kdata u)" "\<And>v. v < KERNBASE \<Longrightarrow> lookup (ram u) p v = None" "absent (ram u) p + 1535 \<le> length xs"
    using bare_directory by blast
  obtain x ys where xs: "xs = x # ys"
    using u(8) by (cases xs) auto
  have "PTE_W OR PTE_U < PGSIZE" "lookup (ram u) p 0 = None" "\<And>a. \<not> same_page x a \<Longrightarrow> memset (ram u) x 7 PGSIZE a = ram u a"
    using u(7) by (simp_all add: PTE_W_def PTE_U_def PGSIZE_def KERNBASE_def memset_page [unfolded PGSIZE_def])
  with kalloc_map [where i = 0, OF u(3) u(4) [unfolded xs], of p "memset (ram u) x 7 PGSIZE" "PTE_W OR PTE_U"]
  obtain v w zs where w: "kalloc 0 u = Ok (x, v)" "ram v = ram u"
    "mappages 0 p 0 PGSIZE (V2P x) (PTE_W OR PTE_U) (v\<lparr>ram := memset (ram u) x 7 PGSIZE\<rparr>) = Ok (0, w)"
    "added 0 p 0 x (PTE_W OR PTE_U) (memset (ram u) x 7 PGSIZE) u ys w zs"
    using u(5,8) unfolding xs by auto
  note g = addedD [OF w(4)]
  have "1025 + (unat (4096 :: uint) + 4095) div 4096 \<le> length zs" "space w p (unat (4096 :: uint)) zs" "kmap_ok (kdata w)"
    using g(5,9) u(6,8) kdata_frame [OF g(2)] by (simp_all add: xs)
  then show ?thesis
    using copyuvm_copies [OF g(3,1), of p 4096] u(1,2) w(1-3) by (fastforce simp: KERNBASE_def)
qed

end
