(* ===== verification/Umalloc.thy ===== *)
theory Umalloc
  imports Userlib
begin

text \<open>
  \<^verbatim>\<open>umalloc.c\<close>, the heap of user programs: a circular list of free blocks in the order of their addresses, each with a
  header of 8 bytes. A pointer is a number, the address of a header; the headers are a store from addresses to
  the two fields. New memory comes from the system call \<^verbatim>\<open>sbrk\<close>. The loops over the list carry a number of rounds \<open>k\<close>.
\<close>

section \<open>The code\<close>

record uheap =
  hptr :: "nat \<Rightarrow> nat"
  hsize :: "nat \<Rightarrow> uint"
  freep :: nat

primrec free_find :: "nat \<Rightarrow> nat \<Rightarrow> nat \<Rightarrow> uheap \<Rightarrow> nat option" where
  "free_find 0 bp p h = None"
| "free_find (Suc k) bp p h =
     (if bp > p \<and> bp < hptr h p then Some p
      else if p \<ge> hptr h p \<and> (bp > p \<or> bp < hptr h p) then Some p
      else free_find k bp (hptr h p) h)"

definition join_up :: "nat \<Rightarrow> nat \<Rightarrow> uheap \<Rightarrow> uheap" where
  "join_up bp p h =
     (if bp + 8 * unat (hsize h bp) = hptr h p
      then let h' = h\<lparr>hsize := (hsize h)(bp := hsize h bp + hsize h (hptr h p))\<rparr>
           in h'\<lparr>hptr := (hptr h')(bp := hptr h' (hptr h' p))\<rparr>
      else h\<lparr>hptr := (hptr h)(bp := hptr h p)\<rparr>)"

definition join_down :: "nat \<Rightarrow> nat \<Rightarrow> uheap \<Rightarrow> uheap" where
  "join_down bp p h =
     (if p + 8 * unat (hsize h p) = bp
      then h\<lparr>hsize := (hsize h)(p := hsize h p + hsize h bp), hptr := (hptr h)(p := hptr h bp)\<rparr>
      else h\<lparr>hptr := (hptr h)(p := bp)\<rparr>)"

definition free :: "nat \<Rightarrow> nat \<Rightarrow> uheap \<Rightarrow> uheap option" where
  "free k ap h =
     (let bp = ap - 8
      in case free_find k bp (freep h) h of None \<Rightarrow> None
         | Some p \<Rightarrow> Some ((join_down bp p (join_up bp p h))\<lparr>freep := p\<rparr>))"

definition morecore :: "nat \<Rightarrow> uint \<Rightarrow> uheap \<Rightarrow> (nat \<times> uheap) uprog" where
  "morecore k nu h =
     (let nu = (if nu < 4096 then 4096 else nu)
      in bindu (sys (S_sbrk (sint (nu * 8)))) (\<lambda>r.
           if r = -1 then Ret (0, h)
           else let hp = unat (word_of_int r :: uint); h = h\<lparr>hsize := (hsize h)(hp := nu)\<rparr>
                in case free k (hp + 8) h of None \<Rightarrow> Forever | Some h \<Rightarrow> Ret (freep h, h)))"

primrec malloc_loop :: "nat \<Rightarrow> uint \<Rightarrow> nat \<Rightarrow> nat \<Rightarrow> uheap \<Rightarrow> (nat \<times> uheap) uprog" where
  "malloc_loop 0 nunits prevp p h = Forever"
| "malloc_loop (Suc k) nunits prevp p h =
     (if hsize h p \<ge> nunits then
        if hsize h p = nunits then Ret (p + 8, h\<lparr>hptr := (hptr h)(prevp := hptr h p), freep := prevp\<rparr>)
        else let h = h\<lparr>hsize := (hsize h)(p := hsize h p - nunits)\<rparr>;
                 p = p + 8 * unat (hsize h p);
                 h = h\<lparr>hsize := (hsize h)(p := nunits)\<rparr>
             in Ret (p + 8, h\<lparr>freep := prevp\<rparr>)
      else if p = freep h then
        bindu (morecore k nunits h) (\<lambda>(p, h).
          if p = 0 then Ret (0, h) else malloc_loop k nunits p (hptr h p) h)
      else malloc_loop k nunits p (hptr h p) h)"

definition malloc_units :: "uint \<Rightarrow> uint" where
  "malloc_units nbytes = (nbytes + 8 - 1) div 8 + 1"

definition malloc :: "nat \<Rightarrow> nat \<Rightarrow> uint \<Rightarrow> uheap \<Rightarrow> (nat \<times> uheap) uprog" where
  "malloc k base nbytes h =
     (let nunits = malloc_units nbytes;
          h = (if freep h = 0 then h\<lparr>hptr := (hptr h)(base := base), freep := base, hsize := (hsize h)(base := 0)\<rparr> else h)
      in malloc_loop k nunits (freep h) (hptr h (freep h)) h)"

section \<open>The heap\<close>

definition sz :: "uheap \<Rightarrow> nat \<Rightarrow> nat" where
  "sz h x = unat (hsize h x)"

definition blk :: "uheap \<Rightarrow> nat \<Rightarrow> nat set" where
  "blk h x = {x..<x + 8 * sz h x}"

text \<open>The list leads from each node to the next one in the order of the addresses, and from the last to the first.\<close>

definition ring :: "nat \<Rightarrow> (nat \<Rightarrow> nat) \<Rightarrow> nat set \<Rightarrow> bool" where
  "ring b f N \<longleftrightarrow> b \<in> N \<and> (\<forall>p \<in> N. b \<le> p \<and> f p \<in> N
     \<and> (p < f p \<and> (\<forall>q \<in> N. q \<le> p \<or> f p \<le> q) \<or> f p = b \<and> (\<forall>q \<in> N. q \<le> p)))"

text \<open>The nodes \<open>N\<close> of the list, the blocks \<open>A\<close> that are handed out, and the memory \<open>G\<close> obtained from the kernel, which they
  partition.\<close>

definition heap_ok :: "nat \<Rightarrow> nat set \<Rightarrow> uheap \<Rightarrow> nat set \<Rightarrow> nat set \<Rightarrow> bool" where
  "heap_ok b G h N A \<longleftrightarrow> finite N \<and> 0 < b \<and> ring b (hptr h) N \<and> freep h \<in> N \<and> hsize h b = 0 \<and> N \<inter> A = {}
     \<and> (\<forall>x \<in> N - {b} \<union> A. b + 8 \<le> x \<and> 0 < sz h x \<and> x + 8 * sz h x \<le> 2 ^ 31)
     \<and> (\<forall>x \<in> N - {b} \<union> A. \<forall>y \<in> N - {b} \<union> A. x < y \<longrightarrow> x + 8 * sz h x \<le> y)
     \<and> (\<Union>x \<in> N \<union> A. blk h x) = G"

lemma ringD:
  assumes "ring b f N"
  shows "b \<in> N" "p \<in> N \<Longrightarrow> b \<le> p" "p \<in> N \<Longrightarrow> f p \<in> N"
    "p \<in> N \<Longrightarrow> p < f p \<and> (\<forall>q \<in> N. q \<le> p \<or> f p \<le> q) \<or> f p = b \<and> (\<forall>q \<in> N. q \<le> p)"
  using assms unfolding ring_def by blast+

lemma heap_okD:
  assumes "heap_ok b G h N A"
  shows "finite N" "0 < b" "ring b (hptr h) N" "freep h \<in> N" "hsize h b = 0" "N \<inter> A = {}"
    "x \<in> N - {b} \<union> A \<Longrightarrow> b + 8 \<le> x \<and> 0 < sz h x \<and> x + 8 * sz h x \<le> 2 ^ 31"
    "x \<in> N - {b} \<union> A \<Longrightarrow> y \<in> N - {b} \<union> A \<Longrightarrow> x < y \<Longrightarrow> x + 8 * sz h x \<le> y"
    "(\<Union>x \<in> N \<union> A. blk h x) = G"
  using assms unfolding heap_ok_def by blast+

lemma UN_point:
  assumes "a \<notin> M" "\<And>x. x \<noteq> a \<Longrightarrow> f x = g x"
  shows "(\<Union>x \<in> insert a M. f x) = f a \<union> (\<Union>x \<in> M. g x)"
proof -
  have "(\<Union>x \<in> M. f x) = (\<Union>x \<in> M. g x)"
    using assms by (intro SUP_cong refl) metis
  then show ?thesis
    by simp
qed

text \<open>Linking a block into the list between \<open>p\<close> and its successor.\<close>

definition insert_after :: "nat \<Rightarrow> nat \<Rightarrow> uheap \<Rightarrow> uheap" where
  "insert_after p bp h = h\<lparr>hptr := (hptr h)(bp := hptr h p, p := bp), freep := p\<rparr>"

lemma insert_after_ok:
  assumes "heap_ok b G h N A" "bp \<in> A" "p \<in> N" "p < bp" "bp < hptr h p \<or> hptr h p = b \<and> (\<forall>q \<in> N. q \<le> p)"
  shows "heap_ok b G (insert_after p bp h) (insert bp N) (A - {bp})"
proof -
  note H = heap_okD [OF assms(1)] and R = ringD [OF heap_okD(3) [OF assms(1)]]
  have bp: "bp \<notin> N" "b < bp" "bp \<noteq> p"
    using H(6) H(7) [of bp] assms(2,4) by auto
  have p: "\<forall>r \<in> N. r \<le> p \<or> bp < r \<and> hptr h p \<le> r" "bp < hptr h p \<or> hptr h p = b \<and> (\<forall>q \<in> N. q \<le> bp)"
    using R(4) [OF assms(3)] assms(4,5) bp(2) by force+
  have "ring b (hptr (insert_after p bp h)) (insert bp N)"
    unfolding ring_def
  proof (intro conjI ballI)
    show "b \<in> insert bp N"
      using R(1) by simp
    fix q assume q: "q \<in> insert bp N"
    then show "b \<le> q" "hptr (insert_after p bp h) q \<in> insert bp N"
      using R(2,3) bp(2) assms(3) by (auto simp: insert_after_def)
    show "q < hptr (insert_after p bp h) q \<and> (\<forall>r \<in> insert bp N. r \<le> q \<or> hptr (insert_after p bp h) q \<le> r)
      \<or> hptr (insert_after p bp h) q = b \<and> (\<forall>r \<in> insert bp N. r \<le> q)"
    proof (cases "q = bp \<or> q = p")
      case True
      then show ?thesis
        using p assms(4) bp(3) by (auto simp: insert_after_def)
    next
      case False
      then have "q \<in> N" "q < p \<or> bp < q"
        using q p(1) by auto
      then show ?thesis
        using False R(4) [of q] assms(3,4) by (auto simp: insert_after_def)
    qed
  qed
  moreover have "N - {b} \<union> A = insert bp N - {b} \<union> (A - {bp})" "N \<union> A = insert bp N \<union> (A - {bp})"
    using assms(2) bp(2) by auto
  moreover have "sz (insert_after p bp h) = sz h" "blk (insert_after p bp h) = blk h"
    by (simp_all add: fun_eq_iff insert_after_def sz_def blk_def)
  ultimately show ?thesis
    using assms(1,3) bp(1) unfolding heap_ok_def by (auto simp: insert_after_def)
qed

text \<open>A node that ends where its successor begins swallows it.\<close>

definition swallow :: "nat \<Rightarrow> uheap \<Rightarrow> uheap" where
  "swallow a h = h\<lparr>hsize := (hsize h)(a := hsize h a + hsize h (hptr h a)), hptr := (hptr h)(a := hptr h (hptr h a))\<rparr>"

lemma swallow_size:
  assumes "heap_ok b G h N A" "a \<in> N" "a \<noteq> b" "a + 8 * sz h a = hptr h a"
  shows "a < hptr h a" "hptr h a \<in> N" "hptr h a \<noteq> b" "a + 8 * (sz h a + sz h (hptr h a)) \<le> 2 ^ 31"
    "sz (swallow a h) x = (if x = a then sz h a + sz h (hptr h a) else sz h x)"
proof -
  note H = heap_okD [OF assms(1)] and R = ringD [OF heap_okD(3) [OF assms(1)]]
  show a: "a < hptr h a" "hptr h a \<in> N" "hptr h a \<noteq> b"
    using H(7) [of a] R(2) [of a] R(3) [of a] assms(2-4) by auto
  show sa: "a + 8 * (sz h a + sz h (hptr h a)) \<le> 2 ^ 31"
    using H(7) [of "hptr h a"] a assms(4) by (simp add: distrib_left)
  then have "sz h a + sz h (hptr h a) < 2 ^ 32"
    by simp
  then show "sz (swallow a h) x = (if x = a then sz h a + sz h (hptr h a) else sz h x)"
    by (simp add: swallow_def sz_def unat_plus_if')
qed

lemma ring_unlink:
  assumes "ring b f N" "a \<in> N" "f a \<noteq> b"
  shows "ring b (f(a := f (f a))) (N - {f a})"
proof -
  note R = ringD [OF assms(1)]
  let ?c = "f a"
  have a: "a < ?c" "?c \<in> N" "b \<le> a" and up: "\<forall>q \<in> N. q \<le> a \<or> ?c \<le> q"
    using R(2,3,4) [OF assms(2)] assms(3) by auto
  have inj: "f q \<noteq> ?c" if "q \<in> N" "q \<noteq> a" for q
    using R(4) [OF that(1)] up a assms(2,3) that by (metis leD linorder_neqE_nat)
  have cc: "f ?c \<in> N" "?c < f ?c \<and> (\<forall>r \<in> N. r \<le> ?c \<or> f ?c \<le> r) \<or> f ?c = b \<and> (\<forall>r \<in> N. r \<le> ?c)"
    using R(3,4) a(2) by auto
  show ?thesis
    unfolding ring_def
  proof (intro conjI ballI)
    show "b \<in> N - {?c}"
      using R(1) assms(3) by simp
    fix q assume q: "q \<in> N - {?c}"
    then show "b \<le> q"
      using R(2) by simp
    show "(f(a := f ?c)) q \<in> N - {?c}"
      using q R(3) [of q] inj [of q] cc a assms(3) by auto
    show "q < (f(a := f ?c)) q \<and> (\<forall>r \<in> N - {?c}. r \<le> q \<or> (f(a := f ?c)) q \<le> r)
      \<or> (f(a := f ?c)) q = b \<and> (\<forall>r \<in> N - {?c}. r \<le> q)"
    proof (cases "q = a")
      case True
      have "\<forall>r \<in> N - {?c}. r \<le> ?c \<longrightarrow> r \<le> a"
        using up by force
      then show ?thesis
        using True cc(2) a(1) by simp (metis DiffD1 less_trans)
    next
      case False
      then show ?thesis
        using q R(4) [of q] by auto
    qed
  qed
qed

lemma swallow_ok:
  assumes "heap_ok b G h N A" "a \<in> N" "a \<noteq> b" "a + 8 * sz h a = hptr h a" "freep h \<noteq> hptr h a"
  shows "heap_ok b G (swallow a h) (N - {hptr h a}) A"
proof -
  note H = heap_okD [OF assms(1)] and sw = swallow_size [OF assms(1-4)]
  note a = sw(1-3) and sa = sw(4) and size = sw(5)
  let ?c = "hptr h a"
  have na: "a \<notin> A" "?c \<notin> A"
    using H(6) assms(2) a(2) by auto
  have "ring b (hptr (swallow a h)) (N - {?c})"
    using ring_unlink [OF H(3) assms(2) a(3)] by (simp add: swallow_def)
  moreover have "(\<Union>x \<in> N - {?c} \<union> A. blk (swallow a h) x) = (\<Union>x \<in> N \<union> A. blk h x)"
  proof -
    have "blk (swallow a h) a = blk h a \<union> blk h ?c" "\<And>x. x \<noteq> a \<Longrightarrow> blk (swallow a h) x = blk h x"
      using assms(4) by (auto simp: blk_def size)
    moreover have "N - {?c} \<union> A = insert a (N - {?c, a} \<union> A)" "a \<notin> N - {?c, a} \<union> A" "N \<union> A = insert a (insert ?c (N - {?c, a} \<union> A))"
      using assms(2) a(1,2) na by auto
    ultimately show ?thesis
      using UN_point [of a "N - {?c, a} \<union> A" "blk (swallow a h)" "blk h"] by (simp add: Un_assoc)
  qed
  moreover have ord: "x + 8 * sz (swallow a h) x \<le> y" if xy: "x \<in> N - {?c} - {b} \<union> A" "y \<in> N - {?c} - {b} \<union> A" "x < y" for x y
  proof (cases "x = a")
    case True
    then have "?c \<le> y" "y \<noteq> ?c"
      using H(8) [of a y] xy assms(2-4) a(2) H(6) by auto
    then show ?thesis
      using H(8) [of ?c y] xy a(2,3) True assms(4) by (auto simp: size distrib_left)
  next
    case False
    then show ?thesis
      using H(8) [of x y] xy by (auto simp: size)
  qed
  moreover have "b + 8 \<le> x \<and> 0 < sz (swallow a h) x \<and> x + 8 * sz (swallow a h) x \<le> 2 ^ 31" if "x \<in> N - {?c} - {b} \<union> A" for x
    using H(7) [of x] that sa by (auto simp: size)
  ultimately show ?thesis
    using assms(3,5) H(1,2,4,5,6,9) unfolding heap_ok_def by (auto simp: swallow_def)
qed

section \<open>Going round the list\<close>

text \<open>The number of steps from \<open>p\<close> to \<open>t\<close>.\<close>

definition steps :: "nat set \<Rightarrow> nat \<Rightarrow> nat \<Rightarrow> nat" where
  "steps N t p = (if p \<le> t then card {q \<in> N. p < q \<and> q \<le> t} else card {q \<in> N. p < q} + Suc (card {q \<in> N. q \<le> t}))"

lemma steps_less:
  assumes "finite N" "ring b f N" "p \<in> N" "t \<in> N" "p \<noteq> t"
  shows "steps N t (f p) < steps N t p"
proof -
  note R = ringD [OF assms(2)]
  have up: "card {q \<in> N. f p < q \<and> Q q} < card {q \<in> N. p < q \<and> Q q}" if "p < f p" "Q (f p)" for Q
    using that R(3) [OF assms(3)] assms(1) by (intro psubset_card_mono) auto
  have "card {q \<in> N. b < q \<and> q \<le> t} \<le> card {q \<in> N. q \<le> t}"
    using assms(1) by (intro card_mono) auto
  moreover have "f p \<le> t" if "p < f p" "p \<le> t"
    using R(4) [OF assms(3)] R(2) [OF assms(3)] that assms(4,5) by fastforce
  moreover have "t \<le> p" if "\<not> p < f p"
    using R(4) [OF assms(3)] that assms(4) by auto
  ultimately show ?thesis
    using up [of "\<lambda>q. q \<le> t"] up [of "\<lambda>_. True"] R(4) [OF assms(3)] R(2) [OF assms(4)] assms(5)
    by (cases "p < f p") (auto simp: steps_def)
qed

lemma steps_bound:
  assumes "finite N" "p \<in> N"
  shows "steps N t p \<le> card N"
proof (cases "p \<le> t")
  case True
  then show ?thesis
    using assms(1) by (auto simp: steps_def intro: card_mono)
next
  case False
  have "card {q \<in> N. p < q} + Suc (card {q \<in> N. q \<le> t}) = card (insert p ({q \<in> N. p < q} \<union> {q \<in> N. q \<le> t}))"
    using assms(1) False by (subst card_insert_disjoint) (auto intro!: card_Un_disjoint [symmetric])
  also have "\<dots> \<le> card N"
    using assms by (intro card_mono) auto
  finally show ?thesis
    using False by (simp add: steps_def)
qed

text \<open>The node below \<open>bp\<close>.\<close>

lemma below_ex:
  assumes "finite N" "ring b f N" "b < bp"
  shows "\<exists>t \<in> N. t < bp \<and> (\<forall>q \<in> N. q \<le> t \<or> bp \<le> q)"
proof -
  let ?t = "Max {q \<in> N. q < bp}"
  have "?t \<in> {q \<in> N. q < bp}"
    using assms ringD(1) by (intro Max_in) auto
  moreover have "q \<le> ?t" if "q \<in> N" "q < bp" for q
    using assms(1) that by (intro Max_ge) auto
  ultimately show ?thesis
    using not_le by blast
qed

lemma free_find_below:
  assumes "finite N" "ring b (hptr h) N" "b < bp" "bp \<notin> N" "t \<in> N" "t < bp" "\<forall>q \<in> N. q \<le> t \<or> bp \<le> q" "p \<in> N" "steps N t p < k"
  shows "free_find k bp p h = Some t"
  using assms(8,9)
proof (induction k arbitrary: p)
  case (Suc k)
  note R = ringD [OF assms(2)]
  show ?case
  proof (cases "p = t")
    case True
    have "bp < hptr h t \<or> t \<ge> hptr h t"
      using R(3,4) [OF assms(5)] assms(4,6,7) by (metis le_neq_implies_less not_le)
    then show ?thesis
      using True assms(6) by auto
  next
    case False
    then have "free_find k bp (hptr h p) h = Some t"
      using Suc R(3) steps_less [OF assms(1,2) Suc.prems(1) assms(5)] by fastforce
    moreover have "p < bp \<Longrightarrow> p < t"
      using bspec [OF assms(7) Suc.prems(1)] False by linarith
    then have "\<not> (p < bp \<and> bp < hptr h p)" "\<not> (hptr h p \<le> p \<and> (p < bp \<or> bp < hptr h p))"
      using R(2,4) [OF Suc.prems(1)] assms(3,5,6) by force+
    ultimately show ?thesis
      by auto
  qed
qed simp

section \<open>Freeing\<close>

lemma unlinked:
  assumes "heap_ok b G h N A" "bp \<in> A"
  shows "b + 8 \<le> bp" "bp \<notin> N" "0 < sz h bp"
  using heap_okD(6) [OF assms(1)] heap_okD(7) [OF assms(1), of bp] assms(2) by auto

text \<open>What the two joins do, in the terms of the list.\<close>

lemma joins:
  assumes "heap_ok b G h N A" "bp \<in> A" "t \<in> N" "t < bp"
  shows "(join_down bp t (join_up bp t h))\<lparr>freep := t\<rparr> =
    (let h1 = insert_after t bp h; h2 = (if bp + 8 * sz h1 bp = hptr h1 bp then swallow bp h1 else h1)
     in if t + 8 * sz h2 t = bp then swallow t h2 else h2)"
proof -
  note H = heap_okD [OF assms(1)] and u = unlinked [OF assms(1,2)]
  have "bp \<noteq> t" "hptr h t \<noteq> bp"
    using ringD(3) [OF H(3) assms(3)] u(2) assms(3) by auto
  moreover have "hptr h t \<noteq> t" if "bp + 8 * sz h bp = hptr h t"
    using that assms(4) by auto
  ultimately show ?thesis
    by (auto simp: join_down_def join_up_def insert_after_def swallow_def sz_def Let_def fun_upd_twist)
qed

lemma free_ok:
  assumes "heap_ok b G h N A" "bp \<in> A" "card N < k"
  shows "\<exists>h' N'. free k (bp + 8) h = Some h' \<and> heap_ok b G h' N' (A - {bp}) \<and> card N' \<le> Suc (card N)
    \<and> (\<forall>x \<in> A - {bp}. hsize h' x = hsize h x)
    \<and> (sz h bp \<le> sz h' (freep h') \<or> sz h bp \<le> sz h' (hptr h' (freep h')))"
proof -
  note H = heap_okD [OF assms(1)] and u = unlinked [OF assms(1,2)]
  obtain t where t: "t \<in> N" "t < bp" "\<forall>q \<in> N. q \<le> t \<or> bp \<le> q"
    using below_ex [OF H(1,3), of bp] u(1) by auto
  have find: "free_find k bp (freep h) h = Some t"
    using free_find_below [OF H(1,3) _ u(2) t H(4)] u(1) steps_bound [OF H(1,4), of t] assms(3) by simp
  have "bp < hptr h t \<or> hptr h t = b \<and> (\<forall>q \<in> N. q \<le> t)"
    using ringD(3,4) [OF H(3) t(1)] t(2,3) u(2) by (metis le_neq_implies_less not_le)
  note ins = insert_after_ok [OF assms(1,2) t(1,2) this]
  define h1 where "h1 = insert_after t bp h"
  define h2 where "h2 = (if bp + 8 * sz h1 bp = hptr h1 bp then swallow bp h1 else h1)"
  define h3 where "h3 = (if t + 8 * sz h2 t = bp then swallow t h2 else h2)"
  have h1: "heap_ok b G h1 (insert bp N) (A - {bp})" "freep h1 = t" "hptr h1 t = bp" "bp \<noteq> b" "hptr h1 bp = hptr h t"
    "hsize h1 = hsize h" "sz h1 = sz h"
    using ins u(1) t(2) by (auto simp: h1_def insert_after_def sz_def fun_eq_iff)
  have "\<exists>N2. heap_ok b G h2 N2 (A - {bp}) \<and> N2 \<subseteq> insert bp N \<and> t \<in> N2 \<and> freep h2 = t \<and> hptr h2 t = bp
    \<and> sz h bp \<le> sz h2 bp \<and> (\<forall>x. x \<noteq> bp \<longrightarrow> hsize h2 x = hsize h x)"
  proof (cases "bp + 8 * sz h1 bp = hptr h1 bp")
    case True
    then have h2: "h2 = swallow bp h1"
      by (simp add: h2_def)
    have "t \<noteq> hptr h1 bp"
      using True t(2) by simp
    moreover have "sz h bp \<le> sz h2 bp" "freep h2 = t" "hptr h2 t = bp" "\<And>x. x \<noteq> bp \<Longrightarrow> hsize h2 x = hsize h x"
      using swallow_size(5) [OF h1(1) _ h1(4) True, of bp] h1(2,3,6,7) t(2) by (simp_all add: h2, simp_all add: swallow_def)
    ultimately show ?thesis
      using swallow_ok [OF h1(1) _ h1(4) True] h1(2) t(1)
      by (intro exI [of _ "insert bp N - {hptr h1 bp}"]) (simp add: h2)
  next
    case False
    then show ?thesis
      using h1 t(1) by (intro exI [of _ "insert bp N"]) (simp add: h2_def)
  qed
  then obtain N2 where h2: "heap_ok b G h2 N2 (A - {bp})" "N2 \<subseteq> insert bp N" "t \<in> N2" "freep h2 = t" "hptr h2 t = bp"
    "sz h bp \<le> sz h2 bp" "\<And>x. x \<noteq> bp \<Longrightarrow> hsize h2 x = hsize h x"
    by blast
  have "\<exists>N3. heap_ok b G h3 N3 (A - {bp}) \<and> N3 \<subseteq> insert bp N \<and> (\<forall>x. x \<noteq> bp \<and> x \<noteq> t \<longrightarrow> hsize h3 x = hsize h x)
    \<and> (sz h bp \<le> sz h3 (freep h3) \<or> sz h bp \<le> sz h3 (hptr h3 (freep h3)))"
  proof (cases "t + 8 * sz h2 t = bp")
    case True
    then have h3: "h3 = swallow t h2" "t \<noteq> b" "freep h2 \<noteq> hptr h2 t"
      using heap_okD(5) [OF h2(1)] h2(4,5) t(2) by (auto simp: h3_def sz_def)
    moreover have "t + 8 * sz h2 t = hptr h2 t"
      using True h2(5) by simp
    ultimately show ?thesis
      using swallow_ok [OF h2(1,3)] swallow_size(5) [OF h2(1,3)] h2(2,4-7)
      by (intro exI [of _ "N2 - {hptr h2 t}"]) (auto simp: swallow_def)
  next
    case False
    then show ?thesis
      using h2 by (intro exI [of _ N2]) (simp add: h3_def)
  qed
  then obtain N3 where h3: "heap_ok b G h3 N3 (A - {bp})" "N3 \<subseteq> insert bp N" "\<And>x. x \<noteq> bp \<Longrightarrow> x \<noteq> t \<Longrightarrow> hsize h3 x = hsize h x"
    "sz h bp \<le> sz h3 (freep h3) \<or> sz h bp \<le> sz h3 (hptr h3 (freep h3))"
    by blast
  have "card N3 \<le> Suc (card N)"
    using card_mono [OF _ h3(2)] H(1) u(2) by simp
  moreover have "\<forall>x \<in> A - {bp}. hsize h3 x = hsize h x"
    using h3(3) t(1) H(6) by blast
  moreover have "free k (bp + 8) h = Some h3"
    using find joins [OF assms(1,2) t(1,2)] by (simp add: free_def h3_def h2_def h1_def Let_def)
  ultimately show ?thesis
    using h3(1,4) by blast
qed

section \<open>Handing out\<close>

lemma list_node:
  assumes "heap_ok b G h N A" "prevp \<in> N" "0 < sz h (hptr h prevp)"
  shows "hptr h prevp \<in> N" "hptr h prevp \<noteq> b" "hptr h prevp \<noteq> prevp" "hptr h prevp \<notin> A"
proof -
  note H = heap_okD [OF assms(1)] and R = ringD [OF heap_okD(3) [OF assms(1)]]
  show n: "hptr h prevp \<in> N" "hptr h prevp \<noteq> b"
    using R(3) [OF assms(2)] H(5) assms(3) by (auto simp: sz_def)
  then show "hptr h prevp \<noteq> prevp" "hptr h prevp \<notin> A"
    using R(4) [OF assms(2)] H(6) by auto
qed

lemma take_whole_ok:
  assumes "heap_ok b G h N A" "prevp \<in> N" "p = hptr h prevp" "0 < sz h p"
  shows "heap_ok b G (h\<lparr>hptr := (hptr h)(prevp := hptr h p), freep := prevp\<rparr>) (N - {p}) (insert p A)"
proof -
  note H = heap_okD [OF assms(1)] and n = list_node [OF assms(1,2) assms(4) [unfolded assms(3)], folded assms(3)]
  let ?h = "h\<lparr>hptr := (hptr h)(prevp := hptr h p), freep := prevp\<rparr>"
  have eq: "N - {p} - {b} \<union> insert p A = N - {b} \<union> A" "N - {p} \<union> insert p A = N \<union> A"
    using n(1,2) by blast+
  have eqs: "sz ?h = sz h" "blk ?h = blk h"
    by (simp_all add: fun_eq_iff sz_def blk_def)
  have "ring b (hptr ?h) (N - {p})"
    using ring_unlink [OF H(3) assms(2)] n(2) by (simp add: assms(3))
  moreover have "finite (N - {p})" "freep ?h \<in> N - {p}" "hsize ?h b = 0" "(N - {p}) \<inter> insert p A = {}"
    using H(1,5,6) assms(2) n(3) by auto
  ultimately show ?thesis
    using assms(1) unfolding heap_ok_def eq eqs by blast
qed

lemma split_ok:
  assumes "heap_ok b G h N A" "prevp \<in> N" "p = hptr h prevp" "0 < n" "n < sz h p" "sz h p = sz h' p + n"
    and h': "hptr h' = hptr h" "freep h' = prevp" "a = p + 8 * sz h' p" "sz h' a = n" "\<And>x. x \<noteq> p \<Longrightarrow> x \<noteq> a \<Longrightarrow> hsize h' x = hsize h x"
  shows "heap_ok b G h' N (insert a A)" "a \<notin> A"
proof -
  note H = heap_okD [OF assms(1)]
  have "0 < sz h (hptr h prevp)"
    using assms(3-5) by simp
  note m = list_node [OF assms(1,2) this, folded assms(3)]
  have p: "p \<in> N" "p \<noteq> b" "p \<notin> A" "b + 8 \<le> p" "p + 8 * sz h p \<le> 2 ^ 31"
    using m(1,2,4) H(7) [of p] by auto
  have a: "p < a" "a + 8 * n = p + 8 * sz h p"
    using assms(5,6) h'(3) by auto
  have out: "x < p \<or> a + 8 * n \<le> x" if "x \<in> N - {b} \<union> A" "x \<noteq> p" for x
    using that H(8) [of p x] p a(2) by force
  show na: "a \<notin> A"
    using out [of a] a assms(4) by auto
  have nn: "a \<notin> N" "a \<noteq> b"
    using out [of a] a assms(4) p(4) by auto
  have size: "sz h' x = (if x = a then n else if x = p then sz h p - n else sz h x)" for x
    using h'(4,5) assms(6) by (auto simp: sz_def)
  have "(\<Union>x \<in> N \<union> insert a A. blk h' x) = (\<Union>x \<in> N \<union> A. blk h x)"
  proof -
    have "N \<union> insert a A = insert p (insert a (N - {p} \<union> A))" "N \<union> A = insert p (N - {p} \<union> A)"
      using p(1) by auto
    moreover have "(\<Union>x \<in> N - {p} \<union> A. blk h' x) = (\<Union>x \<in> N - {p} \<union> A. blk h x)"
      using nn(1) na p(3) by (intro SUP_cong refl) (auto simp: blk_def size)
    moreover have "blk h' p = {p..<a}" "blk h' a = {a..<p + 8 * sz h p}"
      by (simp add: blk_def h'(3)) (simp only: blk_def h'(4) a(2))
    then have "blk h' p \<union> blk h' a = blk h p"
      using a by (auto simp: blk_def)
    ultimately show ?thesis
      by auto
  qed
  moreover have "x + 8 * sz h' x \<le> y" if "x \<in> N - {b} \<union> insert a A" "y \<in> N - {b} \<union> insert a A" "x < y" for x y
  proof -
    consider "x = p" | "x = a" | "x \<noteq> p" "x \<noteq> a" "x \<in> N - {b} \<union> A"
      using \<open>x \<in> N - {b} \<union> insert a A\<close> by blast
    then show ?thesis
    proof cases
      case 1
      then show ?thesis
        using that(2,3) out [of y] unfolding 1 h'(3) [symmetric] by auto
    next
      case 2
      then show ?thesis
        using that out [of y] a by (auto simp: size)
    next
      case 3
      then have "x + 8 * sz h x \<le> p \<or> p < x \<and> y \<noteq> a"
        using H(8) [of x p] p out [of x] that(3) assms(4) a by fastforce
      then show ?thesis
        using 3 that H(8) [of x y] a by (auto simp: size)
    qed
  qed
  moreover have "b + 8 \<le> x \<and> 0 < sz h' x \<and> x + 8 * sz h' x \<le> 2 ^ 31" if "x \<in> N - {b} \<union> insert a A" for x
    using that H(7) [of x] p a assms(4,5) by (auto simp: size)
  ultimately show "heap_ok b G h' N (insert a A)"
    using H(1-3,5,6,9) assms(2) h'(1,2) h'(5) [of b] p(2) nn unfolding heap_ok_def by auto
qed

section \<open>Memory from the kernel\<close>

text \<open>What a program may assume of \<^verbatim>\<open>sbrk\<close>: it fails, or returns the old break, above which everything is new; the break
  stays in the lower half of the address space, and the data of the program are below it.\<close>

definition sbrk_ok :: "nat \<Rightarrow> nat set \<Rightarrow> int \<Rightarrow> reply \<Rightarrow> nat set \<Rightarrow> bool" where
  "sbrk_ok b G n r G' \<longleftrightarrow> rv r = -1 \<and> G' = G
     \<or> int b + 8 \<le> rv r \<and> rv r + n \<le> 2 ^ 31 \<and> (\<forall>x \<in> G. int x < rv r) \<and> G' = G \<union> {nat (rv r)..<nat (rv r + n)}"

text \<open>A program that does nothing but ask for memory, whatever the kernel answers, ends with a result that satisfies \<open>Q\<close>.\<close>

primrec served :: "nat \<Rightarrow> ('a \<Rightarrow> nat set \<Rightarrow> bool) \<Rightarrow> 'a uprog \<Rightarrow> nat set \<Rightarrow> bool" where
  "served b Q (Ret x) G \<longleftrightarrow> Q x G"
| "served b Q (Call q f) G \<longleftrightarrow> (\<exists>n > 0. q = S_sbrk n \<and> (\<forall>r G'. sbrk_ok b G n r G' \<longrightarrow> served b Q (f r) G'))"
| "served b Q Exit G \<longleftrightarrow> False"
| "served b Q Forever G \<longleftrightarrow> False"
| "served b Q Crash G \<longleftrightarrow> False"

lemma served_bindu: "served b Q (bindu m f) G \<longleftrightarrow> served b (\<lambda>x. served b Q (f x)) m G"
  by (induction m arbitrary: G) simp_all

lemma served_mono: "served b P m G \<Longrightarrow> (\<And>x G. P x G \<Longrightarrow> Q x G) \<Longrightarrow> served b Q m G"
  by (induction m arbitrary: G) (simp_all, blast)

lemma new_block_ok:
  assumes "heap_ok b G h N A" "b + 8 \<le> hp" "hp + 8 * unat nu \<le> 2 ^ 31" "\<forall>x \<in> G. x < hp" "0 < nu"
  shows "heap_ok b (G \<union> {hp..<hp + 8 * unat nu}) (h\<lparr>hsize := (hsize h)(hp := nu)\<rparr>) N (insert hp A)"
    "hp \<notin> A"
proof -
  note H = heap_okD [OF assms(1)]
  let ?h = "h\<lparr>hsize := (hsize h)(hp := nu)\<rparr>"
  have below: "x + 8 * sz h x \<le> hp" "x < hp" if "x \<in> N - {b} \<union> A" for x
  proof -
    have "x + (8 * sz h x - 1) \<in> blk h x"
      using H(7) [OF that] unfolding blk_def atLeastLessThan_iff by linarith
    then have "x + (8 * sz h x - 1) < hp"
      using H(9) assms(4) that by blast
    then show "x + 8 * sz h x \<le> hp" "x < hp"
      using H(7) [OF that] by linarith+
  qed
  show na: "hp \<notin> A"
    using below(2) [of hp] by blast
  have hp: "hp \<notin> N" "hp \<noteq> b"
    using below(2) [of hp] assms(2) by auto
  have size: "sz ?h x = (if x = hp then unat nu else sz h x)" for x
    by (simp add: sz_def)
  have "(\<Union>x \<in> N \<union> A. blk ?h x) = (\<Union>x \<in> N \<union> A. blk h x)"
    using na hp(1) by (intro SUP_cong refl) (auto simp: blk_def size)
  then have "(\<Union>x \<in> N \<union> insert hp A. blk ?h x) = G \<union> {hp..<hp + 8 * unat nu}"
    using H(9) by (auto simp: blk_def size)
  moreover have "x + 8 * sz ?h x \<le> y" if "x \<in> N - {b} \<union> insert hp A" "y \<in> N - {b} \<union> insert hp A" "x < y" for x y
    using that below [of x] below [of y] H(8) [of x y] by (auto simp: size)
  moreover have "b + 8 \<le> x \<and> 0 < sz ?h x \<and> x + 8 * sz ?h x \<le> 2 ^ 31" if "x \<in> N - {b} \<union> insert hp A" for x
    using that H(7) [of x] assms(2,3,5) by (auto simp: size word_less_nat_alt)
  ultimately show "heap_ok b (G \<union> {hp..<hp + 8 * unat nu}) ?h N (insert hp A)"
    using H(1-6) hp unfolding heap_ok_def by auto
qed

lemma sbrk_answer:
  assumes "sbrk_ok b G (int m) q G'"
  shows "rv q = -1 \<and> G' = G \<or> (\<exists>hp. rv q = int hp \<and> unat (word_of_int (rv q) :: uint) = hp \<and> b + 8 \<le> hp \<and> hp + m \<le> 2 ^ 31
    \<and> (\<forall>x \<in> G. x < hp) \<and> G' = G \<union> {hp..<hp + m})"
proof (cases "rv q = -1")
  case False
  define hp where "hp = nat (rv q)"
  then have hp: "rv q = int hp"
    using assms False by (auto simp: sbrk_ok_def)
  have "int hp + int m \<le> 2 ^ 31"
    using assms False by (auto simp: sbrk_ok_def hp)
  then have m: "hp + m \<le> 2 ^ 31"
    by simp
  then show ?thesis
    using assms False unfolding sbrk_ok_def hp
    by (intro disjI2 exI [of _ hp]) (auto simp: unat_of_nat nat_add_distrib)
qed (use assms in \<open>simp add: sbrk_ok_def\<close>)

text \<open>After \<^verbatim>\<open>morecore\<close>, the node it returns or the next one is large enough.\<close>

lemma morecore_ok:
  assumes "heap_ok b G h N A" "card N < k" "unat nu < 2 ^ 28"
  shows "served b (\<lambda>(p, h') G'. p = 0 \<and> h' = h \<and> G' = G
      \<or> (\<exists>N'. p = freep h' \<and> p \<noteq> 0 \<and> heap_ok b G' h' N' A \<and> card N' \<le> Suc (card N) \<and> (\<forall>x \<in> A. hsize h' x = hsize h x)
         \<and> (unat nu \<le> sz h' (freep h') \<or> unat nu \<le> sz h' (hptr h' (freep h'))))) (morecore k nu h) G"
proof -
  define mu where "mu = (if nu < 4096 then 4096 else nu)"
  have mu: "unat mu < 2 ^ 28" "unat nu \<le> unat mu" "0 < mu"
    using assms(3) by (auto simp: mu_def word_less_nat_alt not_less)
  then have "unat (mu * 8) = 8 * unat mu"
    by (simp add: unat_word_ariths)
  then have "uint (mu * 8) = int (8 * unat mu)"
    by (metis uint_nat)
  moreover have "signed_take_bit 31 (int (8 * unat mu)) = int (8 * unat mu)"
  proof (rule signed_take_bit_int_eq_self)
    have "8 * unat mu < 2 ^ 31"
      using mu(1) by simp
    then show "int (8 * unat mu) < 2 ^ 31"
      by (metis of_nat_less_iff of_nat_numeral of_nat_power)
  qed (rule order_trans [of _ 0], simp_all)
  ultimately have n: "sint (mu * 8) = int (8 * unat mu)"
    by (simp add: sint_uint)
  have new: "\<exists>h' N'. free k (hp + 8) (h\<lparr>hsize := (hsize h)(hp := mu)\<rparr>) = Some h' \<and> freep h' \<noteq> 0 \<and> heap_ok b G' h' N' A
      \<and> card N' \<le> Suc (card N) \<and> (\<forall>x \<in> A. hsize h' x = hsize h x) \<and> (unat nu \<le> sz h' (freep h') \<or> unat nu \<le> sz h' (hptr h' (freep h')))"
    if c: "b + 8 \<le> hp" "hp + 8 * unat mu \<le> 2 ^ 31" "\<forall>x \<in> G. x < hp" "G' = G \<union> {hp..<hp + 8 * unat mu}" for hp G'
  proof -
    note nb = new_block_ok [OF assms(1) c(1-3) mu(3)]
    obtain h' N' where h': "free k (hp + 8) (h\<lparr>hsize := (hsize h)(hp := mu)\<rparr>) = Some h'" "heap_ok b G' h' N' (insert hp A - {hp})"
      "card N' \<le> Suc (card N)" "\<forall>x \<in> insert hp A - {hp}. hsize h' x = hsize (h\<lparr>hsize := (hsize h)(hp := mu)\<rparr>) x"
      "unat mu \<le> sz h' (freep h') \<or> unat mu \<le> sz h' (hptr h' (freep h'))"
      using free_ok [OF nb(1) _ assms(2), of hp] c(4) by (auto simp: sz_def)
    have A: "insert hp A - {hp} = A"
      using nb(2) by auto
    have "freep h' \<noteq> 0"
      using heap_okD(2,4) [OF h'(2)] ringD(2) [OF heap_okD(3) [OF h'(2)]] by force
    then show ?thesis
      using h' mu(2) nb(2) unfolding A by (intro exI [of _ h'] exI [of _ N']) auto
  qed
  note ans = sbrk_answer [of b G "8 * unat mu"]
  have "served b Q (morecore k nu h) G"
    if Q: "Q (0, h) G" "\<And>h' G' N'. freep h' \<noteq> 0 \<Longrightarrow> heap_ok b G' h' N' A \<Longrightarrow> card N' \<le> Suc (card N)
      \<Longrightarrow> \<forall>x \<in> A. hsize h' x = hsize h x \<Longrightarrow> unat nu \<le> sz h' (freep h') \<or> unat nu \<le> sz h' (hptr h' (freep h')) \<Longrightarrow> Q (freep h', h') G'" for Q
  proof -
    have "served b Q (if rv q = -1 then Ret (0, h)
        else let hp = unat (word_of_int (rv q) :: uint); h = h\<lparr>hsize := (hsize h)(hp := mu)\<rparr>
             in case free k (hp + 8) h of None \<Rightarrow> Forever | Some h \<Rightarrow> Ret (freep h, h)) G'"
      if "sbrk_ok b G (int (8 * unat mu)) q G'" for q G'
      using ans [OF that]
    proof (elim disjE exE conjE)
      fix hp assume hp: "rv q = int hp" "unat (word_of_int (rv q) :: uint) = hp" "b + 8 \<le> hp" "hp + 8 * unat mu \<le> 2 ^ 31"
        "\<forall>x \<in> G. x < hp" "G' = G \<union> {hp..<hp + 8 * unat mu}"
      show ?thesis
        using new [OF hp(3-6)] Q(2) [of _ G'] hp(1,2) by (elim exE conjE) simp
    qed (use Q(1) in simp)
    moreover have "morecore k nu h = Call (S_sbrk (int (8 * unat mu))) (\<lambda>q. if rv q = -1 then Ret (0, h)
        else let hp = unat (word_of_int (rv q) :: uint); h = h\<lparr>hsize := (hsize h)(hp := mu)\<rparr>
             in case free k (hp + 8) h of None \<Rightarrow> Forever | Some h \<Rightarrow> Ret (freep h, h))"
      unfolding morecore_def mu_def [symmetric] Let_def sys_def n by simp
    moreover have "0 < unat mu"
      using mu(3) by (simp add: word_less_nat_alt)
    then have "0 < int (8 * unat mu)"
      by linarith
    ultimately show ?thesis
      by (simp only: served.simps) blast
  qed
  from this [of "\<lambda>(p, h') G'. p = 0 \<and> h' = h \<and> G' = G
      \<or> (\<exists>N'. p = freep h' \<and> p \<noteq> 0 \<and> heap_ok b G' h' N' A \<and> card N' \<le> Suc (card N) \<and> (\<forall>x \<in> A. hsize h' x = hsize h x)
         \<and> (unat nu \<le> sz h' (freep h') \<or> unat nu \<le> sz h' (hptr h' (freep h'))))"]
  show ?thesis
    by auto
qed

section \<open>Allocating\<close>

text \<open>What \<^verbatim>\<open>malloc\<close> leaves: nothing has been handed out, or a new block of \<open>n\<close> units.\<close>

definition alloc_post :: "nat \<Rightarrow> nat \<Rightarrow> uheap \<Rightarrow> nat set \<Rightarrow> nat \<Rightarrow> nat \<times> uheap \<Rightarrow> nat set \<Rightarrow> bool" where
  "alloc_post b n h A c r G \<longleftrightarrow> (case r of (q, h') \<Rightarrow> \<exists>N A'. heap_ok b G h' N A' \<and> card N \<le> c \<and> (\<forall>x \<in> A. hsize h' x = hsize h x)
     \<and> (q = 0 \<and> A' = A \<or> (\<exists>a. a \<notin> A \<and> q = a + 8 \<and> A' = insert a A \<and> sz h' a = n)))"

lemma alloc_postI:
  "heap_ok b G h' N A' \<Longrightarrow> card N \<le> c \<Longrightarrow> \<forall>x \<in> A. hsize h' x = hsize h x
    \<Longrightarrow> q = 0 \<and> A' = A \<or> (\<exists>a. a \<notin> A \<and> q = a + 8 \<and> A' = insert a A \<and> sz h' a = n) \<Longrightarrow> alloc_post b n h A c (q, h') G"
  unfolding alloc_post_def by auto

lemma alloc_post_mono: "alloc_post b n h A c r G \<Longrightarrow> \<forall>x \<in> A. hsize h x = hsize h0 x \<Longrightarrow> c \<le> d \<Longrightarrow> alloc_post b n h0 A d r G"
  unfolding alloc_post_def by (auto split: prod.splits) (metis order_trans)+

lemma malloc_found:
  assumes "heap_ok b G h N A" "prevp \<in> N" "p = hptr h prevp" "0 < nunits" "nunits \<le> hsize h p"
  shows "served b (alloc_post b (unat nunits) h A (card N)) (malloc_loop (Suc k) nunits prevp p h) G"
proof (cases "hsize h p = nunits")
  case True
  have p: "0 < sz h p"
    using assms(4) True by (simp add: sz_def word_less_nat_alt)
  have "p \<notin> A" "card (N - {p}) \<le> card N"
    using list_node(4) [OF assms(1,2)] p assms(3) heap_okD(1) [OF assms(1)] by (auto intro: card_mono)
  then have "alloc_post b (unat nunits) h A (card N) (p + 8, h\<lparr>hptr := (hptr h)(prevp := hptr h p), freep := prevp\<rparr>) G"
    using take_whole_ok [OF assms(1-3) p] True by (intro alloc_postI) (auto simp: sz_def)
  then show ?thesis
    using True by simp
next
  case False
  define h1 where "h1 = h\<lparr>hsize := (hsize h)(p := hsize h p - nunits)\<rparr>"
  define a where "a = p + 8 * unat (hsize h1 p)"
  define h2 where "h2 = h1\<lparr>hsize := (hsize h1)(a := nunits), freep := prevp\<rparr>"
  have n: "0 < unat nunits" "unat nunits < sz h p" "unat (hsize h1 p) = sz h p - unat nunits"
    using assms(4,5) False by (simp_all add: sz_def h1_def unat_sub word_less_nat_alt word_le_nat_alt word_unat_eq_iff)
  then have "a \<noteq> p"
    by (simp add: a_def)
  then have h2: "sz h p = sz h2 p + unat nunits" "hptr h2 = hptr h" "freep h2 = prevp" "a = p + 8 * sz h2 p" "sz h2 a = unat nunits"
    "\<And>x. x \<noteq> p \<Longrightarrow> x \<noteq> a \<Longrightarrow> hsize h2 x = hsize h x"
    using n by (simp_all add: h2_def sz_def a_def) (simp_all add: h1_def sz_def)
  note sp = split_ok [OF assms(1-3) n(1,2) h2]
  have "p \<notin> A"
    using list_node(4) [OF assms(1,2)] n(2) assms(3) by auto
  then have "\<forall>x \<in> A. hsize h2 x = hsize h x"
    using h2(6) sp(2) by metis
  then have "alloc_post b (unat nunits) h A (card N) (a + 8, h2) G"
    using sp h2(5) by (intro alloc_postI) auto
  moreover have "malloc_loop (Suc k) nunits prevp p h = Ret (a + 8, h2)"
    using assms(5) False by (simp add: h2_def a_def h1_def Let_def)
  ultimately show ?thesis
    by simp
qed

lemma malloc_step:
  assumes "hsize h p < nunits" "p \<noteq> freep h"
  shows "malloc_loop (Suc k) nunits prevp p h = malloc_loop k nunits p (hptr h p) h"
  using assms by (auto simp: not_le)

lemma malloc_more:
  assumes "hsize h (freep h) < nunits"
  shows "malloc_loop (Suc k) nunits prevp (freep h) h =
    bindu (morecore k nunits h) (\<lambda>(p, h). if p = 0 then Ret (0, h) else malloc_loop k nunits p (hptr h p) h)"
  using assms by (auto simp: not_le)

declare malloc_loop.simps(2) [simp del]

text \<open>The second time round: the search ends at \<open>freep\<close> at the latest.\<close>

lemma malloc_loop_found:
  assumes "heap_ok b G h N A" "0 < nunits" "unat nunits \<le> sz h (freep h)" "prevp \<in> N" "steps N (freep h) (hptr h prevp) < k"
  shows "served b (alloc_post b (unat nunits) h A (card N)) (malloc_loop k nunits prevp (hptr h prevp) h) G"
  using assms(4,5)
proof (induction k arbitrary: prevp)
  case (Suc k)
  note H = heap_okD [OF assms(1)]
  let ?p = "hptr h prevp"
  have p: "?p \<in> N"
    using ringD(3) [OF H(3) Suc.prems(1)] .
  show ?case
  proof (cases "nunits \<le> hsize h ?p")
    case True
    then show ?thesis
      using malloc_found [OF assms(1) Suc.prems(1) refl assms(2)] by blast
  next
    case False
    then have "?p \<noteq> freep h"
      using assms(3) by (auto simp: sz_def word_le_nat_alt)
    moreover from this have "steps N (freep h) (hptr h ?p) < k"
      using steps_less [OF H(1,3) p H(4)] Suc.prems(2) by simp
    ultimately show ?thesis
      using Suc.IH [OF p] malloc_step [of h ?p nunits k prevp] False by simp
  qed
qed simp

lemma malloc_loop_ok:
  assumes "heap_ok b G h N A" "0 < nunits" "unat nunits < 2 ^ 28" "prevp \<in> N" "steps N (freep h) (hptr h prevp) + card N + 3 \<le> k"
  shows "served b (alloc_post b (unat nunits) h A (Suc (card N))) (malloc_loop k nunits prevp (hptr h prevp) h) G"
  using assms(4,5)
proof (induction k arbitrary: prevp)
  case (Suc k)
  note H = heap_okD [OF assms(1)]
  let ?p = "hptr h prevp" and ?Q = "alloc_post b (unat nunits) h A (Suc (card N))"
  have p: "?p \<in> N"
    using ringD(3) [OF H(3) Suc.prems(1)] .
  consider "nunits \<le> hsize h ?p" | "hsize h ?p < nunits" "?p \<noteq> freep h" | "hsize h ?p < nunits" "?p = freep h"
    by (meson not_le)
  then show ?case
  proof cases
    case 1
    show ?thesis
      by (rule served_mono [OF malloc_found [OF assms(1) Suc.prems(1) refl assms(2) 1]]) (erule alloc_post_mono, simp_all)
  next
    case 2
    then have "steps N (freep h) (hptr h ?p) + card N + 3 \<le> k"
      using steps_less [OF H(1,3) p H(4)] Suc.prems(2) by simp
    then show ?thesis
      using Suc.IH [OF p] malloc_step [OF 2] by simp
  next
    case 3
    have "served b ?Q (if q = 0 then Ret (0, h') else malloc_loop k nunits q (hptr h' q) h') G'"
      if res: "q = 0 \<and> h' = h \<and> G' = G
      \<or> (\<exists>N'. q = freep h' \<and> q \<noteq> 0 \<and> heap_ok b G' h' N' A \<and> card N' \<le> Suc (card N) \<and> (\<forall>x \<in> A. hsize h' x = hsize h x)
         \<and> (unat nunits \<le> sz h' (freep h') \<or> unat nunits \<le> sz h' (hptr h' (freep h'))))" for q h' G'
    proof (cases "q = 0")
      case True
      then show ?thesis
        using res assms(1) by (auto intro!: alloc_postI)
    next
      case False
      then obtain N' where N': "q = freep h'" "heap_ok b G' h' N' A" "card N' \<le> Suc (card N)" "\<forall>x \<in> A. hsize h' x = hsize h x"
        "unat nunits \<le> sz h' q \<or> unat nunits \<le> sz h' (hptr h' q)"
        using res by blast
      note H' = heap_okD [OF N'(2)] and mono = served_mono [OF _ alloc_post_mono [OF _ N'(4,3)]]
      show ?thesis
        using N'(5)
      proof
        assume "unat nunits \<le> sz h' q"
        moreover have "steps N' (freep h') (hptr h' q) < k"
          using steps_bound [OF H'(1) ringD(3) [OF H'(3,4)], of "freep h'"] N'(3) Suc.prems(2) unfolding N'(1) by linarith
        ultimately show ?thesis
          using mono [OF malloc_loop_found [OF N'(2) assms(2) _ H'(4)]] N'(1) False by simp
      next
        assume "unat nunits \<le> sz h' (hptr h' q)"
        moreover obtain j where "k = Suc j"
          using Suc.prems(2) by (cases k) auto
        ultimately show ?thesis
          using mono [OF malloc_found [OF N'(2) H'(4) refl assms(2), of j]] N'(1) False
          by (simp add: sz_def word_le_nat_alt)
      qed
    qed
    then have "served b ?Q (bindu (morecore k nunits h) (\<lambda>(p, h). if p = 0 then Ret (0, h) else malloc_loop k nunits p (hptr h p) h)) G"
      unfolding served_bindu using Suc.prems(2)
      by (intro served_mono [OF morecore_ok [OF assms(1) _ assms(3)]]) auto
    then show ?thesis
      using malloc_more [OF 3(1) [unfolded 3(2)]] unfolding 3(2) by (simp only:)
  qed
qed simp

text \<open>The heap before the first call and after it, with at most \<open>c\<close> nodes.\<close>

definition heap_st :: "nat \<Rightarrow> nat set \<Rightarrow> uheap \<Rightarrow> nat set \<Rightarrow> nat \<Rightarrow> bool" where
  "heap_st b G h A c \<longleftrightarrow> freep h = 0 \<and> A = {} \<and> G = {} \<or> (\<exists>N. heap_ok b G h N A \<and> card N \<le> c)"

lemma malloc_units_nat:
  assumes "unat n + 24 \<le> 2 ^ 31"
  shows "0 < malloc_units n" "unat (malloc_units n) < 2 ^ 28" "unat n + 8 \<le> 8 * unat (malloc_units n)"
proof -
  define d where "d = (unat n + 7) div 8"
  have d: "8 * d \<le> unat n + 7" "unat n + 7 < 8 * d + 8"
    unfolding d_def by simp_all
  have "unat (n + 8 - 1) = unat n + 7"
    using assms by (simp add: unat_plus_if')
  then have "unat ((n + 8 - 1) div 8) = d"
    by (simp add: unat_div d_def)
  then have u: "unat (malloc_units n) = d + 1"
    using assms d(1) unfolding malloc_units_def by (subst unat_plus_if') simp
  then show "unat (malloc_units n) < 2 ^ 28" "unat n + 8 \<le> 8 * unat (malloc_units n)" "0 < malloc_units n"
    using assms d by (simp_all add: word_less_nat_alt)
qed

lemma malloc_ok:
  assumes "0 < b" "heap_st b G h A c" "1 \<le> c" "unat n + 24 \<le> 2 ^ 31" "2 * c + 3 \<le> k"
  shows "served b (alloc_post b (unat (malloc_units n)) h A (Suc c)) (malloc k b n h) G"
proof -
  note mu = malloc_units_nat [OF assms(4)]
  define h1 where "h1 = (if freep h = 0 then h\<lparr>hptr := (hptr h)(b := b), freep := b, hsize := (hsize h)(b := 0)\<rparr> else h)"
  have "\<exists>N. heap_ok b G h1 N A \<and> card N \<le> c \<and> (\<forall>x \<in> A. hsize h1 x = hsize h x)"
  proof (cases "freep h = 0")
    case True
    then have "A = {}" "G = {}"
      using assms(1,2) heap_okD(3,4) ringD(2) unfolding heap_st_def by (metis not_le)+
    moreover have "heap_ok b {} h1 {b} {}"
      using assms(1) True by (simp add: h1_def heap_ok_def ring_def blk_def sz_def)
    ultimately show ?thesis
      using assms(3) by (intro exI [of _ "{b}"]) simp
  next
    case False
    then show ?thesis
      using assms(2) by (auto simp: h1_def heap_st_def)
  qed
  then obtain N where N: "heap_ok b G h1 N A" "card N \<le> c" "\<forall>x \<in> A. hsize h1 x = hsize h x"
    by blast
  note H = heap_okD [OF N(1)]
  have "steps N (freep h1) (hptr h1 (freep h1)) \<le> card N"
    by (rule steps_bound [OF H(1) ringD(3) [OF H(3,4)]])
  then have "steps N (freep h1) (hptr h1 (freep h1)) + card N + 3 \<le> k"
    using N(2) assms(5) by linarith
  note loop = malloc_loop_ok [OF N(1) mu(1,2) H(4) this]
  have "malloc k b n h = malloc_loop k (malloc_units n) (freep h1) (hptr h1 (freep h1)) h1"
    unfolding malloc_def Let_def h1_def ..
  moreover have "served b (alloc_post b (unat (malloc_units n)) h A (Suc c))
      (malloc_loop k (malloc_units n) (freep h1) (hptr h1 (freep h1)) h1) G"
    by (rule served_mono [OF loop]) (erule alloc_post_mono, use N(2,3) in simp_all)
  ultimately show ?thesis
    by simp
qed

section \<open>Clients\<close>

text \<open>A program that asks for memory and frees some of the blocks it held_ok, given by their position.\<close>

datatype heap_op = Malloc uint | Free nat

fun heap_client :: "nat \<Rightarrow> nat \<Rightarrow> heap_op list \<Rightarrow> (nat \<times> uint) list \<Rightarrow> uheap \<Rightarrow> ((nat \<times> uint) list \<times> uheap) uprog" where
  "heap_client k b [] held h = Ret (held, h)"
| "heap_client k b (Malloc n # ops) held h =
     bindu (malloc k b n h) (\<lambda>(p, h). heap_client k b ops (if p = 0 then held else (p, n) # held) h)"
| "heap_client k b (Free i # ops) held h =
     (if i < length held
      then case free k (fst (held ! i)) h of None \<Rightarrow> Forever
           | Some h \<Rightarrow> heap_client k b ops (take i held @ drop (Suc i) held) h
      else heap_client k b ops held h)"

definition headers :: "(nat \<times> uint) list \<Rightarrow> nat set" where
  "headers held = (\<lambda>x. fst x - 8) ` set held"

definition room :: "uheap \<Rightarrow> nat \<times> uint \<Rightarrow> bool" where
  "room h x \<longleftrightarrow> 8 \<le> fst x \<and> unat (snd x) + 8 \<le> 8 * sz h (fst x - 8)"

definition held_ok :: "nat \<Rightarrow> (nat \<times> uint) list \<Rightarrow> uheap \<Rightarrow> nat set \<Rightarrow> nat \<Rightarrow> bool" where
  "held_ok b held h G c \<longleftrightarrow> heap_st b G h (headers held) c \<and> distinct (map fst held) \<and> (\<forall>x \<in> set held. room h x)"

lemma room_cong: "hsize h' (fst x - 8) = hsize h (fst x - 8) \<Longrightarrow> room h' x = room h x"
  by (simp add: room_def sz_def)

lemma holds_malloc:
  assumes "held_ok b held h G0 c0" "alloc_post b (unat (malloc_units n)) h (headers held) c (q, h') G" "unat n + 24 \<le> 2 ^ 31"
  shows "held_ok b (if q = 0 then held else (q, n) # held) h' G c"
proof -
  obtain N A' where N: "heap_ok b G h' N A'" "card N \<le> c" "\<forall>x \<in> headers held. hsize h' x = hsize h x"
    "q = 0 \<and> A' = headers held \<or> (\<exists>a. a \<notin> headers held \<and> q = a + 8 \<and> A' = insert a (headers held) \<and> sz h' a = unat (malloc_units n))"
    using assms(2) by (auto simp: alloc_post_def)
  have "room h' x" if "x \<in> set held" for x
    using room_cong [of h' x h] assms(1) N(3) that by (simp add: held_ok_def headers_def)
  then have old: "\<forall>x \<in> set held. room h' x" "distinct (map fst held)"
    using assms(1) by (simp_all add: held_ok_def)
  show ?thesis
  proof (cases "q = 0")
    case True
    then show ?thesis
      using N old by (auto simp: held_ok_def heap_st_def)
  next
    case False
    then obtain a where a: "a \<notin> headers held" "q = a + 8" "A' = headers ((q, n) # held)" "sz h' a = unat (malloc_units n)"
      using N(4) by (auto simp: headers_def)
    have "a + 8 \<notin> fst ` set held" "room h' (q, n)"
      using a malloc_units_nat(3) [OF assms(3)] by (force simp: headers_def, simp add: room_def)
    then show ?thesis
      using False a(2,3) N(1,2) old by (auto simp: held_ok_def heap_st_def)
  qed
qed

lemma holds_free:
  assumes "held_ok b held h G c" "i < length held" "c < k"
  shows "\<exists>h'. free k (fst (held ! i)) h = Some h' \<and> held_ok b (take i held @ drop (Suc i) held) h' G (Suc c)"
proof -
  define x where "x = held ! i"
  let ?held = "take i held @ drop (Suc i) held"
  have split: "held = take i held @ x # drop (Suc i) held"
    using id_take_nth_drop [OF assms(2)] by (simp add: x_def)
  then have st: "set held = insert x (set ?held)" "map fst held = map fst (take i held) @ fst x # map fst (drop (Suc i) held)"
    by (metis Un_insert_right list.simps(15) set_append, metis list.simps(9) map_append)
  then have d: "fst x \<notin> fst ` set ?held" "distinct (map fst ?held)" and r: "8 \<le> fst x" "\<forall>y \<in> set ?held. room h y \<and> 8 \<le> fst y"
    using assms(1) by (auto simp: held_ok_def room_def)
  have hd: "headers held = insert (fst x - 8) (headers ?held)" "fst x - 8 \<notin> headers ?held"
  proof -
    show "headers held = insert (fst x - 8) (headers ?held)"
      unfolding headers_def st(1) by simp
    show "fst x - 8 \<notin> headers ?held"
      using d(1) r unfolding headers_def by (metis (no_types, lifting) diff_add image_iff)
  qed
  obtain N where N: "heap_ok b G h N (headers held)" "card N \<le> c"
    using assms(1) hd(1) by (auto simp: held_ok_def heap_st_def)
  have diff: "headers held - {fst x - 8} = headers ?held"
    using hd by blast
  obtain h' N' where h': "free k (fst x - 8 + 8) h = Some h'" "heap_ok b G h' N' (headers ?held)" "card N' \<le> Suc (card N)"
    "\<forall>y \<in> headers ?held. hsize h' y = hsize h y"
    using free_ok [OF N(1), of "fst x - 8" k] N(2) assms(3) hd(1) unfolding diff by auto
  have "room h' y" if "y \<in> set ?held" for y
    using r(2) h'(4) room_cong [of h' y h] that unfolding headers_def by blast
  then have "held_ok b ?held h' G (Suc c)"
    using h'(2,3) N(2) d(2) unfolding held_ok_def heap_st_def by auto
  then show ?thesis
    using h'(1) r(1) by (simp add: x_def)
qed

fun op_ok :: "heap_op \<Rightarrow> bool" where
  "op_ok (Malloc n) \<longleftrightarrow> unat n + 24 \<le> 2 ^ 31"
| "op_ok (Free i) \<longleftrightarrow> True"

lemma heap_client_holds:
  assumes "0 < b" "held_ok b held h G c" "1 \<le> c" "\<forall>q \<in> set ops. op_ok q" "2 * (c + length ops) + 3 \<le> k"
  shows "served b (\<lambda>(held, h) G. \<exists>c. held_ok b held h G c) (heap_client k b ops held h) G"
  using assms
proof (induction k b ops held h arbitrary: G c rule: heap_client.induct)
  case (1 k b held h)
  then show ?case
    by auto
next
  case (2 k b n ops held h)
  have n: "unat n + 24 \<le> 2 ^ 31"
    using "2.prems"(4) by simp
  have "heap_st b G h (headers held) c" "2 * c + 3 \<le> k"
    using "2.prems"(2,5) by (simp_all add: held_ok_def)
  note mall = malloc_ok [OF "2.prems"(1) this(1) "2.prems"(3) n this(2)]
  have "served b (\<lambda>(held, h) G. \<exists>c. held_ok b held h G c) (heap_client k b ops (if p = 0 then held else (p, n) # held) h') G'"
    if "alloc_post b (unat (malloc_units n)) h (headers held) (Suc c) (p, h') G'" for p h' G'
    using "2.prems"(3-5) by (intro "2.IH" [OF "2.prems"(1) holds_malloc [OF "2.prems"(2) that n]]) simp_all
  then show ?case
    unfolding heap_client.simps served_bindu by (intro served_mono [OF mall]) auto
next
  case (3 k b i ops held h)
  show ?case
  proof (cases "i < length held")
    case True
    obtain h' where "free k (fst (held ! i)) h = Some h'" "held_ok b (take i held @ drop (Suc i) held) h' G (Suc c)"
      using holds_free [OF "3.prems"(2) True, of k] "3.prems"(5) by auto
    then show ?thesis
      using "3.IH"(1) [OF True, of h' G "Suc c"] "3.prems" True by simp
  next
    case False
    then show ?thesis
      using "3.IH"(2) [OF False "3.prems"(1-3)] "3.prems"(4,5) by simp
  qed
qed

lemma holds_blocks:
  assumes "held_ok b held h G c" "held \<noteq> []"
  shows "\<exists>N. heap_ok b G h N (headers held)" "x \<in> set held \<Longrightarrow> {fst x..<fst x + unat (snd x)} \<subseteq> blk h (fst x - 8)"
    "x \<in> set held \<Longrightarrow> blk h (fst x - 8) \<subseteq> G"
    "x \<in> set held \<Longrightarrow> y \<in> set held \<Longrightarrow> fst x \<noteq> fst y \<Longrightarrow> blk h (fst x - 8) \<inter> blk h (fst y - 8) = {}"
proof -
  show "\<exists>N. heap_ok b G h N (headers held)"
    using assms by (auto simp: held_ok_def heap_st_def headers_def)
  then obtain N where N: "heap_ok b G h N (headers held)"
    by blast
  note H = heap_okD [OF N]
  have hd: "fst x - 8 \<in> headers held" "room h x" if "x \<in> set held" for x
    using that assms(1) by (auto simp: headers_def held_ok_def)
  show "{fst x..<fst x + unat (snd x)} \<subseteq> blk h (fst x - 8)" if "x \<in> set held"
    using hd(2) [OF that] by (auto simp: room_def blk_def)
  show "blk h (fst x - 8) \<subseteq> G" if "x \<in> set held"
    using hd(1) [OF that] H(9) by blast
  show "blk h (fst x - 8) \<inter> blk h (fst y - 8) = {}" if "x \<in> set held" "y \<in> set held" "fst x \<noteq> fst y"
  proof -
    have "fst x - 8 \<noteq> fst y - 8"
      using that hd(2) by (metis room_def diff_add)
    then show ?thesis
      using H(8) [of "fst x - 8" "fst y - 8"] H(8) [of "fst y - 8" "fst x - 8"] hd(1) that(1,2)
      by (cases "fst x - 8 < fst y - 8") (auto simp: blk_def)
  qed
qed

text \<open>C22: The heap of user programs. Starting from an empty heap, for every sequence of calls of \<^verbatim>\<open>malloc\<close> (for less than 2 GB) and \<^verbatim>\<open>free\<close>
  (of blocks that are held) and whatever the kernel answers to \<^verbatim>\<open>sbrk\<close>, the program comes back; the blocks it held_ok lie in
  memory obtained from the kernel and do not overlap; and the blocks handed out and the free ones, which the list reaches
  all, partition that memory, so that nothing is lost.\<close>

theorem malloc_hands_out_disjoint_blocks:
  assumes "0 < b" "freep h = 0" "\<forall>q \<in> set ops. op_ok q" "2 * length ops + 5 \<le> k"
  shows "served b (\<lambda>(held, h) G.
      (\<forall>x \<in> set held. {fst x..<fst x + unat (snd x)} \<subseteq> G)
      \<and> (\<forall>i j. i < j \<and> j < length held \<longrightarrow>
           {fst (held ! i)..<fst (held ! i) + unat (snd (held ! i))} \<inter> {fst (held ! j)..<fst (held ! j) + unat (snd (held ! j))} = {})
      \<and> (freep h \<noteq> 0 \<longrightarrow> (\<exists>N. heap_ok b G h N (headers held)))) (heap_client k b ops [] h) {}"
proof -
  have "served b (\<lambda>(held, h) G. \<exists>c. held_ok b held h G c) (heap_client k b ops [] h) {}"
    using assms by (intro heap_client_holds [of _ _ _ _ 1]) (simp_all add: held_ok_def heap_st_def headers_def)
  then show ?thesis
  proof (rule served_mono, clarify)
    fix held h G c
    assume h: "held_ok b held h G c"
    note B = holds_blocks [OF h]
    have "\<forall>x \<in> set held. {fst x..<fst x + unat (snd x)} \<subseteq> G"
      using B(2,3) by fastforce
    moreover have "{fst (held ! i)..<fst (held ! i) + unat (snd (held ! i))} \<inter> {fst (held ! j)..<fst (held ! j) + unat (snd (held ! j))} = {}"
      if "i < j" "j < length held" for i j
    proof -
      have "held ! i \<in> set held" "held ! j \<in> set held" "fst (held ! i) \<noteq> fst (held ! j)" "held \<noteq> []"
        using that h by (auto simp: held_ok_def distinct_conv_nth)
      then show ?thesis
        using B(2) [of "held ! i"] B(2) [of "held ! j"] B(4) [of "held ! i" "held ! j"] by blast
    qed
    moreover have "freep h \<noteq> 0 \<longrightarrow> (\<exists>N. heap_ok b G h N (headers held))"
      using h by (auto simp: held_ok_def heap_st_def)
    ultimately show "(\<forall>x \<in> set held. {fst x..<fst x + unat (snd x)} \<subseteq> G)
      \<and> (\<forall>i j. i < j \<and> j < length held \<longrightarrow>
           {fst (held ! i)..<fst (held ! i) + unat (snd (held ! i))} \<inter> {fst (held ! j)..<fst (held ! j) + unat (snd (held ! j))} = {})
      \<and> (freep h \<noteq> 0 \<longrightarrow> (\<exists>N. heap_ok b G h N (headers held)))"
      by blast
  qed
qed

theorem malloc_hands_out_disjoint_blocks_witness:
  "served 4096 (\<lambda>(held, h) G. \<forall>x \<in> set held. {fst x..<fst x + unat (snd x)} \<subseteq> G)
     (heap_client 20 4096 [Malloc 100, Malloc 7, Free 1, Malloc 40000] [] \<lparr>hptr = \<lambda>_. 0, hsize = \<lambda>_. 0, freep = 0\<rparr>) {}
   \<and> (\<exists>r. sbrk_ok 4096 {} 32768 r {16384..<49152})"
proof
  show "\<exists>r. sbrk_ok 4096 {} 32768 r {16384..<49152}"
    by (rule exI [of _ "\<lparr>rv = 16384, r_data = [], r_pfd = (0, 0), r_stat = undefined, r_info = undefined\<rparr>"]) (simp add: sbrk_ok_def)
qed (rule served_mono [OF malloc_hands_out_disjoint_blocks], auto)

text \<open>For requests of the last few values of \<open>uint\<close> the number of units wraps around, and the block has no room at all; for
  more than 2 GB the argument of \<^verbatim>\<open>sbrk\<close> is negative.\<close>

lemma malloc_units_wrap:
  assumes "0xFFFFFFF9 \<le> n"
  shows "malloc_units n = 1"
proof -
  have "unat (n + 7) = unat n + 7 - 2 ^ 32"
    using assms unat32_less [of n] by (simp add: unat_plus_if' word_le_nat_alt)
  then have "unat (n + 7) < 8"
    using unat32_less [of n] by simp
  then have "(n + 7) div 8 = 0"
    by (simp add: word_unat_eq_iff unat_div)
  then show ?thesis
    by (simp add: malloc_units_def add.commute)
qed

lemma morecore_negative: "sint (malloc_units 0x80000000 * 8) < 0"
  by (simp add: malloc_units_def)

end
