(* ===== verification/Kmisc.thy ===== *)
theory Kmisc
  imports Kalloc
begin

text \<open>
  Two routines over the kernel's memory that the other theories do not need: \<^verbatim>\<open>strlen\<close> of \<^verbatim>\<open>string.c\<close>, whose loop ends only if there is
  a terminator, and \<^verbatim>\<open>getcallerpcs\<close> of \<^verbatim>\<open>spinlock.c\<close>, which follows the chain of stack frames.
\<close>

section \<open>strlen\<close>

partial_function (option) strlen_loop :: "mem \<Rightarrow> uint \<Rightarrow> int \<Rightarrow> int option" where
  "strlen_loop m s n = (if m (s + of_int n) = 0 then Some n else strlen_loop m s (i32 (n + 1)))"

definition strlen :: "mem \<Rightarrow> uint \<Rightarrow> int option" where
  "strlen m s = strlen_loop m s 0"

text \<open>The loop returns the number of bytes before the first terminator, if there is one within the range of an \<open>int\<close>.\<close>

lemma strlen_loop_counts:
  "\<lbrakk>\<And>i. n \<le> i \<Longrightarrow> i < n + k \<Longrightarrow> m (s + of_nat i) \<noteq> 0; m (s + of_nat (n + k)) = 0; n + k < 2 ^ 31\<rbrakk>
    \<Longrightarrow> strlen_loop m s (int n) = Some (int (n + k))"
proof (induction k arbitrary: n)
  case 0
  then show ?case
    by (subst strlen_loop.simps) simp
next
  case (Suc k)
  have "i32 (int n + 1) = int (Suc n)"
    using Suc.prems(3) by (simp add: i32_id)
  moreover have "strlen_loop m s (int (Suc n)) = Some (int (Suc n + k))"
    using Suc.prems by (intro Suc.IH) simp_all
  moreover have "m (s + of_nat n) \<noteq> 0"
    using Suc.prems(1) [of n] by simp
  ultimately show ?case
    by (subst strlen_loop.simps) simp
qed

lemma strlen_counts:
  assumes "\<And>i. i < n \<Longrightarrow> m (s + of_nat i) \<noteq> 0" "m (s + of_nat n) = 0" "n < 2 ^ 31"
  shows "strlen m s = Some (int n)"
  using strlen_loop_counts [of 0 n m s] assms by (simp add: strlen_def)

section \<open>The call stack\<close>

definition ebp_stop :: "uint \<Rightarrow> bool" where
  "ebp_stop ebp \<longleftrightarrow> ebp = 0 \<or> ebp < KERNBASE \<or> ebp = 0xFFFFFFFF"

primrec pcs_loop :: "nat \<Rightarrow> mem \<Rightarrow> uint \<Rightarrow> uint list" where
  "pcs_loop 0 m ebp = []"
| "pcs_loop (Suc k) m ebp =
     (if ebp_stop ebp then replicate (Suc k) 0 else load32 m (ebp + 4) # pcs_loop k m (load32 m ebp))"

definition getcallerpcs :: "mem \<Rightarrow> uint \<Rightarrow> uint list" where
  "getcallerpcs m v = pcs_loop 10 m (v - 8)"

text \<open>A stack with the return addresses \<open>pcs\<close>.\<close>

primrec call_stack :: "mem \<Rightarrow> uint \<Rightarrow> uint list \<Rightarrow> bool" where
  "call_stack m ebp [] \<longleftrightarrow> ebp_stop ebp"
| "call_stack m ebp (pc # pcs) \<longleftrightarrow> \<not> ebp_stop ebp \<and> load32 m (ebp + 4) = pc \<and> call_stack m (load32 m ebp) pcs"

lemma pcs_loop_stack: "call_stack m ebp pcs \<Longrightarrow> pcs_loop k m ebp = take k (pcs @ replicate k 0)"
proof (induction k arbitrary: ebp pcs)
  case (Suc k)
  then show ?case
    by (cases pcs) (auto simp: take_Cons' min_def replicate_append_same [symmetric] simp del: replicate.simps)
qed simp

lemma getcallerpcs_stack:
  assumes "call_stack m (v - 8) pcs"
  shows "getcallerpcs m v = take 10 (pcs @ replicate 10 0)"
  using pcs_loop_stack [OF assms] by (simp add: getcallerpcs_def)

end
