(* ===== verification/Wakeup.thy ===== *)
theory Wakeup
  imports ProcProps
begin

text \<open>
  Sleeping and waking when CPUs interleave. The routines of \<^verbatim>\<open>proc.c\<close> are taken apart into the atomic actions of
  \<open>sleep_acts\<close> and \<open>wakeup_acts\<close>, and any CPU may act between two actions of another.
\<close>

section \<open>Interleavings\<close>

text \<open>A configuration is the state and the code that each CPU still has to execute. One CPU executes its next
  action; a CPU that finds a lock taken has to wait.\<close>

inductive interleave :: "'s \<times> (nat \<Rightarrow> ('s \<Rightarrow> 's res) list) \<Rightarrow> 's \<times> (nat \<Rightarrow> ('s \<Rightarrow> 's res) list) \<Rightarrow> bool" where
  Act: "code d = a # as \<Longrightarrow> a s = Ok t \<Longrightarrow> interleave (s, code) (t, code(d := as))"

inductive_cases interleaveE: "interleave (s, code) v"

text \<open>A CPU that makes the condition true: it does so with the lock of the condition, and calls \<^verbatim>\<open>wakeup\<close> with
  the lock (as \<^verbatim>\<open>pipewrite\<close> and \<^verbatim>\<open>ideintr\<close> do) or after it has given the lock back.\<close>

definition waker_acts :: "bool \<Rightarrow> nat \<Rightarrow> chan \<Rightarrow> lockid \<Rightarrow> ('a proc_state_scheme \<Rightarrow> 'a proc_state_scheme res) list" where
  "waker_acts early d ch lk =
     (if early then [acquire d lk, release d lk] @ wakeup_acts d (Some ch)
      else [acquire d lk] @ wakeup_acts d (Some ch) @ [release d lk])"

text \<open>The code at the start: process \<open>i\<close> on CPU \<open>c\<close> is about to sleep, the CPUs of \<open>W\<close> are about to wake.\<close>

definition race :: "nat \<Rightarrow> nat \<Rightarrow> chan \<Rightarrow> lockid \<Rightarrow> nat set \<Rightarrow> (nat \<Rightarrow> bool)
    \<Rightarrow> nat \<Rightarrow> ('a proc_state_scheme \<Rightarrow> 'a proc_state_scheme res) list" where
  "race c i ch lk W early d =
     (if d = c then sleep_acts c i ch lk else if d \<in> W then waker_acts (early d) d ch lk else [])"

section \<open>Who holds what\<close>

text \<open>After \<open>k\<close> of its actions, the sleeper (\<open>sl\<close>) or a waker holds these locks.\<close>

definition has_lk :: "bool \<Rightarrow> bool \<Rightarrow> nat \<Rightarrow> bool" where
  "has_lk sl e k \<longleftrightarrow> (if sl then k < 2 else if e then k = 1 else 1 \<le> k \<and> k \<le> 4)"

definition has_pt :: "bool \<Rightarrow> bool \<Rightarrow> nat \<Rightarrow> bool" where
  "has_pt sl e k \<longleftrightarrow> (if sl then 1 \<le> k \<and> k \<le> 4 else if e then k = 3 \<or> k = 4 else k = 2 \<or> k = 3)"

definition woke :: "bool \<Rightarrow> nat \<Rightarrow> bool" where
  "woke e k \<longleftrightarrow> (if e then 4 \<le> k else 3 \<le> k)"

definition lock_owned :: "lockid \<Rightarrow> nat set \<Rightarrow> 'a mach_scheme \<Rightarrow> bool" where
  "lock_owned l H s \<longleftrightarrow> (\<forall>d \<in> H. holds d l s) \<and> (H = {} \<longrightarrow> lock_idle l s)"

lemma lock_owned_cong: "locks t l = locks s l \<Longrightarrow> lock_owned l H s \<Longrightarrow> lock_owned l H t"
  by (simp add: lock_owned_def holds_def lock_idle_def)

lemma lock_owned_acquire:
  assumes "lock_owned l H s" "acquire d l s = Ok t" "cpu_at d s"
  shows "H = {}" "t = grabbed d l s" "lock_owned l {d} t"
proof -
  show t: "t = grabbed d l s"
    using acquire_OkD(1) [OF assms(2)] assms(3) by (simp add: cpu_at_def)
  show "H = {}"
    using assms by (auto simp: lock_owned_def acquire_eq cpu_at_def holds_def split: if_splits)
  show "lock_owned l {d} t"
    by (simp add: t lock_owned_def holds_def grabbed_def)
qed

lemma lock_owned_release:
  assumes "lock_owned l H s" "d \<in> H" "release d l s = Ok t" "cpu_at d s" "0 < ncli (the_cpu d s)"
  shows "H = {d}" "t = set_lock l ((locks s l)\<lparr>lk_cpu := None, locked := False\<rparr>) (upd_cpu d popped s)" "lock_owned l {} t"
proof -
  show t: "t = set_lock l ((locks s l)\<lparr>lk_cpu := None, locked := False\<rparr>) (upd_cpu d popped s)"
    using assms by (simp add: release_eq cpu_at_def lock_owned_def)
  have "x = d" if "x \<in> H" for x
  proof -
    have "holds x l s" "holds d l s"
      using assms(1,2) that by (simp_all add: lock_owned_def)
    then show ?thesis
      by (simp add: holds_def)
  qed
  then show "H = {d}"
    using assms(2) by blast
  show "lock_owned l {} t"
    by (simp add: t lock_owned_def lock_idle_def)
qed

definition holders :: "(bool \<Rightarrow> bool \<Rightarrow> nat \<Rightarrow> bool) \<Rightarrow> nat \<Rightarrow> nat set \<Rightarrow> (nat \<Rightarrow> bool) \<Rightarrow> (nat \<Rightarrow> nat) \<Rightarrow> nat set" where
  "holders P c W early k = {d \<in> insert c W. P (d = c) (early d) (k d)}"

lemma holders_waker:
  assumes "d \<in> W" "c \<notin> W"
  shows "holders P c W early (k(d := n)) =
     (if P False (early d) n then insert d (holders P c W early k) else holders P c W early k - {d})"
proof -
  have "d \<noteq> c"
    using assms by auto
  then show ?thesis
    using assms(1) by (auto simp: holders_def)
qed

lemma holders_sleeper:
  "holders P c W early (k(c := n)) =
     (if P True (early c) n then insert c (holders P c W early k) else holders P c W early k - {c})"
  by (auto simp: holders_def)

lemma in_holders [simp]:
  "c \<in> holders P c W early k \<longleftrightarrow> P True (early c) (k c)"
  "d \<in> W \<Longrightarrow> d \<noteq> c \<Longrightarrow> d \<in> holders P c W early k \<longleftrightarrow> P False (early d) (k d)"
  by (auto simp: holders_def)

text \<open>The state when each CPU \<open>d\<close> has executed \<open>k d\<close> actions.\<close>

definition race_inv :: "nat \<Rightarrow> nat \<Rightarrow> chan \<Rightarrow> lockid \<Rightarrow> nat set \<Rightarrow> (nat \<Rightarrow> bool) \<Rightarrow> (nat \<Rightarrow> nat)
    \<Rightarrow> 'a proc_state_scheme \<Rightarrow> bool" where
  "race_inv c i ch lk W early k s \<longleftrightarrow>
     (\<forall>d \<in> insert c W. cpu_at d s \<and>
        of_bool (has_lk (d = c) (early d) (k d)) + of_bool (has_pt (d = c) (early d) (k d)) \<le> ncli (the_cpu d s))
     \<and> (k c < 5 \<longrightarrow> cpu_proc (the_cpu c s) = Some i \<and> ncli (the_cpu c s) = (if k c = 1 then 2 else 1))
     \<and> lock_owned lk (holders has_lk c W early k) s
     \<and> lock_owned L_ptable (holders has_pt c W early k) s
     \<and> (\<forall>d \<in> W. (1 \<le> k d \<longrightarrow> 2 \<le> k c) \<and> (has_pt False (early d) (k d) \<or> woke (early d) (k d) \<longrightarrow> k c = 5))
     \<and> k c \<le> 5 \<and> i < length (ptable s) \<and> (3 \<le> k c \<and> k c < 5 \<longrightarrow> p_chan (the_proc i s) = Some ch)
     \<and> (k c = 4 \<longrightarrow> p_state (the_proc i s) = SLEEPING)
     \<and> (k c = 5 \<longrightarrow> (if \<exists>d \<in> W. woke (early d) (k d) then p_state (the_proc i s) = RUNNABLE
          else p_state (the_proc i s) = SLEEPING \<and> p_chan (the_proc i s) = Some ch))"


lemma race_invD:
  assumes "race_inv c i ch lk W early k s" "d \<in> insert c W"
  shows "cpu_at d s" "of_bool (has_lk (d = c) (early d) (k d)) + of_bool (has_pt (d = c) (early d) (k d)) \<le> ncli (the_cpu d s)"
  using assms unfolding race_inv_def by blast+

lemma race_inv_W:
  assumes "race_inv c i ch lk W early k s" "d \<in> W" "c \<notin> W"
  shows "cpu_at d s" "of_bool (has_lk False (early d) (k d)) + of_bool (has_pt False (early d) (k d)) \<le> ncli (the_cpu d s)"
    "d \<noteq> c"
proof -
  show "d \<noteq> c"
    using assms by auto
  then show "cpu_at d s" "of_bool (has_lk False (early d) (k d)) + of_bool (has_pt False (early d) (k d)) \<le> ncli (the_cpu d s)"
    using race_invD [OF assms(1), of d] assms(2) by auto
qed

lemma race_inv_waker:
  fixes s t :: "'a proc_state_scheme"
  assumes inv: "race_inv c i ch lk W early k s" and d: "d \<in> W" "c \<notin> W"
    and cp: "cpus t = upd d g (cpus s)" "cpu_ok (g (the_cpu d s))"
      "of_bool (has_lk False (early d) n) + of_bool (has_pt False (early d) n) \<le> ncli (g (the_cpu d s))"
    and own: "lock_owned lk (if has_lk False (early d) n then insert d (holders has_lk c W early k) else holders has_lk c W early k - {d}) t"
      "lock_owned L_ptable (if has_pt False (early d) n then insert d (holders has_pt c W early k) else holders has_pt c W early k - {d}) t"
    and ord: "2 \<le> k c" "has_pt False (early d) n \<or> woke (early d) n \<Longrightarrow> k c = 5"
    and tab: "ptable t = (if woke (early d) n \<and> \<not> woke (early d) (k d) then map (wake_entry (Some ch)) (ptable s) else ptable s)"
      "woke (early d) (k d) \<Longrightarrow> woke (early d) n"
  shows "race_inv c i ch lk W early (k(d := n)) t"
proof -
  have dc: "d \<noteq> c"
    using d by auto
  have 1: "cpu_at x t \<and> of_bool (has_lk (x = c) (early x) ((k(d := n)) x)) + of_bool (has_pt (x = c) (early x) ((k(d := n)) x))
      \<le> ncli (the_cpu x t)" if "x \<in> insert c W" for x
    using race_invD [OF inv that] race_invD(1) [OF inv, of d] d cp dc
    by (cases "x = d") (auto simp: cpu_at_def nth_upd)
  have 2: "the_cpu c t = the_cpu c s"
    using dc by (simp add: cp(1) upd_def)
  have 3: "i < length (ptable t)"
    using inv tab(1) by (simp add: race_inv_def)
  have 4: "p_state (the_proc i t) = (if (\<exists>x \<in> W. woke (early x) ((k(d := n)) x)) then RUNNABLE else SLEEPING)
      \<and> ((\<forall>x \<in> W. \<not> woke (early x) ((k(d := n)) x)) \<longrightarrow> p_chan (the_proc i t) = Some ch)" if "k c = 5"
  proof -
    have ex: "(\<exists>x \<in> W. woke (early x) ((k(d := n)) x)) \<longleftrightarrow> woke (early d) n \<or> (\<exists>x \<in> W. woke (early x) (k x))"
      using d(1) tab(2) by (metis fun_upd_apply)
    have old: "p_state (the_proc i s) = (if \<exists>x \<in> W. woke (early x) (k x) then RUNNABLE else SLEEPING)"
      "\<not> (\<exists>x \<in> W. woke (early x) (k x)) \<Longrightarrow> p_chan (the_proc i s) = Some ch" "i < length (ptable s)"
      using inv that unfolding race_inv_def by (simp_all split: if_splits)
    have keep: "woke (early d) (k d) \<Longrightarrow> \<exists>x \<in> W. woke (early x) (k x)"
      using d(1) by blast
    have "p_state (the_proc i t) = (if woke (early d) n \<or> (\<exists>x \<in> W. woke (early x) (k x)) then RUNNABLE else SLEEPING)
      \<and> (\<not> (woke (early d) n \<or> (\<exists>x \<in> W. woke (early x) (k x))) \<longrightarrow> p_chan (the_proc i t) = Some ch)"
      using old keep by (cases "\<exists>x \<in> W. woke (early x) (k x)"; cases "woke (early d) (k d)") (simp_all add: tab(1) wake_entry_def)
    then show ?thesis
      using ex by (metis (no_types, lifting))
  qed
  have 5: "\<forall>x \<in> W. (1 \<le> (k(d := n)) x \<longrightarrow> 2 \<le> k c)
      \<and> (has_pt False (early x) ((k(d := n)) x) \<or> woke (early x) ((k(d := n)) x) \<longrightarrow> k c = 5)"
    using inv ord by (auto simp: race_inv_def)
  have 6: "k c < 5 \<longrightarrow> ptable t = ptable s"
    using ord(2) tab(1) by auto
  have 7: "k c < 5 \<longrightarrow> cpu_proc (the_cpu c s) = Some i \<and> ncli (the_cpu c s) = (if k c = 1 then 2 else 1)"
    "k c \<le> 5" "3 \<le> k c \<and> k c < 5 \<longrightarrow> p_chan (the_proc i s) = Some ch" "k c = 4 \<longrightarrow> p_state (the_proc i s) = SLEEPING"
    using inv unfolding race_inv_def by blast+
  have c: "(k(d := n)) c = k c"
    using dc by simp
  show ?thesis
    unfolding race_inv_def holders_waker [OF d] c 2
    using 1 3 4 5 own 6 7 by (intro conjI) (simp_all split: if_splits)
qed

lemmas phase_defs = has_lk_def has_pt_def woke_def

lemma waker_nth:
  "waker_acts e d ch lk = (if e then [acquire d lk, release d lk, acquire d L_ptable, \<lambda>s. Ok (wakeup1 (Some ch) s), release d L_ptable]
     else [acquire d lk, acquire d L_ptable, \<lambda>s. Ok (wakeup1 (Some ch) s), release d L_ptable, release d lk])"
  by (simp add: waker_acts_def wakeup_acts_def)

text \<open>The steps of a waker: taking a lock, giving it back, waking.\<close>

lemma waker_takes_lk:
  fixes s t :: "'a proc_state_scheme"
  assumes inv: "race_inv c i ch lk W early k s" and d: "d \<in> W" "c \<notin> W" and lk: "lk \<noteq> L_ptable"
    and a: "acquire d lk s = Ok t" "k d = 0"
  shows "race_inv c i ch lk W early (k(d := 1)) t"
proof -
  note at = race_inv_W [OF inv d]
  have own: "lock_owned lk (holders has_lk c W early k) s" "lock_owned L_ptable (holders has_pt c W early k) s"
    using inv by (auto simp: race_inv_def)
  have e: "holders has_lk c W early k = {}" "lock_owned lk {d} t" and t: "t = grabbed d lk s"
    using lock_owned_acquire [OF own(1) a(1) at(1)] by auto
  have t': "cpus t = upd d pushed (cpus s)" "ptable t = ptable s" "locks t L_ptable = locks s L_ptable"
    using lk by (simp_all add: t grabbed_def)
  have k: "cpu_ok (pushed (the_cpu d s))" "1 \<le> ncli (pushed (the_cpu d s))"
    using at(1) by (auto simp: cpu_at_def cpu_ok_def pushed_def)
  have ph: "has_lk False (early d) 1" "\<not> has_pt False (early d) 1" "\<not> woke (early d) 1" "\<not> has_pt False (early d) (k d)"
    "\<not> woke (early d) (k d)"
    by (simp_all add: phase_defs a(2))
  have "c \<notin> holders has_lk c W early k"
    using e(1) by simp
  then have c: "2 \<le> k c"
    by (simp add: has_lk_def)
  show ?thesis
    by (rule race_inv_waker [OF inv d t'(1)]) (use k c e d at(3) ph t' lock_owned_cong [OF t'(3) own(2)] in simp_all)
qed

lemma waker_takes_pt:
  fixes s t :: "'a proc_state_scheme"
  assumes inv: "race_inv c i ch lk W early k s" and d: "d \<in> W" "c \<notin> W" and lk: "lk \<noteq> L_ptable"
    and a: "acquire d L_ptable s = Ok t" "k d = (if early d then 2 else 1)"
  shows "race_inv c i ch lk W early (k(d := Suc (k d))) t"
proof -
  note at = race_inv_W [OF inv d]
  have own: "lock_owned lk (holders has_lk c W early k) s" "lock_owned L_ptable (holders has_pt c W early k) s"
    using inv by (auto simp: race_inv_def)
  have e: "holders has_pt c W early k = {}" "lock_owned L_ptable {d} t" and t: "t = grabbed d L_ptable s"
    using lock_owned_acquire [OF own(2) a(1) at(1)] by auto
  have t': "cpus t = upd d pushed (cpus s)" "ptable t = ptable s" "locks t lk = locks s lk"
    using lk by (simp_all add: t grabbed_def)
  have ph: "has_lk False (early d) (Suc (k d)) = has_lk False (early d) (k d)" "has_pt False (early d) (Suc (k d))"
    "\<not> has_pt False (early d) (k d)" "\<not> woke (early d) (Suc (k d))" "\<not> woke (early d) (k d)"
    by (simp_all add: phase_defs a(2))
  have k: "cpu_ok (pushed (the_cpu d s))" "of_bool (has_lk False (early d) (k d)) + 1 \<le> ncli (pushed (the_cpu d s))"
    using at(1,2) by (auto simp: cpu_at_def cpu_ok_def pushed_def ph)
  have "c \<notin> holders has_pt c W early k" "2 \<le> k c" "k c \<le> 5"
    using e(1) inv d(1) a(2) by (auto simp: race_inv_def split: if_splits)
  then have c: "k c = 5"
    by (simp add: has_pt_def)
  have o: "lock_owned lk (holders has_lk c W early k) t"
    by (rule lock_owned_cong [OF t'(3) own(1)])
  show ?thesis
    by (rule race_inv_waker [OF inv d t'(1)])
      (use k c e d at(3) ph t' o in \<open>simp_all add: insert_absorb\<close>)
qed


lemma waker_gives_lk:
  fixes s t :: "'a proc_state_scheme"
  assumes inv: "race_inv c i ch lk W early k s" and d: "d \<in> W" "c \<notin> W" and lk: "lk \<noteq> L_ptable"
    and a: "release d lk s = Ok t" "k d = (if early d then 1 else 4)"
  shows "race_inv c i ch lk W early (k(d := Suc (k d))) t"
proof -
  note at = race_inv_W [OF inv d]
  have own: "lock_owned lk (holders has_lk c W early k) s" "lock_owned L_ptable (holders has_pt c W early k) s"
    using inv by (auto simp: race_inv_def)
  have ph: "has_lk False (early d) (k d)" "\<not> has_lk False (early d) (Suc (k d))"
    "\<not> has_pt False (early d) (k d)" "\<not> has_pt False (early d) (Suc (k d))" "woke (early d) (Suc (k d)) = woke (early d) (k d)"
    by (simp_all add: phase_defs a(2))
  have n: "0 < ncli (the_cpu d s)"
    using at(2) ph by simp
  have e: "holders has_lk c W early k = {d}" "lock_owned lk {} t"
    and t: "t = set_lock lk ((locks s lk)\<lparr>lk_cpu := None, locked := False\<rparr>) (upd_cpu d popped s)"
    using lock_owned_release [OF own(1) _ a(1) at(1) n] d at(3) ph by auto
  have t': "cpus t = upd d popped (cpus s)" "ptable t = ptable s" "locks t L_ptable = locks s L_ptable"
    using lk by (simp_all add: t)
  have k: "cpu_ok (popped (the_cpu d s))" "0 \<le> ncli (popped (the_cpu d s))"
    using at(1) n by (auto simp: cpu_at_def cpu_ok_def popped_def)
  have c: "2 \<le> k c" "woke (early d) (k d) \<longrightarrow> k c = 5"
    using inv d(1) a(2) by (auto simp: race_inv_def split: if_splits)
  have o: "lock_owned L_ptable (holders has_pt c W early k) t"
    by (rule lock_owned_cong [OF t'(3) own(2)])
  show ?thesis
    by (rule race_inv_waker [OF inv d t'(1)]) (use k c e d at(3) ph t' o in simp_all)
qed

lemma waker_gives_pt:
  fixes s t :: "'a proc_state_scheme"
  assumes inv: "race_inv c i ch lk W early k s" and d: "d \<in> W" "c \<notin> W" and lk: "lk \<noteq> L_ptable"
    and a: "release d L_ptable s = Ok t" "k d = (if early d then 4 else 3)"
  shows "race_inv c i ch lk W early (k(d := Suc (k d))) t"
proof -
  note at = race_inv_W [OF inv d]
  have own: "lock_owned lk (holders has_lk c W early k) s" "lock_owned L_ptable (holders has_pt c W early k) s"
    using inv by (auto simp: race_inv_def)
  have ph: "has_lk False (early d) (Suc (k d)) = has_lk False (early d) (k d)"
    "has_pt False (early d) (k d)" "\<not> has_pt False (early d) (Suc (k d))" "woke (early d) (Suc (k d))" "woke (early d) (k d)"
    by (simp_all add: phase_defs a(2))
  have n: "0 < ncli (the_cpu d s)"
    using at(2) ph by (cases "has_lk False (early d) (k d)") simp_all
  have e: "holders has_pt c W early k = {d}" "lock_owned L_ptable {} t"
    and t: "t = set_lock L_ptable ((locks s L_ptable)\<lparr>lk_cpu := None, locked := False\<rparr>) (upd_cpu d popped s)"
    using lock_owned_release [OF own(2) _ a(1) at(1) n] d at(3) ph by auto
  have t': "cpus t = upd d popped (cpus s)" "ptable t = ptable s" "locks t lk = locks s lk"
    using lk by (simp_all add: t)
  have k: "cpu_ok (popped (the_cpu d s))" "of_bool (has_lk False (early d) (k d)) \<le> ncli (popped (the_cpu d s))"
    using at(1,2) n by (auto simp: cpu_at_def cpu_ok_def popped_def ph)
  have c: "k c = 5"
    using inv d(1) ph by (auto simp: race_inv_def)
  have o: "lock_owned lk (holders has_lk c W early k) t"
    by (rule lock_owned_cong [OF t'(3) own(1)])
  show ?thesis
    by (rule race_inv_waker [OF inv d t'(1)]) (use k c e d at(3) ph t' o in \<open>simp_all add: insert_absorb\<close>)
qed

lemma waker_wakes:
  fixes s :: "'a proc_state_scheme"
  assumes inv: "race_inv c i ch lk W early k s" and d: "d \<in> W" "c \<notin> W" and a: "k d = (if early d then 3 else 2)"
  shows "race_inv c i ch lk W early (k(d := Suc (k d))) (wakeup1 (Some ch) s)"
proof -
  let ?t = "wakeup1 (Some ch) s"
  note at = race_inv_W [OF inv d]
  have ph: "has_lk False (early d) (Suc (k d)) = has_lk False (early d) (k d)"
    "has_pt False (early d) (k d)" "has_pt False (early d) (Suc (k d))" "woke (early d) (Suc (k d))" "\<not> woke (early d) (k d)"
    by (simp_all add: phase_defs a)
  have t: "cpus ?t = upd d (\<lambda>k. k) (cpus s)" "locks ?t = locks s"
    by (simp_all add: wakeup1_def upd_def)
  have own: "lock_owned lk (holders has_lk c W early k) ?t" "lock_owned L_ptable (holders has_pt c W early k) ?t"
    using inv lock_owned_cong [of ?t _ s] by (auto simp: race_inv_def t)
  have c: "k c = 5"
    using inv d(1) ph by (auto simp: race_inv_def)
  show ?thesis
    by (rule race_inv_waker [OF inv d t(1)])
      (use at c d own ph in \<open>simp_all add: insert_absorb wakeup1_def cpu_at_def\<close>)
qed


text \<open>The steps of the sleeper.\<close>

lemma race_inv_sleeper:
  fixes s t :: "'a proc_state_scheme"
  assumes inv: "race_inv c i ch lk W early k s" and c: "c \<notin> W" "k c < 5" "n = Suc (k c)"
    and cp: "cpus t = upd c g (cpus s)" "cpu_ok (g (the_cpu c s))"
      "of_bool (has_lk True (early c) n) + of_bool (has_pt True (early c) n) \<le> ncli (g (the_cpu c s))"
      "n < 5 \<Longrightarrow> cpu_proc (g (the_cpu c s)) = Some i \<and> ncli (g (the_cpu c s)) = (if n = 1 then 2 else 1)"
    and own: "lock_owned lk (if has_lk True (early c) n then insert c (holders has_lk c W early k) else holders has_lk c W early k - {c}) t"
      "lock_owned L_ptable (if has_pt True (early c) n then insert c (holders has_pt c W early k) else holders has_pt c W early k - {c}) t"
    and tab: "length (ptable t) = length (ptable s)" "3 \<le> n \<Longrightarrow> p_chan (the_proc i t) = Some ch"
      "4 \<le> n \<Longrightarrow> p_state (the_proc i t) = SLEEPING"
  shows "race_inv c i ch lk W early (k(c := n)) t"
proof -
  have W: "\<forall>x \<in> W. (1 \<le> k x \<longrightarrow> 2 \<le> k c) \<and> \<not> has_pt False (early x) (k x) \<and> \<not> woke (early x) (k x)"
    using inv c(2) unfolding race_inv_def by auto
  have k: "(k(c := n)) x = k x" if "x \<in> W" for x
    using that c(1) by auto
  have cs: "c < length (cpus s)"
    using race_invD(1) [OF inv, of c] by (simp add: cpu_at_def)
  have 1: "cpu_at x t \<and> of_bool (has_lk (x = c) (early x) ((k(c := n)) x)) + of_bool (has_pt (x = c) (early x) ((k(c := n)) x))
      \<le> ncli (the_cpu x t)" if "x \<in> insert c W" for x
    using race_invD [OF inv that] cp cs by (cases "x = c") (auto simp: cpu_at_def nth_upd)
  have 2: "the_cpu c t = g (the_cpu c s)"
    using cs by (simp add: cp(1) nth_upd)
  have 3: "i < length (ptable t)"
    using inv tab(1) unfolding race_inv_def by simp
  have 4: "\<forall>x \<in> W. (1 \<le> (k(c := n)) x \<longrightarrow> 2 \<le> n)
      \<and> (has_pt False (early x) ((k(c := n)) x) \<or> woke (early x) ((k(c := n)) x) \<longrightarrow> n = 5)"
    using W k c(3) by auto
  have 5: "\<not> (\<exists>x \<in> W. woke (early x) ((k(c := n)) x))"
    using W k by simp
  have n: "n \<le> 5" "(k(c := n)) c = n"
    using c(2,3) by simp_all
  show ?thesis
    unfolding race_inv_def holders_sleeper n(2) 2 if_not_P [OF 5]
    using 1 3 4 own n(1) cp(4) tab(2,3) by (intro conjI) simp_all
qed

lemma sleep_nth:
  "lk \<noteq> L_ptable \<Longrightarrow> sleep_acts c i ch lk =
     [acquire c L_ptable, release c lk, \<lambda>s. Ok (upd_proc i (\<lambda>p. p\<lparr>p_chan := Some ch\<rparr>) s),
      \<lambda>s. Ok (upd_proc i (\<lambda>p. p\<lparr>p_state := SLEEPING\<rparr>) s), sched c (By_sleep lk)]"
  by (simp add: sleep_acts_def)

lemma sleeper_inv:
  assumes "race_inv c i ch lk W early k s"
  shows "cpu_at c s" "lock_owned lk (holders has_lk c W early k) s" "lock_owned L_ptable (holders has_pt c W early k) s"
    "k c < 5 \<Longrightarrow> cpu_proc (the_cpu c s) = Some i \<and> ncli (the_cpu c s) = (if k c = 1 then 2 else 1)"
    "i < length (ptable s)" "3 \<le> k c \<and> k c < 5 \<Longrightarrow> p_chan (the_proc i s) = Some ch"
    "k c = 4 \<Longrightarrow> p_state (the_proc i s) = SLEEPING" "k c \<le> 5"
  using assms unfolding race_inv_def by blast+

lemma sleeper_takes_pt:
  fixes s t :: "'a proc_state_scheme"
  assumes inv: "race_inv c i ch lk W early k s" and c: "c \<notin> W" "k c = 0" and lk: "lk \<noteq> L_ptable"
    and a: "acquire c L_ptable s = Ok t"
  shows "race_inv c i ch lk W early (k(c := 1)) t"
proof -
  note r = sleeper_inv [OF inv]
  have e: "holders has_pt c W early k = {}" "lock_owned L_ptable {c} t" and t: "t = grabbed c L_ptable s"
    using lock_owned_acquire [OF r(3) a r(1)] by auto
  have t': "cpus t = upd c pushed (cpus s)" "ptable t = ptable s" "locks t lk = locks s lk"
    using lk by (simp_all add: t grabbed_def)
  have ph: "has_lk True (early c) 1" "has_pt True (early c) 1" "has_lk True (early c) 0"
    by (simp_all add: phase_defs)
  have h: "insert c (holders has_lk c W early k) = holders has_lk c W early k"
    using ph c(2) by (simp add: insert_absorb)
  have k: "cpu_ok (pushed (the_cpu c s))" "cpu_proc (pushed (the_cpu c s)) = Some i" "ncli (pushed (the_cpu c s)) = 2"
    using r(1,4) c(2) by (auto simp: cpu_at_def cpu_ok_def pushed_def)
  have o: "lock_owned lk (holders has_lk c W early k) t"
    by (rule lock_owned_cong [OF t'(3) r(2)])
  show ?thesis
    by (rule race_inv_sleeper [OF inv c(1) _ _ t'(1)]) (use k c e ph t' o h in simp_all)
qed

lemma sleeper_gives_lk:
  fixes s t :: "'a proc_state_scheme"
  assumes inv: "race_inv c i ch lk W early k s" and c: "c \<notin> W" "k c = 1" and lk: "lk \<noteq> L_ptable"
    and a: "release c lk s = Ok t"
  shows "race_inv c i ch lk W early (k(c := 2)) t"
proof -
  note r = sleeper_inv [OF inv]
  have ph: "has_lk True (early c) 1" "has_pt True (early c) 1" "\<not> has_lk True (early c) 2" "has_pt True (early c) 2"
    by (simp_all add: phase_defs)
  have n: "0 < ncli (the_cpu c s)"
    using r(4) c(2) by simp
  have e: "holders has_lk c W early k = {c}" "lock_owned lk {} t"
    and t: "t = set_lock lk ((locks s lk)\<lparr>lk_cpu := None, locked := False\<rparr>) (upd_cpu c popped s)"
    using lock_owned_release [OF r(2) _ a r(1) n] ph c by auto
  have t': "cpus t = upd c popped (cpus s)" "ptable t = ptable s" "locks t L_ptable = locks s L_ptable"
    using lk by (simp_all add: t)
  have h: "insert c (holders has_pt c W early k) = holders has_pt c W early k"
    using ph c(2) by (simp add: insert_absorb)
  have k: "cpu_ok (popped (the_cpu c s))" "cpu_proc (popped (the_cpu c s)) = Some i" "ncli (popped (the_cpu c s)) = 1"
    using r(1,4) c(2) by (auto simp: cpu_at_def cpu_ok_def popped_def)
  have o: "lock_owned L_ptable (holders has_pt c W early k) t"
    by (rule lock_owned_cong [OF t'(3) r(3)])
  show ?thesis
    by (rule race_inv_sleeper [OF inv c(1) _ _ t'(1)]) (use k c e ph t' o h in simp_all)
qed

lemma sleeper_marks:
  fixes s :: "'a proc_state_scheme"
  assumes inv: "race_inv c i ch lk W early k s" and c: "c \<notin> W" "k c = 2 \<or> k c = 3"
    and f: "f = (if k c = 2 then p_chan_update (\<lambda>_. Some ch) else p_state_update (\<lambda>_. SLEEPING))"
  shows "race_inv c i ch lk W early (k(c := Suc (k c))) (upd_proc i f s)"
proof -
  let ?t = "upd_proc i f s"
  note r = sleeper_inv [OF inv]
  have ph: "has_pt True (early c) (k c)" "\<not> has_lk True (early c) (k c)"
    "has_pt True (early c) (Suc (k c))" "\<not> has_lk True (early c) (Suc (k c))"
    using c(2) by (auto simp: phase_defs)
  have h: "insert c (holders has_pt c W early k) = holders has_pt c W early k"
    "holders has_lk c W early k - {c} = holders has_lk c W early k"
    using ph by (simp_all add: insert_absorb)
  have t: "cpus ?t = upd c (\<lambda>k. k) (cpus s)" "locks ?t = locks s"
    by (simp_all add: upd_proc_def upd_def)
  have own: "lock_owned lk (holders has_lk c W early k) ?t" "lock_owned L_ptable (holders has_pt c W early k) ?t"
    using r(2,3) by (simp_all add: lock_owned_def holds_def lock_idle_def t(2))
  show ?thesis
    by (rule race_inv_sleeper [OF inv c(1) _ refl t(1)])
      (use r c own ph h f in \<open>auto simp: cpu_at_def nth_upd\<close>)
qed

lemma sleeper_leaves:
  fixes s t :: "'a proc_state_scheme"
  assumes inv: "race_inv c i ch lk W early k s" and c: "c \<notin> W" "k c = 4" and lk: "lk \<noteq> L_ptable"
    and a: "sched c (By_sleep lk) s = Ok t"
  shows "race_inv c i ch lk W early (k(c := 5)) t"
proof -
  note r = sleeper_inv [OF inv]
  have ph: "has_pt True (early c) 4" "\<not> has_lk True (early c) 4" "\<not> has_pt True (early c) 5" "\<not> has_lk True (early c) 5"
    by (simp_all add: phase_defs)
  have held: "holds c L_ptable s"
    using r(3) ph(1) c(2) by (simp add: lock_owned_def)
  have t: "t = gone c i (By_sleep lk) s"
    using a sched_Ok [OF r(1) _ _ held, of i "By_sleep lk"] r(4,7) c(2) by simp
  let ?g = "\<lambda>k. popped (vacated (kpgdir s) k)"
  have t': "cpus t = upd c ?g (cpus s)" "locks t lk = locks s lk" "length (ptable t) = length (ptable s)"
    "p_chan (the_proc i t) = p_chan (the_proc i s)" "p_state (the_proc i t) = p_state (the_proc i s)"
    using lk r(5) by (simp_all add: t gone_def nth_upd)
  have k: "cpu_ok (?g (the_cpu c s))" "0 \<le> ncli (?g (the_cpu c s))"
    using r(1,4) c(2) by (auto simp: cpu_at_def cpu_ok_def popped_def vacated_def)
  have "x = c" if "x \<in> holders has_pt c W early k" for x
    using r(3) that held by (auto simp: lock_owned_def holds_def)
  then have e: "holders has_pt c W early k - {c} = {}"
    by blast
  have "lock_owned L_ptable (holders has_pt c W early k - {c}) t"
    unfolding e by (simp add: t gone_def lock_owned_def lock_idle_def)
  moreover have "holders has_lk c W early k - {c} = holders has_lk c W early k"
    using ph c(2) by simp
  moreover have "lock_owned lk (holders has_lk c W early k) t"
    by (rule lock_owned_cong [OF t'(2) r(2)])
  ultimately show ?thesis
    by (intro race_inv_sleeper [OF inv c(1) _ _ t'(1)]) (use k c ph t' r(6,7) in simp_all)
qed

section \<open>No wakeup is lost\<close>

text \<open>The code that is left when each CPU has executed \<open>k d\<close> actions.\<close>

definition left_of :: "(nat \<Rightarrow> 'b list) \<Rightarrow> (nat \<Rightarrow> nat) \<Rightarrow> nat \<Rightarrow> 'b list" where
  "left_of prog k d = drop (k d) (prog d)"

lemma left_of_0: "left_of prog (\<lambda>_. 0) = prog"
  by (rule ext) (simp add: left_of_def)

lemma left_of_step: "left_of prog k d = a # as \<Longrightarrow> (left_of prog k)(d := as) = left_of prog (k(d := Suc (k d)))"
  by (rule ext) (simp add: left_of_def, metis drop_Suc tl_drop list.sel(3))

lemma left_of_next: "left_of prog k d = a # as \<Longrightarrow> k d < length (prog d) \<and> a = prog d ! k d"
  by (metis drop_all hd_drop_conv_nth left_of_def linorder_not_less list.distinct(1) list.sel(1))

lemma below5: "n < 5 \<Longrightarrow> n = 0 \<or> n = 1 \<or> n = 2 \<or> n = 3 \<or> n = (4 :: nat)"
  by arith

lemma sleeper_step:
  assumes "race_inv c i ch lk W early k s" "c \<notin> W" "lk \<noteq> L_ptable" "k c < 5" "(sleep_acts c i ch lk ! k c) s = Ok t"
  shows "race_inv c i ch lk W early (k(c := Suc (k c))) t"
  using below5 [OF assms(4)]
proof (elim disjE)
  assume "k c = 0"
  then show ?thesis
    using sleeper_takes_pt [OF assms(1,2) _ assms(3)] assms(5) by (simp add: sleep_nth [OF assms(3)])
next
  assume "k c = 1"
  then show ?thesis
    using sleeper_gives_lk [OF assms(1,2) _ assms(3)] assms(5) by (simp add: sleep_nth [OF assms(3)] numeral_2_eq_2)
next
  assume "k c = 2"
  then show ?thesis
    using sleeper_marks [OF assms(1,2) _ refl] assms(5) by (simp add: sleep_nth [OF assms(3)])
next
  assume "k c = 3"
  then show ?thesis
    using sleeper_marks [OF assms(1,2) _ refl] assms(5) by (simp add: sleep_nth [OF assms(3)])
next
  assume "k c = 4"
  then show ?thesis
    using sleeper_leaves [OF assms(1,2) _ assms(3)] assms(5) by (simp add: sleep_nth [OF assms(3)])
qed

lemma waker_step:
  assumes "race_inv c i ch lk W early k s" "d \<in> W" "c \<notin> W" "lk \<noteq> L_ptable" "k d < 5"
    "(waker_acts (early d) d ch lk ! k d) s = Ok t"
  shows "race_inv c i ch lk W early (k(d := Suc (k d))) t"
proof -
  note ts = waker_takes_lk [OF assms(1-4)] waker_takes_pt [OF assms(1-4)] waker_gives_lk [OF assms(1-4)]
    waker_gives_pt [OF assms(1-4)] waker_wakes [OF assms(1-3)]
  show ?thesis
    using below5 [OF assms(5)] ts assms(6)
    by (cases "early d"; elim disjE) (simp_all add: waker_nth)
qed


lemma race_length: "lk \<noteq> L_ptable \<Longrightarrow> length (race c i ch lk W early d) = (if d \<in> insert c W then 5 else 0)"
  by (simp add: race_def sleep_nth waker_nth)

lemma race_inv_act:
  fixes s :: "'a proc_state_scheme"
  assumes "race_inv c i ch lk W early k s" "c \<notin> W" "lk \<noteq> L_ptable"
    "left_of (race c i ch lk W early) k d = a # as" "a s = Ok t"
  shows "race_inv c i ch lk W early (k(d := Suc (k d))) t" "d \<in> insert c W" "k d < 5"
proof -
  let ?p = "race c i ch lk W early :: nat \<Rightarrow> ('a proc_state_scheme \<Rightarrow> 'a proc_state_scheme res) list"
  have k: "k d < length (?p d)" "a = ?p d ! k d"
    using left_of_next [OF assms(4)] by auto
  show d: "d \<in> insert c W" "k d < 5"
    using k(1) by (simp_all add: race_length [OF assms(3)] split: if_splits)
  show "race_inv c i ch lk W early (k(d := Suc (k d))) t"
  proof (cases "d = c")
    case True
    then show ?thesis
      using sleeper_step [OF assms(1-3)] d(2) assms(5) k(2) by (simp add: race_def)
  next
    case False
    then show ?thesis
      using waker_step [OF assms(1) _ assms(2,3)] d assms(5) k(2) by (simp add: race_def)
  qed
qed

text \<open>Some CPU can always act: the sleeper until it has left its CPU, then whoever holds a lock, then anyone.\<close>

lemma acquire_lock_owned:
  "lock_owned l {} s \<Longrightarrow> cpu_at d s \<Longrightarrow> acquire d l s = Ok (grabbed d l s)"
  by (simp add: lock_owned_def acquire_grabbed cpu_at_def)

lemma release_lock_owned:
  "lock_owned l H s \<Longrightarrow> d \<in> H \<Longrightarrow> cpu_at d s \<Longrightarrow> 0 < ncli (the_cpu d s) \<Longrightarrow> \<exists>t. release d l s = Ok t"
  by (simp add: lock_owned_def release_eq cpu_at_def)

lemma sleeper_acts:
  assumes inv: "race_inv c i ch lk W early k s" and c: "c \<notin> W" "k c < 5" and lk: "lk \<noteq> L_ptable"
  shows "\<exists>t. (sleep_acts c i ch lk ! k c) s = Ok t"
proof -
  note r = sleeper_inv [OF inv]
  have W: "x \<notin> holders has_pt c W early k" if "x \<noteq> c" for x
    using inv c(2) that unfolding race_inv_def holders_def by auto
  have ph: "k c = 0 \<Longrightarrow> holders has_pt c W early k = {}"
  proof -
    assume "k c = 0"
    then have "c \<notin> holders has_pt c W early k"
      by (simp add: has_pt_def)
    then show "holders has_pt c W early k = {}"
      using W by (metis all_not_in_conv)
  qed
  have pt: "holds c L_ptable s" if "1 \<le> k c"
    using r(3) that c(2) by (auto simp: lock_owned_def has_pt_def)
  show ?thesis
    using below5 [OF c(2)]
  proof (elim disjE)
    assume "k c = 0"
    then show ?thesis
      using acquire_lock_owned [of L_ptable s c] r(1,3) ph by (simp add: sleep_nth [OF lk])
  next
    assume k: "k c = 1"
    then have "c \<in> holders has_lk c W early k" "0 < ncli (the_cpu c s)"
      using r(4) by (simp_all add: has_lk_def)
    then show ?thesis
      using release_lock_owned [OF r(2) _ r(1)] k by (simp add: sleep_nth [OF lk])
  next
    assume "k c = 4"
    then show ?thesis
      using sched_Ok [OF r(1) _ _ pt, of i "By_sleep lk"] r(4,7) by (simp add: sleep_nth [OF lk])
  qed (simp_all add: sleep_nth [OF lk])
qed

lemma waker_acts_on:
  assumes inv: "race_inv c i ch lk W early k s" and d: "d \<in> W" "c \<notin> W" "k d < 5" and lk: "lk \<noteq> L_ptable"
    and pt: "has_pt False (early d) (k d) \<or> holders has_pt c W early k = {}"
    and ll: "has_lk False (early d) (k d) \<or> has_pt False (early d) (k d) \<or> holders has_lk c W early k = {}"
  shows "\<exists>t. (waker_acts (early d) d ch lk ! k d) s = Ok t"
proof -
  note r = sleeper_inv [OF inv] and at = race_inv_W [OF inv d(1,2)]
  have n: "0 < ncli (the_cpu d s)" if "has_lk False (early d) (k d) \<or> has_pt False (early d) (k d)"
    using at(2) that
    by (cases "has_lk False (early d) (k d)"; cases "has_pt False (early d) (k d)") simp_all
  have rl: "\<exists>t. release d lk s = Ok t" if "has_lk False (early d) (k d)"
    using release_lock_owned [OF r(2) _ at(1) n] that d(1) at(3) by simp
  have rp: "\<exists>t. release d L_ptable s = Ok t" if "has_pt False (early d) (k d)"
    using release_lock_owned [OF r(3) _ at(1) n] that d(1) at(3) by simp
  have al: "\<exists>t. acquire d lk s = Ok t" if "\<not> has_lk False (early d) (k d)" "\<not> has_pt False (early d) (k d)"
    using that ll acquire_lock_owned [of lk s d] r(2) at(1) by simp
  have ap: "\<exists>t. acquire d L_ptable s = Ok t" if "\<not> has_pt False (early d) (k d)"
    using that pt acquire_lock_owned [of L_ptable s d] r(3) at(1) by simp
  show ?thesis
    using below5 [OF d(3)] rl rp al ap
    by (cases "early d"; elim disjE) (simp_all add: waker_nth phase_defs)
qed

lemma race_progress:
  fixes s :: "'a proc_state_scheme"
  assumes inv: "race_inv c i ch lk W early k s" and c: "c \<notin> W" and lk: "lk \<noteq> L_ptable"
    and x: "left_of (race c i ch lk W early :: nat \<Rightarrow> ('a proc_state_scheme \<Rightarrow> 'a proc_state_scheme res) list) k x \<noteq> []"
  shows "\<exists>v. interleave (s, left_of (race c i ch lk W early) k) v"
proof -
  let ?p = "race c i ch lk W early :: nat \<Rightarrow> ('a proc_state_scheme \<Rightarrow> 'a proc_state_scheme res) list"
  have act: ?thesis if "d \<in> insert c W" "k d < 5" "(?p d ! k d) s = Ok t" for d t
  proof -
    have "left_of ?p k d = ?p d ! k d # drop (Suc (k d)) (?p d)"
      using that(1,2) by (simp add: left_of_def Cons_nth_drop_Suc race_length [OF lk])
    from Act [where code = "left_of ?p k", OF this that(3)] show ?thesis ..
  qed
  have waker: ?thesis if w: "d \<in> W" "k d < 5" "has_pt False (early d) (k d) \<or> holders has_pt c W early k = {}"
    "has_lk False (early d) (k d) \<or> has_pt False (early d) (k d) \<or> holders has_lk c W early k = {}" for d
  proof -
    have "d \<noteq> c"
      using w(1) c by auto
    moreover obtain t where "(waker_acts (early d) d ch lk ! k d) s = Ok t"
      using waker_acts_on [OF inv w(1) c w(2) lk w(3,4)] by blast
    ultimately show ?thesis
      using act [of d t] w(1,2) by (simp add: race_def)
  qed
  have x': "x \<in> insert c W" "k x < 5"
    using x by (auto simp: left_of_def race_length [OF lk] not_le [symmetric] split: if_splits)
  show ?thesis
  proof (cases "k c < 5")
    case True
    then obtain t where "(sleep_acts c i ch lk ! k c) s = Ok t"
      using sleeper_acts [OF inv c _ lk] by blast
    then show ?thesis
      using act [of c t] True by (simp add: race_def)
  next
    case False
    then have "\<not> has_pt True (early c) (k c)" "\<not> has_lk True (early c) (k c)" "x \<in> W"
      using x' by (auto simp: phase_defs)
    then have W: "d \<in> W \<and> P False (early d) (k d)" if "d \<in> holders P c W early k" "P = has_pt \<or> P = has_lk" for d P
      using that by (cases "d = c") (auto simp: holders_def)
    have small: "k d < 5" if "has_pt False (early d) (k d) \<or> has_lk False (early d) (k d)" for d
      using that by (auto simp: phase_defs split: if_splits)
    show ?thesis
    proof (cases "holders has_pt c W early k = {}")
      case pt: True
      show ?thesis
      proof (cases "holders has_lk c W early k = {}")
        case True
        then show ?thesis
          using waker [OF \<open>x \<in> W\<close> x'(2)] pt by simp
      next
        case False
        then obtain d where "d \<in> W" "has_lk False (early d) (k d)"
          using W [of _ has_lk] by blast
        then show ?thesis
          using waker [of d] small pt by simp
      qed
    next
      case False
      then obtain d where "d \<in> W" "has_pt False (early d) (k d)"
        using W [of _ has_pt] by blast
      then show ?thesis
        using waker [of d] small by simp
    qed
  qed
qed


lemma race_inv_steps:
  fixes s :: "'a proc_state_scheme"
  assumes "interleave\<^sup>*\<^sup>* (s, left_of (race c i ch lk W early) k) v" "race_inv c i ch lk W early k s" "c \<notin> W" "lk \<noteq> L_ptable"
  shows "\<exists>t k'. v = (t, left_of (race c i ch lk W early) k') \<and> race_inv c i ch lk W early k' t"
  using assms(1)
proof (induction rule: rtranclp_induct)
  case base
  then show ?case
    using assms(2) by blast
next
  case (step u v)
  then obtain t k' where u: "u = (t, left_of (race c i ch lk W early) k')" "race_inv c i ch lk W early k' t"
    by blast
  then obtain d a as w where a: "left_of (race c i ch lk W early) k' d = a # as" "a t = Ok w"
    "v = (w, (left_of (race c i ch lk W early) k')(d := as))"
    using step.hyps(2) by (blast elim: interleaveE)
  then show ?case
    using race_inv_act(1) [OF u(2) assms(3,4) a(1,2)] left_of_step [OF a(1)] by auto
qed

lemma race_start:
  assumes "lk \<noteq> L_ptable" "\<forall>d \<in> insert c W. cpu_at d s" "lock_idle L_ptable s" "i < length (ptable s)"
    "cpu_proc (the_cpu c s) = Some i" "holds c lk s" "ncli (the_cpu c s) = 1"
  shows "race_inv c i ch lk W early (\<lambda>_. 0) s"
proof -
  have "holders has_lk c W early (\<lambda>_. 0) = {c}" "holders has_pt c W early (\<lambda>_. 0) = {}"
    by (auto simp: holders_def phase_defs split: if_splits)
  moreover have "of_bool (has_lk (d = c) (early d) 0) + of_bool (has_pt (d = c) (early d) 0) \<le> ncli (the_cpu d s)"
    if "d \<in> insert c W" for d
    using that assms(2,7) by (auto simp: phase_defs cpu_at_def cpu_ok_def)
  ultimately show ?thesis
    using assms by (auto simp: race_inv_def lock_owned_def phase_defs split: if_splits)
qed

text \<open>Every interleaving can be completed, since each action is executed once.\<close>

lemma race_completes:
  fixes s :: "'a proc_state_scheme"
  assumes "race_inv c i ch lk W early k s" "c \<notin> W" "lk \<noteq> L_ptable" "finite W"
  shows "\<exists>t code. interleave\<^sup>*\<^sup>* (s, left_of (race c i ch lk W early) k) (t, code) \<and> (\<forall>d. code d = [])"
  using assms(1)
proof (induction "\<Sum>d \<in> insert c W. 5 - k d" arbitrary: k s rule: less_induct)
  case less
  let ?p = "race c i ch lk W early :: nat \<Rightarrow> ('a proc_state_scheme \<Rightarrow> 'a proc_state_scheme res) list"
  show ?case
  proof (cases "\<forall>d. left_of ?p k d = []")
    case False
    then obtain d a as t where a: "left_of ?p k d = a # as" "a s = Ok t"
      using race_progress [OF less.prems assms(2,3)] by (blast elim: interleaveE)
    have i: "interleave (s, left_of ?p k) (t, left_of ?p (k(d := Suc (k d))))"
      using Act [where code = "left_of ?p k", OF a] left_of_step [OF a(1)] by simp
    note d = race_inv_act [OF less.prems assms(2,3) a]
    have "(\<Sum>x \<in> insert c W. 5 - (k(d := Suc (k d))) x) < (\<Sum>x \<in> insert c W. 5 - k x)"
      by (rule sum_strict_mono_ex1) (use assms(4) d(2,3) in auto)
    from less.hyps [OF this d(1)] show ?thesis
      using i by (meson converse_rtranclp_into_rtranclp)
  qed blast
qed


text \<open>C5: No wakeup is lost. A process \<open>i\<close> runs on CPU \<open>c\<close>, holds the lock \<open>lk\<close> of a condition and no other, has found
  the condition false and calls \<^verbatim>\<open>sleep\<close>; any number of other CPUs are about to take \<open>lk\<close>, make the condition true and
  call \<^verbatim>\<open>wakeup\<close>, each with \<open>lk\<close> held or after giving it back. In every interleaving of the atomic actions of
  these routines, as soon as one waker is through, \<^verbatim>\<open>sleep\<close> has switched away from the process and the process is RUNNABLE again;
  once \<^verbatim>\<open>sleep\<close> has switched away, the process is SLEEPING on the channel or RUNNABLE. And the system never gets
  stuck: as long as some CPU has something left to do, some CPU can act, so that every interleaving ends, with the
  process RUNNABLE.\<close>

theorem no_lost_wakeup:
  assumes "lk \<noteq> L_ptable" "c \<notin> W" "\<forall>d \<in> insert c W. cpu_at d s" "lock_idle L_ptable s" "i < length (ptable s)"
    "cpu_proc (the_cpu c s) = Some i" "holds c lk s" "ncli (the_cpu c s) = 1"
    "interleave\<^sup>*\<^sup>* (s, race c i ch lk W early) (t, code)"
  shows "(\<forall>d \<in> W. code d = [] \<longrightarrow> code c = [] \<and> p_state (the_proc i t) = RUNNABLE)
    \<and> (code c = [] \<longrightarrow> p_state (the_proc i t) = RUNNABLE
        \<or> p_state (the_proc i t) = SLEEPING \<and> p_chan (the_proc i t) = Some ch)
    \<and> ((\<exists>d. code d \<noteq> []) \<longrightarrow> (\<exists>v. interleave (t, code) v))"
proof -
  obtain k where k: "code = left_of (race c i ch lk W early) k" "race_inv c i ch lk W early k t"
    using race_inv_steps [OF _ race_start [OF assms(1,3-8)] assms(2,1), of ch early "(t, code)"] assms(9) by (auto simp: left_of_0)
  have done_c: "k c = 5" if "code c = []"
    using that sleeper_inv(8) [OF k(2)] by (simp add: k(1) left_of_def race_length [OF assms(1)])
  have st: "if \<exists>d \<in> W. woke (early d) (k d) then p_state (the_proc i t) = RUNNABLE
      else p_state (the_proc i t) = SLEEPING \<and> p_chan (the_proc i t) = Some ch" if "k c = 5"
    using k(2) that unfolding race_inv_def by blast
  have "code c = [] \<and> p_state (the_proc i t) = RUNNABLE" if d: "d \<in> W" "code d = []" for d
  proof -
    have "5 \<le> k d"
      using d by (simp add: k(1) left_of_def race_length [OF assms(1)])
    then have w: "woke (early d) (k d)"
      by (simp add: woke_def)
    then have c: "k c = 5"
      using k(2) d(1) unfolding race_inv_def by blast
    have "\<exists>d \<in> W. woke (early d) (k d)"
      using w d(1) by blast
    with st [OF c] c show ?thesis
      by (simp add: k(1) left_of_def race_length [OF assms(1)])
  qed
  moreover have "\<exists>v. interleave (t, code) v" if "code d \<noteq> []" for d
    using race_progress [OF k(2) assms(2,1)] that by (simp add: k(1))
  ultimately show ?thesis
    using st done_c by (metis (no_types, lifting))
qed

text \<open>Two CPUs: a process on the first sleeps until the clock ticks, the second is the clock.\<close>

definition ticking :: proc_state where
  "ticking = boot0\<lparr>cpus := [idle_cpu0\<lparr>cpu_proc := Some 0, ncli := 1, eflags_IF := False\<rparr>, idle_cpu0],
     locks := (\<lambda>_. free_lock)(L_tickslock := free_lock\<lparr>locked := True, lk_cpu := Some 0\<rparr>),
     ptable := [proc0\<lparr>p_state := RUNNING, p_context := None\<rparr>, no_proc]\<rparr>"

theorem no_lost_wakeup_witness:
  "\<exists>t code. interleave\<^sup>*\<^sup>* (ticking, race 0 0 Chan_ticks L_tickslock {1} (\<lambda>_. False)) (t, code)
     \<and> code 1 = [] \<and> p_state (the_proc 0 t) = RUNNABLE"
proof -
  have h: "\<forall>d \<in> insert 0 {1}. cpu_at d ticking" "lock_idle L_ptable ticking" "0 < length (ptable ticking)"
    "cpu_proc (the_cpu 0 ticking) = Some 0" "holds 0 L_tickslock ticking" "ncli (the_cpu 0 ticking) = 1"
    by (simp_all add: ticking_def cpu_at_def cpu_ok_def idle_cpu0_def lock_idle_def free_lock_def holds_def)
  obtain t code where t: "interleave\<^sup>*\<^sup>* (ticking, race 0 0 Chan_ticks L_tickslock {1} (\<lambda>_. False)) (t, code)" "\<forall>d. code d = []"
    using race_completes [OF race_start [OF _ h, of Chan_ticks "\<lambda>_. False"]] by (auto simp: left_of_0)
  then show ?thesis
    using no_lost_wakeup [OF _ _ h t(1)] by auto
qed

end
