(* ===== verification/Spec2Isabelle.thy ===== *)
theory Spec2Isabelle
  imports Fairness PipeSpec LogTx SchedTest Grep ShellParse Console Boot VmCopy Umalloc Kmisc Wakeup
begin

text \<open>
  \<^bold>\<open>Verification of xv6 with a lottery scheduler.\<close>

  The program is the teaching kernel xv6 for a multiprocessor PC, with a scheduler that draws lots. The
  files in the root of the source tree replace those of the same name under \<^verbatim>\<open>xv6/\<close> (\<^verbatim>\<open>copy_files.sh\<close> does it)
  and add the random numbers (\<^verbatim>\<open>rand.c\<close>), three system calls (\<^verbatim>\<open>proc_info\<close>, \<^verbatim>\<open>assign_tickets\<close>,
  \<^verbatim>\<open>change_schedorder_flag\<close>), the programs \<^verbatim>\<open>ps\<close>, \<^verbatim>\<open>assign-tickets\<close> and \<^verbatim>\<open>sleep\<close>, and a test of the scheduler.

  \<^bold>\<open>Conventions.\<close> A C \<open>int\<close> is an \<open>int\<close> with its wrap-around written out (\<open>i32\<close>); \<open>uint\<close>, \<open>ushort\<close> and \<open>uchar\<close> are
  words of 32, 16 and 8 bits. A routine returns a value of \<open>'a res\<close>: \<open>Ok\<close>, \<open>Panic\<close> with the message of
  \<^verbatim>\<open>panic()\<close>, \<open>Spin\<close> (waiting for a lock or a loop out of fuel), \<open>Asleep\<close> (the process has given up the CPU
  inside the routine) or \<open>Fault\<close> (a trap of the processor, or an access that C does not define); \<open>bindr\<close> is
  sequencing. The state of the kernel is a chain of extensible records, each layer adding what its source
  files declare: \<open>mach\<close> (CPUs and spin locks), \<open>con_state\<close> (console output), \<open>kmem_state\<close> (memory and free pages),
  \<open>proc_state\<close> (process table), \<open>sleep_state\<close>, \<open>bio_state\<close> (buffers and disk), \<open>log_state\<close>, \<open>fs_state\<close> (inodes),
  \<open>dev_state\<close> (console input), \<open>file_state\<close> (open files and pipes). Every routine is polymorphic in the layers above
  its own. The first argument \<open>c\<close> is the CPU on which it runs. A routine that gives up the CPU in the middle
  (\<^verbatim>\<open>sleep\<close>, \<^verbatim>\<open>yield\<close>, \<^verbatim>\<open>exit\<close>) is split there: \<open>sched\<close> ends in the scheduler with the place to go on in the saved context
  of the process, and \<open>resume\<close> goes on from it.

  \<^bold>\<open>The theories.\<close>

  \<^item> \<open>Prelude\<close>: machine types, outcomes, lists updated at an index.
  \<^item> \<open>Rand\<close>: \<^verbatim>\<open>rand.c\<close>, the linear feedback shift register; a shift permutes the states, results lie below the limit.
  \<^item> \<open>Spinlock\<close>: \<^verbatim>\<open>spinlock.c\<close>; mutual exclusion over all interleavings.
  \<^item> \<open>Cprintf\<close>: \<^verbatim>\<open>printint\<close> and \<^verbatim>\<open>cprintf\<close> of \<^verbatim>\<open>console.c\<close>. \<open>CString\<close>: \<^verbatim>\<open>string.c\<close>.
    \<open>Kmisc\<close>: \<^verbatim>\<open>strlen\<close> and the call stack of \<^verbatim>\<open>getcallerpcs\<close>.
  \<^item> \<open>Kalloc\<close>: \<^verbatim>\<open>kalloc.c\<close> with the free list in the free pages; pages handed out are disjoint.
  \<^item> \<open>Vm\<close>, \<open>VmFrame\<close>: \<^verbatim>\<open>vm.c\<close>, page tables in memory, and what its routines leave alone. \<open>VmSpec\<close>: what a directory maps,
    as a function from addresses to entries; \<^verbatim>\<open>mappages\<close> and \<^verbatim>\<open>setupkvm\<close> on it. \<open>VmCopy\<close>: address spaces that own their
    frames; \<^verbatim>\<open>allocuvm\<close> extends one by zeroed pages, \<^verbatim>\<open>copyuvm\<close> makes a second one with the same contents.
  \<^item> \<open>Proc\<close>: \<^verbatim>\<open>proc.c\<close>; \<open>Lottery\<close>, \<open>Fairness\<close>: what the draw selects, over one round and over a cycle of the generator.
  \<^item> \<open>ProcInv\<close>, \<open>ProcSched\<close>, \<open>ProcSteps\<close>, \<open>ProcProps\<close>: the invariant of the process table, its preservation by every
    routine and through context switches, the kernel as a transition system of CPUs taking turns, and the
    properties of all reachable states, of waking, killing, exiting, assigning tickets. \<open>Wakeup\<close>: \<^verbatim>\<open>sleep\<close> and \<^verbatim>\<open>wakeup\<close> taken
    apart into atomic actions that CPUs interleave; no wakeup is lost, and nobody gets stuck.
  \<^item> \<open>Usermem\<close>: fetching system call arguments (\<^verbatim>\<open>syscall.c\<close>). \<open>Sleeplock\<close>: \<^verbatim>\<open>sleeplock.c\<close>.
  \<^item> \<open>Bio\<close>, \<open>BioSpec\<close>: \<^verbatim>\<open>bio.c\<close> over \<^verbatim>\<open>memide.c\<close>; the cache refines an array of blocks (locale \<open>block_array\<close>).
  \<^item> \<open>Log\<close>, \<open>LogSpec\<close>, \<open>LogTx\<close>: \<^verbatim>\<open>log.c\<close>; the sequence of disk writes of each routine, and atomicity of a
    transaction for a crash at any point of that sequence.
  \<^item> \<open>Inode\<close>, \<open>Fs\<close>: \<^verbatim>\<open>fs.c\<close>, with the input half of \<^verbatim>\<open>console.c\<close>; \<open>File\<close>: \<^verbatim>\<open>file.c\<close> and \<^verbatim>\<open>pipe.c\<close>; \<open>Sysfile\<close>:
    \<^verbatim>\<open>sysfile.c\<close>; \<open>Exec\<close>: \<^verbatim>\<open>exec.c\<close>. \<open>PipeSpec\<close>: a pipe refines a bounded queue of bytes, and delivers in order what
    was written over any sequence of writes and reads (locale \<open>byte_stream\<close>).
  \<^item> \<open>Life\<close>: first process, \<^verbatim>\<open>growproc\<close>, \<^verbatim>\<open>fork\<close>, \<^verbatim>\<open>exit\<close>; \<open>Sysproc\<close>: \<^verbatim>\<open>sysproc.c\<close>; \<open>Trap\<close>: the dispatcher of system calls and
    \<^verbatim>\<open>trap.c\<close>, for a kernel linked with either disk driver.
  \<^item> \<open>Device\<close>: \<^verbatim>\<open>kbd.c\<close>, \<^verbatim>\<open>uart.c\<close>, \<^verbatim>\<open>picirq.c\<close>, \<^verbatim>\<open>ioapic.c\<close>, \<^verbatim>\<open>lapic.c\<close> and the screen output of \<^verbatim>\<open>console.c\<close>, as programs
    of port and register accesses that run on any hardware. \<open>Console\<close>: what is written reaches the screen and the serial line.
    \<open>Ide\<close>: \<^verbatim>\<open>ide.c\<close>; the queue of requests refines transfers in their order, with the failed reads that the driver marks valid.
  \<^item> \<open>Boot\<close>: \<^verbatim>\<open>bootmain.c\<close>, \<^verbatim>\<open>mp.c\<close>, the descriptor tables of \<^verbatim>\<open>vm.c\<close> and \<^verbatim>\<open>trap.c\<close>, and \<^verbatim>\<open>main.c\<close>; loading puts the image in
    its place, and when the search for processors hangs.
  \<^item> \<open>Userlib\<close>, \<open>Utils\<close>, \<open>Grep\<close>, \<open>SchedTest\<close>, \<open>Shell\<close>, \<open>ShellParse\<close>: user programs as trees of system calls.
    \<open>Umalloc\<close>: \<^verbatim>\<open>umalloc.c\<close>; blocks and the circular list of free blocks partition the memory obtained from the kernel.

  \<^bold>\<open>Bounds and fuel.\<close> Loops over tables run over the indices of the table. Loops that C ends by a condition are
  \<open>function\<close>s with a termination proof, or carry a bound that the data cannot exceed (said where it is
  chosen, and \<open>Spin\<close> when it is used up); the fuel of the shell's parser is proved to suffice for
  every line. User programs that read until the kernel says stop carry fuel and go to \<open>Forever\<close>; the theorems
  on them give the fuel that is enough. The counter of pids is an \<open>int\<close> that overflows: the invariant of the process table
  has its part on pids (\<open>kinv True\<close>) only for runs in which \<^verbatim>\<open>nextpid\<close> stays below its largest value; the rest (\<open>kinv False\<close>)
  holds for all runs.

  \<^bold>\<open>Hardware.\<close> The devices are a parameter, a record of what a read or write of a port or register does to them. The
  theorems on the drivers assume of it what the standards say (\<open>display\<close> in \<open>Console\<close>, \<open>ata\<close> in \<open>Ide\<close>): a device that is
  busy takes no data, and the driver has to read its status until it is ready; a disk may report an error. Of the disk it is
  also assumed that writes succeed and that the data of a write are taken right after the command (\<open>takes_data\<close>), since the
  driver does not poll there. The witnesses give devices that satisfy all this and are busy for some time.

  \<^bold>\<open>Not modelled.\<close> The assembly files (\<^verbatim>\<open>bootasm.S\<close>, \<^verbatim>\<open>entry.S\<close>, \<^verbatim>\<open>entryother.S\<close>, \<^verbatim>\<open>initcode.S\<close>, \<^verbatim>\<open>swtch.S\<close>, \<^verbatim>\<open>trapasm.S\<close>,
  \<^verbatim>\<open>usys.S\<close>): the context switch is represented by the saved context, a system call by the call itself. Loading of processor
  registers other than the interrupt flag. The field of a lock that keeps the call stack for debugging.
  The program \<^verbatim>\<open>mkfs.c\<close>, which runs on the host that builds the disk, and the tests of \<^verbatim>\<open>usertests.c\<close>. The files
  under \<^verbatim>\<open>xv6/\<close> that the root of the tree replaces are not part of the program.
\<close>

end
